(* ===== verification/Prelude.thy ===== *)
theory Prelude
  imports Main "HOL-Library.Code_Target_Nat" "HOL-Library.Word" "HOL-Library.Multiset"
begin

unbundle bit_operations_syntax

section \<open>Shared types, constants and list lemmas\<close>

text \<open>
  The identifier types of \<open>compiler/support/include/aegis/support/Primitives.hpp\<close> (32-bit
  indices, kept here as \<open>nat\<close> with every narrowing cast written out as \<open>u32\<close>), their
  sentinels, the bit mask operations of \<open>Flags.hpp\<close>, and the lemmas on lists, counts
  and array updates that the component theories share.
\<close>

named_theorems list_count_simps \<open>how a list operation changes the number of occurrences\<close>

subsection \<open>Identifiers and casts\<close>

type_synonym node_id = nat
type_synonym symbol_id = nat
type_synonym type_id = nat
type_synonym u32 = "32 word"
type_synonym i64 = "64 word"

definition u32 :: "nat \<Rightarrow> nat" where
  "u32 n = n mod 4294967296"

definition kInvalidNodeId :: node_id where
  "kInvalidNodeId = 4294967295"

definition kInvalidSymbolId :: symbol_id where
  "kInvalidSymbolId = 4294967295"

definition kInvalidTypeId :: type_id where
  "kInvalidTypeId = 4294967295"

definition kStartNodeId :: node_id where
  "kStartNodeId = 0"

lemma u32_small [simp]: "n < 4294967296 \<Longrightarrow> u32 n = n"
  by (simp add: u32_def)

lemma u32_bound: "u32 n < 4294967296"
  by (simp add: u32_def)

subsection \<open>Flags: bit masks over an unsigned underlying type\<close>

definition flags_has :: "'a::len word \<Rightarrow> 'a word \<Rightarrow> bool" where
  "flags_has f b \<longleftrightarrow> f AND b \<noteq> 0"

definition flags_has_all :: "'a::len word \<Rightarrow> 'a word \<Rightarrow> bool" where
  "flags_has_all f m \<longleftrightarrow> f AND m = m"

definition flags_set :: "'a::len word \<Rightarrow> 'a word \<Rightarrow> 'a word" where
  "flags_set f b = f OR b"

definition flags_clear :: "'a::len word \<Rightarrow> 'a word \<Rightarrow> 'a word" where
  "flags_clear f b = f AND NOT b"

definition flags_toggle :: "'a::len word \<Rightarrow> 'a word \<Rightarrow> 'a word" where
  "flags_toggle f b = f XOR b"

lemma flags_has_bit: "flags_has f (push_bit i 1) \<longleftrightarrow> bit f i" for f :: "'a::len word"
  unfolding flags_has_def
  by (metis and.commute and_exp_eq_0_iff_not_bit push_bit_of_1)

lemma flags_has_set_bit:
  fixes f :: "'a::len word"
  assumes "j < LENGTH('a)"
  shows "flags_has (flags_set f (push_bit j 1)) (push_bit i 1) \<longleftrightarrow> i = j \<or> flags_has f (push_bit i 1)"
  unfolding flags_has_bit flags_set_def using assms
  by (auto simp: bit_or_iff bit_exp_iff)

lemma flags_has_clear_bit:
  fixes f :: "'a::len word"
  shows "flags_has (flags_clear f (push_bit j 1)) (push_bit i 1) \<longleftrightarrow> i \<noteq> j \<and> flags_has f (push_bit i 1)"
  unfolding flags_has_bit flags_clear_def
  by (auto simp: bit_and_iff bit_not_iff bit_exp_iff dest: bit_imp_le_length)

subsection \<open>Counting occurrences\<close>

lemma count_list_mset: "count_list xs a = count (mset xs) a"
  by (induction xs) auto

lemma count_list_append1 [list_count_simps]:
  "count_list (xs @ [y]) a = count_list xs a + (if y = a then 1 else 0)"
  by simp

lemma count_list_list_update [list_count_simps]:
  "i < length xs \<Longrightarrow> count_list (xs[i := y]) a + (if xs ! i = a then 1 else 0)
       = count_list xs a + (if y = a then 1 else 0)"
proof (induction xs arbitrary: i)
  case (Cons x xs)
  show ?case
  proof (cases i)
    case (Suc k)
    with Cons.prems Cons.IH [of k] show ?thesis by (auto split: if_splits)
  qed simp
qed simp

lemma count_list_pos_iff: "0 < count_list xs a \<longleftrightarrow> a \<in> set xs"
  by (metis count_list_0_iff gr0I less_irrefl)

subsection \<open>Removal by moving the last element into the hole\<close>

definition swap_remove :: "'a list \<Rightarrow> nat \<Rightarrow> 'a list" where
  "swap_remove xs i = butlast (xs[i := last xs])"

lemma mset_swap_remove:
  assumes "i < length xs"
  shows "mset (swap_remove xs i) = mset xs - {#xs ! i#}"
proof -
  from assms obtain ys l where xs: "xs = ys @ [l]" by (metis list.size(3) not_less_zero rev_exhaust)
  show ?thesis
  proof (cases "i = length ys")
    case True
    with xs show ?thesis by (simp add: swap_remove_def)
  next
    case False
    with assms xs have "i < length ys" by simp
    then show ?thesis using xs
      by (simp add: swap_remove_def list_update_append mset_update nth_append add_mset_diff_bothsides)
  qed
qed

lemma set_swap_remove:
  assumes "distinct xs" and "i < length xs"
  shows "set (swap_remove xs i) = set xs - {xs ! i}"
proof -
  have "set (swap_remove xs i) = set_mset (mset xs - {#xs ! i#})"
    using mset_swap_remove [OF assms(2)] by (metis set_mset_mset)
  also have "\<dots> = set xs - {xs ! i}"
    using assms by (auto simp: in_diff_count distinct_count_atmost_1 dest: in_diffD split: if_splits)
  finally show ?thesis .
qed

lemma length_swap_remove [simp]: "length (swap_remove xs i) = length xs - 1"
  by (simp add: swap_remove_def)

lemma nth_swap_remove:
  "i < length xs \<Longrightarrow> j < length xs - 1 \<Longrightarrow>
   swap_remove xs i ! j = (if j = i then last xs else xs ! j)"
  by (simp add: swap_remove_def nth_butlast)

lemma nth_list_update_if:
  "i < length xs \<Longrightarrow> xs[i := y] ! j = (if j = i then y else xs ! j)"
  by simp

end
