(* ===== verification/IdSets.thy ===== *)
theory IdSets
  imports Prelude
begin

section \<open>The interface of a set of ids, and worklist marking over it\<close>

text \<open>
  The passes keep "visited" and "live" sets in a \<open>SparseSet\<close>, a \<open>BitVector\<close> or a byte
  vector, and mark what is reachable with a worklist. The locale states what those sets
  promise; the marking loop is defined once, over the two operations it calls, and proved
  here to terminate with exactly the reachable ids. Each container interprets the locale.
\<close>

text \<open>
  The inner \<open>for\<close> loop of the marking passes: every successor that is not yet in the set
  is inserted and pushed on the worklist.
\<close>

fun push_new :: "(nat \<Rightarrow> 's \<Rightarrow> 's option) \<Rightarrow> ('s \<Rightarrow> nat \<Rightarrow> bool option) \<Rightarrow> nat list
    \<Rightarrow> nat list \<Rightarrow> 's \<Rightarrow> (nat list \<times> 's) option" where
  "push_new ins mem [] wl s = Some (wl, s)"
| "push_new ins mem (v # vs) wl s =
     (case mem s v of
        None \<Rightarrow> None
      | Some True \<Rightarrow> push_new ins mem vs wl s
      | Some False \<Rightarrow> (case ins v s of None \<Rightarrow> None | Some s' \<Rightarrow> push_new ins mem vs (wl @ [v]) s'))"

text \<open>The outer loop: \<open>while (!worklist.empty())\<close>, taking the last element.\<close>

partial_function (option) mark_reach :: "(nat \<Rightarrow> 's \<Rightarrow> 's option) \<Rightarrow> ('s \<Rightarrow> nat \<Rightarrow> bool option)
    \<Rightarrow> (nat \<Rightarrow> nat list) \<Rightarrow> nat list \<Rightarrow> 's \<Rightarrow> 's option" where
  "mark_reach ins mem succs wl s =
     (if wl = [] then Some s
      else Option.bind (push_new ins mem (succs (last wl)) (butlast wl) s)
             (\<lambda>p. mark_reach ins mem succs (fst p) (snd p)))"

declare mark_reach.simps [code]

definition succ_rel :: "(nat \<Rightarrow> nat list) \<Rightarrow> (nat \<times> nat) set" where
  "succ_rel succs = {(u, v). v \<in> set (succs u)}"

lemma closed_reach: "A \<subseteq> B \<Longrightarrow> (\<And>u. u \<in> B \<Longrightarrow> set (succs u) \<subseteq> B) \<Longrightarrow> (succ_rel succs)\<^sup>* `` A \<subseteq> B"
proof
  fix v assume *: "A \<subseteq> B" "\<And>u. u \<in> B \<Longrightarrow> set (succs u) \<subseteq> B" and "v \<in> (succ_rel succs)\<^sup>* `` A"
  then obtain u where "u \<in> A" "(u, v) \<in> (succ_rel succs)\<^sup>*" by auto
  from this(2,1) * show "v \<in> B"
    by (induction rule: rtrancl_induct) (auto simp: succ_rel_def)
qed

locale id_set =
  fixes inv :: "'s \<Rightarrow> bool"
    and abs :: "'s \<Rightarrow> nat set"
    and univ :: "'s \<Rightarrow> nat"
    and ins :: "nat \<Rightarrow> 's \<Rightarrow> 's option"
    and mem :: "'s \<Rightarrow> nat \<Rightarrow> bool option"
  assumes abs_univ: "inv s \<Longrightarrow> abs s \<subseteq> {..<univ s}"
    and ins_ok: "inv s \<Longrightarrow> v < univ s \<Longrightarrow>
      \<exists>s'. ins v s = Some s' \<and> inv s' \<and> univ s' = univ s \<and> abs s' = insert v (abs s)"
    and mem_ok: "inv s \<Longrightarrow> v < univ s \<Longrightarrow> mem s v = Some (v \<in> abs s)"
begin

lemma push_new_ok:
  assumes "inv s" and "\<forall>v \<in> set vs. v < univ s"
  shows "\<exists>new s'. push_new ins mem vs wl s = Some (wl @ new, s') \<and> inv s' \<and> univ s' = univ s
    \<and> abs s' = abs s \<union> set vs \<and> set new = set vs - abs s \<and> distinct new"
  using assms
proof (induction vs arbitrary: s wl)
  case (Cons v vs)
  show ?case
  proof (cases "v \<in> abs s")
    case True
    with Cons mem_ok [of s v] show ?thesis by (fastforce simp: insert_absorb)
  next
    case False
    with Cons.prems obtain s1 where s1: "ins v s = Some s1" "inv s1" "univ s1 = univ s"
      "abs s1 = insert v (abs s)" using ins_ok [of s v] by auto
    with Cons.IH [of s1 "wl @ [v]"] Cons.prems obtain new s' where
      r: "push_new ins mem vs (wl @ [v]) s1 = Some ((wl @ [v]) @ new, s')" "inv s'" "univ s' = univ s"
      "abs s' = insert v (abs s) \<union> set vs" "set new = set vs - insert v (abs s)" "distinct new" by auto
    then have "push_new ins mem (v # vs) wl s = Some (wl @ (v # new), s')"
      using False Cons.prems mem_ok [of s v] s1 by simp
    with r False show ?thesis by (intro exI [of _ "v # new"] exI [of _ s']) auto
  qed
qed auto

lemma mark_reach_ok:
  assumes "inv s" and "set wl \<subseteq> abs s"
    and "\<And>u. u < univ s \<Longrightarrow> set (succs u) \<subseteq> {..<univ s}"
    and "\<And>u. u \<in> abs s - set wl \<Longrightarrow> set (succs u) \<subseteq> abs s"
  shows "\<exists>s'. mark_reach ins mem succs wl s = Some s' \<and> inv s' \<and> univ s' = univ s
    \<and> abs s' = (succ_rel succs)\<^sup>* `` abs s"
  using assms
proof (induction "(univ s - card (abs s), length wl)" arbitrary: s wl
    rule: wf_induct_rule [OF wf_lex_prod [OF wf_less_than wf_less_than]])
  case 1
  note inv = \<open>inv s\<close> and range = \<open>\<And>u. u < univ s \<Longrightarrow> set (succs u) \<subseteq> {..<univ s}\<close>
  show ?case
  proof (cases "wl = []")
    case True
    have "(succ_rel succs)\<^sup>* `` abs s = abs s"
      using closed_reach [of "abs s" "abs s" succs] 1(5) True by auto
    with inv True show ?thesis by (simp add: mark_reach.simps)
  next
    case False
    let ?u = "last wl" and ?w = "butlast wl"
    have wl: "wl = ?w @ [?u]" using False by simp
    have u: "?u \<in> abs s" using False 1(3) by (meson last_in_set subsetD)
    then have ul: "?u < univ s" using abs_univ [OF inv] by auto
    obtain new s1 where p: "push_new ins mem (succs ?u) ?w s = Some (?w @ new, s1)"
      and s1: "inv s1" "univ s1 = univ s" "abs s1 = abs s \<union> set (succs ?u)"
      "set new = set (succs ?u) - abs s" "distinct new"
      using push_new_ok [OF inv] range [OF ul] by (metis lessThan_iff subsetD)
    have step: "mark_reach ins mem succs wl s = mark_reach ins mem succs (?w @ new) s1"
      using False p by (subst mark_reach.simps) simp
    have fin: "finite (abs s1)" using abs_univ [OF s1(1)] finite_subset by blast
    have "((univ s1 - card (abs s1), length (?w @ new)), (univ s - card (abs s), length wl)) \<in> less_than <*lex*> less_than"
    proof (cases "new = []")
      case True
      with s1 have "abs s1 = abs s" by auto
      with True s1 False show ?thesis by auto
    next
      case nonempty: False
      then have "abs s \<subset> abs s1" using s1 by (metis DiffD1 DiffD2 Un_iff last_in_set psubsetI sup_ge1)
      then have "card (abs s) < card (abs s1)" using fin by (rule psubset_card_mono [rotated])
      moreover have "card (abs s1) \<le> univ s1"
        using abs_univ [OF s1(1)] by (metis card_lessThan card_mono finite_lessThan)
      ultimately have "univ s1 - card (abs s1) < univ s - card (abs s)"
        unfolding s1(2) by linarith
      then show ?thesis by simp
    qed
    moreover have "set (?w @ new) \<subseteq> abs s1"
      using 1(3) s1 by (auto dest: in_set_butlastD)
    moreover have "set (succs v) \<subseteq> abs s1" if v: "v \<in> abs s1 - set (?w @ new)" for v
    proof (cases "v = ?u")
      case False
      with v s1 have "v \<in> abs s - set wl" by (subst wl) auto
      with 1(5) s1 show ?thesis by blast
    qed (use s1 in auto)
    ultimately obtain s' where s': "mark_reach ins mem succs (?w @ new) s1 = Some s'" "inv s'"
      "univ s' = univ s1" "abs s' = (succ_rel succs)\<^sup>* `` abs s1"
      using 1(1) [of s1 "?w @ new"] s1 range by (metis (no_types, lifting))
    have "(succ_rel succs)\<^sup>* `` abs s1 = (succ_rel succs)\<^sup>* `` abs s"
      using u by (auto simp: s1 Image_Un succ_rel_def intro: converse_rtrancl_into_rtrancl)
    with s' s1 step show ?thesis by simp
  qed
qed

end

end
