(* ===== verification/SparseSets.thy ===== *)
theory SparseSets
  imports IdSets
begin

section \<open>SparseSet: constant-time set of dense ids\<close>

text \<open>
  \<open>compiler/support/include/aegis/support/SparseSet.hpp\<close>: a dense array of members and
  a sparse array of (index, epoch) entries; an entry counts only while its epoch is the
  current one, so \<open>clear\<close> bumps the epoch. Operations whose precondition the code states
  as \<open>[[assume]]\<close> return \<open>None\<close> where it is violated (undefined behaviour).
\<close>

record sparse_entry =
  se_idx :: nat
  se_epoch :: nat

record sparse_set =
  ss_sparse :: "sparse_entry list"
  ss_dense :: "nat list"
  ss_epoch :: nat

definition kSentinel :: nat where
  "kSentinel = 4294967295"

definition ss_resize :: "nat \<Rightarrow> sparse_set" where
  "ss_resize n = \<lparr>ss_sparse = replicate n \<lparr>se_idx = kSentinel, se_epoch = 0\<rparr>, ss_dense = [], ss_epoch = 1\<rparr>"

definition ss_insert :: "nat \<Rightarrow> sparse_set \<Rightarrow> (sparse_set \<times> bool) option" where
  "ss_insert v s =
     (if v < length (ss_sparse s) then
        let e = ss_sparse s ! v in
        if se_epoch e = ss_epoch s \<and> se_idx e \<noteq> kSentinel then Some (s, False)
        else Some (s\<lparr>ss_sparse := (ss_sparse s)[v := \<lparr>se_idx = u32 (length (ss_dense s)), se_epoch = ss_epoch s\<rparr>],
                     ss_dense := ss_dense s @ [v]\<rparr>, True)
      else None)"

definition ss_contains :: "sparse_set \<Rightarrow> nat \<Rightarrow> bool" where
  "ss_contains s v =
     (if v \<ge> length (ss_sparse s) then False
      else (let e = ss_sparse s ! v in se_epoch e = ss_epoch s \<and> se_idx e \<noteq> kSentinel))"

definition ss_erase :: "nat \<Rightarrow> sparse_set \<Rightarrow> sparse_set \<times> bool" where
  "ss_erase v s =
     (if \<not> ss_contains s v then (s, False)
      else
        let idx = se_idx (ss_sparse s ! v);
            lst = last (ss_dense s);
            sparse1 = (ss_sparse s)[lst := (ss_sparse s ! lst)\<lparr>se_idx := idx\<rparr>];
            dense2 = swap_remove (ss_dense s) idx;
            sparse2 = sparse1[v := \<lparr>se_idx = kSentinel, se_epoch = 0\<rparr>]
        in (s\<lparr>ss_sparse := sparse2, ss_dense := dense2\<rparr>, True))"

definition ss_clear :: "sparse_set \<Rightarrow> sparse_set" where
  "ss_clear s =
     (let ep = u32 (ss_epoch s + 1) in
      if ep = 0 then
        s\<lparr>ss_epoch := 1, ss_dense := [],
          ss_sparse := map (\<lambda>e. \<lparr>se_idx = kSentinel, se_epoch = 0\<rparr>) (ss_sparse s)\<rparr>
      else s\<lparr>ss_epoch := ep, ss_dense := []\<rparr>)"

subsection \<open>Invariant and abstraction\<close>

definition ss_abs :: "sparse_set \<Rightarrow> nat set" where
  "ss_abs s = set (ss_dense s)"

definition ss_inv :: "sparse_set \<Rightarrow> bool" where
  "ss_inv s \<longleftrightarrow>
     length (ss_sparse s) \<le> kSentinel \<and> 0 < ss_epoch s \<and> ss_epoch s < 4294967296 \<and>
     length (ss_dense s) \<le> length (ss_sparse s) \<and>
     (\<forall>i < length (ss_dense s). ss_dense s ! i < length (ss_sparse s) \<and>
        ss_sparse s ! (ss_dense s ! i) = \<lparr>se_idx = i, se_epoch = ss_epoch s\<rparr>) \<and>
     (\<forall>v < length (ss_sparse s). se_epoch (ss_sparse s ! v) \<le> ss_epoch s \<and>
        (ss_contains s v \<longrightarrow> se_idx (ss_sparse s ! v) < length (ss_dense s) \<and>
           ss_dense s ! se_idx (ss_sparse s ! v) = v))"

lemma ss_inv_distinct: "ss_inv s \<Longrightarrow> distinct (ss_dense s)"
  unfolding ss_inv_def distinct_conv_nth
  by (metis sparse_entry.ext_inject)

lemma ss_inv_resize: "n \<le> kSentinel \<Longrightarrow> ss_inv (ss_resize n)"
  by (auto simp: ss_inv_def ss_resize_def ss_contains_def)

lemma ss_contains_abs: "ss_inv s \<Longrightarrow> ss_contains s v \<longleftrightarrow> v \<in> ss_abs s"
proof
  assume inv: "ss_inv s" and c: "ss_contains s v"
  then have "v < length (ss_sparse s)" by (auto simp: ss_contains_def split: if_splits)
  with inv c show "v \<in> ss_abs s" unfolding ss_inv_def ss_abs_def by (metis nth_mem)
next
  assume inv: "ss_inv s" and "v \<in> ss_abs s"
  then obtain i where i: "i < length (ss_dense s)" "ss_dense s ! i = v"
    by (auto simp: ss_abs_def in_set_conv_nth)
  with inv have "v < length (ss_sparse s)" "ss_sparse s ! v = \<lparr>se_idx = i, se_epoch = ss_epoch s\<rparr>"
    "i < kSentinel"
    unfolding ss_inv_def by auto
  then show "ss_contains s v" by (auto simp: ss_contains_def Let_def)
qed

lemma ss_dense_room:
  assumes "ss_inv s" "v < length (ss_sparse s)" "v \<notin> ss_abs s"
  shows "length (ss_dense s) < length (ss_sparse s)"
proof -
  have "insert v (set (ss_dense s)) \<subseteq> {..<length (ss_sparse s)}"
    using assms by (auto simp: ss_inv_def in_set_conv_nth)
  then have "card (insert v (set (ss_dense s))) \<le> length (ss_sparse s)"
    by (metis card_lessThan card_mono finite_lessThan)
  with assms ss_inv_distinct [OF assms(1)] show ?thesis
    by (simp add: distinct_card ss_abs_def)
qed

lemma ss_insert_spec:
  assumes inv: "ss_inv s" and v: "v < length (ss_sparse s)"
  shows "\<exists>s'. ss_insert v s = Some (s', v \<notin> ss_abs s) \<and> ss_inv s' \<and> ss_abs s' = insert v (ss_abs s)
           \<and> length (ss_sparse s') = length (ss_sparse s)"
proof (cases "v \<in> ss_abs s")
  case True
  with inv v have "ss_contains s v" by (simp add: ss_contains_abs)
  with v True inv show ?thesis
    by (auto simp: ss_insert_def ss_contains_def Let_def insert_absorb)
next
  case False
  with inv v have nc: "\<not> ss_contains s v" by (simp add: ss_contains_abs)
  have room: "length (ss_dense s) < length (ss_sparse s)" using ss_dense_room inv v False .
  with inv have small: "u32 (length (ss_dense s)) = length (ss_dense s)" "length (ss_dense s) < kSentinel"
    by (auto simp: ss_inv_def kSentinel_def)
  let ?s = "s\<lparr>ss_sparse := (ss_sparse s)[v := \<lparr>se_idx = length (ss_dense s), se_epoch = ss_epoch s\<rparr>],
              ss_dense := ss_dense s @ [v]\<rparr>"
  have ins: "ss_insert v s = Some (?s, True)"
    using nc v small by (auto simp: ss_insert_def ss_contains_def Let_def)
  have neq: "ss_dense s ! i \<noteq> v" if "i < length (ss_dense s)" for i
    using False that by (auto simp: ss_abs_def)
  have "ss_inv ?s"
    using inv v room small neq
    by (auto simp: ss_inv_def nth_append ss_contains_def Let_def nth_list_update split: if_splits)
  with ins False show ?thesis by (auto simp: ss_abs_def)
qed

lemma ss_clear_spec:
  assumes "ss_inv s"
  shows "ss_inv (ss_clear s) \<and> ss_abs (ss_clear s) = {}
    \<and> length (ss_sparse (ss_clear s)) = length (ss_sparse s)"
proof (cases "u32 (ss_epoch s + 1) = 0")
  case True
  with assms show ?thesis
    by (auto simp: ss_clear_def ss_inv_def ss_abs_def ss_contains_def Let_def)
next
  case False
  then have "ss_epoch s + 1 \<noteq> 4294967296" by (metis u32_def mod_self)
  with assms have "ss_epoch s + 1 < 4294967296" by (auto simp: ss_inv_def)
  with assms show ?thesis
    by (force simp: ss_clear_def ss_inv_def ss_abs_def ss_contains_def Let_def)
qed

lemma ss_erase_spec:
  assumes inv: "ss_inv s"
  shows "\<exists>s'. ss_erase v s = (s', v \<in> ss_abs s) \<and> ss_inv s' \<and> ss_abs s' = ss_abs s - {v}
           \<and> length (ss_sparse s') = length (ss_sparse s)"
proof (cases "v \<in> ss_abs s")
  case False
  with inv show ?thesis by (auto simp: ss_erase_def ss_contains_abs)
next
  case True
  let ?i = "se_idx (ss_sparse s ! v)" and ?d = "ss_dense s" and ?sp = "ss_sparse s"
  from True inv have c: "ss_contains s v" by (simp add: ss_contains_abs)
  then have v: "v < length ?sp" and ev: "se_epoch (?sp ! v) = ss_epoch s" 
    by (auto simp: ss_contains_def Let_def split: if_splits)
  with inv c have i: "?i < length ?d" "?d ! ?i = v" by (auto simp: ss_inv_def)
  then have ne: "?d \<noteq> []" by auto
  define l where "l = last ?d"
  have ll: "?d ! (length ?d - 1) = l" using ne by (simp add: l_def last_conv_nth)
  have lin: "l < length ?sp" "?sp ! l = \<lparr>se_idx = length ?d - 1, se_epoch = ss_epoch s\<rparr>"
    using inv ne ll by (auto simp: ss_inv_def)
  let ?d' = "swap_remove ?d ?i"
  let ?sp' = "(?sp[l := (?sp ! l)\<lparr>se_idx := ?i\<rparr>])[v := \<lparr>se_idx = kSentinel, se_epoch = 0\<rparr>]"
  let ?s' = "s\<lparr>ss_sparse := ?sp', ss_dense := ?d'\<rparr>"
  have er: "ss_erase v s = (?s', True)"
    using c by (simp add: ss_erase_def Let_def l_def)
  have dn: "?d' ! j = (if j = ?i then l else ?d ! j)" if "j < length ?d - 1" for j
    using that i by (simp add: nth_swap_remove l_def)
  have setd: "set ?d' = set ?d - {v}"
    using set_swap_remove [OF ss_inv_distinct [OF inv] i(1)] i(2) by simp
  have lastd: "length ?d - 1 < length ?d" using ne by (cases ?d) auto
  have inj: "j = k" if "j < length ?d" "k < length ?d" "?d ! j = ?d ! k" for j k
    using that ss_inv_distinct [OF inv] by (simp add: nth_eq_iff_index_eq)
  have dns: "?d ! j < length ?sp \<and> ?sp ! (?d ! j) = \<lparr>se_idx = j, se_epoch = ss_epoch s\<rparr>" if "j < length ?d" for j
    using inv that by (auto simp: ss_inv_def)
  have A: "?d' ! j < length ?sp \<and> ?sp' ! (?d' ! j) = \<lparr>se_idx = j, se_epoch = ss_epoch s\<rparr>"
    if j: "j < length ?d - 1" for j
  proof (cases "j = ?i")
    case True
    have "l \<noteq> v" using inj [OF lastd i(1)] i ll j True by auto
    with True j dn [OF j] lin v show ?thesis by simp
  next
    case False
    from j have jl: "j < length ?d" by linarith
    have "?d ! j \<noteq> l" "?d ! j \<noteq> v"
      using inj [OF jl lastd] inj [OF jl i(1)] j ll i False by auto
    with False dn [OF j] dns [OF jl] j show ?thesis by simp
  qed
  have B: "?d' ! se_idx (?sp' ! w) = w \<and> se_idx (?sp' ! w) < length ?d - 1"
    if w: "w < length ?sp" "ss_contains ?s' w" for w
  proof -
    have wv: "w \<noteq> v" using w v by (auto simp: ss_contains_def Let_def)
    show ?thesis
    proof (cases "w = l")
      case True
      have "?i \<noteq> length ?d - 1" using True wv ll i by auto
      with True wv lin i dn [of ?i] show ?thesis by auto
    next
      case False
      then have wc: "ss_contains s w" and sw: "?sp' ! w = ?sp ! w"
        using w wv by (auto simp: ss_contains_def Let_def)
      then have r: "se_idx (?sp ! w) < length ?d" "?d ! se_idx (?sp ! w) = w"
        using inv w by (auto simp: ss_inv_def)
      then have "se_idx (?sp ! w) \<noteq> length ?d - 1" "se_idx (?sp ! w) \<noteq> ?i"
        using False ll i wv by auto
      with r sw dn [of "se_idx (?sp ! w)"] show ?thesis by auto
    qed
  qed
  have "se_epoch (?sp' ! w) \<le> ss_epoch s" if "w < length ?sp" for w
    using inv that lin v by (auto simp: ss_inv_def nth_list_update)
  moreover have "length ?d - 1 \<le> length ?sp" using inv by (auto simp: ss_inv_def)
  ultimately have "ss_inv ?s'"
    using A B inv by (simp add: ss_inv_def)
  with er True setd show ?thesis by (auto simp: ss_abs_def)
qed

interpretation ss: id_set ss_inv ss_abs "\<lambda>s. length (ss_sparse s)" "\<lambda>v s. map_option fst (ss_insert v s)"
  "\<lambda>s v. Some (ss_contains s v)"
proof
  show "ss_inv s \<Longrightarrow> ss_abs s \<subseteq> {..<length (ss_sparse s)}" for s
    by (auto simp: ss_abs_def ss_inv_def in_set_conv_nth)
  show "ss_inv s \<Longrightarrow> v < length (ss_sparse s) \<Longrightarrow> \<exists>s'. map_option fst (ss_insert v s) = Some s' \<and> ss_inv s' \<and>
      length (ss_sparse s') = length (ss_sparse s) \<and> ss_abs s' = insert v (ss_abs s)" for s v
    using ss_insert_spec [of s v] by fastforce
qed (simp add: ss_contains_abs)

subsection \<open>Every sequence of operations behaves as the same sequence on a set\<close>

datatype set_op = Insert nat | Erase nat | Contains nat | Clear

fun ss_step :: "set_op \<Rightarrow> sparse_set \<Rightarrow> (sparse_set \<times> bool) option" where
  "ss_step (Insert v) s = ss_insert v s"
| "ss_step (Erase v) s = Some (ss_erase v s)"
| "ss_step (Contains v) s = Some (s, ss_contains s v)"
| "ss_step Clear s = Some (ss_clear s, True)"

fun set_step :: "set_op \<Rightarrow> nat set \<Rightarrow> nat set \<times> bool" where
  "set_step (Insert v) A = (insert v A, v \<notin> A)"
| "set_step (Erase v) A = (A - {v}, v \<in> A)"
| "set_step (Contains v) A = (A, v \<in> A)"
| "set_step Clear A = ({}, True)"

fun ss_run :: "set_op list \<Rightarrow> sparse_set \<Rightarrow> (sparse_set \<times> bool list) option" where
  "ss_run [] s = Some (s, [])"
| "ss_run (p # ps) s =
     (case ss_step p s of None \<Rightarrow> None
      | Some (s', b) \<Rightarrow> map_option (\<lambda>(t, bs). (t, b # bs)) (ss_run ps s'))"

fun set_run :: "set_op list \<Rightarrow> nat set \<Rightarrow> nat set \<times> bool list" where
  "set_run [] A = (A, [])"
| "set_run (p # ps) A =
     (let (A', b) = set_step p A; (B, bs) = set_run ps A' in (B, b # bs))"

fun op_in_universe :: "nat \<Rightarrow> set_op \<Rightarrow> bool" where
  "op_in_universe n (Insert v) = (v < n)"
| "op_in_universe n _ = True"

lemma ss_step_spec:
  assumes "ss_inv s" and "op_in_universe (length (ss_sparse s)) p"
  shows "\<exists>s' b. ss_step p s = Some (s', b) \<and> ss_inv s' \<and>
           length (ss_sparse s') = length (ss_sparse s) \<and> set_step p (ss_abs s) = (ss_abs s', b)"
proof (cases p)
  case (Insert v)
  with assms ss_insert_spec [of s v] show ?thesis by fastforce
next
  case (Erase v)
  with assms ss_erase_spec [of s v] show ?thesis by fastforce
qed (use assms ss_clear_spec [of s] in \<open>auto simp: ss_contains_abs\<close>)

lemma ss_run_spec:
  assumes "ss_inv s" and "\<forall>p \<in> set ps. op_in_universe (length (ss_sparse s)) p"
  shows "\<exists>s' bs. ss_run ps s = Some (s', bs) \<and> ss_inv s' \<and> set_run ps (ss_abs s) = (ss_abs s', bs)"
  using assms
proof (induction ps arbitrary: s)
  case (Cons p ps)
  then obtain s' b where "ss_step p s = Some (s', b)" "ss_inv s'"
    "length (ss_sparse s') = length (ss_sparse s)" "set_step p (ss_abs s) = (ss_abs s', b)"
    using ss_step_spec [of s p] by auto
  with Cons.IH [of s'] Cons.prems show ?case by auto
qed auto

text \<open>
  C31. Refinement of \<open>SparseSet\<close>: starting from a fresh set over the universe \<open>[0, n)\<close>, every
  sequence of inserts, erases, membership tests and clears (with the inserts inside the
  universe, as the code assumes) runs without undefined behaviour, returns exactly the
  booleans that the same sequence returns on a mathematical set, and leaves exactly that
  set in the dense array; this includes the epoch wrap-around in \<open>clear\<close>.
\<close>

theorem ss_run_refines:
  assumes "n \<le> kSentinel" and "\<forall>p \<in> set ps. op_in_universe n p"
  shows "\<exists>s bs. ss_run ps (ss_resize n) = Some (s, bs) \<and> set_run ps {} = (set (ss_dense s), bs)
           \<and> distinct (ss_dense s)"
  using ss_run_spec [of "ss_resize n" ps] ss_inv_resize [OF assms(1)] assms(2) ss_inv_distinct
  by (auto simp: ss_resize_def ss_abs_def)

theorem ss_run_refines_witness:
  "\<exists>s bs. ss_run [Insert 2, Insert 2, Insert 0, Erase 2, Clear, Contains 0] (ss_resize 3) = Some (s, bs)
     \<and> set_run [Insert 2, Insert 2, Insert 0, Erase 2, Clear, Contains 0] {} = (set (ss_dense s), bs)
     \<and> distinct (ss_dense s)"
  by (rule ss_run_refines) (auto simp: kSentinel_def)

end
