(* ===== verification/BitVectors.thy ===== *)
theory BitVectors
  imports IdSets
begin

section \<open>BitVector: bit-packed set of ids\<close>

text \<open>
  \<open>compiler/support/include/aegis/support/BitVector.hpp\<close>: \<open>size_\<close> bits in 64-bit words.
  \<open>set\<close>, \<open>clear\<close> and \<open>test\<close> assume the index is below \<open>size_\<close> and return \<open>None\<close>
  (undefined behaviour) otherwise.
\<close>

record bit_vector =
  bv_size :: nat
  bv_words :: "64 word list"

definition bv_new :: "nat \<Rightarrow> bit_vector" where
  "bv_new n = \<lparr>bv_size = n, bv_words = replicate (u32 (n + 63) div 64) 0\<rparr>"

definition bv_resize :: "nat \<Rightarrow> bit_vector \<Rightarrow> bit_vector" where
  "bv_resize n b =
     (let k = u32 (n + 63) div 64 in
      \<lparr>bv_size = n, bv_words = take k (bv_words b) @ replicate (k - length (bv_words b)) 0\<rparr>)"

definition bv_clear_bits :: "bit_vector \<Rightarrow> bit_vector" where
  "bv_clear_bits b = b\<lparr>bv_words := map (\<lambda>_. 0) (bv_words b)\<rparr>"

definition bv_set :: "nat \<Rightarrow> bit_vector \<Rightarrow> bit_vector option" where
  "bv_set i b =
     (if i < bv_size b then
        Some (b\<lparr>bv_words := (bv_words b)[i div 64 := bv_words b ! (i div 64) OR push_bit (i mod 64) 1]\<rparr>)
      else None)"

definition bv_clear :: "nat \<Rightarrow> bit_vector \<Rightarrow> bit_vector option" where
  "bv_clear i b =
     (if i < bv_size b then
        Some (b\<lparr>bv_words := (bv_words b)[i div 64 := bv_words b ! (i div 64) AND NOT (push_bit (i mod 64) 1)]\<rparr>)
      else None)"

definition bv_set_if :: "nat \<Rightarrow> bool \<Rightarrow> bit_vector \<Rightarrow> bit_vector option" where
  "bv_set_if i v b = (if v then bv_set i b else bv_clear i b)"

definition bv_test :: "bit_vector \<Rightarrow> nat \<Rightarrow> bool option" where
  "bv_test b i =
     (if i < bv_size b then Some (drop_bit (i mod 64) (bv_words b ! (i div 64)) AND 1 \<noteq> 0) else None)"

fun zip_words :: "(64 word \<Rightarrow> 64 word \<Rightarrow> 64 word) \<Rightarrow> 64 word list \<Rightarrow> 64 word list \<Rightarrow> 64 word list" where
  "zip_words f (x # xs) (y # ys) = f x y # zip_words f xs ys"
| "zip_words f xs _ = xs"

definition bv_or :: "bit_vector \<Rightarrow> bit_vector \<Rightarrow> bit_vector" where
  "bv_or b c = b\<lparr>bv_words := zip_words (OR) (bv_words b) (bv_words c)\<rparr>"

definition bv_and :: "bit_vector \<Rightarrow> bit_vector \<Rightarrow> bit_vector" where
  "bv_and b c = b\<lparr>bv_words := zip_words (AND) (bv_words b) (bv_words c)\<rparr>"

definition bv_xor :: "bit_vector \<Rightarrow> bit_vector \<Rightarrow> bit_vector" where
  "bv_xor b c = b\<lparr>bv_words := zip_words (XOR) (bv_words b) (bv_words c)\<rparr>"

definition bv_subtract :: "bit_vector \<Rightarrow> bit_vector \<Rightarrow> bit_vector" where
  "bv_subtract b c = b\<lparr>bv_words := zip_words (\<lambda>x y. x AND NOT y) (bv_words b) (bv_words c)\<rparr>"

definition popcount64 :: "64 word \<Rightarrow> nat" where
  "popcount64 w = length (filter (bit w) [0..<64])"

definition bv_popcount :: "bit_vector \<Rightarrow> nat" where
  "bv_popcount b = fold (\<lambda>w c. u32 (c + popcount64 w)) (bv_words b) 0"

definition bv_any :: "bit_vector \<Rightarrow> bool" where
  "bv_any b = (\<exists>w \<in> set (bv_words b). w \<noteq> 0)"

text \<open>
  \<open>std::countr_zero\<close>, and the loop of \<open>for_each_set\<close> over one word: visit the lowest set
  bit, then clear it with \<open>bits &= bits - 1\<close>. The result is the list of visited offsets.
\<close>

fun ctz_from :: "nat \<Rightarrow> nat \<Rightarrow> 64 word \<Rightarrow> nat" where
  "ctz_from 0 i w = i"
| "ctz_from (Suc f) i w = (if bit w i then i else ctz_from f (Suc i) w)"

definition countr_zero64 :: "64 word \<Rightarrow> nat" where
  "countr_zero64 w = ctz_from 64 0 w"

lemma ctz_from_spec:
  "(\<exists>j. i \<le> j \<and> j < i + f \<and> bit w j) \<Longrightarrow>
   bit w (ctz_from f i w) \<and> (\<forall>j. i \<le> j \<longrightarrow> j < ctz_from f i w \<longrightarrow> \<not> bit w j)
     \<and> i \<le> ctz_from f i w \<and> ctz_from f i w < i + f"
proof (induction f arbitrary: i)
  case (Suc f)
  show ?case
  proof (cases "bit w i")
    case False
    have "\<exists>j. Suc i \<le> j \<and> j < Suc i + f \<and> bit w j"
      using Suc.prems False by (metis Suc_leI add_Suc add_Suc_right le_neq_implies_less)
    from Suc.IH [OF this] False show ?thesis
      by (auto simp: Suc_le_eq) (metis Suc_leI le_neq_implies_less)
  qed simp
qed auto

lemma countr_zero64_spec:
  fixes w :: "64 word"
  assumes "w \<noteq> 0"
  shows "bit w (countr_zero64 w)" and "j < countr_zero64 w \<Longrightarrow> \<not> bit w j" and "countr_zero64 w < 64"
proof -
  from assms obtain j0 where "bit w j0" by (metis bit_0_eq bot_apply bit_eq_iff bot_bool_def)
  then have "\<exists>j. 0 \<le> j \<and> j < 0 + 64 \<and> bit w j" using bit_imp_le_length by force
  from ctz_from_spec [OF this]
  show "bit w (countr_zero64 w)" "countr_zero64 w < 64" "j < countr_zero64 w \<Longrightarrow> \<not> bit w j"
    by (auto simp: countr_zero64_def)
qed

lemma bit_minus_one_nat:
  "n \<noteq> 0 \<Longrightarrow> bit n k \<Longrightarrow> (\<forall>j<k. \<not> bit n j) \<Longrightarrow> bit (n - 1) i = (if i < k then True else if i = k then False else bit n i)"
  for n :: nat
proof (induction k arbitrary: n i)
  case 0
  then have "odd n" by (simp add: bit_0)
  then show ?case
    by (cases i) (auto simp: bit_0 bit_Suc elim!: oddE)
next
  case (Suc k)
  then have ev: "even n" by (metis bit_0 zero_less_Suc)
  then obtain m where m: "n = 2 * m" by (auto elim: evenE)
  have "bit m k" "\<forall>j<k. \<not> bit m j" "m \<noteq> 0"
    using Suc.prems m by (auto simp: bit_Suc)
  note IH = Suc.IH [OF this(3,1,2)]
  have "n - 1 = 2 * (m - 1) + 1" using m \<open>m \<noteq> 0\<close> by simp
  then show ?case using IH m
    by (cases i) (auto simp: bit_0 bit_Suc)
qed

lemma bit_unat_iff': "bit (unat w) i \<longleftrightarrow> bit w i" for w :: "'a::len word"
  by (simp add: bit_unsigned_iff)

lemma bit_and_minus_one:
  fixes w :: "64 word"
  assumes "w \<noteq> 0"
  shows "bit (w AND (w - 1)) i \<longleftrightarrow> bit w i \<and> i \<noteq> countr_zero64 w"
proof -
  have u: "unat (w - 1) = unat w - 1"
    using assms by (simp add: unat_minus_one)
  have "bit (w - 1) i = bit (unat w - 1) i"
    by (metis u bit_unat_iff')
  also have "\<dots> = (if i < countr_zero64 w then True else if i = countr_zero64 w then False else bit (unat w) i)"
    using assms countr_zero64_spec [OF assms]
    by (intro bit_minus_one_nat) (auto simp: bit_unat_iff' unat_eq_0)
  finally show ?thesis
    using countr_zero64_spec [OF assms] by (auto simp: bit_and_iff bit_unat_iff')
qed

function bits_loop :: "64 word \<Rightarrow> nat list" where
  "bits_loop bits =
     (if bits = 0 then [] else countr_zero64 bits # bits_loop (bits AND (bits - 1)))"
  by pat_completeness auto
termination
proof (relation "measure (\<lambda>w. card {i. bit w i})", goal_cases)
  case (2 w)
  have fin: "finite {i. bit w i}"
    using bit_imp_le_length by (auto intro: finite_subset [of _ "{..<64}"])
  have "{i. bit (w AND (w - 1)) i} = {i. bit w i} - {countr_zero64 w}"
    using 2 bit_and_minus_one by auto
  moreover have "countr_zero64 w \<in> {i. bit w i}" using 2 countr_zero64_spec by auto
  ultimately show ?case using fin by (metis card_Diff1_less in_measure)
qed simp

declare bits_loop.simps [simp del]

lemma bits_loop_spec: "set (bits_loop w) = {i. bit w i} \<and> sorted_wrt (<) (bits_loop w)"
proof (induction w rule: bits_loop.induct)
  case (1 w)
  show ?case
  proof (cases "w = 0")
    case True then show ?thesis by (simp add: bits_loop.simps)
  next
    case False
    let ?w = "w AND (w - 1)"
    have IH: "set (bits_loop ?w) = {i. bit w i} - {countr_zero64 w}" "sorted_wrt (<) (bits_loop ?w)"
      using 1 False bit_and_minus_one by auto
    have "countr_zero64 w < x" if "x \<in> set (bits_loop ?w)" for x
      using that IH(1) countr_zero64_spec(2) [OF False] by (metis DiffE insertCI mem_Collect_eq nat_neq_iff)
    with IH countr_zero64_spec(1) [OF False] False show ?thesis
      by (auto simp: bits_loop.simps [of w])
  qed
qed

text \<open>\<open>for_each_set\<close>: the indices handed to the callback, in order.\<close>

fun for_each_words :: "nat \<Rightarrow> nat \<Rightarrow> 64 word list \<Rightarrow> nat list" where
  "for_each_words n w [] = []"
| "for_each_words n w (x # xs) =
     filter (\<lambda>idx. idx < n) (map (\<lambda>off. w * 64 + off) (bits_loop x)) @ for_each_words n (Suc w) xs"

definition bv_for_each_set :: "bit_vector \<Rightarrow> nat list" where
  "bv_for_each_set b = for_each_words (bv_size b) 0 (bv_words b)"


subsection \<open>Invariant and abstraction\<close>

definition bv_abs :: "bit_vector \<Rightarrow> nat set" where
  "bv_abs b = {i. i < bv_size b \<and> bit (bv_words b ! (i div 64)) (i mod 64)}"

definition bv_inv :: "bit_vector \<Rightarrow> bool" where
  "bv_inv b \<longleftrightarrow> bv_size b \<le> 64 * length (bv_words b)"

lemma bv_word_index: "bv_inv b \<Longrightarrow> i < bv_size b \<Longrightarrow> i div 64 < length (bv_words b)"
  by (auto simp: bv_inv_def)

lemma bv_new_spec:
  assumes "n \<le> 4294967232"
  shows "bv_inv (bv_new n)" and "bv_abs (bv_new n) = {}" and "bv_size (bv_new n) = n"
proof -
  have "u32 (n + 63) = n + 63" using assms by simp
  moreover have "n \<le> 64 * ((n + 63) div 64)" by presburger
  moreover have "i div 64 < (n + 63) div 64" if "i < n" for i using that by (simp add: div_less_iff_less_mult)
  ultimately show "bv_inv (bv_new n)" "bv_abs (bv_new n) = {}" "bv_size (bv_new n) = n"
    by (auto simp: bv_inv_def bv_abs_def bv_new_def)
qed

lemma bv_test_spec: "i < bv_size b \<Longrightarrow> bv_test b i = Some (i \<in> bv_abs b)"
  by (simp add: bv_test_def bv_abs_def and_one_eq bit_iff_odd_drop_bit odd_iff_mod_2_eq_one)

lemma div_mod_64_eq: "(i::nat) div 64 = j div 64 \<Longrightarrow> i mod 64 = j mod 64 \<Longrightarrow> i = j"
  by (metis div_mult_mod_eq)

lemma bv_update_word:
  assumes inv: "bv_inv b" and i: "i < bv_size b"
    and w: "\<And>m. m < 64 \<Longrightarrow> bit w m \<longleftrightarrow> (if m = i mod 64 then v else bit (bv_words b ! (i div 64)) m)"
  shows "bv_inv (b\<lparr>bv_words := (bv_words b)[i div 64 := w]\<rparr>)"
    and "bv_abs (b\<lparr>bv_words := (bv_words b)[i div 64 := w]\<rparr>) = (if v then insert i (bv_abs b) else bv_abs b - {i})"
proof -
  show "bv_inv (b\<lparr>bv_words := (bv_words b)[i div 64 := w]\<rparr>)"
    using inv by (simp add: bv_inv_def)
  have "j \<in> bv_abs (b\<lparr>bv_words := (bv_words b)[i div 64 := w]\<rparr>) \<longleftrightarrow>
        j \<in> (if v then insert i (bv_abs b) else bv_abs b - {i})" for j
  proof (cases "j div 64 = i div 64")
    case True
    have "j mod 64 = i mod 64 \<longleftrightarrow> j = i" using True div_mod_64_eq by blast
    with True i w [of "j mod 64"] bv_word_index [OF inv i] show ?thesis by (auto simp: bv_abs_def)
  next
    case False
    with i show ?thesis by (auto simp: bv_abs_def)
  qed
  then show "bv_abs (b\<lparr>bv_words := (bv_words b)[i div 64 := w]\<rparr>) = (if v then insert i (bv_abs b) else bv_abs b - {i})"
    by blast
qed

lemma bv_set_spec:
  assumes "bv_inv b" "i < bv_size b"
  shows "\<exists>b'. bv_set i b = Some b' \<and> bv_inv b' \<and> bv_size b' = bv_size b \<and> bv_abs b' = insert i (bv_abs b)"
proof -
  let ?w = "bv_words b ! (i div 64) OR push_bit (i mod 64) 1"
  have "bit ?w m \<longleftrightarrow> (if m = i mod 64 then True else bit (bv_words b ! (i div 64)) m)" if "m < 64" for m
    using that by (simp add: bit_or_iff bit_exp_iff)
  from bv_update_word [OF assms this] assms show ?thesis by (simp add: bv_set_def)
qed

lemma bv_clear_spec:
  assumes "bv_inv b" "i < bv_size b"
  shows "\<exists>b'. bv_clear i b = Some b' \<and> bv_inv b' \<and> bv_size b' = bv_size b \<and> bv_abs b' = bv_abs b - {i}"
proof -
  let ?w = "bv_words b ! (i div 64) AND NOT (push_bit (i mod 64) 1)"
  have "bit ?w m \<longleftrightarrow> (if m = i mod 64 then False else bit (bv_words b ! (i div 64)) m)" if "m < 64" for m
    using that by (simp add: bit_and_iff bit_not_iff bit_exp_iff)
  from bv_update_word [OF assms this] assms show ?thesis by (simp add: bv_clear_def)
qed

interpretation bv: id_set bv_inv bv_abs bv_size bv_set bv_test
proof
  show "bv_abs s \<subseteq> {..<bv_size s}" for s by (auto simp: bv_abs_def)
qed (simp_all add: bv_set_spec bv_test_spec)

lemma length_zip_words [simp]: "length (zip_words f xs ys) = length xs"
  by (induction f xs ys rule: zip_words.induct) auto

lemma nth_zip_words:
  "i < length xs \<Longrightarrow> zip_words f xs ys ! i = (if i < length ys then f (xs ! i) (ys ! i) else xs ! i)"
  by (induction f xs ys arbitrary: i rule: zip_words.induct) (auto simp: nth_Cons split: nat.splits)

text \<open>The bulk operations, for two vectors of the same size.\<close>

lemma bv_bulk_spec:
  assumes "bv_inv b" "bv_inv c" "bv_size c = bv_size b"
  shows "bv_abs (bv_or b c) = bv_abs b \<union> bv_abs c"
    and "bv_abs (bv_and b c) = bv_abs b \<inter> bv_abs c"
    and "bv_abs (bv_xor b c) = (bv_abs b - bv_abs c) \<union> (bv_abs c - bv_abs b)"
    and "bv_abs (bv_subtract b c) = bv_abs b - bv_abs c"
  using assms bv_word_index [OF assms(1)] bv_word_index [OF assms(2)]
  by (auto simp: bv_abs_def bv_or_def bv_and_def bv_xor_def bv_subtract_def nth_zip_words
      bit_or_iff bit_and_iff bit_xor_iff bit_not_iff)

lemma for_each_words_spec:
  "set (for_each_words n w ws) = {i. i < n \<and> w \<le> i div 64 \<and> i div 64 < w + length ws \<and> bit (ws ! (i div 64 - w)) (i mod 64)}
   \<and> sorted_wrt (<) (for_each_words n w ws)"
proof (induction ws arbitrary: w)
  case (Cons x ws)
  let ?h = "filter (\<lambda>idx. idx < n) (map (\<lambda>off. w * 64 + off) (bits_loop x))"
  have b: "off < 64" if "bit x off" for off using that bit_imp_le_length by force
  have h: "set ?h = {i. i < n \<and> i div 64 = w \<and> bit x (i mod 64)}"
  proof (intro set_eqI iffI)
    fix i assume "i \<in> set ?h"
    then obtain off where "i = w * 64 + off" "bit x off" "i < n" by (auto simp: bits_loop_spec)
    with b [of off] show "i \<in> {i. i < n \<and> i div 64 = w \<and> bit x (i mod 64)}" by simp
  next
    fix i assume "i \<in> {i. i < n \<and> i div 64 = w \<and> bit x (i mod 64)}"
    then show "i \<in> set ?h"
      by (auto simp: bits_loop_spec image_iff intro!: exI [of _ "i mod 64"])
  qed
  have "sorted_wrt (<) ?h"
    using bits_loop_spec [of x] by (auto simp: sorted_wrt_map intro!: sorted_wrt_filter)
  moreover have "x < y" if "x \<in> set ?h" "y \<in> set (for_each_words n (Suc w) ws)" for x y
  proof -
    have "x div 64 = w" using that(1) unfolding h by simp
    moreover have "w < y div 64" using that(2) Cons.IH [of "Suc w"] by auto
    ultimately have "x div 64 < y div 64" by simp
    then show ?thesis by (metis div_le_mono leD leI)
  qed
  ultimately have "sorted_wrt (<) (?h @ for_each_words n (Suc w) ws)"
    unfolding sorted_wrt_append using Cons.IH [of "Suc w"] by blast
  then have "sorted_wrt (<) (for_each_words n w (x # ws))" by simp
  moreover have "set (for_each_words n w (x # ws)) = {i. i < n \<and> w \<le> i div 64 \<and>
     i div 64 < w + length (x # ws) \<and> bit ((x # ws) ! (i div 64 - w)) (i mod 64)}"
  proof (intro set_eqI)
    fix i
    have "i \<in> set (for_each_words n w (x # ws)) \<longleftrightarrow> i \<in> set ?h \<or> i \<in> set (for_each_words n (Suc w) ws)"
      by simp
    also have "\<dots> \<longleftrightarrow> i \<in> {i. i < n \<and> w \<le> i div 64 \<and> i div 64 < w + length (x # ws) \<and>
        bit ((x # ws) ! (i div 64 - w)) (i mod 64)}"
    proof (cases "w < i div 64")
      case True
      then obtain k where "i div 64 = Suc (w + k)" using less_iff_Suc_add by auto
      then show ?thesis unfolding h using Cons.IH [of "Suc w"] by simp
    next
      case False
      then show ?thesis unfolding h using Cons.IH [of "Suc w"] by auto
    qed
    finally show "i \<in> set (for_each_words n w (x # ws)) \<longleftrightarrow> i \<in> {i. i < n \<and> w \<le> i div 64 \<and>
        i div 64 < w + length (x # ws) \<and> bit ((x # ws) ! (i div 64 - w)) (i mod 64)}" .
  qed
  ultimately show ?case by blast
qed simp

text \<open>
  C32. \<open>for_each_set\<close> hands the callback exactly the members of the set, each once, in
  ascending order; the per-word loop that clears the lowest bit terminates on every word.
\<close>

theorem bv_for_each_set_members:
  assumes "bv_inv b"
  shows "bv_for_each_set b = sorted_list_of_set (bv_abs b)"
proof -
  have s: "set (bv_for_each_set b) = bv_abs b" "sorted_wrt (<) (bv_for_each_set b)"
    using for_each_words_spec [of "bv_size b" 0 "bv_words b"] bv_word_index [OF assms]
    by (auto simp: bv_for_each_set_def bv_abs_def)
  then show ?thesis
    by (metis sorted_list_of_set.idem_if_sorted_distinct strict_sorted_iff)
qed

theorem bv_for_each_set_members_witness:
  "bv_for_each_set \<lparr>bv_size = 70, bv_words = [5, 33]\<rparr> = sorted_list_of_set (bv_abs \<lparr>bv_size = 70, bv_words = [5, 33]\<rparr>)"
  by (rule bv_for_each_set_members) (simp add: bv_inv_def)

end
