(* ===== verification/SwissTables.thy ===== *)
theory SwissTables
  imports Prelude
begin

section \<open>SwissTable: open-addressing hash map\<close>

text \<open>
  \<open>compiler/support/include/aegis/support/SwissTable.hpp\<close>: a control byte per slot
  (empty, deleted, or the low seven hash bits of a live entry), linear probing over a
  power-of-two capacity, growth at load 7/8, tombstones on erase. The hash functor is a
  parameter \<open>hash\<close>. A slot that was never constructed with an entry is \<open>None\<close>.
  \<open>None\<close> as the result of an operation is \<open>__builtin_unreachable()\<close> or a violated
  \<open>[[assume]]\<close>. \<open>size_t\<close> arithmetic is on \<open>nat\<close>: it cannot wrap below \<open>2^60\<close> entries.
\<close>

definition kCtrlEmpty :: "8 word" where "kCtrlEmpty = 128"
definition kCtrlDeleted :: "8 word" where "kCtrlDeleted = 254"
definition kCtrlLiveMask :: "8 word" where "kCtrlLiveMask = 128"

definition ctrl_for_hash :: "64 word \<Rightarrow> 8 word" where
  "ctrl_for_hash h = (let b = ucast (h AND 127) in if b = 0 then 1 else b)"

record ('k, 'v) swiss =
  st_ctrl :: "8 word list"
  st_slots :: "('k \<times> 'v) option list"
  st_capacity :: nat
  st_size :: nat

definition st_new :: "('k, 'v) swiss" where
  "st_new = \<lparr>st_ctrl = [], st_slots = [], st_capacity = 0, st_size = 0\<rparr>"

definition slot_key_is :: "('k \<times> 'v) option \<Rightarrow> 'k \<Rightarrow> bool" where
  "slot_key_is s k = (case s of None \<Rightarrow> False | Some (k', _) \<Rightarrow> k' = k)"

fun find_loop :: "8 word \<Rightarrow> 'k \<Rightarrow> ('k, 'v) swiss \<Rightarrow> nat \<Rightarrow> nat \<Rightarrow> nat option" where
  "find_loop c k t 0 pos = None"
| "find_loop c k t (Suc f) pos =
     (if st_ctrl t ! pos = kCtrlEmpty then None
      else if st_ctrl t ! pos = c \<and> slot_key_is (st_slots t ! pos) k then Some pos
      else find_loop c k t f ((pos + 1) AND (st_capacity t - 1)))"

definition st_find :: "('k \<Rightarrow> 64 word) \<Rightarrow> ('k, 'v) swiss \<Rightarrow> 'k \<Rightarrow> nat option" where
  "st_find hash t k =
     (if st_capacity t = 0 then None
      else find_loop (ctrl_for_hash (hash k)) k t (st_capacity t) (unat (hash k) AND (st_capacity t - 1)))"

definition st_get :: "('k \<Rightarrow> 64 word) \<Rightarrow> ('k, 'v) swiss \<Rightarrow> 'k \<Rightarrow> 'v option" where
  "st_get hash t k =
     (case st_find hash t k of None \<Rightarrow> None | Some i \<Rightarrow> map_option snd (st_slots t ! i))"

definition st_contains :: "('k \<Rightarrow> 64 word) \<Rightarrow> ('k, 'v) swiss \<Rightarrow> 'k \<Rightarrow> bool" where
  "st_contains hash t k = (st_find hash t k \<noteq> None)"

text \<open>
  \<open>find_or_insert\<close>: the position, whether it is new, and the table with its control byte
  written. Falling out of the probe loop is \<open>__builtin_unreachable()\<close>.
\<close>

fun foi_loop :: "8 word \<Rightarrow> 'k \<Rightarrow> ('k, 'v) swiss \<Rightarrow> nat option \<Rightarrow> nat \<Rightarrow> nat
    \<Rightarrow> (nat \<times> bool \<times> ('k, 'v) swiss) option" where
  "foi_loop c k t fd 0 pos = None"
| "foi_loop c k t fd (Suc f) pos =
     (if st_ctrl t ! pos = kCtrlEmpty then
        (let ip = (case fd of None \<Rightarrow> pos | Some d \<Rightarrow> d)
         in Some (ip, True, t\<lparr>st_ctrl := (st_ctrl t)[ip := c]\<rparr>))
      else if st_ctrl t ! pos = kCtrlDeleted then
        foi_loop c k t (case fd of None \<Rightarrow> Some pos | Some d \<Rightarrow> Some d) f ((pos + 1) AND (st_capacity t - 1))
      else if st_ctrl t ! pos = c \<and> slot_key_is (st_slots t ! pos) k then Some (pos, False, t)
      else foi_loop c k t fd f ((pos + 1) AND (st_capacity t - 1)))"

definition find_or_insert :: "('k \<Rightarrow> 64 word) \<Rightarrow> ('k, 'v) swiss \<Rightarrow> 'k \<Rightarrow> (nat \<times> bool \<times> ('k, 'v) swiss) option" where
  "find_or_insert hash t k =
     foi_loop (ctrl_for_hash (hash k)) k t None (st_capacity t) (unat (hash k) AND (st_capacity t - 1))"

fun reinsert :: "('k \<Rightarrow> 64 word) \<Rightarrow> (8 word \<times> ('k \<times> 'v) option) list \<Rightarrow> ('k, 'v) swiss \<Rightarrow> ('k, 'v) swiss option" where
  "reinsert hash [] t = Some t"
| "reinsert hash ((c, s) # rest) t =
     (if c AND kCtrlLiveMask \<noteq> 0 then reinsert hash rest t
      else case s of None \<Rightarrow> None
      | Some (k, v) \<Rightarrow>
          (case find_or_insert hash t k of
             Some (pos, True, t') \<Rightarrow>
               reinsert hash rest (t'\<lparr>st_slots := (st_slots t')[pos := Some (k, v)], st_size := st_size t' + 1\<rparr>)
           | _ \<Rightarrow> None))"

definition st_rehash :: "('k \<Rightarrow> 64 word) \<Rightarrow> nat \<Rightarrow> ('k, 'v) swiss \<Rightarrow> ('k, 'v) swiss option" where
  "st_rehash hash new_cap t =
     reinsert hash (zip (st_ctrl t) (st_slots t))
       \<lparr>st_ctrl = replicate new_cap kCtrlEmpty, st_slots = replicate new_cap None,
        st_capacity = new_cap, st_size = 0\<rparr>"

function bit_ceil_from :: "nat \<Rightarrow> nat \<Rightarrow> nat" where
  "bit_ceil_from p n = (if p = 0 \<or> n \<le> p then p else bit_ceil_from (2 * p) n)"
  by pat_completeness auto
termination by (relation "measure (\<lambda>(p, n). n - p)") auto

declare bit_ceil_from.simps [simp del]

definition bit_ceil :: "nat \<Rightarrow> nat" where
  "bit_ceil n = bit_ceil_from 1 n"

definition st_reserve :: "('k \<Rightarrow> 64 word) \<Rightarrow> nat \<Rightarrow> ('k, 'v) swiss \<Rightarrow> ('k, 'v) swiss option" where
  "st_reserve hash n t =
     (let new_cap = max 16 (bit_ceil ((n * 8 + 6) div 7))
      in if new_cap > st_capacity t then st_rehash hash new_cap t else Some t)"

definition st_emplace :: "('k \<Rightarrow> 64 word) \<Rightarrow> 'k \<Rightarrow> 'v \<Rightarrow> ('k, 'v) swiss \<Rightarrow> (nat \<times> bool \<times> ('k, 'v) swiss) option" where
  "st_emplace hash k v t =
     Option.bind
       (if (st_size t + 1) * 8 \<ge> st_capacity t * 7
        then st_rehash hash (if st_capacity t = 0 then 16 else st_capacity t * 2) t else Some t)
       (\<lambda>t1. case find_or_insert hash t1 k of
          None \<Rightarrow> None
        | Some (pos, True, t2) \<Rightarrow>
            Some (pos, True, t2\<lparr>st_slots := (st_slots t2)[pos := Some (k, v)], st_size := st_size t2 + 1\<rparr>)
        | Some (pos, False, t2) \<Rightarrow>
            Some (pos, False, t2\<lparr>st_slots := (st_slots t2)[pos := map_option (\<lambda>e. (fst e, v)) (st_slots t2 ! pos)]\<rparr>))"

definition st_insert :: "('k \<Rightarrow> 64 word) \<Rightarrow> 'k \<Rightarrow> 'v \<Rightarrow> ('k, 'v) swiss \<Rightarrow> (bool \<times> ('k, 'v) swiss) option" where
  "st_insert hash k v t = map_option snd (st_emplace hash k v t)"

definition st_erase :: "('k \<Rightarrow> 64 word) \<Rightarrow> 'k \<Rightarrow> ('k, 'v) swiss \<Rightarrow> ('k, 'v) swiss" where
  "st_erase hash k t =
     (case st_find hash t k of
        None \<Rightarrow> t
      | Some i \<Rightarrow> t\<lparr>st_ctrl := (st_ctrl t)[i := kCtrlDeleted], st_size := st_size t - 1\<rparr>)"

definition st_clear :: "('k, 'v) swiss \<Rightarrow> ('k, 'v) swiss" where
  "st_clear t =
     (if st_capacity t \<noteq> 0 then t\<lparr>st_ctrl := replicate (st_capacity t) kCtrlEmpty, st_size := 0\<rparr> else t)"

text \<open>\<open>for_each\<close>: the entries handed to the callback, in slot order.\<close>

definition st_for_each :: "('k, 'v) swiss \<Rightarrow> ('k \<times> 'v) option list" where
  "st_for_each t =
     map (\<lambda>i. st_slots t ! i) (filter (\<lambda>i. st_ctrl t ! i AND kCtrlLiveMask = 0) [0..<st_capacity t])"

subsection \<open>Control bytes\<close>

lemma ctrl_for_hash_live: "ctrl_for_hash h AND kCtrlLiveMask = 0"
proof -
  have "\<not> bit (127 :: 64 word) 7" by simp
  then have "\<not> bit (ucast (h AND 127) :: 8 word) 7" unfolding bit_ucast_iff bit_and_iff by blast
  moreover have "\<not> bit (1 :: 8 word) 7" by simp
  ultimately have "\<not> bit (ctrl_for_hash h) 7" unfolding ctrl_for_hash_def Let_def by simp
  then show ?thesis
    using and_exp_eq_0_iff_not_bit [of "ctrl_for_hash h" 7] by (simp add: kCtrlLiveMask_def)
qed

lemma ctrl_not_live [simp]: "kCtrlEmpty AND kCtrlLiveMask \<noteq> 0" "kCtrlDeleted AND kCtrlLiveMask \<noteq> 0"
  by (simp_all add: kCtrlEmpty_def kCtrlDeleted_def kCtrlLiveMask_def)

lemma ctrl_for_hash_neq [simp]:
  "ctrl_for_hash h \<noteq> kCtrlEmpty" "ctrl_for_hash h \<noteq> kCtrlDeleted"
  "kCtrlEmpty \<noteq> ctrl_for_hash h" "kCtrlDeleted \<noteq> ctrl_for_hash h" "kCtrlDeleted \<noteq> kCtrlEmpty"
  using ctrl_for_hash_live [of h] ctrl_not_live by (auto simp: kCtrlEmpty_def kCtrlDeleted_def)

subsection \<open>Probe sequences\<close>

definition probe :: "nat \<Rightarrow> nat \<Rightarrow> nat \<Rightarrow> nat" where
  "probe cap s d = (s + d) mod cap"

lemma and_mask_mod: "cap = 2 ^ m \<Longrightarrow> n AND (cap - 1) = n mod cap" for n cap :: nat
  by (metis mask_eq_exp_minus_1 take_bit_eq_mask take_bit_eq_mod)

lemma probe_start: "cap = 2 ^ m \<Longrightarrow> h AND (cap - 1) = probe cap h 0"
  by (subst and_mask_mod) (auto simp: probe_def)

lemma probe_step: "cap = 2 ^ m \<Longrightarrow> (probe cap h d + 1) AND (cap - 1) = probe cap h (Suc d)"
  unfolding and_mask_mod by (simp add: probe_def mod_Suc_eq)

lemma probe_less: "0 < cap \<Longrightarrow> probe cap h d < cap"
  by (simp add: probe_def)

lemma probe_surj:
  assumes "i < cap"
  shows "\<exists>d < cap. i = probe cap h d"
proof -
  let ?d = "(i + (cap - h mod cap)) mod cap"
  have "probe cap h ?d = (h mod cap + (i + (cap - h mod cap))) mod cap"
    by (simp add: probe_def mod_simps)
  also have "h mod cap + (i + (cap - h mod cap)) = i + cap"
    using assms mod_less_divisor [of cap h] by linarith
  finally show ?thesis using assms by (intro exI [of _ ?d]) auto
qed

subsection \<open>Invariant and abstraction\<close>

definition st_live :: "('k, 'v) swiss \<Rightarrow> nat \<Rightarrow> bool" where
  "st_live t i \<longleftrightarrow> i < st_capacity t \<and> st_ctrl t ! i AND kCtrlLiveMask = 0"

definition st_entry :: "('k, 'v) swiss \<Rightarrow> nat \<Rightarrow> 'k \<Rightarrow> 'v \<Rightarrow> bool" where
  "st_entry t i k v \<longleftrightarrow> st_live t i \<and> st_slots t ! i = Some (k, v)"

definition no_empty_before :: "('k, 'v) swiss \<Rightarrow> nat \<Rightarrow> nat \<Rightarrow> bool" where
  "no_empty_before t h d \<longleftrightarrow> (\<forall>e < d. st_ctrl t ! probe (st_capacity t) h e \<noteq> kCtrlEmpty)"

definition st_shape :: "('k \<Rightarrow> 64 word) \<Rightarrow> ('k, 'v) swiss \<Rightarrow> bool" where
  "st_shape hash t \<longleftrightarrow>
     length (st_ctrl t) = st_capacity t \<and> length (st_slots t) = st_capacity t \<and>
     (st_capacity t = 0 \<or> (\<exists>m. st_capacity t = 2 ^ m)) \<and>
     (\<forall>i < st_capacity t. st_ctrl t ! i = kCtrlEmpty \<or> st_ctrl t ! i = kCtrlDeleted \<or>
        (\<exists>k v. st_slots t ! i = Some (k, v) \<and> st_ctrl t ! i = ctrl_for_hash (hash k)))"

definition st_inv :: "('k \<Rightarrow> 64 word) \<Rightarrow> ('k, 'v) swiss \<Rightarrow> bool" where
  "st_inv hash t \<longleftrightarrow> st_shape hash t \<and>
     (\<forall>i j k v w. st_entry t i k v \<longrightarrow> st_entry t j k w \<longrightarrow> i = j) \<and>
     (\<forall>i k v. st_entry t i k v \<longrightarrow>
        (\<exists>d < st_capacity t. i = probe (st_capacity t) (unat (hash k)) d \<and> no_empty_before t (unat (hash k)) d)) \<and>
     st_size t = card {i. st_live t i}"

definition st_abs :: "('k, 'v) swiss \<Rightarrow> 'k \<Rightarrow> 'v option" where
  "st_abs t k = (if \<exists>i v. st_entry t i k v then Some (SOME v. \<exists>i. st_entry t i k v) else None)"

lemma st_abs_Some: "st_inv hash t \<Longrightarrow> st_abs t k = Some v \<longleftrightarrow> (\<exists>i. st_entry t i k v)"
proof -
  assume inv: "st_inv hash t"
  have uniq: "v = w" if "st_entry t i k v" "st_entry t j k w" for i j v w
    using inv that unfolding st_inv_def st_entry_def by (metis Pair_inject option.inject)
  have "(SOME v. \<exists>i. st_entry t i k v) = v" if "st_entry t i k v" for i v
    using uniq that by (intro some_equality) auto
  then show ?thesis unfolding st_abs_def by (metis option.distinct(1) option.inject)
qed

lemma st_abs_None: "st_abs t k = None \<longleftrightarrow> (\<forall>i v. \<not> st_entry t i k v)"
  by (auto simp: st_abs_def)

text \<open>Two tables in which the same entries are stored denote the same map.\<close>

lemma st_match_entry:
  assumes "st_shape hash t" "p < st_capacity t"
  shows "st_ctrl t ! p = ctrl_for_hash (hash k) \<and> slot_key_is (st_slots t ! p) k \<longleftrightarrow> (\<exists>v. st_entry t p k v)"
proof
  assume "st_ctrl t ! p = ctrl_for_hash (hash k) \<and> slot_key_is (st_slots t ! p) k"
  with assms show "\<exists>v. st_entry t p k v"
    by (auto simp: st_entry_def st_live_def slot_key_is_def ctrl_for_hash_live split: option.splits)
next
  assume "\<exists>v. st_entry t p k v"
  then obtain v where v: "st_live t p" "st_slots t ! p = Some (k, v)" by (auto simp: st_entry_def)
  then have "st_ctrl t ! p \<noteq> kCtrlEmpty" "st_ctrl t ! p \<noteq> kCtrlDeleted"
    using ctrl_not_live by (auto simp: st_live_def)
  with assms v show "st_ctrl t ! p = ctrl_for_hash (hash k) \<and> slot_key_is (st_slots t ! p) k"
    by (auto simp: st_shape_def slot_key_is_def)
qed

lemma st_entry_not_empty: "st_entry t i k v \<Longrightarrow> st_ctrl t ! i \<noteq> kCtrlEmpty \<and> st_ctrl t ! i \<noteq> kCtrlDeleted"
  using ctrl_not_live by (auto simp: st_entry_def st_live_def)

lemma no_empty_before_Suc:
  "no_empty_before t h (Suc d) \<longleftrightarrow> no_empty_before t h d \<and> st_ctrl t ! probe (st_capacity t) h d \<noteq> kCtrlEmpty"
  by (auto simp: no_empty_before_def less_Suc_eq)

subsection \<open>Lookup\<close>

lemma find_loop_Some:
  assumes "st_shape hash t" "st_capacity t = 2 ^ m"
    and "find_loop (ctrl_for_hash (hash k)) k t f (probe (st_capacity t) h d) = Some i"
  shows "\<exists>v. st_entry t i k v"
  using assms(3)
proof (induction f arbitrary: d)
  case (Suc f)
  have "probe (st_capacity t) h d < st_capacity t" using assms(2) by (simp add: probe_less)
  note m = st_match_entry [OF assms(1) this, of k]
  from Suc show ?case
    using m unfolding find_loop.simps probe_step [OF assms(2)] by (auto split: if_splits)
qed simp

lemma find_loop_entry:
  assumes "st_inv hash t" "st_capacity t = 2 ^ m" "st_entry t i k v" "i = probe (st_capacity t) h d"
    and "no_empty_before t h d" "e \<le> d" "d < e + f"
  shows "find_loop (ctrl_for_hash (hash k)) k t f (probe (st_capacity t) h e) = Some i"
  using assms(6,7)
proof (induction f arbitrary: e)
  case (Suc f)
  let ?p = "probe (st_capacity t) h e"
  have shape: "st_shape hash t" using assms(1) by (simp add: st_inv_def)
  have p: "?p < st_capacity t" using assms(2) by (simp add: probe_less)
  note mt = st_match_entry [OF shape p, of k]
  show ?case
  proof (cases "\<exists>w. st_entry t ?p k w")
    case True
    then have "?p = i" using assms(1,3) by (auto simp: st_inv_def)
    moreover have "st_ctrl t ! ?p \<noteq> kCtrlEmpty" using True st_entry_not_empty [of t ?p k] by auto
    ultimately show ?thesis using True mt by simp
  next
    case False
    then have "e \<noteq> d" using assms(3,4) by auto
    then have "e < d" using Suc.prems by simp
    then have "st_ctrl t ! ?p \<noteq> kCtrlEmpty" using assms(5) by (simp add: no_empty_before_def)
    with False mt \<open>e < d\<close> Suc show ?thesis
      unfolding find_loop.simps probe_step [OF assms(2)] by auto
  qed
qed simp

lemma st_find_spec:
  assumes "st_inv hash t"
  shows "st_find hash t k = Some i \<longleftrightarrow> (\<exists>v. st_entry t i k v)"
proof (cases "st_capacity t = 0")
  case True
  then show ?thesis by (auto simp: st_find_def st_entry_def st_live_def)
next
  case False
  with assms obtain m where m: "st_capacity t = 2 ^ m" by (auto simp: st_inv_def st_shape_def)
  note start = probe_start [OF m, of "unat (hash k)"]
  show ?thesis
  proof
    assume "st_find hash t k = Some i"
    then show "\<exists>v. st_entry t i k v"
      using find_loop_Some [OF _ m] assms False unfolding st_find_def start st_inv_def by auto
  next
    assume "\<exists>v. st_entry t i k v"
    then obtain v d where e: "st_entry t i k v" and d: "d < st_capacity t" "i = probe (st_capacity t) (unat (hash k)) d"
      "no_empty_before t (unat (hash k)) d"
      using assms unfolding st_inv_def by blast
    then have "find_loop (ctrl_for_hash (hash k)) k t (st_capacity t) (probe (st_capacity t) (unat (hash k)) 0) = Some i"
      by (intro find_loop_entry [OF assms m e]) auto
    with False show "st_find hash t k = Some i" unfolding st_find_def start by simp
  qed
qed

lemma st_get_abs:
  assumes "st_inv hash t"
  shows "st_get hash t k = st_abs t k"
proof (cases "st_find hash t k")
  case None
  then have "\<And>i v. \<not> st_entry t i k v" using st_find_spec [OF assms] by (metis option.distinct(1))
  with None show ?thesis by (simp add: st_get_def st_abs_def)
next
  case (Some i)
  then obtain v where v: "st_entry t i k v" using st_find_spec [OF assms] by blast
  then have "st_abs t k = Some v" using st_abs_Some [OF assms] by blast
  with Some v show ?thesis by (simp add: st_get_def st_entry_def)
qed

subsection \<open>find_or_insert\<close>

lemma foi_present:
  assumes "st_inv hash t" "st_capacity t = 2 ^ m" "st_entry t i k v" "i = probe (st_capacity t) h d"
    and "no_empty_before t h d" "e \<le> d" "d < e + f"
  shows "foi_loop (ctrl_for_hash (hash k)) k t fd f (probe (st_capacity t) h e) = Some (i, False, t)"
  using assms(6,7)
proof (induction f arbitrary: e fd)
  case (Suc f)
  let ?p = "probe (st_capacity t) h e"
  have shape: "st_shape hash t" using assms(1) by (simp add: st_inv_def)
  have p: "?p < st_capacity t" using assms(2) by (simp add: probe_less)
  note mt = st_match_entry [OF shape p, of k]
  show ?case
  proof (cases "\<exists>w. st_entry t ?p k w")
    case True
    then have "?p = i" using assms(1,3) by (auto simp: st_inv_def)
    with True mt st_entry_not_empty [of t ?p k] show ?thesis by auto
  next
    case False
    then have "e \<noteq> d" using assms(3,4) by auto
    then have "e < d" using Suc.prems by simp
    then have "st_ctrl t ! ?p \<noteq> kCtrlEmpty" using assms(5) by (simp add: no_empty_before_def)
    with False mt \<open>e < d\<close> Suc show ?thesis
      unfolding foi_loop.simps probe_step [OF assms(2)] by auto
  qed
qed simp

definition fd_ok :: "('k, 'v) swiss \<Rightarrow> nat \<Rightarrow> nat \<Rightarrow> nat option \<Rightarrow> bool" where
  "fd_ok t h e fd \<longleftrightarrow> (case fd of None \<Rightarrow> True
     | Some p \<Rightarrow> \<exists>e0 < e. p = probe (st_capacity t) h e0 \<and> st_ctrl t ! p = kCtrlDeleted)"

lemma foi_absent:
  assumes "st_shape hash t" "st_capacity t = 2 ^ m" "\<And>i v. \<not> st_entry t i k v"
    and "no_empty_before t h e" "fd_ok t h e fd"
    and "\<exists>d. e \<le> d \<and> d < e + f \<and> st_ctrl t ! probe (st_capacity t) h d = kCtrlEmpty"
  shows "\<exists>d p. foi_loop (ctrl_for_hash (hash k)) k t fd f (probe (st_capacity t) h e)
      = Some (p, True, t\<lparr>st_ctrl := (st_ctrl t)[p := ctrl_for_hash (hash k)]\<rparr>)
    \<and> p = probe (st_capacity t) h d \<and> d < e + f \<and> no_empty_before t h d
    \<and> (st_ctrl t ! p = kCtrlEmpty \<or> st_ctrl t ! p = kCtrlDeleted)"
  using assms(4-6)
proof (induction f arbitrary: e fd)
  case (Suc f)
  let ?p = "probe (st_capacity t) h e"
  have p: "?p < st_capacity t" using assms(2) by (simp add: probe_less)
  have mt: "\<not> (st_ctrl t ! ?p = ctrl_for_hash (hash k) \<and> slot_key_is (st_slots t ! ?p) k)"
    using st_match_entry [OF assms(1) p, of k] assms(3) by auto
  show ?case
  proof (cases "st_ctrl t ! ?p = kCtrlEmpty")
    case True
    show ?thesis
    proof (cases fd)
      case None
      with True have "foi_loop (ctrl_for_hash (hash k)) k t fd (Suc f) ?p
          = Some (?p, True, t\<lparr>st_ctrl := (st_ctrl t)[?p := ctrl_for_hash (hash k)]\<rparr>)" by (simp add: Let_def)
      then show ?thesis using True Suc.prems(1)
        by - (rule exI [where x = e], rule exI [where x = ?p], simp)
    next
      case (Some d0)
      with Suc.prems(2) obtain e0 where "e0 < e" "d0 = probe (st_capacity t) h e0" "st_ctrl t ! d0 = kCtrlDeleted"
        by (auto simp: fd_ok_def)
      moreover from this have "foi_loop (ctrl_for_hash (hash k)) k t fd (Suc f) ?p
          = Some (d0, True, t\<lparr>st_ctrl := (st_ctrl t)[d0 := ctrl_for_hash (hash k)]\<rparr>)"
        using True Some by (simp add: Let_def)
      moreover have "no_empty_before t h e0" "e0 < e + Suc f"
        using Suc.prems(1) \<open>e0 < e\<close> by (auto simp: no_empty_before_def)
      ultimately show ?thesis
        by - (rule exI [where x = e0], rule exI [where x = d0], simp)
    qed
  next
    case False
    let ?fd = "if st_ctrl t ! ?p = kCtrlDeleted then (case fd of None \<Rightarrow> Some ?p | Some d \<Rightarrow> Some d) else fd"
    have step: "foi_loop (ctrl_for_hash (hash k)) k t fd (Suc f) ?p
        = foi_loop (ctrl_for_hash (hash k)) k t ?fd f (probe (st_capacity t) h (Suc e))"
      using False mt unfolding foi_loop.simps probe_step [OF assms(2)] by auto
    have ne: "no_empty_before t h (Suc e)" using Suc.prems(1) False by (simp add: no_empty_before_Suc)
    have fd: "fd_ok t h (Suc e) ?fd"
      using Suc.prems(2) by (auto simp: fd_ok_def less_Suc_eq split: option.splits)
    have "\<exists>d. Suc e \<le> d \<and> d < Suc e + f \<and> st_ctrl t ! probe (st_capacity t) h d = kCtrlEmpty"
      using Suc.prems(3) False by (metis Suc_leI add_Suc_shift le_neq_implies_less)
    from Suc.IH [OF ne fd this] show ?thesis unfolding step by simp
  qed
qed auto

lemma foi_full:
  assumes "st_shape hash t" "st_capacity t = 2 ^ m" "\<And>i v. \<not> st_entry t i k v"
    and "\<And>i. i < st_capacity t \<Longrightarrow> st_ctrl t ! i \<noteq> kCtrlEmpty"
  shows "foi_loop (ctrl_for_hash (hash k)) k t fd f (probe (st_capacity t) h e) = None"
proof (induction f arbitrary: e fd)
  case (Suc f)
  let ?p = "probe (st_capacity t) h e"
  have p: "?p < st_capacity t" using assms(2) by (simp add: probe_less)
  have mt: "\<not> (st_ctrl t ! ?p = ctrl_for_hash (hash k) \<and> slot_key_is (st_slots t ! ?p) k)"
    using st_match_entry [OF assms(1) p, of k] assms(3) by auto
  then show ?case using Suc assms(4) [OF p]
    unfolding foi_loop.simps probe_step [OF assms(2)] by auto
qed simp

lemma st_inv_pow2: "st_inv hash t \<Longrightarrow> i < st_capacity t \<Longrightarrow> \<exists>m. st_capacity t = 2 ^ m"
  by (auto simp: st_inv_def st_shape_def)

lemma find_or_insert_present:
  assumes "st_inv hash t" "st_entry t i k v"
  shows "find_or_insert hash t k = Some (i, False, t)"
proof -
  obtain d where d: "d < st_capacity t" "i = probe (st_capacity t) (unat (hash k)) d"
    "no_empty_before t (unat (hash k)) d"
    using assms unfolding st_inv_def by blast
  moreover obtain m where m: "st_capacity t = 2 ^ m" using st_inv_pow2 assms d by blast
  ultimately show ?thesis
    unfolding find_or_insert_def probe_start [OF m] by (intro foi_present [OF assms(1) m assms(2)]) auto
qed

lemma find_or_insert_absent:
  assumes "st_inv hash t" "st_abs t k = None" "i < st_capacity t" "st_ctrl t ! i = kCtrlEmpty"
  shows "\<exists>d p. find_or_insert hash t k = Some (p, True, t\<lparr>st_ctrl := (st_ctrl t)[p := ctrl_for_hash (hash k)]\<rparr>)
    \<and> p = probe (st_capacity t) (unat (hash k)) d \<and> d < st_capacity t \<and> no_empty_before t (unat (hash k)) d
    \<and> (st_ctrl t ! p = kCtrlEmpty \<or> st_ctrl t ! p = kCtrlDeleted)"
proof -
  obtain m where m: "st_capacity t = 2 ^ m" using st_inv_pow2 assms by blast
  have sh: "st_shape hash t" using assms(1) by (simp add: st_inv_def)
  have ab: "\<And>i v. \<not> st_entry t i k v" using assms(2) by (simp add: st_abs_None)
  have "\<exists>d. 0 \<le> d \<and> d < 0 + st_capacity t \<and> st_ctrl t ! probe (st_capacity t) (unat (hash k)) d = kCtrlEmpty"
    using probe_surj [OF assms(3), of "unat (hash k)"] assms(4) by auto
  from foi_absent [OF sh m ab _ _ this, of "None"] show ?thesis
    unfolding find_or_insert_def probe_start [OF m] by (simp add: no_empty_before_def fd_ok_def)
qed

lemma find_or_insert_full:
  assumes "st_inv hash t" "st_abs t k = None" "\<And>i. i < st_capacity t \<Longrightarrow> st_ctrl t ! i \<noteq> kCtrlEmpty"
  shows "find_or_insert hash t k = None"
proof (cases "st_capacity t = 0")
  case False
  then obtain m where m: "st_capacity t = 2 ^ m" using st_inv_pow2 [OF assms(1)] by blast
  have sh: "st_shape hash t" using assms(1) by (simp add: st_inv_def)
  have ab: "\<And>i v. \<not> st_entry t i k v" using assms(2) by (simp add: st_abs_None)
  show ?thesis unfolding find_or_insert_def probe_start [OF m]
    by (rule foi_full [OF sh m ab assms(3)])
qed (simp add: find_or_insert_def)

subsection \<open>Storing an entry\<close>

definition st_clean :: "('k, 'v) swiss \<Rightarrow> bool" where
  "st_clean t \<longleftrightarrow> (\<forall>i < st_capacity t. st_ctrl t ! i \<noteq> kCtrlDeleted)"

definition st_store :: "8 word \<Rightarrow> nat \<Rightarrow> 'k \<Rightarrow> 'v \<Rightarrow> ('k, 'v) swiss \<Rightarrow> ('k, 'v) swiss" where
  "st_store c p k v t = t\<lparr>st_ctrl := (st_ctrl t)[p := c], st_slots := (st_slots t)[p := Some (k, v)],
     st_size := st_size t + 1\<rparr>"

lemma st_store_spec:
  fixes t :: "('k, 'v) swiss" and v :: 'v
  assumes inv: "st_inv hash t" and absent: "st_abs t k = None"
    and p: "p = probe (st_capacity t) (unat (hash k)) d" "d < st_capacity t" "no_empty_before t (unat (hash k)) d"
    and c: "st_ctrl t ! p = kCtrlEmpty \<or> st_ctrl t ! p = kCtrlDeleted"
  defines "t' \<equiv> st_store (ctrl_for_hash (hash k)) p k v t"
  shows "st_inv hash t'" and "st_abs t' = (st_abs t)(k \<mapsto> v)" and "st_entry t' p k v"
    and "st_clean t \<Longrightarrow> st_clean t'"
proof -
  have cap [simp]: "st_capacity t' = st_capacity t" by (simp add: t'_def st_store_def)
  have pl: "p < st_capacity t" using p by (simp add: probe_less)
  have len: "length (st_ctrl t) = st_capacity t" "length (st_slots t) = st_capacity t"
    using inv by (auto simp: st_inv_def st_shape_def)
  have ctrl: "st_ctrl t' ! i = (if i = p then ctrl_for_hash (hash k) else st_ctrl t ! i)" if "i < st_capacity t" for i
    using that pl len by (simp add: t'_def st_store_def)
  have slot: "st_slots t' ! i = (if i = p then Some (k, v) else st_slots t ! i)" if "i < st_capacity t" for i
    using that pl len by (simp add: t'_def st_store_def)
  have live: "st_live t' i \<longleftrightarrow> i = p \<or> st_live t i" for i
    using pl ctrl [of i] ctrl_for_hash_live by (auto simp: st_live_def)
  have pnl: "\<not> st_live t p" using c ctrl_not_live by (auto simp: st_live_def)
  have entry: "st_entry t' i k' v' \<longleftrightarrow> (if i = p then k' = k \<and> v' = v else st_entry t i k' v')" for i k' v'
  proof (cases "i = p")
    case True
    with pl show ?thesis by (auto simp: st_entry_def live slot)
  next
    case False
    have "st_live t i \<Longrightarrow> st_slots t' ! i = st_slots t ! i" using False by (simp add: slot st_live_def)
    with False show ?thesis by (auto simp: st_entry_def live)
  qed
  have nem: "no_empty_before t' h e" if "no_empty_before t h e" for h e
  proof -
    have "st_ctrl t' ! probe (st_capacity t) h x \<noteq> kCtrlEmpty" if "x < e" for x
      using \<open>no_empty_before t h e\<close> that ctrl [of "probe (st_capacity t) h x"] pl
      by (simp add: no_empty_before_def probe_less)
    then show ?thesis by (simp add: no_empty_before_def)
  qed
  have shape: "st_shape hash t'"
    unfolding st_shape_def cap
  proof (intro conjI allI impI)
    show "length (st_ctrl t') = st_capacity t" "length (st_slots t') = st_capacity t"
      by (simp_all add: t'_def st_store_def len)
    show "st_capacity t = 0 \<or> (\<exists>m. st_capacity t = 2 ^ m)" using inv by (simp add: st_inv_def st_shape_def)
    fix i assume i: "i < st_capacity t"
    then show "st_ctrl t' ! i = kCtrlEmpty \<or> st_ctrl t' ! i = kCtrlDeleted \<or>
        (\<exists>k v. st_slots t' ! i = Some (k, v) \<and> st_ctrl t' ! i = ctrl_for_hash (hash k))"
      using inv by (auto simp: ctrl slot st_inv_def st_shape_def)
  qed
  show sk: "st_entry t' p k v" by (simp add: entry)
  have ab: "\<not> st_entry t i k w" for i w using absent by (simp add: st_abs_None)
  show inv': "st_inv hash t'"
    unfolding st_inv_def
  proof (intro conjI allI impI shape)
    fix i j k' v' w assume "st_entry t' i k' v'" "st_entry t' j k' w"
    moreover have "st_entry t i k' v' \<Longrightarrow> st_entry t j k' w \<Longrightarrow> i = j"
      using inv unfolding st_inv_def by blast
    ultimately show "i = j" using ab unfolding entry by (auto split: if_splits)
  next
    fix i k' v' assume e: "st_entry t' i k' v'"
    show "\<exists>d < st_capacity t'. i = probe (st_capacity t') (unat (hash k')) d \<and> no_empty_before t' (unat (hash k')) d"
    proof (cases "i = p")
      case True
      with e p nem show ?thesis unfolding entry cap by auto
    next
      case False
      with e have "st_entry t i k' v'" by (simp add: entry)
      with inv nem show ?thesis unfolding st_inv_def cap by blast
    qed
  next
    have "{i. st_live t' i} = insert p {i. st_live t i}" using live by auto
    moreover have "finite {i. st_live t i}" by (auto simp: st_live_def)
    ultimately have "card {i. st_live t' i} = card {i. st_live t i} + 1" using pnl by simp
    with inv show "st_size t' = card {i. st_live t' i}" by (simp add: t'_def st_store_def st_inv_def)
  qed
  show "st_abs t' = (st_abs t)(k \<mapsto> v)"
  proof
    fix k'
    show "st_abs t' k' = ((st_abs t)(k \<mapsto> v)) k'"
    proof (cases "k' = k")
      case True
      with sk st_abs_Some [OF inv', of k v] show ?thesis by auto
    next
      case False
      then have "(\<exists>i. st_entry t' i k' w) \<longleftrightarrow> (\<exists>i. st_entry t i k' w)" for w
        using pnl unfolding entry by (auto simp: st_entry_def)
      then have "st_abs t' k' = Some w \<longleftrightarrow> st_abs t k' = Some w" for w
        using st_abs_Some [OF inv'] st_abs_Some [OF inv] by metis
      then have "st_abs t' k' = st_abs t k'" by (metis not_None_eq)
      with False show ?thesis by simp
    qed
  qed
  show "st_clean t \<Longrightarrow> st_clean t'"
    unfolding st_clean_def cap using ctrl by (metis ctrl_for_hash_neq(2))
qed

lemma st_clean_has_empty:
  assumes "st_inv hash t" "st_clean t" "st_size t < st_capacity t"
  shows "\<exists>i < st_capacity t. st_ctrl t ! i = kCtrlEmpty"
proof (rule ccontr)
  assume "\<not> ?thesis"
  then have "st_live t i" if "i < st_capacity t" for i
    using that assms(1,2) ctrl_for_hash_live
    unfolding st_clean_def st_live_def st_inv_def st_shape_def by metis
  then have "{i. st_live t i} = {..<st_capacity t}" by (auto simp: st_live_def)
  with assms show False by (simp add: st_inv_def)
qed

lemma st_overwrite_spec:
  fixes t :: "('k, 'v) swiss" and v :: 'v
  assumes inv: "st_inv hash t" and e: "st_entry t i k v0"
  defines "t' \<equiv> t\<lparr>st_slots := (st_slots t)[i := Some (k, v)]\<rparr>"
  shows "st_inv hash t'" and "st_abs t' = (st_abs t)(k \<mapsto> v)" and "st_entry t' i k v"
    and "st_clean t' = st_clean t"
proof -
  have il: "i < st_capacity t" and si: "st_slots t ! i = Some (k, v0)"
    using e by (auto simp: st_entry_def st_live_def)
  have len: "length (st_slots t) = st_capacity t" using inv by (auto simp: st_inv_def st_shape_def)
  have cap [simp]: "st_capacity t' = st_capacity t" "st_ctrl t' = st_ctrl t" "st_size t' = st_size t"
    by (simp_all add: t'_def)
  have slot: "st_slots t' ! j = (if j = i then Some (k, v) else st_slots t ! j)" if "j < st_capacity t" for j
    using that il len by (simp add: t'_def)
  have live [simp]: "st_live t' = st_live t" by (auto simp: st_live_def fun_eq_iff)
  have entry: "st_entry t' j k' v' \<longleftrightarrow> (if j = i then k' = k \<and> v' = v else st_entry t j k' v')" for j k' v'
  proof (cases "j = i")
    case True
    with e il show ?thesis by (auto simp: st_entry_def slot)
  next
    case False
    then have "st_live t j \<Longrightarrow> st_slots t' ! j = st_slots t ! j" by (simp add: slot st_live_def)
    with False show ?thesis by (auto simp: st_entry_def)
  qed
  have nem [simp]: "no_empty_before t' = no_empty_before t" by (simp add: no_empty_before_def fun_eq_iff)
  have key: "(\<exists>w. st_entry t' j k' w) \<longleftrightarrow> (\<exists>w. st_entry t j k' w)" for j k'
    using e si unfolding entry by (cases "j = i") (auto simp: st_entry_def)
  have "st_shape hash t'"
    unfolding st_shape_def cap
  proof (intro conjI allI impI)
    show "length (st_ctrl t) = st_capacity t" "st_capacity t = 0 \<or> (\<exists>m. st_capacity t = 2 ^ m)"
      using inv by (auto simp: st_inv_def st_shape_def)
    show "length (st_slots t') = st_capacity t" by (simp add: t'_def len)
    fix j assume j: "j < st_capacity t"
    then show "st_ctrl t ! j = kCtrlEmpty \<or> st_ctrl t ! j = kCtrlDeleted \<or>
        (\<exists>k v. st_slots t' ! j = Some (k, v) \<and> st_ctrl t ! j = ctrl_for_hash (hash k))"
      using inv si unfolding slot [OF j] st_inv_def st_shape_def by (cases "j = i") auto
  qed
  moreover have "j = l" if "st_entry t' j k' v'" "st_entry t' l k' w'" for j l k' v' w'
  proof -
    from that key obtain w1 w2 where "st_entry t j k' w1" "st_entry t l k' w2" by metis
    with inv show ?thesis unfolding st_inv_def by blast
  qed
  moreover have "\<exists>d < st_capacity t. j = probe (st_capacity t) (unat (hash k')) d \<and>
      no_empty_before t (unat (hash k')) d" if "st_entry t' j k' v'" for j k' v'
  proof -
    from that key obtain w1 where "st_entry t j k' w1" by metis
    with inv show ?thesis unfolding st_inv_def by blast
  qed
  ultimately show inv': "st_inv hash t'" using inv unfolding st_inv_def by simp
  show se: "st_entry t' i k v" by (simp add: entry)
  show "st_clean t' = st_clean t" by (simp add: st_clean_def)
  show "st_abs t' = (st_abs t)(k \<mapsto> v)"
  proof
    fix k'
    show "st_abs t' k' = ((st_abs t)(k \<mapsto> v)) k'"
    proof (cases "k' = k")
      case True
      with se st_abs_Some [OF inv', of k v] show ?thesis by auto
    next
      case False
      then have "st_entry t' j k' w \<longleftrightarrow> st_entry t j k' w" for j w
        using si unfolding entry by (auto simp: st_entry_def)
      then have "st_abs t' k' = Some w \<longleftrightarrow> st_abs t k' = Some w" for w
        using st_abs_Some [OF inv'] st_abs_Some [OF inv] by metis
      with False show ?thesis by (metis fun_upd_apply not_None_eq)
    qed
  qed
qed

subsection \<open>Rehash\<close>

fun live_pairs :: "(8 word \<times> ('k \<times> 'v) option) list \<Rightarrow> ('k \<times> 'v) list" where
  "live_pairs [] = []"
| "live_pairs ((c, s) # rest) =
     (if c AND kCtrlLiveMask \<noteq> 0 then live_pairs rest
      else case s of None \<Rightarrow> live_pairs rest | Some e \<Rightarrow> e # live_pairs rest)"

lemma live_pairs_map:
  "(\<And>i. i \<in> set is \<Longrightarrow> f i AND kCtrlLiveMask = 0 \<Longrightarrow> g i \<noteq> None) \<Longrightarrow>
   live_pairs (map (\<lambda>i. (f i, g i)) is) = map (\<lambda>i. the (g i)) (filter (\<lambda>i. f i AND kCtrlLiveMask = 0) is)"
proof (induction "is")
  case (Cons a "is")
  then show ?case using Cons.prems [of a] by (cases "g a") auto
qed simp

lemma reinsert_spec:
  assumes "st_inv hash t" "st_clean t" "\<forall>(c, s) \<in> set xs. c AND kCtrlLiveMask = 0 \<longrightarrow> s \<noteq> None"
    and "distinct (map fst (live_pairs xs))" "\<forall>k \<in> fst ` set (live_pairs xs). st_abs t k = None"
    and "st_size t + length (live_pairs xs) < st_capacity t"
  shows "\<exists>t'. reinsert hash xs t = Some t' \<and> st_inv hash t' \<and> st_clean t' \<and> st_capacity t' = st_capacity t
    \<and> st_size t' = st_size t + length (live_pairs xs) \<and> st_abs t' = st_abs t ++ map_of (live_pairs xs)"
  using assms
proof (induction xs arbitrary: t rule: live_pairs.induct)
  case (2 c s rest)
  show ?case
  proof (cases "c AND kCtrlLiveMask = 0")
    case False
    with 2 show ?thesis by simp
  next
    case True
    with "2.prems" obtain k v where s: "s = Some (k, v)" by auto
    have absent: "st_abs t k = None" using "2.prems" True s by auto
    obtain i where "i < st_capacity t" "st_ctrl t ! i = kCtrlEmpty"
      using st_clean_has_empty [of hash t] "2.prems" by auto
    from find_or_insert_absent [OF "2.prems"(1) absent this] obtain d p where
      f: "find_or_insert hash t k = Some (p, True, t\<lparr>st_ctrl := (st_ctrl t)[p := ctrl_for_hash (hash k)]\<rparr>)"
      and p: "p = probe (st_capacity t) (unat (hash k)) d" "d < st_capacity t" "no_empty_before t (unat (hash k)) d"
        "st_ctrl t ! p = kCtrlEmpty \<or> st_ctrl t ! p = kCtrlDeleted" by blast
    let ?t = "st_store (ctrl_for_hash (hash k)) p k v t"
    note st = st_store_spec [OF "2.prems"(1) absent p, where v = v]
    have step: "reinsert hash ((c, s) # rest) t = reinsert hash rest ?t"
      using True s f by (simp add: st_store_def)
    have c: "st_capacity ?t = st_capacity t" "st_size ?t = st_size t + 1" by (simp_all add: st_store_def)
    have "\<exists>t'. reinsert hash rest ?t = Some t' \<and> st_inv hash t' \<and> st_clean t' \<and> st_capacity t' = st_capacity ?t
      \<and> st_size t' = st_size ?t + length (live_pairs rest) \<and> st_abs t' = st_abs ?t ++ map_of (live_pairs rest)"
    proof (rule "2.IH"(3) [OF _ s])
      show "\<not> c AND kCtrlLiveMask \<noteq> 0" using True by simp
      show "st_inv hash ?t" "st_clean ?t" using st "2.prems"(2) by auto
      show "\<forall>k \<in> fst ` set (live_pairs rest). st_abs ?t k = None"
        using "2.prems"(4,5) True s unfolding st(2) by force
    qed (use "2.prems"(3,4,6) True s c in auto)
    moreover have "st_abs ?t ++ map_of (live_pairs rest) = st_abs t ++ map_of (live_pairs ((c, s) # rest))"
    proof -
      have "k \<notin> dom (map_of (live_pairs rest))"
        using "2.prems"(4) True s by (auto simp: dom_map_of_conv_image_fst)
      then show ?thesis using True s by (auto simp: st(2) fun_eq_iff map_add_def dom_def split: option.splits)
    qed
    moreover have "length (live_pairs ((c, s) # rest)) = length (live_pairs rest) + 1" using True s by simp
    ultimately show ?thesis using c unfolding step by (auto simp del: live_pairs.simps)
  qed
qed auto

lemma st_empty_inv:
  assumes "cap = 2 ^ m"
  shows "st_inv hash \<lparr>st_ctrl = replicate cap kCtrlEmpty, st_slots = replicate cap None, st_capacity = cap, st_size = 0\<rparr>"
    and "st_clean \<lparr>st_ctrl = replicate cap kCtrlEmpty, st_slots = replicate cap None, st_capacity = cap, st_size = 0\<rparr>"
    and "st_abs \<lparr>st_ctrl = replicate cap kCtrlEmpty, st_slots = replicate cap None, st_capacity = cap, st_size = 0\<rparr> = Map.empty"
  using assms
  by (auto simp: ctrl_for_hash_neq(5) [symmetric] st_inv_def st_shape_def st_clean_def st_abs_def st_entry_def st_live_def fun_eq_iff
      ctrl_not_live(1))

lemma st_live_pairs:
  assumes "st_inv hash t"
  defines "xs \<equiv> zip (st_ctrl t) (st_slots t)"
  shows "\<forall>(c, s) \<in> set xs. c AND kCtrlLiveMask = 0 \<longrightarrow> s \<noteq> None"
    and "distinct (map fst (live_pairs xs))" and "length (live_pairs xs) = st_size t"
    and "map_of (live_pairs xs) = st_abs t"
proof -
  have len: "length (st_ctrl t) = st_capacity t" "length (st_slots t) = st_capacity t"
    using assms(1) by (auto simp: st_inv_def st_shape_def)
  have xs: "xs = map (\<lambda>i. (st_ctrl t ! i, st_slots t ! i)) [0..<st_capacity t]"
    unfolding xs_def using len by (intro nth_equalityI) auto
  have some: "\<exists>k v. st_slots t ! i = Some (k, v)" if "i < st_capacity t" "st_ctrl t ! i AND kCtrlLiveMask = 0" for i
    using assms(1) that ctrl_not_live unfolding st_inv_def st_shape_def by metis
  then show "\<forall>(c, s) \<in> set xs. c AND kCtrlLiveMask = 0 \<longrightarrow> s \<noteq> None"
    unfolding xs by fastforce
  let ?is = "filter (st_live t) [0..<st_capacity t]"
  have lp: "live_pairs xs = map (\<lambda>i. the (st_slots t ! i)) ?is"
  proof -
    have "filter (\<lambda>i. st_ctrl t ! i AND kCtrlLiveMask = 0) [0..<st_capacity t] = ?is"
      by (rule filter_cong) (auto simp: st_live_def)
    then show ?thesis unfolding xs using some by (subst live_pairs_map) fastforce+
  qed
  have mem: "(k, v) \<in> set (live_pairs xs) \<longleftrightarrow> (\<exists>i. st_entry t i k v)" for k v
    unfolding lp using some by (fastforce simp: st_entry_def st_live_def image_iff)
  have ent: "st_entry t i (fst (the (st_slots t ! i))) (snd (the (st_slots t ! i)))" if "st_live t i" for i
    using that some by (fastforce simp: st_entry_def st_live_def)
  have "inj_on (\<lambda>i. fst (the (st_slots t ! i))) {i. st_live t i}"
    using ent assms(1) unfolding st_inv_def inj_on_def by (metis mem_Collect_eq)
  then show dis: "distinct (map fst (live_pairs xs))"
    unfolding lp by (auto simp: distinct_map inj_on_def)
  have "{i. st_live t i} = set ?is" by (auto simp: st_live_def)
  then have "card {i. st_live t i} = length ?is" by (metis distinct_card distinct_filter distinct_upt)
  then show "length (live_pairs xs) = st_size t" using assms(1) by (simp add: lp st_inv_def)
  show "map_of (live_pairs xs) = st_abs t"
  proof
    fix k
    have "map_of (live_pairs xs) k = Some v \<longleftrightarrow> st_abs t k = Some v" for v
      using mem [of k v] st_abs_Some [OF assms(1)] dis by (metis map_of_eq_Some_iff)
    then show "map_of (live_pairs xs) k = st_abs t k" by (metis not_None_eq)
  qed
qed

definition st_ok :: "('k \<Rightarrow> 64 word) \<Rightarrow> ('k, 'v) swiss \<Rightarrow> bool" where
  "st_ok hash t \<longleftrightarrow> st_inv hash t \<and> st_clean t"

lemma st_rehash_spec:
  assumes "st_inv hash t" "cap = 2 ^ m" "st_size t < cap"
  shows "\<exists>t'. st_rehash hash cap t = Some t' \<and> st_ok hash t' \<and> st_capacity t' = cap
    \<and> st_size t' = st_size t \<and> st_abs t' = st_abs t"
proof -
  let ?e = "\<lparr>st_ctrl = replicate cap kCtrlEmpty, st_slots = replicate cap None, st_capacity = cap, st_size = 0\<rparr>
    :: ('a, 'b) swiss"
  have e: "st_inv hash ?e" "st_clean ?e" "st_abs ?e = Map.empty"
    using assms(2) by (auto intro: st_empty_inv)
  note l = st_live_pairs [OF assms(1)]
  have "\<exists>t'. reinsert hash (zip (st_ctrl t) (st_slots t)) ?e = Some t' \<and> st_inv hash t' \<and> st_clean t' \<and>
      st_capacity t' = st_capacity ?e \<and> st_size t' = st_size ?e + length (live_pairs (zip (st_ctrl t) (st_slots t)))
      \<and> st_abs t' = st_abs ?e ++ map_of (live_pairs (zip (st_ctrl t) (st_slots t)))"
    by (rule reinsert_spec [OF e(1,2) l(1,2)]) (use l(3) assms(3) in \<open>simp_all add: e(3)\<close>)
  then show ?thesis unfolding e(3) using l(3,4) by (auto simp: st_rehash_def st_ok_def)
qed

subsection \<open>Insertion\<close>

lemma st_new_ok: "st_ok hash st_new" "st_abs st_new = Map.empty"
  by (auto simp: st_ok_def st_new_def st_inv_def st_shape_def st_clean_def st_abs_def st_entry_def st_live_def)

lemma find_or_insert_store:
  assumes "st_inv hash t" "st_abs t k = None" "i < st_capacity t" "st_ctrl t ! i = kCtrlEmpty"
  shows "\<exists>d p. find_or_insert hash t k = Some (p, True, t\<lparr>st_ctrl := (st_ctrl t)[p := ctrl_for_hash (hash k)]\<rparr>)
    \<and> st_inv hash (st_store (ctrl_for_hash (hash k)) p k v t)
    \<and> st_abs (st_store (ctrl_for_hash (hash k)) p k v t) = (st_abs t)(k \<mapsto> v)
    \<and> st_entry (st_store (ctrl_for_hash (hash k)) p k v t) p k v
    \<and> (st_clean t \<longrightarrow> st_clean (st_store (ctrl_for_hash (hash k)) p k v t))"
  using find_or_insert_absent [OF assms] st_store_spec [OF assms(1,2), of _ _ v] by metis

definition st_grown :: "('k \<Rightarrow> 64 word) \<Rightarrow> ('k, 'v) swiss \<Rightarrow> ('k, 'v) swiss option" where
  "st_grown hash t = (if (st_size t + 1) * 8 \<ge> st_capacity t * 7
     then st_rehash hash (if st_capacity t = 0 then 16 else st_capacity t * 2) t else Some t)"

lemma st_emplace_grown:
  "st_emplace hash k v t = Option.bind (st_grown hash t)
       (\<lambda>t1. case find_or_insert hash t1 k of
          None \<Rightarrow> None
        | Some (pos, True, t2) \<Rightarrow>
            Some (pos, True, t2\<lparr>st_slots := (st_slots t2)[pos := Some (k, v)], st_size := st_size t2 + 1\<rparr>)
        | Some (pos, False, t2) \<Rightarrow>
            Some (pos, False, t2\<lparr>st_slots := (st_slots t2)[pos := map_option (\<lambda>e. (fst e, v)) (st_slots t2 ! pos)]\<rparr>))"
  by (simp add: st_emplace_def st_grown_def)

lemma st_size_le:
  assumes "st_inv hash t" shows "st_size t \<le> st_capacity t"
proof -
  have "{i. st_live t i} \<subseteq> {..<st_capacity t}" by (auto simp: st_live_def)
  from card_mono [OF _ this] assms show ?thesis by (simp add: st_inv_def)
qed

lemma st_grown_rehash:
  assumes "st_inv hash t" "(st_size t + 1) * 8 \<ge> st_capacity t * 7"
  shows "\<exists>t'. st_grown hash t = Some t' \<and> st_ok hash t' \<and> st_abs t' = st_abs t \<and> st_size t' < st_capacity t'"
proof -
  let ?cap = "if st_capacity t = 0 then 16 else st_capacity t * 2"
  have "\<exists>m. ?cap = 2 ^ m"
  proof (cases "st_capacity t = 0")
    case True
    then show ?thesis by (auto intro: exI [of _ 4])
  next
    case False
    then obtain m where "st_capacity t = 2 ^ m" using assms(1) by (auto simp: st_inv_def st_shape_def)
    then show ?thesis using False by (auto intro: exI [of _ "Suc m"])
  qed
  moreover have "st_size t < ?cap" using st_size_le [OF assms(1)] by auto
  ultimately show ?thesis using st_rehash_spec [OF assms(1), of ?cap] assms(2) unfolding st_grown_def by fastforce
qed

lemma st_emplace_spec:
  assumes "st_inv hash t"
    and "st_clean t \<or> (st_size t + 1) * 8 \<ge> st_capacity t * 7 \<or> st_abs t k \<noteq> None
      \<or> (\<exists>i < st_capacity t. st_ctrl t ! i = kCtrlEmpty)"
  shows "\<exists>pos t'. st_emplace hash k v t = Some (pos, st_abs t k = None, t') \<and> st_inv hash t'
    \<and> st_abs t' = (st_abs t)(k \<mapsto> v) \<and> st_entry t' pos k v \<and> (st_clean t \<longrightarrow> st_clean t')"
proof -
  have "\<exists>t1. st_grown hash t = Some t1 \<and> st_inv hash t1 \<and> st_abs t1 = st_abs t \<and> (st_clean t \<longrightarrow> st_clean t1)
    \<and> (st_abs t k \<noteq> None \<or> (\<exists>i < st_capacity t1. st_ctrl t1 ! i = kCtrlEmpty))"
  proof (cases "(st_size t + 1) * 8 \<ge> st_capacity t * 7")
    case True
    from st_grown_rehash [OF assms(1) this] st_clean_has_empty show ?thesis unfolding st_ok_def by metis
  next
    case False
    then have "st_size t < st_capacity t" by simp
    with False st_clean_has_empty [OF assms(1)] assms show ?thesis unfolding st_grown_def by auto
  qed
  then obtain t1 where t1: "st_grown hash t = Some t1" "st_inv hash t1" "st_abs t1 = st_abs t" "st_clean t \<longrightarrow> st_clean t1"
    and room: "st_abs t k \<noteq> None \<or> (\<exists>i < st_capacity t1. st_ctrl t1 ! i = kCtrlEmpty)" by blast
  show ?thesis
  proof (cases "st_abs t k")
    case None
    with room obtain i where i: "i < st_capacity t1" "st_ctrl t1 ! i = kCtrlEmpty" by auto
    from find_or_insert_store [OF t1(2) _ i, of k v] None t1(3) obtain p where
      f: "find_or_insert hash t1 k = Some (p, True, t1\<lparr>st_ctrl := (st_ctrl t1)[p := ctrl_for_hash (hash k)]\<rparr>)"
      and s: "st_inv hash (st_store (ctrl_for_hash (hash k)) p k v t1)"
        "st_abs (st_store (ctrl_for_hash (hash k)) p k v t1) = (st_abs t1)(k \<mapsto> v)"
        "st_entry (st_store (ctrl_for_hash (hash k)) p k v t1) p k v"
        "st_clean t1 \<longrightarrow> st_clean (st_store (ctrl_for_hash (hash k)) p k v t1)" by auto
    have "st_emplace hash k v t = Some (p, True, st_store (ctrl_for_hash (hash k)) p k v t1)"
      unfolding st_emplace_grown t1(1) by (simp add: f st_store_def)
    with s t1 None show ?thesis by auto
  next
    case (Some v0)
    then obtain i where e: "st_entry t1 i k v0" using st_abs_Some [OF t1(2), of k v0] t1(3) by auto
    have "st_slots t1 ! i = Some (k, v0)" using e by (simp add: st_entry_def)
    then have "st_emplace hash k v t = Some (i, False, t1\<lparr>st_slots := (st_slots t1)[i := Some (k, v)]\<rparr>)"
      unfolding st_emplace_grown t1(1) by (simp add: find_or_insert_present [OF t1(2) e])
    with st_overwrite_spec [OF t1(2) e, of v] t1 Some show ?thesis by auto
  qed
qed

lemma st_emplace_stuck:
  assumes "st_inv hash t" "(st_size t + 1) * 8 < st_capacity t * 7" "st_abs t k = None"
    and "\<And>i. i < st_capacity t \<Longrightarrow> st_ctrl t ! i \<noteq> kCtrlEmpty"
  shows "st_emplace hash k v t = None"
  using find_or_insert_full [OF assms(1,3,4)] assms(2)
  by (simp add: st_emplace_grown st_grown_def)

subsection \<open>Reserve, erase, clear, iterate\<close>

lemma bit_ceil_from_pow2: "\<exists>m. bit_ceil_from (2 ^ j) n = 2 ^ m"
proof (induction "n - 2 ^ j" arbitrary: j rule: less_induct)
  case less
  show ?case
  proof (cases "n \<le> 2 ^ j")
    case True
    then show ?thesis by (subst bit_ceil_from.simps) auto
  next
    case False
    have "bit_ceil_from (2 ^ j) n = bit_ceil_from (2 ^ Suc j) n"
      using False by (subst bit_ceil_from.simps) simp
    moreover have "n - 2 ^ Suc j < n - 2 ^ j" using False by (intro diff_less_mono2) auto
    ultimately show ?thesis using less by metis
  qed
qed

lemma bit_ceil_pow2: "\<exists>m. bit_ceil n = 2 ^ m"
  using bit_ceil_from_pow2 [of 0] by (simp add: bit_ceil_def)

lemma st_reserve_spec:
  assumes "st_inv hash t"
  shows "\<exists>t'. st_reserve hash n t = Some t' \<and> st_inv hash t' \<and> (st_clean t \<longrightarrow> st_clean t') \<and> st_abs t' = st_abs t
    \<and> st_capacity t' \<ge> max 16 (bit_ceil ((n * 8 + 6) div 7))"
proof -
  let ?c = "max 16 (bit_ceil ((n * 8 + 6) div 7))"
  obtain m where "bit_ceil ((n * 8 + 6) div 7) = 2 ^ m" using bit_ceil_pow2 by blast
  then have "?c = 2 ^ max 4 m"
    by (cases "4 \<le> m") (simp_all add: max_def power_increasing_iff [of "2 :: nat" 4, simplified])
  then obtain j where "?c = 2 ^ j" by blast
  moreover have "st_size t \<le> st_capacity t" using assms st_size_le by (auto simp: st_ok_def)
  ultimately show ?thesis using st_rehash_spec [of hash t ?c] assms
    unfolding st_reserve_def Let_def st_ok_def by (cases "?c > st_capacity t") fastforce+
qed

lemma st_tombstone_spec:
  fixes t :: "('k, 'v) swiss"
  assumes inv: "st_inv hash t" and e: "st_entry t i k v"
  defines "t' \<equiv> t\<lparr>st_ctrl := (st_ctrl t)[i := kCtrlDeleted], st_size := st_size t - 1\<rparr>"
  shows "st_inv hash t'" and "st_abs t' = (st_abs t)(k := None)"
proof -
  have il: "i < st_capacity t" and li: "st_live t i" and si: "st_slots t ! i = Some (k, v)"
    using e by (auto simp: st_entry_def st_live_def)
  have len: "length (st_ctrl t) = st_capacity t" using inv by (auto simp: st_inv_def st_shape_def)
  have cap [simp]: "st_capacity t' = st_capacity t" "st_slots t' = st_slots t" by (simp_all add: t'_def)
  have ctrl: "st_ctrl t' ! j = (if j = i then kCtrlDeleted else st_ctrl t ! j)" if "j < st_capacity t" for j
    using that len by (simp add: t'_def)
  have live: "st_live t' j \<longleftrightarrow> j \<noteq> i \<and> st_live t j" for j
    using ctrl [of j] by (auto simp: st_live_def split: if_splits)
  have entry: "st_entry t' j k' v' \<longleftrightarrow> j \<noteq> i \<and> st_entry t j k' v'" for j k' v'
    by (auto simp: st_entry_def live)
  have nem: "no_empty_before t' h d" if "no_empty_before t h d" for h d
  proof -
    have "st_ctrl t' ! probe (st_capacity t) h x \<noteq> kCtrlEmpty" if "x < d" for x
      using \<open>no_empty_before t h d\<close> that ctrl [of "probe (st_capacity t) h x"] il
      by (simp add: no_empty_before_def probe_less)
    then show ?thesis by (simp add: no_empty_before_def)
  qed
  have "st_shape hash t'"
    using inv ctrl len unfolding st_shape_def st_inv_def cap by (simp add: t'_def)
  moreover have "\<exists>d < st_capacity t. j = probe (st_capacity t) (unat (hash k')) d \<and>
      no_empty_before t' (unat (hash k')) d" if "st_entry t' j k' v'" for j k' v'
    using that inv nem unfolding entry st_inv_def by blast
  moreover have "j = l" if "st_entry t' j k' v'" "st_entry t' l k' w'" for j l k' v' w'
    using that inv unfolding entry st_inv_def by blast
  moreover have "st_size t' = card {j. st_live t' j}"
  proof -
    have "{j. st_live t' j} = {j. st_live t j} - {i}" using live by auto
    then have "card {j. st_live t' j} = card {j. st_live t j} - 1" using li by simp
    with inv show ?thesis by (simp add: t'_def st_inv_def)
  qed
  ultimately show inv': "st_inv hash t'" unfolding st_inv_def cap by blast
  show "st_abs t' = (st_abs t)(k := None)"
  proof
    fix k'
    have "st_abs t' k' = Some w \<longleftrightarrow> k' \<noteq> k \<and> st_abs t k' = Some w" for w
    proof -
      have "(\<exists>j. st_entry t' j k' w) \<longleftrightarrow> k' \<noteq> k \<and> (\<exists>j. st_entry t j k' w)"
        using e inv si unfolding entry st_inv_def by (metis option.inject prod.inject st_entry_def)
      then show ?thesis using st_abs_Some [OF inv'] st_abs_Some [OF inv] by simp
    qed
    then show "st_abs t' k' = ((st_abs t)(k := None)) k'" by (metis fun_upd_apply not_None_eq)
  qed
qed

lemma st_erase_spec:
  assumes "st_inv hash t"
  shows "st_inv hash (st_erase hash k t)" "st_abs (st_erase hash k t) = (st_abs t)(k := None)"
proof -
  have "st_inv hash (st_erase hash k t) \<and> st_abs (st_erase hash k t) = (st_abs t)(k := None)"
  proof (cases "st_find hash t k")
    case None
    then have "st_abs t k = None" using st_find_spec [OF assms] by (metis option.distinct(1) st_abs_None)
    with None assms show ?thesis by (auto simp: st_erase_def)
  next
    case (Some i)
    then obtain v where "st_entry t i k v" using st_find_spec [OF assms] by blast
    from st_tombstone_spec [OF assms this] Some show ?thesis by (simp add: st_erase_def)
  qed
  then show "st_inv hash (st_erase hash k t)" "st_abs (st_erase hash k t) = (st_abs t)(k := None)" by auto
qed

lemma st_clear_spec:
  assumes "st_inv hash t"
  shows "st_ok hash (st_clear t)" "st_abs (st_clear t) = Map.empty"
  using assms
  by (auto simp: st_ok_def st_clear_def ctrl_for_hash_neq(5) [symmetric] st_inv_def st_shape_def st_clean_def
      st_abs_def st_entry_def st_live_def fun_eq_iff ctrl_not_live(1))

lemma st_for_each_spec:
  assumes "st_inv hash t"
  shows "set (st_for_each t) = {Some (k, v) | k v. st_abs t k = Some v}" "distinct (st_for_each t)"
proof -
  have some: "\<exists>k v. st_entry t i k v" if "st_live t i" for i
    using assms that ctrl_not_live unfolding st_inv_def st_shape_def st_live_def st_entry_def by metis
  have fe: "st_for_each t = map (\<lambda>i. st_slots t ! i) (filter (st_live t) [0..<st_capacity t])"
    unfolding st_for_each_def by (rule arg_cong [where f = "map _"], rule filter_cong) (auto simp: st_live_def)
  have "x \<in> set (st_for_each t) \<longleftrightarrow> (\<exists>i k v. st_entry t i k v \<and> x = Some (k, v))" for x
  proof -
    have "x \<in> set (st_for_each t) \<longleftrightarrow> (\<exists>i. st_live t i \<and> x = st_slots t ! i)"
      unfolding fe by (auto simp: st_live_def)
    also have "\<dots> \<longleftrightarrow> (\<exists>i k v. st_entry t i k v \<and> x = Some (k, v))"
      using some unfolding st_entry_def by fastforce
    finally show ?thesis .
  qed
  then show "set (st_for_each t) = {Some (k, v) | k v. st_abs t k = Some v}"
    using st_abs_Some [OF assms] by blast
  have "inj_on (\<lambda>i. st_slots t ! i) {i. st_live t i}"
  proof (rule inj_onI)
    fix i j assume ij: "i \<in> {i. st_live t i}" "j \<in> {i. st_live t i}" "st_slots t ! i = st_slots t ! j"
    then obtain k v where "st_entry t i k v" using some [of i] by blast
    with ij have "st_entry t j k v" by (auto simp: st_entry_def)
    with \<open>st_entry t i k v\<close> assms show "i = j" unfolding st_inv_def by blast
  qed
  then show "distinct (st_for_each t)" unfolding fe by (auto simp: distinct_map inj_on_def)
qed

subsection \<open>The interface to the interning tables\<close>

text \<open>
  What \<open>StringIntern.cpp\<close> and \<open>Types.cpp\<close> rely on: a map that starts empty and is only
  ever looked up and inserted into.
\<close>

locale insert_map =
  fixes inv :: "'m \<Rightarrow> bool" and get :: "'m \<Rightarrow> 'k \<Rightarrow> 'v option" and put :: "'k \<Rightarrow> 'v \<Rightarrow> 'm \<Rightarrow> 'm option"
    and empty :: 'm
  assumes inv_empty: "inv empty" and get_empty: "get empty k = None"
    and put_ok: "inv m \<Longrightarrow> \<exists>m'. put k v m = Some m' \<and> inv m' \<and> get m' = (get m)(k \<mapsto> v)"
begin

fun puts :: "('k \<times> 'v) list \<Rightarrow> 'm \<Rightarrow> 'm option" where
  "puts [] m = Some m"
| "puts ((k, v) # xs) m = Option.bind (put k v m) (puts xs)"

lemma puts_ok: "inv m \<Longrightarrow> \<exists>m'. puts xs m = Some m' \<and> inv m' \<and> get m' = get m ++ map_of (rev xs)"
proof (induction xs m rule: puts.induct)
  case (2 k v xs m)
  from put_ok [OF "2.prems", of k v] obtain m1 where
    m1: "put k v m = Some m1" "inv m1" "get m1 = (get m)(k \<mapsto> v)" by blast
  from "2.IH" [OF m1(1,2)] obtain m2 where m2: "puts xs m1 = Some m2" "inv m2" "get m2 = get m1 ++ map_of (rev xs)"
    by blast
  have "get m2 = get m ++ map_of (rev ((k, v) # xs))"
    unfolding m2(3) m1(3) by (simp add: fun_eq_iff map_add_def split: option.splits)
  with m1(1) m2(1,2) show ?case by simp
qed simp

end

interpretation sw: insert_map "st_ok hash" "st_get hash" "\<lambda>k v t. map_option snd (st_insert hash k v t)" st_new
  for hash :: "'k \<Rightarrow> 64 word"
proof
  show "st_ok hash st_new" by (rule st_new_ok)
  show "st_get hash st_new k = None" for k by (simp add: st_get_def st_find_def st_new_def)
  fix t :: "('k, 'v) swiss" and k v assume ok: "st_ok hash t"
  then obtain pos t' where t': "st_emplace hash k v t = Some (pos, st_abs t k = None, t')" "st_inv hash t'"
    "st_abs t' = (st_abs t)(k \<mapsto> v)" "st_clean t'"
    using st_emplace_spec [of hash t k v] unfolding st_ok_def by blast
  moreover have "st_get hash t = st_abs t" "st_get hash t' = st_abs t'"
    using ok t' by (auto simp: st_get_abs st_ok_def)
  ultimately show "\<exists>m'. map_option snd (st_insert hash k v t) = Some m' \<and> st_ok hash m' \<and> st_get hash m' = (st_get hash t)(k \<mapsto> v)"
    by (simp add: st_insert_def st_ok_def)
qed

subsection \<open>Sequences of operations\<close>

datatype ('k, 'v) swiss_op = SInsert 'k 'v | SErase 'k | SClear | SReserve nat

fun st_step :: "('k \<Rightarrow> 64 word) \<Rightarrow> ('k, 'v) swiss_op \<Rightarrow> ('k, 'v) swiss \<Rightarrow> ('k, 'v) swiss option" where
  "st_step hash (SInsert k v) t = map_option snd (st_insert hash k v t)"
| "st_step hash (SErase k) t = Some (st_erase hash k t)"
| "st_step hash SClear t = Some (st_clear t)"
| "st_step hash (SReserve n) t = st_reserve hash n t"

fun st_run :: "('k \<Rightarrow> 64 word) \<Rightarrow> ('k, 'v) swiss_op list \<Rightarrow> ('k, 'v) swiss \<Rightarrow> ('k, 'v) swiss option" where
  "st_run hash [] t = Some t"
| "st_run hash (x # xs) t = Option.bind (st_step hash x t) (st_run hash xs)"

fun map_op :: "('k, 'v) swiss_op \<Rightarrow> ('k \<Rightarrow> 'v option) \<Rightarrow> 'k \<Rightarrow> 'v option" where
  "map_op (SInsert k v) m = m(k \<mapsto> v)"
| "map_op (SErase k) m = m(k := None)"
| "map_op SClear m = Map.empty"
| "map_op (SReserve n) m = m"

text \<open>The number of slots that hold a tombstone is at most the number of erasures.\<close>

lemma st_insert_cases:
  assumes "st_inv hash t" "st_insert hash k v t = Some (b, t')"
  shows "st_inv hash t' \<and> st_abs t' = (st_abs t)(k \<mapsto> v) \<and> (b \<longleftrightarrow> st_abs t k = None)"
proof -
  have "st_clean t \<or> (st_size t + 1) * 8 \<ge> st_capacity t * 7 \<or> st_abs t k \<noteq> None
      \<or> (\<exists>i < st_capacity t. st_ctrl t ! i = kCtrlEmpty)"
    using st_emplace_stuck [OF assms(1), of k v] assms(2) by (force simp: st_insert_def)
  from st_emplace_spec [OF assms(1) this, of v] assms(2) show ?thesis by (auto simp: st_insert_def)
qed

lemma st_step_abs:
  assumes "st_inv hash t" "st_step hash x t = Some t'"
  shows "st_inv hash t' \<and> st_abs t' = map_op x (st_abs t)"
proof (cases x)
  case (SReserve n)
  with assms(2) st_reserve_spec [OF assms(1), of n] show ?thesis by auto
qed (use assms(2) st_insert_cases [OF assms(1)] st_erase_spec [OF assms(1)] st_clear_spec [OF assms(1)]
  in \<open>auto simp: st_ok_def\<close>)

lemma st_run_abs:
  assumes "st_inv hash t" "st_run hash xs t = Some t'"
  shows "st_inv hash t' \<and> st_abs t' = fold map_op xs (st_abs t)"
  using assms
proof (induction xs arbitrary: t)
  case (Cons x xs)
  from Cons.prems obtain t1 where t1: "st_step hash x t = Some t1" "st_run hash xs t1 = Some t'"
    by (auto simp: bind_eq_Some_conv)
  from st_step_abs [OF Cons.prems(1) t1(1)] Cons.IH [OF _ t1(2)] show ?case by simp
qed simp

lemma st_step_total:
  assumes "st_ok hash t" "\<And>k. x \<noteq> SErase k"
  shows "\<exists>t'. st_step hash x t = Some t' \<and> st_ok hash t'"
  using assms sw.put_ok [OF assms(1)] st_reserve_spec [of hash t] st_clear_spec [of hash t]
  by (cases x) (fastforce simp: st_ok_def)+

lemma st_run_total: "st_ok hash t \<Longrightarrow> (\<And>k. SErase k \<notin> set xs) \<Longrightarrow> \<exists>t'. st_run hash xs t = Some t'"
proof (induction xs arbitrary: t)
  case (Cons x xs)
  have "\<And>k. x \<noteq> SErase k" using Cons.prems(2) by (metis list.set_intros(1))
  from st_step_total [OF Cons.prems(1) this] obtain t1 where "st_step hash x t = Some t1" "st_ok hash t1" by blast
  with Cons.IH [of t1] Cons.prems(2) show ?case by auto
qed simp

lemma st_size_dom:
  assumes "st_inv hash t"
  shows "st_size t = card (dom (st_abs t))"
proof -
  note l = st_live_pairs [OF assms]
  have "dom (st_abs t) = fst ` set (live_pairs (zip (st_ctrl t) (st_slots t)))"
    using l(4) by (metis dom_map_of_conv_image_fst)
  with l(2,3) show ?thesis by (metis distinct_card length_map list.set_map)
qed

text \<open>
  C30. A \<open>SwissTable\<close> that starts empty and runs any sequence of insertions, erasures,
  clears and reservations is the finite map that the sequence denotes, for every hash
  functor: if no call runs into \<open>__builtin_unreachable\<close>, then \<open>find\<close>/\<open>get\<close> answer the
  map, \<open>size\<close> is the number of its keys and \<open>for_each\<close> visits each entry exactly once; and
  without erasures no call ever does.
\<close>

theorem swiss_run_refines:
  "(\<forall>t. st_run hash ops st_new = Some t \<longrightarrow>
      st_get hash t = fold map_op ops Map.empty \<and>
      st_contains hash t = (\<lambda>k. fold map_op ops Map.empty k \<noteq> None) \<and>
      st_size t = card (dom (fold map_op ops Map.empty)) \<and>
      distinct (st_for_each t) \<and>
      set (st_for_each t) = {Some (k, v) | k v. fold map_op ops Map.empty k = Some v}) \<and>
   ((\<forall>k. SErase k \<notin> set ops) \<longrightarrow> (\<exists>t. st_run hash ops st_new = Some t))"
proof (intro conjI allI impI)
  fix t assume r: "st_run hash ops st_new = Some t"
  have "st_inv hash (st_new :: ('a, 'b) swiss)" using st_new_ok(1) by (auto simp: st_ok_def)
  from st_run_abs [OF this r] have inv: "st_inv hash t" and abs: "st_abs t = fold map_op ops Map.empty"
    by (auto simp: st_new_ok(2))
  show "st_get hash t = fold map_op ops Map.empty" using st_get_abs [OF inv] abs by auto
  then show "st_contains hash t = (\<lambda>k. fold map_op ops Map.empty k \<noteq> None)"
    using st_find_spec [OF inv] unfolding abs [symmetric] by (auto simp: st_contains_def fun_eq_iff st_abs_None)
  show "st_size t = card (dom (fold map_op ops Map.empty))" using st_size_dom [OF inv] abs by simp
  show "distinct (st_for_each t)"
    and "set (st_for_each t) = {Some (k, v) | k v. fold map_op ops Map.empty k = Some v}"
    using st_for_each_spec [OF inv] abs by auto
next
  assume "\<forall>k. SErase k \<notin> set ops"
  then show "\<exists>t. st_run hash ops st_new = Some t" using st_run_total [OF st_new_ok(1)] by blast
qed

theorem swiss_run_refines_witness:
  "\<exists>t. st_run of_nat [SInsert (1 :: nat) (10 :: nat), SErase 1, SInsert 2 20, SInsert 2 30] st_new = Some t
     \<and> st_get of_nat t = [2 \<mapsto> 30] \<and> st_size t = 1"
proof -
  have "\<not> Option.is_none (st_run of_nat [SInsert (1 :: nat) (10 :: nat), SErase 1, SInsert 2 20, SInsert 2 30] st_new)"
    by code_simp
  then obtain t where "st_run of_nat [SInsert (1 :: nat) (10 :: nat), SErase 1, SInsert 2 20, SInsert 2 30] st_new = Some t"
    by (auto simp: Option.is_none_def)
  with swiss_run_refines [of of_nat "[SInsert (1 :: nat) (10 :: nat), SErase 1, SInsert 2 20, SInsert 2 30]"]
  show ?thesis by (auto simp: fun_eq_iff)
qed


end
