(* ===== verification/NodeKinds.thy ===== *)
theory NodeKinds
  imports Prelude
begin

section \<open>Node kinds and effect classes\<close>

text \<open>
  \<open>compiler/ir/include/aegis/ir/NodeKind.hpp\<close>: the closed enumeration of node kinds (the
  constructors carry the prefix \<open>NK_\<close>), its numbering, its printable names, and the effect
  class that every kind belongs to.
\<close>

datatype node_kind =
  NK_Start | NK_Region | NK_Loop | NK_If | NK_Proj | NK_Return | NK_Branch | NK_Stop
  | NK_Constant | NK_Parameter | NK_Phi | NK_Add | NK_Sub | NK_Mul | NK_Div | NK_UDiv | NK_Mod
  | NK_UMod | NK_And | NK_Or | NK_Xor | NK_Shl | NK_Shr | NK_LShr | NK_CmpEq | NK_CmpNe
  | NK_CmpLt | NK_CmpLe | NK_CmpGt | NK_CmpGe | NK_CmpUlt | NK_CmpUle | NK_CmpUgt | NK_CmpUge
  | NK_Neg | NK_Not | NK_BitNot | NK_Load | NK_Store | NK_Alloc | NK_StackAlloc
  | NK_GetElementPtr | NK_GetFieldPtr | NK_Cast | NK_Select | NK_CallPure | NK_CallAltered
  | NK_CallCrowded | NK_AtomicLoad | NK_AtomicStore | NK_AtomicRMW | NK_Fence | NK_Guard
  | NK_Deopt | NK_FrameState | NK_ProfiledEntry | NK_MachineOp

datatype effect_class = Pure | Altered | Crowded

primrec node_kind_code :: "node_kind \<Rightarrow> nat" where
  "node_kind_code NK_Start = 0"
| "node_kind_code NK_Region = 1"
| "node_kind_code NK_Loop = 2"
| "node_kind_code NK_If = 3"
| "node_kind_code NK_Proj = 4"
| "node_kind_code NK_Return = 5"
| "node_kind_code NK_Branch = 6"
| "node_kind_code NK_Stop = 7"
| "node_kind_code NK_Constant = 10"
| "node_kind_code NK_Parameter = 11"
| "node_kind_code NK_Phi = 12"
| "node_kind_code NK_Add = 13"
| "node_kind_code NK_Sub = 14"
| "node_kind_code NK_Mul = 15"
| "node_kind_code NK_Div = 16"
| "node_kind_code NK_UDiv = 17"
| "node_kind_code NK_Mod = 18"
| "node_kind_code NK_UMod = 19"
| "node_kind_code NK_And = 20"
| "node_kind_code NK_Or = 21"
| "node_kind_code NK_Xor = 22"
| "node_kind_code NK_Shl = 23"
| "node_kind_code NK_Shr = 24"
| "node_kind_code NK_LShr = 25"
| "node_kind_code NK_CmpEq = 26"
| "node_kind_code NK_CmpNe = 27"
| "node_kind_code NK_CmpLt = 28"
| "node_kind_code NK_CmpLe = 29"
| "node_kind_code NK_CmpGt = 30"
| "node_kind_code NK_CmpGe = 31"
| "node_kind_code NK_CmpUlt = 32"
| "node_kind_code NK_CmpUle = 33"
| "node_kind_code NK_CmpUgt = 34"
| "node_kind_code NK_CmpUge = 35"
| "node_kind_code NK_Neg = 36"
| "node_kind_code NK_Not = 37"
| "node_kind_code NK_BitNot = 49"
| "node_kind_code NK_Load = 38"
| "node_kind_code NK_Store = 39"
| "node_kind_code NK_Alloc = 40"
| "node_kind_code NK_StackAlloc = 41"
| "node_kind_code NK_GetElementPtr = 42"
| "node_kind_code NK_GetFieldPtr = 43"
| "node_kind_code NK_Cast = 44"
| "node_kind_code NK_Select = 45"
| "node_kind_code NK_CallPure = 46"
| "node_kind_code NK_CallAltered = 47"
| "node_kind_code NK_CallCrowded = 48"
| "node_kind_code NK_AtomicLoad = 50"
| "node_kind_code NK_AtomicStore = 51"
| "node_kind_code NK_AtomicRMW = 52"
| "node_kind_code NK_Fence = 53"
| "node_kind_code NK_Guard = 60"
| "node_kind_code NK_Deopt = 61"
| "node_kind_code NK_FrameState = 62"
| "node_kind_code NK_ProfiledEntry = 63"
| "node_kind_code NK_MachineOp = 90"

primrec node_kind_name :: "node_kind \<Rightarrow> string" where
  "node_kind_name NK_Start = ''Start''"
| "node_kind_name NK_Region = ''Region''"
| "node_kind_name NK_Loop = ''Loop''"
| "node_kind_name NK_If = ''If''"
| "node_kind_name NK_Proj = ''Proj''"
| "node_kind_name NK_Return = ''Return''"
| "node_kind_name NK_Branch = ''Branch''"
| "node_kind_name NK_Stop = ''Stop''"
| "node_kind_name NK_Constant = ''Constant''"
| "node_kind_name NK_Parameter = ''Parameter''"
| "node_kind_name NK_Phi = ''Phi''"
| "node_kind_name NK_Add = ''Add''"
| "node_kind_name NK_Sub = ''Sub''"
| "node_kind_name NK_Mul = ''Mul''"
| "node_kind_name NK_Div = ''Div''"
| "node_kind_name NK_UDiv = ''UDiv''"
| "node_kind_name NK_Mod = ''Mod''"
| "node_kind_name NK_UMod = ''UMod''"
| "node_kind_name NK_And = ''And''"
| "node_kind_name NK_Or = ''Or''"
| "node_kind_name NK_Xor = ''Xor''"
| "node_kind_name NK_Shl = ''Shl''"
| "node_kind_name NK_Shr = ''Shr''"
| "node_kind_name NK_LShr = ''LShr''"
| "node_kind_name NK_CmpEq = ''CmpEq''"
| "node_kind_name NK_CmpNe = ''CmpNe''"
| "node_kind_name NK_CmpLt = ''CmpLt''"
| "node_kind_name NK_CmpLe = ''CmpLe''"
| "node_kind_name NK_CmpGt = ''CmpGt''"
| "node_kind_name NK_CmpGe = ''CmpGe''"
| "node_kind_name NK_CmpUlt = ''CmpUlt''"
| "node_kind_name NK_CmpUle = ''CmpUle''"
| "node_kind_name NK_CmpUgt = ''CmpUgt''"
| "node_kind_name NK_CmpUge = ''CmpUge''"
| "node_kind_name NK_Neg = ''Neg''"
| "node_kind_name NK_Not = ''Not''"
| "node_kind_name NK_BitNot = ''BitNot''"
| "node_kind_name NK_Load = ''Load''"
| "node_kind_name NK_Store = ''Store''"
| "node_kind_name NK_Alloc = ''Alloc''"
| "node_kind_name NK_StackAlloc = ''StackAlloc''"
| "node_kind_name NK_GetElementPtr = ''GetElementPtr''"
| "node_kind_name NK_GetFieldPtr = ''GetFieldPtr''"
| "node_kind_name NK_Cast = ''Cast''"
| "node_kind_name NK_Select = ''Select''"
| "node_kind_name NK_CallPure = ''CallPure''"
| "node_kind_name NK_CallAltered = ''CallAltered''"
| "node_kind_name NK_CallCrowded = ''CallCrowded''"
| "node_kind_name NK_AtomicLoad = ''AtomicLoad''"
| "node_kind_name NK_AtomicStore = ''AtomicStore''"
| "node_kind_name NK_AtomicRMW = ''AtomicRMW''"
| "node_kind_name NK_Fence = ''Fence''"
| "node_kind_name NK_Guard = ''Guard''"
| "node_kind_name NK_Deopt = ''Deopt''"
| "node_kind_name NK_FrameState = ''FrameState''"
| "node_kind_name NK_ProfiledEntry = ''ProfiledEntry''"
| "node_kind_name NK_MachineOp = ''MachineOp''"

primrec effect_class_of :: "node_kind \<Rightarrow> effect_class" where
  "effect_class_of NK_Start = Pure"
| "effect_class_of NK_Region = Pure"
| "effect_class_of NK_Loop = Pure"
| "effect_class_of NK_If = Pure"
| "effect_class_of NK_Proj = Pure"
| "effect_class_of NK_Return = Pure"
| "effect_class_of NK_Branch = Pure"
| "effect_class_of NK_Stop = Pure"
| "effect_class_of NK_Constant = Pure"
| "effect_class_of NK_Parameter = Pure"
| "effect_class_of NK_Phi = Pure"
| "effect_class_of NK_Add = Pure"
| "effect_class_of NK_Sub = Pure"
| "effect_class_of NK_Mul = Pure"
| "effect_class_of NK_Div = Pure"
| "effect_class_of NK_UDiv = Pure"
| "effect_class_of NK_Mod = Pure"
| "effect_class_of NK_UMod = Pure"
| "effect_class_of NK_And = Pure"
| "effect_class_of NK_Or = Pure"
| "effect_class_of NK_Xor = Pure"
| "effect_class_of NK_Shl = Pure"
| "effect_class_of NK_Shr = Pure"
| "effect_class_of NK_LShr = Pure"
| "effect_class_of NK_CmpEq = Pure"
| "effect_class_of NK_CmpNe = Pure"
| "effect_class_of NK_CmpLt = Pure"
| "effect_class_of NK_CmpLe = Pure"
| "effect_class_of NK_CmpGt = Pure"
| "effect_class_of NK_CmpGe = Pure"
| "effect_class_of NK_CmpUlt = Pure"
| "effect_class_of NK_CmpUle = Pure"
| "effect_class_of NK_CmpUgt = Pure"
| "effect_class_of NK_CmpUge = Pure"
| "effect_class_of NK_Neg = Pure"
| "effect_class_of NK_Not = Pure"
| "effect_class_of NK_BitNot = Pure"
| "effect_class_of NK_Load = Altered"
| "effect_class_of NK_Store = Altered"
| "effect_class_of NK_Alloc = Altered"
| "effect_class_of NK_StackAlloc = Pure"
| "effect_class_of NK_GetElementPtr = Pure"
| "effect_class_of NK_GetFieldPtr = Pure"
| "effect_class_of NK_Cast = Pure"
| "effect_class_of NK_Select = Pure"
| "effect_class_of NK_CallPure = Pure"
| "effect_class_of NK_CallAltered = Altered"
| "effect_class_of NK_CallCrowded = Crowded"
| "effect_class_of NK_AtomicLoad = Crowded"
| "effect_class_of NK_AtomicStore = Crowded"
| "effect_class_of NK_AtomicRMW = Crowded"
| "effect_class_of NK_Fence = Crowded"
| "effect_class_of NK_Guard = Crowded"
| "effect_class_of NK_Deopt = Crowded"
| "effect_class_of NK_FrameState = Pure"
| "effect_class_of NK_ProfiledEntry = Pure"
| "effect_class_of NK_MachineOp = Pure"

definition is_pure_kind :: "node_kind \<Rightarrow> bool" where
  "is_pure_kind k = (effect_class_of k = Pure)"

definition is_altered_kind :: "node_kind \<Rightarrow> bool" where
  "is_altered_kind k = (effect_class_of k = Altered)"

definition is_crowded_kind :: "node_kind \<Rightarrow> bool" where
  "is_crowded_kind k = (effect_class_of k = Crowded)"

primrec effect_code :: "effect_class \<Rightarrow> nat" where
  "effect_code Pure = 0"
| "effect_code Altered = 1"
| "effect_code Crowded = 2"

definition all_node_kinds :: "node_kind list" where
    "all_node_kinds = [NK_Start, NK_Region, NK_Loop, NK_If, NK_Proj, NK_Return, NK_Branch,
     NK_Stop, NK_Constant, NK_Parameter, NK_Phi, NK_Add, NK_Sub, NK_Mul, NK_Div, NK_UDiv,
     NK_Mod, NK_UMod, NK_And, NK_Or, NK_Xor, NK_Shl, NK_Shr, NK_LShr, NK_CmpEq, NK_CmpNe,
     NK_CmpLt, NK_CmpLe, NK_CmpGt, NK_CmpGe, NK_CmpUlt, NK_CmpUle, NK_CmpUgt, NK_CmpUge, NK_Neg,
     NK_Not, NK_BitNot, NK_Load, NK_Store, NK_Alloc, NK_StackAlloc, NK_GetElementPtr,
     NK_GetFieldPtr, NK_Cast, NK_Select, NK_CallPure, NK_CallAltered, NK_CallCrowded,
     NK_AtomicLoad, NK_AtomicStore, NK_AtomicRMW, NK_Fence, NK_Guard, NK_Deopt, NK_FrameState,
     NK_ProfiledEntry, NK_MachineOp]"

lemma all_node_kinds_complete: "k \<in> set all_node_kinds"
  by (cases k) (simp_all add: all_node_kinds_def)

lemma node_kind_code_inj: "node_kind_code a = node_kind_code b \<Longrightarrow> a = b"
proof -
  have "distinct (map node_kind_code all_node_kinds)" by (simp add: all_node_kinds_def)
  then have "inj_on node_kind_code (set all_node_kinds)" by (simp add: distinct_map)
  then show "node_kind_code a = node_kind_code b \<Longrightarrow> a = b"
    by (auto dest: inj_onD intro: all_node_kinds_complete)
qed

lemma node_kind_code_eq_iff [simp]: "node_kind_code a = node_kind_code b \<longleftrightarrow> a = b"
  using node_kind_code_inj by blast

lemma node_kind_code_less: "node_kind_code k < 256"
  by (cases k) simp_all

text \<open>Kinds are ordered by their number, as the enumeration is in the source.\<close>

instantiation node_kind :: linorder
begin

definition less_eq_node_kind :: "node_kind \<Rightarrow> node_kind \<Rightarrow> bool" where
  "less_eq_node_kind a b = (node_kind_code a \<le> node_kind_code b)"

definition less_node_kind :: "node_kind \<Rightarrow> node_kind \<Rightarrow> bool" where
  "less_node_kind a b = (node_kind_code a < node_kind_code b)"

instance
  by intro_classes (auto simp: less_eq_node_kind_def less_node_kind_def intro: node_kind_code_inj)

end

lemma node_kind_name_inj: "node_kind_name a = node_kind_name b \<Longrightarrow> a = b"
proof -
  have "distinct (map node_kind_name all_node_kinds)" by (simp add: all_node_kinds_def)
  then have "inj_on node_kind_name (set all_node_kinds)" by (simp add: distinct_map)
  then show "node_kind_name a = node_kind_name b \<Longrightarrow> a = b"
    by (auto dest: inj_onD intro: all_node_kinds_complete)
qed

end
