(* ===== verification/Graphs.thy ===== *)
theory Graphs
  imports NodeKinds
begin

section \<open>Nodes\<close>

text \<open>
  \<open>compiler/ir/include/aegis/ir/Node.hpp\<close> and \<open>Graph.hpp\<close>/\<open>Graph.cpp\<close>: the sea-of-nodes
  graph. A node id is an index into the node vector; the reverse (output) edges are kept
  in a parallel vector of lists with one entry per input edge. \<open>SmallVector\<close>s are lists here
  (their buffer is the subject of another theory); the 8-byte payload union is its bit
  pattern, \<open>payload_sym\<close> and friends are its members on the little-endian target.
\<close>

datatype node_flag = IsLive | IsConst | IsHashed | IsGuarded | IsDead | HasFrameState
  | IsPgoSpeculated | IsMonomorphic | IsNoReturn | CanOverflow | IsBuiltin | IsAffineMove
  | IsStackPromoted | IsBoundsChecked | IsLowered | IsTailCall | IsHoisted

primrec flag_index :: "node_flag \<Rightarrow> nat" where
  "flag_index IsLive = 0"
| "flag_index IsConst = 1"
| "flag_index IsHashed = 2"
| "flag_index IsGuarded = 3"
| "flag_index IsDead = 4"
| "flag_index HasFrameState = 5"
| "flag_index IsPgoSpeculated = 6"
| "flag_index IsMonomorphic = 7"
| "flag_index IsNoReturn = 8"
| "flag_index CanOverflow = 9"
| "flag_index IsBuiltin = 10"
| "flag_index IsAffineMove = 11"
| "flag_index IsStackPromoted = 12"
| "flag_index IsBoundsChecked = 13"
| "flag_index IsLowered = 14"
| "flag_index IsTailCall = 15"
| "flag_index IsHoisted = 16"

definition flag_mask :: "node_flag \<Rightarrow> u32" where
  "flag_mask b = push_bit (flag_index b) 1"

record node =
  n_kind :: node_kind
  n_effect :: effect_class
  n_flags :: u32
  n_type :: type_id
  n_payload :: i64
  n_inputs :: "node_id list"

definition default_node :: node where
  "default_node = \<lparr>n_kind = NK_Start, n_effect = Pure, n_flags = 0, n_type = kInvalidTypeId,
     n_payload = 0, n_inputs = []\<rparr>"

abbreviation node_has :: "node \<Rightarrow> node_flag \<Rightarrow> bool" where
  "node_has n b \<equiv> flags_has (n_flags n) (flag_mask b)"

definition node_set_flag :: "node_flag \<Rightarrow> node \<Rightarrow> node" where
  "node_set_flag b n = n\<lparr>n_flags := flags_set (n_flags n) (flag_mask b)\<rparr>"

definition node_clear_flag :: "node_flag \<Rightarrow> node \<Rightarrow> node" where
  "node_clear_flag b n = n\<lparr>n_flags := flags_clear (n_flags n) (flag_mask b)\<rparr>"

abbreviation node_is_dead :: "node \<Rightarrow> bool" where
  "node_is_dead n \<equiv> node_has n IsDead"

definition node_is_pure :: "node \<Rightarrow> bool" where
  "node_is_pure n = (n_effect n = Pure)"

definition node_is_altered :: "node \<Rightarrow> bool" where
  "node_is_altered n = (n_effect n = Altered)"

definition node_is_crowded :: "node \<Rightarrow> bool" where
  "node_is_crowded n = (n_effect n = Crowded)"

definition ctrl_in :: "node \<Rightarrow> node_id" where
  "ctrl_in n = (if length (n_inputs n) > 0 then n_inputs n ! 0 else kInvalidNodeId)"

definition eff_in :: "node \<Rightarrow> node_id" where
  "eff_in n = (if length (n_inputs n) > 1 then n_inputs n ! 1 else kInvalidNodeId)"

definition data_ins :: "node \<Rightarrow> node_id list" where
  "data_ins n = (if node_is_pure n then n_inputs n
     else if length (n_inputs n) > 2 then drop 2 (n_inputs n) else [])"

definition payload_sym :: "i64 \<Rightarrow> symbol_id" where
  "payload_sym p = unat (take_bit 32 p)"

definition payload_proj_index :: "i64 \<Rightarrow> nat" where
  "payload_proj_index p = unat (take_bit 32 p)"

definition payload_of_sym :: "symbol_id \<Rightarrow> i64" where
  "payload_of_sym s = of_nat (u32 s)"

section \<open>The graph\<close>

record graph =
  g_nodes :: "node list"
  g_outputs :: "node_id list list"
  g_version :: i64

definition graph_new :: graph where
  "graph_new = \<lparr>g_nodes = [default_node], g_outputs = [[]], g_version = 1\<rparr>"

abbreviation node_at :: "graph \<Rightarrow> node_id \<Rightarrow> node" where
  "node_at g i \<equiv> g_nodes g ! i"

definition g_size :: "graph \<Rightarrow> nat" where
  "g_size g = u32 (length (g_nodes g))"

definition users_snapshot :: "graph \<Rightarrow> node_id \<Rightarrow> node_id list" where
  "users_snapshot g n = (if n \<ge> length (g_outputs g) then [] else g_outputs g ! n)"

definition bump_version :: "graph \<Rightarrow> graph" where
  "bump_version g = g\<lparr>g_version := g_version g + 1\<rparr>"

subsection \<open>Edges\<close>

text \<open>\<open>SmallVector::remove_first\<close> fills the hole with the last element.\<close>

fun find_first :: "'a \<Rightarrow> 'a list \<Rightarrow> nat option" where
  "find_first v [] = None"
| "find_first v (x # xs) = (if x = v then Some 0 else map_option Suc (find_first v xs))"

definition remove_first :: "'a \<Rightarrow> 'a list \<Rightarrow> 'a list" where
  "remove_first v xs = (case find_first v xs of None \<Rightarrow> xs | Some i \<Rightarrow> swap_remove xs i)"

definition ensure_output_slot :: "node_id \<Rightarrow> node_id list list \<Rightarrow> node_id list list" where
  "ensure_output_slot i outs = outs @ replicate (Suc i - length outs) []"

definition link_input_to_output :: "node_id \<Rightarrow> node_id \<Rightarrow> node_id list list \<Rightarrow> node_id list list" where
  "link_input_to_output node inp outs =
     (if inp = kInvalidNodeId then outs
      else let outs = ensure_output_slot inp outs in outs[inp := outs ! inp @ [node]])"

definition unlink_input_from_output :: "node_id \<Rightarrow> node_id \<Rightarrow> node_id list list \<Rightarrow> node_id list list" where
  "unlink_input_from_output node inp outs =
     (if inp = kInvalidNodeId then outs
      else if inp < length outs then outs[inp := remove_first node (outs ! inp)] else outs)"

subsection \<open>Node creation\<close>

text \<open>
  The four creation routines of \<open>Graph.cpp\<close> (\<open>make_node\<close>, \<open>make_altered\<close>, \<open>make_phi\<close> and
  \<open>make_call\<close>) end in the same steps, \<open>add_node\<close>: push the node, make its output slot, link
  every input in order, bump the version. (The guards on the control and effect input in
  \<open>make_altered\<close> and \<open>make_call\<close> repeat the test of \<open>link_input_to_output\<close>.)
\<close>

definition add_node :: "node \<Rightarrow> graph \<Rightarrow> node_id \<times> graph" where
  "add_node n g =
     (let i = u32 (length (g_nodes g));
          outs = ensure_output_slot i (g_outputs g);
          outs = fold (link_input_to_output i) (n_inputs n) outs
      in (i, bump_version (g\<lparr>g_nodes := g_nodes g @ [n], g_outputs := outs\<rparr>)))"

definition make_node :: "node_kind \<Rightarrow> node_id list \<Rightarrow> type_id \<Rightarrow> i64 \<Rightarrow> graph \<Rightarrow> node_id \<times> graph" where
  "make_node k ins ty p = add_node \<lparr>n_kind = k, n_effect = effect_class_of k, n_flags = 0,
     n_type = ty, n_payload = p, n_inputs = ins\<rparr>"

definition make_constant_i64 :: "i64 \<Rightarrow> type_id \<Rightarrow> graph \<Rightarrow> node_id \<times> graph" where
  "make_constant_i64 v ty = make_node NK_Constant [] ty v"

definition make_binop :: "node_kind \<Rightarrow> node_id \<Rightarrow> node_id \<Rightarrow> type_id \<Rightarrow> graph \<Rightarrow> node_id \<times> graph" where
  "make_binop k a b ty = make_node k [a, b] ty 0"

definition make_cmp :: "node_kind \<Rightarrow> node_id \<Rightarrow> node_id \<Rightarrow> graph \<Rightarrow> node_id \<times> graph" where
  "make_cmp k a b = make_node k [a, b] kInvalidTypeId 0"

definition make_altered :: "node_kind \<Rightarrow> node_id \<Rightarrow> node_id \<Rightarrow> node_id list \<Rightarrow> type_id \<Rightarrow> i64 \<Rightarrow> graph \<Rightarrow> node_id \<times> graph" where
  "make_altered k c e ds ty p = add_node \<lparr>n_kind = k, n_effect = effect_class_of k, n_flags = 0,
     n_type = ty, n_payload = p, n_inputs = [c, e] @ ds\<rparr>"

definition make_load :: "node_id \<Rightarrow> node_id \<Rightarrow> node_id \<Rightarrow> type_id \<Rightarrow> graph \<Rightarrow> node_id \<times> graph" where
  "make_load c e ptr ty = make_altered NK_Load c e [ptr] ty 0"

definition make_store :: "node_id \<Rightarrow> node_id \<Rightarrow> node_id \<Rightarrow> node_id \<Rightarrow> graph \<Rightarrow> node_id \<times> graph" where
  "make_store c e ptr val = make_altered NK_Store c e [ptr, val] kInvalidTypeId 0"

definition make_alloc :: "node_id \<Rightarrow> node_id \<Rightarrow> type_id \<Rightarrow> graph \<Rightarrow> node_id \<times> graph" where
  "make_alloc c e ty = make_altered NK_Alloc c e [] ty 0"

definition make_if :: "node_id \<Rightarrow> node_id \<Rightarrow> graph \<Rightarrow> node_id \<times> graph" where
  "make_if c cond = make_node NK_If [c, cond] kInvalidTypeId 0"

definition make_proj :: "node_id \<Rightarrow> nat \<Rightarrow> type_id \<Rightarrow> graph \<Rightarrow> node_id \<times> graph" where
  "make_proj s which ty = make_node NK_Proj [s] ty (of_nat (u32 which))"

definition make_region :: "node_id list \<Rightarrow> graph \<Rightarrow> node_id \<times> graph" where
  "make_region preds = make_node NK_Region preds kInvalidTypeId 0"

definition make_loop :: "node_id \<Rightarrow> node_id \<Rightarrow> graph \<Rightarrow> node_id \<times> graph" where
  "make_loop back entry = make_node NK_Loop [entry, back] kInvalidTypeId 0"

definition make_phi :: "node_id \<Rightarrow> node_id list \<Rightarrow> type_id \<Rightarrow> graph \<Rightarrow> node_id \<times> graph" where
  "make_phi region vals ty = add_node \<lparr>n_kind = NK_Phi, n_effect = Pure, n_flags = 0,
     n_type = ty, n_payload = 0, n_inputs = region # vals\<rparr>"

definition make_return :: "node_id \<Rightarrow> node_id \<Rightarrow> node_id \<Rightarrow> graph \<Rightarrow> node_id \<times> graph" where
  "make_return c e v = make_node NK_Return [c, e, v] kInvalidTypeId 0"

definition call_kind :: "effect_class \<Rightarrow> node_kind" where
  "call_kind e = (if e = Altered then NK_CallAltered else if e = Crowded then NK_CallCrowded else NK_CallPure)"

definition make_call :: "node_id \<Rightarrow> node_id \<Rightarrow> symbol_id \<Rightarrow> node_id list \<Rightarrow> type_id \<Rightarrow> effect_class \<Rightarrow> graph \<Rightarrow> node_id \<times> graph" where
  "make_call c e callee args ret_ty eff = add_node \<lparr>n_kind = call_kind eff,
     n_effect = effect_class_of (call_kind eff), n_flags = 0, n_type = ret_ty,
     n_payload = payload_of_sym callee, n_inputs = [c, e] @ args\<rparr>"

definition update_node :: "node_id \<Rightarrow> (node \<Rightarrow> node) \<Rightarrow> graph \<Rightarrow> graph" where
  "update_node i f g = g\<lparr>g_nodes := (g_nodes g)[i := f (g_nodes g ! i)]\<rparr>"

definition make_guard :: "node_id \<Rightarrow> node_id \<Rightarrow> node_id \<Rightarrow> nat \<Rightarrow> graph \<Rightarrow> node_id \<times> graph" where
  "make_guard c e cond fs g =
     (let (i, g') = make_altered NK_Guard c e [cond] kInvalidTypeId (of_nat (u32 fs)) g
      in (i, update_node i (\<lambda>n. n\<lparr>n_flags := flags_set (n_flags n) (flag_mask IsGuarded OR flag_mask HasFrameState)\<rparr>) g'))"

definition make_frame_state :: "node_id list \<Rightarrow> graph \<Rightarrow> node_id \<times> graph" where
  "make_frame_state snapshot = make_node NK_FrameState snapshot kInvalidTypeId 0"

subsection \<open>Edge mutation\<close>

fun relink :: "nat \<Rightarrow> node_id \<Rightarrow> node_id \<Rightarrow> node_id \<Rightarrow> node_id list list \<Rightarrow> node_id list list" where
  "relink 0 n old new outs = outs"
| "relink (Suc r) n old new outs =
     relink r n old new (link_input_to_output n new (unlink_input_from_output n old outs))"

definition swap_input :: "node_id \<Rightarrow> node_id \<Rightarrow> node_id \<Rightarrow> graph \<Rightarrow> graph" where
  "swap_input n old_in new_in g =
     (let replaced = count_list (n_inputs (node_at g n)) old_in;
          g1 = update_node n (\<lambda>nd. nd\<lparr>n_inputs := map (\<lambda>i. if i = old_in then new_in else i) (n_inputs nd)\<rparr>) g
      in if replaced = 0 then g1
         else bump_version (g1\<lparr>g_outputs := relink replaced n old_in new_in (g_outputs g1)\<rparr>))"

definition set_input :: "node_id \<Rightarrow> nat \<Rightarrow> node_id \<Rightarrow> graph \<Rightarrow> graph option" where
  "set_input n i new_in g =
     (if i < length (n_inputs (node_at g n)) then
        (let old = n_inputs (node_at g n) ! i
         in if old = new_in then Some g
            else let g1 = update_node n (\<lambda>nd. nd\<lparr>n_inputs := (n_inputs nd)[i := new_in]\<rparr>) g
                 in Some (bump_version (g1\<lparr>g_outputs :=
                      link_input_to_output n new_in (unlink_input_from_output n old (g_outputs g1))\<rparr>)))
      else None)"

definition append_input :: "node_id \<Rightarrow> node_id \<Rightarrow> graph \<Rightarrow> graph" where
  "append_input n new_in g =
     (if new_in = kInvalidNodeId \<or> new_in \<ge> length (g_nodes g) then g
      else let g1 = update_node n (\<lambda>nd. nd\<lparr>n_inputs := n_inputs nd @ [new_in]\<rparr>) g
           in bump_version (g1\<lparr>g_outputs := link_input_to_output n new_in (g_outputs g1)\<rparr>))"

definition mark_dead :: "node_id \<Rightarrow> graph \<Rightarrow> graph" where
  "mark_dead n g = bump_version (update_node n (node_set_flag IsDead) g)"

subsection \<open>The verifier\<close>

datatype verify_error =
    DanglingInput node_id | DeadInput node_id node_id | NoEffectIn node_id
  | MissingFrameState node_id | OutputToMissing node_id node_id | UseDefMismatch node_id node_id

fun first_error :: "('a \<Rightarrow> 'e option) \<Rightarrow> 'a list \<Rightarrow> 'e option" where
  "first_error f [] = None"
| "first_error f (x # xs) = (case f x of None \<Rightarrow> first_error f xs | Some e \<Rightarrow> Some e)"

definition check_input :: "graph \<Rightarrow> node_id \<Rightarrow> node_id \<Rightarrow> verify_error option" where
  "check_input g i inp =
     (if inp = kInvalidNodeId then None
      else if inp \<ge> length (g_nodes g) then Some (DanglingInput i)
      else if node_is_dead (node_at g inp) then Some (DeadInput inp i) else None)"

definition check_node_inputs :: "graph \<Rightarrow> node_id \<Rightarrow> verify_error option" where
  "check_node_inputs g i =
     (if node_is_dead (node_at g i) then None else first_error (check_input g i) (n_inputs (node_at g i)))"

definition check_effect_in :: "graph \<Rightarrow> node_id \<Rightarrow> verify_error option" where
  "check_effect_in g i =
     (let n = node_at g i
      in if node_is_dead n \<or> node_is_pure n then None
         else if eff_in n = kInvalidNodeId \<and> n_kind n \<noteq> NK_Start then Some (NoEffectIn i) else None)"

definition check_frame_state :: "graph \<Rightarrow> node_id \<Rightarrow> verify_error option" where
  "check_frame_state g i =
     (let n = node_at g i
      in if node_has n IsPgoSpeculated \<and> node_has n IsGuarded \<and> \<not> node_has n HasFrameState
         then Some (MissingFrameState i) else None)"

definition check_user :: "graph \<Rightarrow> node_id \<Rightarrow> node_id \<Rightarrow> verify_error option" where
  "check_user g i user =
     (if user \<ge> length (g_nodes g) then Some (OutputToMissing i user)
      else if node_is_dead (node_at g user) then None
      else if i \<in> set (n_inputs (node_at g user)) then None else Some (UseDefMismatch user i))"

definition check_outputs :: "graph \<Rightarrow> node_id \<Rightarrow> verify_error option" where
  "check_outputs g i = first_error (check_user g i) (g_outputs g ! i)"

text \<open>\<open>verify\<close>: \<open>None\<close> is \<open>true\<close>, \<open>Some\<close> the reason written to \<open>why\<close>.\<close>

definition verify :: "graph \<Rightarrow> verify_error option" where
  "verify g =
     (let ids = [0..<length (g_nodes g)]
      in case first_error (check_node_inputs g) ids of Some e \<Rightarrow> Some e | None \<Rightarrow>
         case first_error (check_effect_in g) ids of Some e \<Rightarrow> Some e | None \<Rightarrow>
         case first_error (check_frame_state g) ids of Some e \<Rightarrow> Some e | None \<Rightarrow>
         first_error (check_outputs g) [0..<length (g_outputs g)])"

section \<open>Lemmas on edges\<close>

subsection \<open>Counting edges\<close>

definition out_count :: "node_id list list \<Rightarrow> node_id \<Rightarrow> node_id \<Rightarrow> nat" where
  "out_count outs s u = (if s < length outs then count_list (outs ! s) u else 0)"

lemma find_first_Some: "find_first v xs = Some i \<Longrightarrow> i < length xs \<and> xs ! i = v"
  by (induction xs arbitrary: i) (auto split: if_splits)

lemma find_first_None: "find_first v xs = None \<longleftrightarrow> v \<notin> set xs"
  by (induction xs) auto

lemma count_list_remove_first:
  "count_list (remove_first v xs) a = count_list xs a - (if a = v then 1 else 0)"
proof (cases "find_first v xs")
  case None
  then have "v \<notin> set xs" by (rule iffD1 [OF find_first_None])
  then have "count_list xs v = 0" by simp
  then show ?thesis unfolding remove_first_def None option.case by (metis diff_0_eq_0 diff_zero)
next
  case (Some i)
  with find_first_Some [OF this] show ?thesis
    by (simp add: remove_first_def count_list_mset mset_swap_remove)
qed

lemma set_remove_first_subset: "set (remove_first v xs) \<subseteq> set xs"
  by (metis count_list_0_iff count_list_remove_first diff_is_0_eq' subsetI zero_le)

lemma length_ensure [simp]: "length (ensure_output_slot i outs) = max (Suc i) (length outs)"
  by (simp add: ensure_output_slot_def)

lemma out_count_ensure [simp]: "out_count (ensure_output_slot i outs) s u = out_count outs s u"
  by (auto simp: out_count_def ensure_output_slot_def nth_append)

lemma length_link [simp]:
  "length (link_input_to_output n inp outs) = (if inp = kInvalidNodeId then length outs else max (Suc inp) (length outs))"
  by (simp add: link_input_to_output_def Let_def)

lemma out_count_update:
  "i < length outs \<Longrightarrow> out_count (outs[i := xs]) s u = (if s = i then count_list xs u else out_count outs s u)"
  by (simp add: out_count_def)

lemma out_count_link [simp]:
  "out_count (link_input_to_output n inp outs) s u
     = out_count outs s u + (if inp \<noteq> kInvalidNodeId \<and> s = inp \<and> u = n then 1 else 0)"
proof (cases "inp = kInvalidNodeId")
  case False
  let ?o = "ensure_output_slot inp outs"
  have len: "inp < length ?o" by simp
  have "out_count (link_input_to_output n inp outs) s u
      = (if s = inp then count_list (?o ! inp @ [n]) u else out_count ?o s u)"
    using False len by (simp add: link_input_to_output_def Let_def out_count_update del: count_list_append)
  also have "\<dots> = out_count outs s u + (if s = inp \<and> u = n then 1 else 0)"
  proof (cases "s = inp")
    case True
    have "count_list (?o ! inp) u = out_count outs inp u"
      using len out_count_ensure [of inp outs inp u] unfolding out_count_def by presburger
    with True show ?thesis by simp
  qed simp
  finally show ?thesis using False by simp
qed (simp add: link_input_to_output_def)

lemma length_unlink [simp]: "length (unlink_input_from_output n inp outs) = length outs"
  by (simp add: unlink_input_from_output_def)

lemma out_count_unlink [simp]:
  "out_count (unlink_input_from_output n inp outs) s u
     = out_count outs s u - (if inp \<noteq> kInvalidNodeId \<and> s = inp \<and> u = n then 1 else 0)"
  by (auto simp: unlink_input_from_output_def out_count_update count_list_remove_first)
     (auto simp: out_count_def)

lemma out_count_links [simp]:
  "out_count (fold (link_input_to_output n) ins outs) s u
     = out_count outs s u + (if s \<noteq> kInvalidNodeId \<and> u = n then count_list ins s else 0)"
  by (induction ins arbitrary: outs) auto

lemma length_links:
  "\<forall>i \<in> set ins. i = kInvalidNodeId \<or> i < length outs \<Longrightarrow>
   length (fold (link_input_to_output n) ins outs) = length outs"
  by (induction ins arbitrary: outs) (auto simp: max_def)

lemma out_count_relink:
  assumes "r \<le> out_count outs old n \<or> old = kInvalidNodeId" "old \<noteq> new"
  shows "out_count (relink r n old new outs) s u
     = out_count outs s u - (if old \<noteq> kInvalidNodeId \<and> s = old \<and> u = n then r else 0)
       + (if new \<noteq> kInvalidNodeId \<and> s = new \<and> u = n then r else 0)"
  using assms
proof (induction r arbitrary: outs)
  case (Suc r)
  let ?o = "link_input_to_output n new (unlink_input_from_output n old outs)"
  have "r \<le> out_count ?o old n \<or> old = kInvalidNodeId" using Suc.prems by auto
  from Suc.IH [OF this Suc.prems(2)] Suc.prems show ?case by auto
qed simp

lemma out_count_relink_same:
  assumes "r \<le> out_count outs old n \<or> old = kInvalidNodeId"
  shows "out_count (relink r n old old outs) s u = out_count outs s u"
  using assms
proof (induction r arbitrary: outs)
  case (Suc r)
  let ?o = "link_input_to_output n old (unlink_input_from_output n old outs)"
  have eq: "out_count ?o s u = out_count outs s u" for s u using Suc.prems by auto
  then have "r \<le> out_count ?o old n \<or> old = kInvalidNodeId" using Suc.prems by auto
  from Suc.IH [OF this] eq show ?case by simp
qed simp

lemma length_relink:
  "new = kInvalidNodeId \<or> new < length outs \<Longrightarrow> length (relink r n old new outs) = length outs"
  by (induction r arbitrary: outs) (auto simp: max_def)

subsection \<open>Use-def balance\<close>

text \<open>
  The invariant the graph's edits keep: each output list has one entry per input edge, for
  every node and every multiplicity.
\<close>

definition balanced :: "graph \<Rightarrow> bool" where
  "balanced g \<longleftrightarrow> (\<forall>s u. s \<noteq> kInvalidNodeId \<longrightarrow> out_count (g_outputs g) s u
     = (if u < length (g_nodes g) then count_list (n_inputs (node_at g u)) s else 0))"

definition edges_ok :: "graph \<Rightarrow> bool" where
  "edges_ok g \<longleftrightarrow> (\<forall>u < length (g_nodes g). \<forall>i \<in> set (n_inputs (node_at g u)).
     i = kInvalidNodeId \<or> i < length (g_nodes g))"

definition graph_wf :: "graph \<Rightarrow> bool" where
  "graph_wf g \<longleftrightarrow> balanced g \<and> edges_ok g \<and> length (g_outputs g) = length (g_nodes g)
     \<and> 0 < length (g_nodes g) \<and> length (g_nodes g) \<le> kInvalidNodeId"

definition id_ok :: "graph \<Rightarrow> node_id \<Rightarrow> bool" where
  "id_ok g i \<longleftrightarrow> i = kInvalidNodeId \<or> i < length (g_nodes g)"

lemma graph_new_wf: "graph_wf graph_new"
  by (auto simp: graph_wf_def graph_new_def balanced_def edges_ok_def default_node_def out_count_def
      kInvalidNodeId_def)

lemma bump_version_simps [simp]:
  "g_nodes (bump_version g) = g_nodes g" "g_outputs (bump_version g) = g_outputs g"
  "graph_wf (bump_version g) = graph_wf g"
  by (simp_all add: bump_version_def graph_wf_def balanced_def edges_ok_def)

lemma update_node_simps [simp]:
  "length (g_nodes (update_node i f g)) = length (g_nodes g)"
  "g_outputs (update_node i f g) = g_outputs g"
  by (simp_all add: update_node_def)

lemma node_at_update:
  "j < length (g_nodes g) \<Longrightarrow> node_at (update_node i f g) j = (if j = i then f (node_at g i) else node_at g j)"
  by (auto simp: update_node_def nth_list_update)

lemma update_node_wf:
  assumes "graph_wf g" "\<And>n. n_inputs (f n) = n_inputs n"
  shows "graph_wf (update_node i f g)"
proof -
  have "n_inputs (node_at (update_node i f g) j) = n_inputs (node_at g j)" if "j < length (g_nodes g)" for j
    using that assms(2) by (simp add: node_at_update)
  then show ?thesis using assms(1) by (simp add: graph_wf_def balanced_def edges_ok_def)
qed

lemma add_node_nodes [simp]: "g_nodes (snd (add_node n g)) = g_nodes g @ [n]"
  by (simp add: add_node_def Let_def)

lemma add_node_id: "graph_wf g \<Longrightarrow> fst (add_node n g) = length (g_nodes g)"
  by (simp add: add_node_def Let_def graph_wf_def kInvalidNodeId_def)

lemma add_node_wf:
  assumes "graph_wf g" "length (g_nodes g) < kInvalidNodeId" "\<forall>i \<in> set (n_inputs n). id_ok g i"
  shows "graph_wf (snd (add_node n g))"
proof -
  let ?l = "length (g_nodes g)"
  have l: "u32 ?l = ?l" using assms(2) by (simp add: kInvalidNodeId_def)
  have outs: "g_outputs (snd (add_node n g))
      = fold (link_input_to_output ?l) (n_inputs n) (ensure_output_slot ?l (g_outputs g))"
    by (simp add: add_node_def Let_def l)
  have len: "length (g_outputs (snd (add_node n g))) = Suc ?l"
    unfolding outs using assms by (subst length_links) (auto simp: graph_wf_def id_ok_def)
  have "balanced (snd (add_node n g))"
    unfolding balanced_def outs using assms(1)
    by (auto simp: graph_wf_def balanced_def nth_append less_Suc_eq)
  moreover have "edges_ok (snd (add_node n g))"
    using assms unfolding edges_ok_def graph_wf_def id_ok_def by (auto simp: nth_append less_Suc_eq)
  ultimately show ?thesis using assms len unfolding graph_wf_def by simp
qed

lemma set_inputs_wf:
  fixes g :: graph and ins :: "node_id list"
  assumes wf: "graph_wf g" and n: "n < length (g_nodes g)" and ok: "\<forall>i \<in> set ins. id_ok g i"
    and len: "length outs = length (g_outputs g)"
    and cnt: "\<And>s u. s \<noteq> kInvalidNodeId \<Longrightarrow> out_count outs s u
      = (if u = n then count_list ins s else out_count (g_outputs g) s u)"
  shows "graph_wf ((update_node n (\<lambda>nd. nd\<lparr>n_inputs := ins\<rparr>) g)\<lparr>g_outputs := outs\<rparr>)"
proof -
  let ?g = "(update_node n (\<lambda>nd. nd\<lparr>n_inputs := ins\<rparr>) g)\<lparr>g_outputs := outs\<rparr>"
  have nodes: "n_inputs (node_at ?g u) = (if u = n then ins else n_inputs (node_at g u))" if "u < length (g_nodes g)" for u
    using that node_at_update [OF that] by simp
  have "balanced ?g"
    using wf n cnt nodes unfolding balanced_def graph_wf_def by auto
  moreover have "edges_ok ?g"
    using wf ok nodes unfolding edges_ok_def graph_wf_def id_ok_def by auto
  ultimately show ?thesis using wf len unfolding graph_wf_def by simp
qed

lemma graph_wf_count:
  "graph_wf g \<Longrightarrow> n < length (g_nodes g) \<Longrightarrow> s \<noteq> kInvalidNodeId \<Longrightarrow>
   out_count (g_outputs g) s n = count_list (n_inputs (node_at g n)) s"
  by (simp add: graph_wf_def balanced_def)

lemma count_list_map_swap:
  "count_list (map (\<lambda>i. if i = old then new else i) xs) s
     = (if s = old then (if old = new then count_list xs s else 0) else count_list xs s + (if s = new then count_list xs old else 0))"
  by (induction xs) auto

lemma update_inputs_fun:
  "update_node n (\<lambda>nd. nd\<lparr>n_inputs := f (n_inputs nd)\<rparr>) g
     = update_node n (\<lambda>nd. nd\<lparr>n_inputs := f (n_inputs (node_at g n))\<rparr>) g"
  by (simp add: update_node_def)

lemma swap_input_wf:
  assumes wf: "graph_wf g" and n: "n < length (g_nodes g)" and new: "id_ok g new"
  shows "graph_wf (swap_input n old new g)"
proof (cases "count_list (n_inputs (node_at g n)) old = 0")
  case True
  then have "map (\<lambda>i. if i = old then new else i) (n_inputs (node_at g n)) = n_inputs (node_at g n)"
    by (intro map_idI) (auto simp: count_list_0_iff)
  then have "update_node n (\<lambda>nd. nd\<lparr>n_inputs := map (\<lambda>i. if i = old then new else i) (n_inputs nd)\<rparr>) g = g"
    using n by (simp add: update_node_def)
  with True wf show ?thesis by (simp add: swap_input_def Let_def)
next
  case False
  let ?r = "count_list (n_inputs (node_at g n)) old"
  let ?ins = "map (\<lambda>i. if i = old then new else i) (n_inputs (node_at g n))"
  have old: "?r \<le> out_count (g_outputs g) old n \<or> old = kInvalidNodeId"
    using graph_wf_count [OF wf n, of old] by auto
  have "graph_wf ((update_node n (\<lambda>nd. nd\<lparr>n_inputs := ?ins\<rparr>) g)\<lparr>g_outputs := relink ?r n old new (g_outputs g)\<rparr>)"
  proof (rule set_inputs_wf [OF wf n])
    show "\<forall>i \<in> set ?ins. id_ok g i"
      using wf n new by (auto simp: graph_wf_def edges_ok_def id_ok_def)
    show "length (relink ?r n old new (g_outputs g)) = length (g_outputs g)"
      using new wf by (intro length_relink) (auto simp: id_ok_def graph_wf_def)
    fix s u :: node_id assume s: "s \<noteq> kInvalidNodeId"
    show "out_count (relink ?r n old new (g_outputs g)) s u = (if u = n then count_list ?ins s else out_count (g_outputs g) s u)"
    proof (cases "old = new")
      case True
      with old out_count_relink_same graph_wf_count [OF wf n s] show ?thesis
        by (auto simp: count_list_map_swap)
    next
      case False
      show ?thesis
        using graph_wf_count [OF wf n s] False s unfolding out_count_relink [OF old False]
        by (auto simp: count_list_map_swap)
    qed
  qed
  then show ?thesis using False update_inputs_fun [of n "map (\<lambda>i. if i = old then new else i)" g]
    by (simp add: swap_input_def Let_def)
qed

lemma set_input_wf:
  assumes wf: "graph_wf g" and n: "n < length (g_nodes g)" and new: "id_ok g new"
    and s: "set_input n i new g = Some g'"
  shows "graph_wf g'"
proof (cases "n_inputs (node_at g n) ! i = new")
  case True
  with s wf show ?thesis by (auto simp: set_input_def split: if_splits)
next
  case False
  let ?old = "n_inputs (node_at g n) ! i" and ?ins = "(n_inputs (node_at g n))[i := new]"
  let ?outs = "link_input_to_output n new (unlink_input_from_output n ?old (g_outputs g))"
  have i: "i < length (n_inputs (node_at g n))" using s by (auto simp: set_input_def split: if_splits)
  have "graph_wf ((update_node n (\<lambda>nd. nd\<lparr>n_inputs := ?ins\<rparr>) g)\<lparr>g_outputs := ?outs\<rparr>)"
  proof (rule set_inputs_wf [OF wf n])
    show "\<forall>i \<in> set ?ins. id_ok g i"
      using wf n new by (auto simp: graph_wf_def edges_ok_def id_ok_def dest!: subsetD [OF set_update_subset_insert])
    show "length ?outs = length (g_outputs g)"
      using new wf by (auto simp: id_ok_def graph_wf_def)
    fix s u :: node_id assume s: "s \<noteq> kInvalidNodeId"
    show "out_count ?outs s u = (if u = n then count_list ?ins s else out_count (g_outputs g) s u)"
      using graph_wf_count [OF wf n s] False s count_list_list_update [OF i, of new s] by auto
  qed
  then show ?thesis using s i False update_inputs_fun [of n "\<lambda>xs. xs[i := new]" g]
    by (auto simp: set_input_def Let_def)
qed

lemma append_input_wf:
  assumes wf: "graph_wf g" and n: "n < length (g_nodes g)"
  shows "graph_wf (append_input n new g)"
proof (cases "new = kInvalidNodeId \<or> new \<ge> length (g_nodes g)")
  case False
  let ?ins = "n_inputs (node_at g n) @ [new]"
  have "graph_wf ((update_node n (\<lambda>nd. nd\<lparr>n_inputs := ?ins\<rparr>) g)\<lparr>g_outputs := link_input_to_output n new (g_outputs g)\<rparr>)"
  proof (rule set_inputs_wf [OF wf n])
    show "\<forall>i \<in> set ?ins. id_ok g i"
      using wf n False by (auto simp: graph_wf_def edges_ok_def id_ok_def)
    show "length (link_input_to_output n new (g_outputs g)) = length (g_outputs g)"
      using False wf by (auto simp: graph_wf_def)
    fix s u :: node_id assume s: "s \<noteq> kInvalidNodeId"
    show "out_count (link_input_to_output n new (g_outputs g)) s u = (if u = n then count_list ?ins s else out_count (g_outputs g) s u)"
      using graph_wf_count [OF wf n s] False by auto
  qed
  then show ?thesis using False update_inputs_fun [of n "\<lambda>xs. xs @ [new]" g]
    by (simp add: append_input_def Let_def)
qed (use wf in \<open>simp add: append_input_def\<close>)

lemma mark_dead_wf: "graph_wf g \<Longrightarrow> graph_wf (mark_dead n g)"
  unfolding mark_dead_def by (simp add: update_node_wf node_set_flag_def)

subsection \<open>Every sequence of edits keeps the graph well formed\<close>

datatype graph_edit =
    MakeNode node_kind "node_id list" type_id i64
  | MakeAltered node_kind node_id node_id "node_id list" type_id i64
  | MakePhi node_id "node_id list" type_id
  | MakeCall node_id node_id symbol_id "node_id list" type_id effect_class
  | MakeGuard node_id node_id node_id nat
  | SwapInput node_id node_id node_id
  | SetInput node_id nat node_id
  | AppendInput node_id node_id
  | MarkDead node_id

fun edit_step :: "graph_edit \<Rightarrow> graph \<Rightarrow> graph option" where
  "edit_step (MakeNode k ins ty p) g = Some (snd (make_node k ins ty p g))"
| "edit_step (MakeAltered k c e ds ty p) g = Some (snd (make_altered k c e ds ty p g))"
| "edit_step (MakePhi r vs ty) g = Some (snd (make_phi r vs ty g))"
| "edit_step (MakeCall c e s as ty eff) g = Some (snd (make_call c e s as ty eff g))"
| "edit_step (MakeGuard c e d fs) g = Some (snd (make_guard c e d fs g))"
| "edit_step (SwapInput n a b) g = Some (swap_input n a b g)"
| "edit_step (SetInput n i b) g = set_input n i b g"
| "edit_step (AppendInput n b) g = Some (append_input n b g)"
| "edit_step (MarkDead n) g = Some (mark_dead n g)"

text \<open>The ids an edit names exist, and an edit that creates a node has an id left for it.\<close>

fun edit_ok :: "graph \<Rightarrow> graph_edit \<Rightarrow> bool" where
  "edit_ok g (MakeNode k ins ty p) = (length (g_nodes g) < kInvalidNodeId \<and> list_all (id_ok g) ins)"
| "edit_ok g (MakeAltered k c e ds ty p) = (length (g_nodes g) < kInvalidNodeId \<and> list_all (id_ok g) (c # e # ds))"
| "edit_ok g (MakePhi r vs ty) = (length (g_nodes g) < kInvalidNodeId \<and> list_all (id_ok g) (r # vs))"
| "edit_ok g (MakeCall c e s as ty eff) = (length (g_nodes g) < kInvalidNodeId \<and> list_all (id_ok g) (c # e # as))"
| "edit_ok g (MakeGuard c e d fs) = (length (g_nodes g) < kInvalidNodeId \<and> list_all (id_ok g) [c, e, d])"
| "edit_ok g (SwapInput n a b) = (n < length (g_nodes g) \<and> id_ok g b)"
| "edit_ok g (SetInput n i b) = (n < length (g_nodes g) \<and> i < length (n_inputs (node_at g n)) \<and> id_ok g b)"
| "edit_ok g (AppendInput n b) = (n < length (g_nodes g))"
| "edit_ok g (MarkDead n) = (n < length (g_nodes g))"

fun run_edits :: "graph_edit list \<Rightarrow> graph \<Rightarrow> graph option" where
  "run_edits [] g = Some g"
| "run_edits (e # es) g = (if edit_ok g e then Option.bind (edit_step e g) (run_edits es) else None)"

lemma make_guard_wf:
  assumes "graph_wf g" "length (g_nodes g) < kInvalidNodeId" "list_all (id_ok g) [c, e, d]"
  shows "graph_wf (snd (make_guard c e d fs g))"
proof -
  have "graph_wf (snd (make_altered NK_Guard c e [d] kInvalidTypeId (of_nat (u32 fs)) g))"
    unfolding make_altered_def using assms by (intro add_node_wf) auto
  then show ?thesis by (auto simp: make_guard_def split: prod.split intro!: update_node_wf)
qed

lemma edit_step_wf:
  assumes "graph_wf g" "edit_ok g e"
  shows "\<exists>g'. edit_step e g = Some g' \<and> graph_wf g'"
proof (cases e)
  case (SetInput n i b)
  with assms(2) have "set_input n i b g \<noteq> None" by (simp add: set_input_def Let_def)
  with SetInput assms set_input_wf [OF assms(1)] show ?thesis by auto
qed (use assms in \<open>auto simp: make_node_def make_altered_def make_phi_def make_call_def list_all_iff
      intro!: add_node_wf make_guard_wf swap_input_wf append_input_wf mark_dead_wf\<close>)

lemma run_edits_wf: "graph_wf g \<Longrightarrow> run_edits es g = Some g' \<Longrightarrow> graph_wf g'"
proof (induction es arbitrary: g)
  case (Cons e es)
  then obtain g1 where "edit_ok g e" "edit_step e g = Some g1" "run_edits es g1 = Some g'"
    by (auto simp: bind_eq_Some_conv split: if_splits)
  with edit_step_wf [OF Cons.prems(1), of e] Cons.IH [of g1] show ?case by auto
qed simp

subsection \<open>What the verifier decides\<close>

lemma first_error_None: "first_error f xs = None \<longleftrightarrow> (\<forall>x \<in> set xs. f x = None)"
  by (induction xs) (auto split: option.splits)

lemma first_error_Some: "first_error f xs = Some e \<Longrightarrow> \<exists>x \<in> set xs. f x = Some e"
  by (induction xs) (auto split: option.splits)

definition live_at :: "graph \<Rightarrow> node_id \<Rightarrow> bool" where
  "live_at g i \<longleftrightarrow> i < length (g_nodes g) \<and> \<not> node_is_dead (node_at g i)"

lemma verify_None_iff:
  "verify g = None \<longleftrightarrow>
     (\<forall>i. live_at g i \<longrightarrow> (\<forall>s \<in> set (n_inputs (node_at g i)). s = kInvalidNodeId \<or> live_at g s)) \<and>
     (\<forall>i. live_at g i \<longrightarrow> \<not> node_is_pure (node_at g i) \<longrightarrow> n_kind (node_at g i) \<noteq> NK_Start \<longrightarrow>
        eff_in (node_at g i) \<noteq> kInvalidNodeId) \<and>
     (\<forall>i < length (g_nodes g). node_has (node_at g i) IsPgoSpeculated \<longrightarrow> node_has (node_at g i) IsGuarded \<longrightarrow>
        node_has (node_at g i) HasFrameState) \<and>
     (\<forall>s < length (g_outputs g). \<forall>u \<in> set (g_outputs g ! s). u < length (g_nodes g) \<and>
        (live_at g u \<longrightarrow> s \<in> set (n_inputs (node_at g u))))"
  (is "_ \<longleftrightarrow> ?a \<and> ?b \<and> ?c \<and> ?d")
proof -
  have a: "first_error (check_node_inputs g) [0..<length (g_nodes g)] = None \<longleftrightarrow> ?a"
    unfolding first_error_None
    by (force simp: check_node_inputs_def first_error_None check_input_def live_at_def)
  have b: "first_error (check_effect_in g) [0..<length (g_nodes g)] = None \<longleftrightarrow> ?b"
    unfolding first_error_None by (auto simp: check_effect_in_def live_at_def Let_def)
  have c: "first_error (check_frame_state g) [0..<length (g_nodes g)] = None \<longleftrightarrow> ?c"
    unfolding first_error_None by (auto simp: check_frame_state_def Let_def)
  have d: "first_error (check_outputs g) [0..<length (g_outputs g)] = None \<longleftrightarrow> ?d"
    unfolding first_error_None
    by (force simp: check_outputs_def first_error_None check_user_def live_at_def)
  show ?thesis unfolding verify_def Let_def a [symmetric] b [symmetric] c [symmetric] d [symmetric]
    by (auto split: option.splits)
qed

lemma wf_users_count:
  assumes "graph_wf g" "s < length (g_nodes g)"
  shows "count_list (users_snapshot g s) u
    = (if u < length (g_nodes g) then count_list (n_inputs (node_at g u)) s else 0)"
proof -
  have "s \<noteq> kInvalidNodeId" using assms by (auto simp: graph_wf_def)
  then have "out_count (g_outputs g) s u
      = (if u < length (g_nodes g) then count_list (n_inputs (node_at g u)) s else 0)"
    using assms(1) unfolding graph_wf_def balanced_def by blast
  moreover have "out_count (g_outputs g) s u = count_list (users_snapshot g s) u"
    using assms by (auto simp: graph_wf_def out_count_def users_snapshot_def)
  ultimately show ?thesis by simp
qed

lemma wf_users_member:
  assumes "graph_wf g" "s < length (g_nodes g)"
  shows "u \<in> set (users_snapshot g s) \<longleftrightarrow> u < length (g_nodes g) \<and> s \<in> set (n_inputs (node_at g u))"
  using wf_users_count [OF assms, of u] by (metis count_list_pos_iff less_irrefl)

lemma wf_outputs_member:
  assumes "graph_wf g" "s < length (g_nodes g)"
  shows "u \<in> set (g_outputs g ! s) \<longleftrightarrow> u < length (g_nodes g) \<and> s \<in> set (n_inputs (node_at g u))"
  using wf_users_member [OF assms] assms by (simp add: users_snapshot_def graph_wf_def)

definition no_dead_input :: "graph \<Rightarrow> bool" where
  "no_dead_input g \<longleftrightarrow> (\<forall>i. live_at g i \<longrightarrow>
     (\<forall>s \<in> set (n_inputs (node_at g i)). s < length (g_nodes g) \<longrightarrow> \<not> node_is_dead (node_at g s)))"

definition effect_linked :: "graph \<Rightarrow> bool" where
  "effect_linked g \<longleftrightarrow> (\<forall>i. live_at g i \<longrightarrow> \<not> node_is_pure (node_at g i) \<longrightarrow>
     n_kind (node_at g i) \<noteq> NK_Start \<longrightarrow> eff_in (node_at g i) \<noteq> kInvalidNodeId)"

definition guards_framed :: "graph \<Rightarrow> bool" where
  "guards_framed g \<longleftrightarrow> (\<forall>i < length (g_nodes g). node_has (node_at g i) IsPgoSpeculated \<longrightarrow>
     node_has (node_at g i) IsGuarded \<longrightarrow> node_has (node_at g i) HasFrameState)"

lemma verify_wf:
  assumes "graph_wf g"
  shows "verify g = None \<longleftrightarrow> no_dead_input g \<and> effect_linked g \<and> guards_framed g"
proof -
  have "s < length (g_outputs g) \<Longrightarrow> u \<in> set (g_outputs g ! s) \<Longrightarrow>
      u < length (g_nodes g) \<and> s \<in> set (n_inputs (node_at g u))" for s u
    using assms wf_outputs_member [OF assms] by (auto simp: graph_wf_def)
  moreover have "(\<forall>i. live_at g i \<longrightarrow> (\<forall>s \<in> set (n_inputs (node_at g i)). s = kInvalidNodeId \<or> live_at g s))
      \<longleftrightarrow> no_dead_input g"
    using assms unfolding graph_wf_def edges_ok_def no_dead_input_def live_at_def
    by (metis (no_types, opaque_lifting) leD)
  ultimately show ?thesis unfolding verify_None_iff effect_linked_def guards_framed_def by auto
qed

text \<open>
  C3. The use-def bookkeeping of the graph is exact: after any sequence of node creations and
  edge edits that name existing nodes, every output list holds each user once per input
  edge, all edges point to existing nodes, and therefore \<open>verify\<close> accepts the graph
  exactly when no live node reads a dead one, every live node with an effect has an
  effect input and every speculated guard has its frame state.
\<close>

theorem graph_edits_consistent:
  assumes "run_edits es graph_new = Some g"
  shows "(\<forall>s < length (g_nodes g). \<forall>u < length (g_nodes g).
      count_list (users_snapshot g s) u = count_list (n_inputs (node_at g u)) s)
    \<and> (\<forall>u < length (g_nodes g). \<forall>s \<in> set (n_inputs (node_at g u)). s = kInvalidNodeId \<or> s < length (g_nodes g))
    \<and> (verify g = None \<longleftrightarrow> no_dead_input g \<and> effect_linked g \<and> guards_framed g)"
proof (intro conjI)
  have wf: "graph_wf g" using run_edits_wf [OF graph_new_wf assms] .
  then show "\<forall>u < length (g_nodes g). \<forall>s \<in> set (n_inputs (node_at g u)). s = kInvalidNodeId \<or> s < length (g_nodes g)"
    by (simp add: graph_wf_def edges_ok_def)
  from wf show "verify g = None \<longleftrightarrow> no_dead_input g \<and> effect_linked g \<and> guards_framed g" by (rule verify_wf)
  show "\<forall>s < length (g_nodes g). \<forall>u < length (g_nodes g).
      count_list (users_snapshot g s) u = count_list (n_inputs (node_at g u)) s"
    using wf_users_count [OF wf] by simp
qed

theorem graph_edits_consistent_witness:
  "\<exists>g. run_edits [MakeNode NK_Constant [] 3 7, MakeNode NK_Add [1, 1] 3 0, MakeNode NK_Constant [] 3 9,
      SwapInput 2 1 3, MarkDead 1] graph_new = Some g \<and> n_inputs (node_at g 2) = [3, 3]
      \<and> count_list (users_snapshot g 3) 2 = 2 \<and> (\<forall>u < 4. \<forall>s \<in> set (n_inputs (node_at g u)). s = kInvalidNodeId \<or> s < 4)"
proof -
  let ?es = "[MakeNode NK_Constant [] 3 7, MakeNode NK_Add [1, 1] 3 0, MakeNode NK_Constant [] 3 9,
      SwapInput 2 1 3, MarkDead 1]"
  have ex: "case run_edits ?es graph_new of None \<Rightarrow> False | Some g \<Rightarrow>
      n_inputs (node_at g 2) = [3, 3] \<and> length (g_nodes g) = 4"
    by code_simp
  then obtain g where g: "run_edits ?es graph_new = Some g" by (auto split: option.splits)
  with ex have *: "n_inputs (node_at g 2) = [3, 3]" "length (g_nodes g) = 4" by auto
  from graph_edits_consistent [OF g] * have "count_list (users_snapshot g 3) 2 = 2" by auto
  with g * graph_edits_consistent [OF g] show ?thesis by auto
qed

text \<open>
  C20. \<open>swap_input\<close> on a well-formed graph: every occurrence of the old operand of the node
  is replaced (an operand used twice is replaced twice), its other operands and all other
  nodes are untouched, the old operand loses all its edges to the node, the new operand
  gains as many, and no other user list changes.
\<close>

theorem swap_input_spec:
  assumes "graph_wf g" "n < length (g_nodes g)" "id_ok g new" "old \<noteq> new"
  shows "n_inputs (node_at (swap_input n old new g) n)
        = map (\<lambda>i. if i = old then new else i) (n_inputs (node_at g n))
    \<and> (\<forall>j < length (g_nodes g). j \<noteq> n \<longrightarrow> node_at (swap_input n old new g) j = node_at g j)
    \<and> (\<forall>s < length (g_nodes g). \<forall>u. count_list (users_snapshot (swap_input n old new g) s) u =
         (if u \<noteq> n then count_list (users_snapshot g s) u
          else if s = old then 0
          else if s = new then count_list (users_snapshot g s) u + count_list (n_inputs (node_at g n)) old
          else count_list (users_snapshot g s) u))"
proof (intro conjI allI impI)
  let ?g = "swap_input n old new g"
  show ins: "n_inputs (node_at ?g n) = map (\<lambda>i. if i = old then new else i) (n_inputs (node_at g n))"
    using assms(2) by (auto simp: swap_input_def Let_def node_at_update)
  show other: "node_at ?g j = node_at g j" if "j < length (g_nodes g)" "j \<noteq> n" for j
    using that by (auto simp: swap_input_def Let_def node_at_update)
  fix s u assume s: "s < length (g_nodes g)"
  have len: "length (g_nodes ?g) = length (g_nodes g)" by (simp add: swap_input_def Let_def)
  then have s': "s < length (g_nodes ?g)" using s by simp
  note cnt = wf_users_count [OF assms(1) s] wf_users_count [OF swap_input_wf [OF assms(1-3)] s', unfolded len]
  show "count_list (users_snapshot ?g s) u =
         (if u \<noteq> n then count_list (users_snapshot g s) u
          else if s = old then 0
          else if s = new then count_list (users_snapshot g s) u + count_list (n_inputs (node_at g n)) old
          else count_list (users_snapshot g s) u)"
    using other [of u] ins assms(2,4) unfolding cnt by (auto simp: count_list_map_swap)
qed

theorem swap_input_spec_witness:
  "\<exists>g. graph_wf g \<and> n_inputs (node_at g 2) = [1, 1] \<and> n_inputs (node_at (swap_input 2 1 0 g) 2) = [0, 0]
     \<and> count_list (users_snapshot (swap_input 2 1 0 g) 0) 2 = count_list (users_snapshot g 0) 2 + 2"
proof -
  let ?es = "[MakeNode NK_Constant [] 3 7, MakeNode NK_Add [1, 1] 3 0]"
  have ex: "case run_edits ?es graph_new of None \<Rightarrow> False | Some g \<Rightarrow>
      n_inputs (node_at g 2) = [1, 1] \<and> length (g_nodes g) = 3"
    by code_simp
  then obtain g where g: "run_edits ?es graph_new = Some g" by (auto split: option.splits)
  with ex have *: "n_inputs (node_at g 2) = [1, 1]" "length (g_nodes g) = 3" by auto
  have "graph_wf g" using run_edits_wf [OF graph_new_wf g] .
  from swap_input_spec [OF this, of 2 0 1] this * show ?thesis by (auto simp: id_ok_def)
qed

end
