(* ===== verification/Valuations.thy ===== *)
theory Valuations
  imports Graphs
begin

section \<open>Executions of a graph\<close>

text \<open>
  The meaning the rewrites must preserve, after the comments on the kinds in
  \<open>NodeKind.hpp\<close>. An execution assigns to each node its value at each step \<open>t\<close>: 64-bit
  integers, or opaque tokens for control, effect states, pointers and tuples. A node's value
  is a function of the values of its inputs at the same step, for nodes with an effect too,
  whose effect input is the state they act on. A \<open>Phi\<close> takes the value that the operand
  selected by its region had at the step it was selected from (so loops are covered; the
  selected position counts modulo the number of operands, so every selector has a meaning).
  \<open>Start\<close>, \<open>Parameter\<close>, \<open>Region\<close> and \<open>Loop\<close> are unconstrained. The functions of the kinds
  that are not integer arithmetic (calls, loads, stores, casts, projections) are a
  parameter \<open>F\<close>, as are the arithmetic kinds outside their defined range.
\<close>

datatype 'e val = VInt i64 | VOpaque 'e

definition tdiv :: "int \<Rightarrow> int \<Rightarrow> int" where
  "tdiv a b = sgn a * sgn b * (\<bar>a\<bar> div \<bar>b\<bar>)"

definition tmod :: "int \<Rightarrow> int \<Rightarrow> int" where
  "tmod a b = a - b * tdiv a b"

definition bool_i64 :: "bool \<Rightarrow> i64" where
  "bool_i64 b = (if b then 1 else 0)"

text \<open>Integer arithmetic of the kinds: two's complement, wrapping; \<open>None\<close> outside the defined range.\<close>

definition binop_sem :: "node_kind \<Rightarrow> i64 \<Rightarrow> i64 \<Rightarrow> i64 option" where
  "binop_sem k a b = (case k of
     NK_Add \<Rightarrow> Some (a + b)
   | NK_Sub \<Rightarrow> Some (a - b)
   | NK_Mul \<Rightarrow> Some (a * b)
   | NK_Div \<Rightarrow> if b = 0 \<or> (sint a = - (2 ^ 63) \<and> sint b = - 1) then None
               else Some (word_of_int (tdiv (sint a) (sint b)))
   | NK_Mod \<Rightarrow> if b = 0 \<or> (sint a = - (2 ^ 63) \<and> sint b = - 1) then None
               else Some (word_of_int (tmod (sint a) (sint b)))
   | NK_UDiv \<Rightarrow> if b = 0 then None else Some (a div b)
   | NK_UMod \<Rightarrow> if b = 0 then None else Some (a mod b)
   | NK_And \<Rightarrow> Some (a AND b)
   | NK_Or \<Rightarrow> Some (a OR b)
   | NK_Xor \<Rightarrow> Some (a XOR b)
   | NK_Shl \<Rightarrow> if unat b < 64 then Some (push_bit (unat b) a) else None
   | NK_Shr \<Rightarrow> if unat b < 64 then Some (signed_drop_bit (unat b) a) else None
   | NK_LShr \<Rightarrow> if unat b < 64 then Some (drop_bit (unat b) a) else None
   | NK_CmpEq \<Rightarrow> Some (bool_i64 (a = b))
   | NK_CmpNe \<Rightarrow> Some (bool_i64 (a \<noteq> b))
   | NK_CmpLt \<Rightarrow> Some (bool_i64 (sint a < sint b))
   | NK_CmpLe \<Rightarrow> Some (bool_i64 (sint a \<le> sint b))
   | NK_CmpGt \<Rightarrow> Some (bool_i64 (sint a > sint b))
   | NK_CmpGe \<Rightarrow> Some (bool_i64 (sint a \<ge> sint b))
   | NK_CmpUlt \<Rightarrow> Some (bool_i64 (a < b))
   | NK_CmpUle \<Rightarrow> Some (bool_i64 (a \<le> b))
   | NK_CmpUgt \<Rightarrow> Some (bool_i64 (a > b))
   | NK_CmpUge \<Rightarrow> Some (bool_i64 (a \<ge> b))
   | _ \<Rightarrow> None)"

definition unop_sem :: "node_kind \<Rightarrow> i64 \<Rightarrow> i64 option" where
  "unop_sem k a = (case k of
     NK_Neg \<Rightarrow> Some (- a)
   | NK_Not \<Rightarrow> Some (bool_i64 (a = 0))
   | NK_BitNot \<Rightarrow> Some (NOT a)
   | _ \<Rightarrow> None)"

fun node_sem :: "node_kind \<Rightarrow> 'e val list \<Rightarrow> i64 option" where
  "node_sem k [VInt a] = unop_sem k a"
| "node_sem k [VInt a, VInt b] = binop_sem k a b"
| "node_sem k _ = None"

type_synonym 'e kind_fun = "node_kind \<Rightarrow> type_id \<Rightarrow> i64 \<Rightarrow> 'e val list \<Rightarrow> 'e val"
type_synonym 'e valuation = "nat \<Rightarrow> node_id \<Rightarrow> 'e val"
type_synonym selector = "nat \<Rightarrow> node_id \<Rightarrow> nat \<times> nat"

definition apply_kind :: "'e kind_fun \<Rightarrow> node_kind \<Rightarrow> type_id \<Rightarrow> i64 \<Rightarrow> 'e val list \<Rightarrow> 'e val" where
  "apply_kind F k ty p xs = (case node_sem k xs of Some w \<Rightarrow> VInt w | None \<Rightarrow> F k ty p xs)"

definition free_kinds :: "node_kind list" where
  "free_kinds = [NK_Start, NK_Parameter, NK_Region, NK_Loop]"

definition node_ok :: "'e kind_fun \<Rightarrow> selector \<Rightarrow> 'e valuation \<Rightarrow> nat \<Rightarrow> node \<Rightarrow> 'e val \<Rightarrow> bool" where
  "node_ok F sel v t n x =
     (if n_kind n \<in> set free_kinds then True
      else if n_kind n = NK_Constant then x = VInt (n_payload n)
      else if n_kind n = NK_Phi then
        (case n_inputs n of [] \<Rightarrow> True
         | r # vals \<Rightarrow> (case sel t r of (t', k) \<Rightarrow> vals \<noteq> [] \<longrightarrow> x = v t' (vals ! (k mod length vals))))
      else x = apply_kind F (n_kind n) (n_type n) (n_payload n) (map (v t) (n_inputs n)))"

definition exec :: "'e kind_fun \<Rightarrow> selector \<Rightarrow> graph \<Rightarrow> 'e valuation \<Rightarrow> bool" where
  "exec F sel g v \<longleftrightarrow> (\<forall>t i. live_at g i \<longrightarrow> node_ok F sel v t (node_at g i) (v t i))"

text \<open>
  A rewrite is sound when every execution of the graph is, on the nodes the graph had, an
  execution of the result.
\<close>

definition simulates :: "'e kind_fun \<Rightarrow> selector \<Rightarrow> graph \<Rightarrow> graph \<Rightarrow> bool" where
  "simulates F sel g g' \<longleftrightarrow> (\<forall>v. exec F sel g v \<longrightarrow>
     (\<exists>v'. exec F sel g' v' \<and> (\<forall>t i. i < length (g_nodes g) \<longrightarrow> v' t i = v t i)))"

lemma simulates_refl: "simulates F sel g g"
  by (auto simp: simulates_def)

lemma simulates_trans:
  assumes "simulates F sel g1 g2" "simulates F sel g2 g3" "length (g_nodes g1) \<le> length (g_nodes g2)"
  shows "simulates F sel g1 g3"
  unfolding simulates_def
proof (intro allI impI)
  fix v assume "exec F sel g1 v"
  then obtain v2 where v2: "exec F sel g2 v2" "\<forall>t i. i < length (g_nodes g1) \<longrightarrow> v2 t i = v t i"
    using assms(1) by (auto simp: simulates_def)
  then obtain v3 where "exec F sel g3 v3" "\<forall>t i. i < length (g_nodes g2) \<longrightarrow> v3 t i = v2 t i"
    using assms(2) by (auto simp: simulates_def)
  with v2 assms(3) show "\<exists>v'. exec F sel g3 v' \<and> (\<forall>t i. i < length (g_nodes g1) \<longrightarrow> v' t i = v t i)"
    by (intro exI [of _ v3]) auto
qed

text \<open>Phi nodes hang off a region: what selects a phi's operand is a \<open>Region\<close> or \<open>Loop\<close> node.\<close>

definition is_merge :: "graph \<Rightarrow> node_id \<Rightarrow> bool" where
  "is_merge g r \<longleftrightarrow> r < length (g_nodes g) \<and> (n_kind (node_at g r) = NK_Region \<or> n_kind (node_at g r) = NK_Loop)"

definition phi_shape :: "graph \<Rightarrow> node_id \<Rightarrow> bool" where
  "phi_shape g i \<longleftrightarrow> (case n_inputs (node_at g i) of [] \<Rightarrow> False
     | r # vals \<Rightarrow> is_merge g r \<and> vals \<noteq> [] \<and> (\<forall>x \<in> set vals. x < length (g_nodes g) \<and> \<not> is_merge g x))"

definition phis_ok :: "graph \<Rightarrow> bool" where
  "phis_ok g \<longleftrightarrow> (\<forall>i. live_at g i \<longrightarrow> n_kind (node_at g i) = NK_Phi \<longrightarrow> phi_shape g i)"

subsection \<open>Redirecting all uses of a node\<close>

text \<open>
  The loop \<open>for (user : g.users_snapshot(id)) g.swap_input(user, id, new)\<close> that the rewriting
  passes share, and the dead flag they set on the node afterwards.
\<close>

definition replace_uses :: "node_id \<Rightarrow> node_id \<Rightarrow> graph \<Rightarrow> graph" where
  "replace_uses i new g = fold (\<lambda>u g. swap_input u i new g) (users_snapshot g i) g"

definition set_dead :: "node_id \<Rightarrow> graph \<Rightarrow> graph" where
  "set_dead i g = update_node i (node_set_flag IsDead) g"

definition subst_inputs :: "node_id \<Rightarrow> node_id \<Rightarrow> node \<Rightarrow> node" where
  "subst_inputs i new n = n\<lparr>n_inputs := map (\<lambda>x. if x = i then new else x) (n_inputs n)\<rparr>"

lemma subst_inputs_simps [simp]:
  "n_kind (subst_inputs i new n) = n_kind n" "n_effect (subst_inputs i new n) = n_effect n"
  "n_flags (subst_inputs i new n) = n_flags n" "n_type (subst_inputs i new n) = n_type n"
  "n_payload (subst_inputs i new n) = n_payload n"
  "n_inputs (subst_inputs i new n) = map (\<lambda>x. if x = i then new else x) (n_inputs n)"
  by (simp_all add: subst_inputs_def)

lemma subst_inputs_idem: "subst_inputs i new (subst_inputs i new n) = subst_inputs i new n"
  by (simp add: subst_inputs_def)

lemma subst_inputs_absent: "i \<notin> set (n_inputs n) \<Longrightarrow> subst_inputs i new n = n"
proof -
  assume "i \<notin> set (n_inputs n)"
  then have "map (\<lambda>x. if x = i then new else x) (n_inputs n) = n_inputs n" by (intro map_idI) auto
  then show ?thesis by (simp add: subst_inputs_def)
qed

lemma swap_input_node:
  "j < length (g_nodes g) \<Longrightarrow>
   node_at (swap_input n i new g) j = (if j = n then subst_inputs i new (node_at g j) else node_at g j)"
  by (simp add: swap_input_def Let_def node_at_update subst_inputs_def)

lemma swap_input_length [simp]: "length (g_nodes (swap_input n i new g)) = length (g_nodes g)"
  by (simp add: swap_input_def Let_def)

lemma swap_inputs_fold:
  assumes "graph_wf g" "id_ok g new" "set us \<subseteq> {..<length (g_nodes g)}"
  shows "graph_wf (fold (\<lambda>u g. swap_input u i new g) us g)
    \<and> length (g_nodes (fold (\<lambda>u g. swap_input u i new g) us g)) = length (g_nodes g)
    \<and> (\<forall>j < length (g_nodes g). node_at (fold (\<lambda>u g. swap_input u i new g) us g) j
         = (if j \<in> set us then subst_inputs i new (node_at g j) else node_at g j))"
  using assms
proof (induction us arbitrary: g)
  case (Cons u us)
  let ?g = "swap_input u i new g"
  have u: "u < length (g_nodes g)" using Cons.prems by simp
  have "graph_wf ?g" using swap_input_wf [OF Cons.prems(1) u Cons.prems(2)] .
  moreover have "id_ok ?g new" using Cons.prems(2) by (simp add: id_ok_def)
  ultimately have *: "graph_wf (fold (\<lambda>u g. swap_input u i new g) us ?g)"
    "length (g_nodes (fold (\<lambda>u g. swap_input u i new g) us ?g)) = length (g_nodes g)"
    "\<forall>j < length (g_nodes g). node_at (fold (\<lambda>u g. swap_input u i new g) us ?g) j
         = (if j \<in> set us then subst_inputs i new (node_at ?g j) else node_at ?g j)"
    using Cons.IH [of ?g] Cons.prems by auto
  have "node_at (fold (\<lambda>u g. swap_input u i new g) (u # us) g) j
      = (if j \<in> set (u # us) then subst_inputs i new (node_at g j) else node_at g j)"
    if j: "j < length (g_nodes g)" for j
    using *(3) j swap_input_node [OF j, of u i new] by (auto simp: subst_inputs_idem)
  with * show ?case by simp
qed simp

lemma replace_uses_spec:
  assumes wf: "graph_wf g" and i: "i < length (g_nodes g)" and new: "id_ok g new"
  shows "graph_wf (replace_uses i new g)"
    and "length (g_nodes (replace_uses i new g)) = length (g_nodes g)"
    and "j < length (g_nodes g) \<Longrightarrow> node_at (replace_uses i new g) j = subst_inputs i new (node_at g j)"
proof -
  have us: "set (users_snapshot g i) \<subseteq> {..<length (g_nodes g)}"
    using wf_users_member [OF wf i] by auto
  note f = swap_inputs_fold [OF wf new us, of i, folded replace_uses_def]
  from f show "graph_wf (replace_uses i new g)" "length (g_nodes (replace_uses i new g)) = length (g_nodes g)"
    by auto
  assume j: "j < length (g_nodes g)"
  show "node_at (replace_uses i new g) j = subst_inputs i new (node_at g j)"
  proof (cases "j \<in> set (users_snapshot g i)")
    case False
    then have "i \<notin> set (n_inputs (node_at g j))" using wf_users_member [OF wf i, of j] j by simp
    with f j False show ?thesis by (simp add: subst_inputs_absent)
  qed (use f j in simp)
qed

lemma node_ok_subst:
  assumes ok: "node_ok F sel v t n x" and eq: "\<And>t. v t new = v t i"
    and phi: "n_kind n = NK_Phi \<Longrightarrow> n_inputs n = [] \<or> hd (n_inputs n) \<noteq> i"
  shows "node_ok F sel v t (subst_inputs i new n) x"
proof -
  have m: "map (v t) (map (\<lambda>x. if x = i then new else x) xs) = map (v t) xs" for t xs
    by (auto simp: eq)
  have n: "vals \<noteq> [] \<Longrightarrow> v t (map (\<lambda>x. if x = i then new else x) vals ! (k mod length vals))
      = v t (vals ! (k mod length vals))" for t k and vals :: "node_id list"
    by (simp add: eq)
  show ?thesis
  proof (cases "n_kind n = NK_Phi")
    case True
    with ok phi n show ?thesis
      by (auto simp: node_ok_def free_kinds_def split: list.splits prod.splits)
  next
    case False
    with ok show ?thesis unfolding node_ok_def by (simp add: m del: map_map)
  qed
qed

subsection \<open>The invariant of the rewriting passes\<close>

definition pass_ok :: "graph \<Rightarrow> bool" where
  "pass_ok g \<longleftrightarrow> graph_wf g \<and> verify g = None \<and> phis_ok g"

lemma pass_okI:
  "graph_wf g \<Longrightarrow> no_dead_input g \<Longrightarrow> effect_linked g \<Longrightarrow> guards_framed g \<Longrightarrow> phis_ok g \<Longrightarrow> pass_ok g"
  by (simp add: pass_ok_def verify_wf)

lemma pass_okD:
  "pass_ok g \<Longrightarrow> graph_wf g" "pass_ok g \<Longrightarrow> no_dead_input g" "pass_ok g \<Longrightarrow> effect_linked g"
  "pass_ok g \<Longrightarrow> guards_framed g" "pass_ok g \<Longrightarrow> phis_ok g"
  by (auto simp: pass_ok_def verify_wf)

lemma wf_edge: "graph_wf g \<Longrightarrow> u < length (g_nodes g) \<Longrightarrow> s \<in> set (n_inputs (node_at g u)) \<Longrightarrow>
    s = kInvalidNodeId \<or> s < length (g_nodes g)"
  by (auto simp: graph_wf_def edges_ok_def)

lemma pass_ok_input_live:
  "pass_ok g \<Longrightarrow> live_at g u \<Longrightarrow> s \<in> set (n_inputs (node_at g u)) \<Longrightarrow> s = kInvalidNodeId \<or> live_at g s"
  using wf_edge [of g u s] pass_okD(1,2) [of g] by (auto simp: no_dead_input_def live_at_def)

lemma flags_set_other:
  "flag_index a \<noteq> flag_index b \<Longrightarrow> flags_has (flags_set f (flag_mask b)) (flag_mask a) = flags_has f (flag_mask a)"
proof -
  have "flag_index b < LENGTH(32)" by (cases b) simp_all
  then show "flag_index a \<noteq> flag_index b \<Longrightarrow> ?thesis"
    unfolding flag_mask_def by (subst flags_has_set_bit) auto
qed

lemma flags_set_same [simp]: "flags_has (flags_set f (flag_mask b)) (flag_mask b)"
proof -
  have "flag_index b < LENGTH(32)" by (cases b) simp_all
  then show ?thesis unfolding flag_mask_def by (subst flags_has_set_bit) auto
qed

lemma flag_index_inj: "flag_index a = flag_index b \<longleftrightarrow> a = b"
  by (cases a; cases b) simp_all

lemma node_set_flag_simps [simp]:
  "n_kind (node_set_flag b n) = n_kind n" "n_effect (node_set_flag b n) = n_effect n"
  "n_type (node_set_flag b n) = n_type n" "n_payload (node_set_flag b n) = n_payload n"
  "n_inputs (node_set_flag b n) = n_inputs n"
  "node_has (node_set_flag b n) a \<longleftrightarrow> a = b \<or> node_has n a"
proof -
  show "node_has (node_set_flag b n) a \<longleftrightarrow> a = b \<or> node_has n a"
    by (cases "a = b") (simp_all add: node_set_flag_def flags_set_other flag_index_inj)
qed (simp_all add: node_set_flag_def)

lemma node_ok_cong:
  assumes "n_kind n = n_kind n'" "n_type n = n_type n'" "n_payload n = n_payload n'" "n_inputs n = n_inputs n'"
    and "\<And>t s. s \<in> set (n_inputs n) \<Longrightarrow> v t s = v' t s"
  shows "node_ok F sel v t n x \<longleftrightarrow> node_ok F sel v' t n' x"
proof -
  have m: "map (v t) (n_inputs n) = map (v' t) (n_inputs n)" using assms(5) by auto
  have p: "n_inputs n = r # vals \<Longrightarrow> vals \<noteq> [] \<Longrightarrow> v t' (vals ! (k mod length vals)) = v' t' (vals ! (k mod length vals))"
    for r vals t' k
    using assms(5) [of "vals ! (k mod length vals)" t'] by simp
  show ?thesis
  proof (cases "n_kind n = NK_Phi")
    case True
    with p show ?thesis unfolding node_ok_def assms(1-4) [symmetric] by (auto split: list.splits)
  next
    case False
    then show ?thesis unfolding node_ok_def assms(1-4) [symmetric] m by simp
  qed
qed

lemma node_ok_set_flag [simp]: "node_ok F sel v t (node_set_flag b n) x = node_ok F sel v t n x"
  by (rule node_ok_cong) auto

text \<open>Redirecting the uses of a node to an equal one, and killing the node.\<close>

lemma redirect_nodes:
  assumes "graph_wf g" "i < length (g_nodes g)" "id_ok g new"
  defines "g' \<equiv> set_dead i (replace_uses i new g)"
  shows "graph_wf g'" "length (g_nodes g') = length (g_nodes g)"
    and "j < length (g_nodes g) \<Longrightarrow> node_at g' j
      = (if j = i then node_set_flag IsDead (subst_inputs i new (node_at g i)) else subst_inputs i new (node_at g j))"
    and "live_at g' j \<longleftrightarrow> live_at g j \<and> j \<noteq> i"
proof -
  note r = replace_uses_spec [OF assms(1-3)]
  show "graph_wf g'" unfolding g'_def set_dead_def using r(1) by (rule update_node_wf) simp
  show len: "length (g_nodes g') = length (g_nodes g)" by (simp add: g'_def set_dead_def r(2))
  show nd: "node_at g' j
      = (if j = i then node_set_flag IsDead (subst_inputs i new (node_at g i)) else subst_inputs i new (node_at g j))"
    if "j < length (g_nodes g)" for j
    using that r(2,3) assms(2) by (simp add: g'_def set_dead_def node_at_update)
  show "live_at g' j \<longleftrightarrow> live_at g j \<and> j \<noteq> i"
    unfolding live_at_def len using nd [of j] by (cases "j = i") auto
qed

lemma redirect_pass_ok:
  assumes ok: "pass_ok g" and i: "live_at g i" and new: "live_at g new" "new \<noteq> i"
    and nm: "\<not> is_merge g i" "\<not> is_merge g new"
  defines "g' \<equiv> set_dead i (replace_uses i new g)"
  shows "pass_ok g'"
proof -
  have wf: "graph_wf g" and il: "i < length (g_nodes g)" and nid: "id_ok g new"
    using ok i new by (auto simp: pass_ok_def live_at_def id_ok_def)
  note r = redirect_nodes [OF wf il nid, folded g'_def]
  have kind: "n_kind (node_at g' j) = n_kind (node_at g j)" "n_effect (node_at g' j) = n_effect (node_at g j)"
    if "j < length (g_nodes g)" for j using r(3) [OF that] by auto
  have mrg: "is_merge g' j = is_merge g j" for j using kind [of j] by (auto simp: is_merge_def r(2))
  have ins: "n_inputs (node_at g' j) = map (\<lambda>x. if x = i then new else x) (n_inputs (node_at g j))"
    if "j < length (g_nodes g)" for j using r(3) [OF that] by auto
  have nk: "new \<noteq> kInvalidNodeId" using new(1) wf by (auto simp: live_at_def graph_wf_def)
  show ?thesis
  proof (rule pass_okI [OF r(1)])
    show "no_dead_input g'"
      unfolding no_dead_input_def r(2)
    proof (intro allI impI ballI)
      fix j s assume j: "live_at g' j" and s: "s \<in> set (n_inputs (node_at g' j))" "s < length (g_nodes g)"
      from j have jg: "live_at g j" "j < length (g_nodes g)" using r(4) by (auto simp: live_at_def)
      have "s \<noteq> kInvalidNodeId" using s(2) wf by (auto simp: graph_wf_def)
      then have "live_at g s \<and> s \<noteq> i"
        using s ins [OF jg(2)] new pass_ok_input_live [OF ok jg(1)] by auto
      then have "live_at g' s" using r(4) by simp
      then show "\<not> node_is_dead (node_at g' s)" by (simp add: live_at_def)
    qed
    show "effect_linked g'"
      unfolding effect_linked_def
    proof (intro allI impI)
      fix j assume j: "live_at g' j" "\<not> node_is_pure (node_at g' j)" "n_kind (node_at g' j) \<noteq> NK_Start"
      then have jg: "live_at g j" "j < length (g_nodes g)" using r(4) by (auto simp: live_at_def)
      with j(2,3) kind [OF jg(2)] pass_okD(3) [OF ok] have "eff_in (node_at g j) \<noteq> kInvalidNodeId"
        by (auto simp: effect_linked_def node_is_pure_def)
      with ins [OF jg(2)] nk show "eff_in (node_at g' j) \<noteq> kInvalidNodeId"
        by (auto simp: eff_in_def split: if_splits)
    qed
    show "guards_framed g'"
      using pass_okD(4) [OF ok] r(3) unfolding guards_framed_def r(2) by auto
    show "phis_ok g'"
      unfolding phis_ok_def
    proof (intro allI impI)
      fix j assume j: "live_at g' j" "n_kind (node_at g' j) = NK_Phi"
      then have jg: "live_at g j" "j < length (g_nodes g)" using r(4) by (auto simp: live_at_def)
      then have "phi_shape g j" using pass_okD(5) [OF ok] kind j(2) by (simp add: phis_ok_def)
      then obtain ph vals where "n_inputs (node_at g j) = ph # vals" "is_merge g ph" "vals \<noteq> []"
        "\<forall>x \<in> set vals. x < length (g_nodes g) \<and> \<not> is_merge g x" by (auto simp: phi_shape_def split: list.splits)
      with ins [OF jg(2)] nm new show "phi_shape g' j"
        by (auto simp: phi_shape_def mrg r(2) live_at_def)
    qed
  qed
qed

lemma redirect_exec:
  assumes ok: "pass_ok g" and i: "live_at g i" and new: "live_at g new"
    and nm: "\<not> is_merge g i"
    and ex: "exec F sel g v" and eq: "\<And>t. v t new = v t i"
  shows "exec F sel (set_dead i (replace_uses i new g)) v"
proof -
  have wf: "graph_wf g" and il: "i < length (g_nodes g)" and nid: "id_ok g new"
    using ok i new by (auto simp: pass_ok_def live_at_def id_ok_def)
  note r = redirect_nodes [OF wf il nid]
  show ?thesis unfolding exec_def
  proof (intro allI impI)
    fix t j assume "live_at (set_dead i (replace_uses i new g)) j"
    then have j: "live_at g j" "j \<noteq> i" using r(4) by auto
    then have jl: "j < length (g_nodes g)" by (simp add: live_at_def)
    have "node_ok F sel v t (node_at g j) (v t j)" using ex j by (simp add: exec_def)
    moreover have "n_inputs (node_at g j) = [] \<or> hd (n_inputs (node_at g j)) \<noteq> i" if "n_kind (node_at g j) = NK_Phi"
    proof -
      have "phi_shape g j" using pass_okD(5) [OF ok] j(1) that by (simp add: phis_ok_def)
      with nm show ?thesis by (auto simp: phi_shape_def split: list.splits)
    qed
    ultimately have "node_ok F sel v t (subst_inputs i new (node_at g j)) (v t j)"
      using eq by (intro node_ok_subst) auto
    then show "node_ok F sel v t (node_at (set_dead i (replace_uses i new g)) j) (v t j)"
      using r(3) [OF jl] j by simp
  qed
qed

text \<open>Appending a node whose value is determined by its inputs.\<close>

lemma add_node_pass_ok:
  assumes ok: "pass_ok g" and room: "length (g_nodes g) < kInvalidNodeId"
    and ins: "\<forall>s \<in> set (n_inputs n). s = kInvalidNodeId \<or> live_at g s"
    and n: "n_flags n = 0" "n_effect n = Pure" "n_kind n \<noteq> NK_Phi"
  shows "pass_ok (snd (add_node n g))"
proof (rule pass_okI)
  let ?g = "snd (add_node n g)"
  have wf: "graph_wf g" using ok by (simp add: pass_ok_def)
  have dead: "\<not> node_has n b" for b using n(1) by (simp add: flags_has_def)
  have live: "live_at ?g j \<longleftrightarrow> live_at g j \<or> j = length (g_nodes g)" for j
    using dead by (auto simp: live_at_def nth_append)
  have at: "live_at g j \<Longrightarrow> (g_nodes g @ [n]) ! j = node_at g j" for j by (simp add: live_at_def nth_append)
  have last: "node_at ?g (length (g_nodes g)) = n" by simp
  show "graph_wf ?g" using wf room by (rule add_node_wf) (use ins in \<open>auto simp: id_ok_def live_at_def\<close>)
  have li: "s = kInvalidNodeId \<or> live_at ?g s" if "live_at ?g j" "s \<in> set (n_inputs (node_at ?g j))" for j s
    using that ins pass_ok_input_live [OF ok, of j s] at live by (cases "live_at g j") (auto simp: last)
  show "no_dead_input ?g"
    unfolding no_dead_input_def using li room by (fastforce simp: live_at_def)
  show "effect_linked ?g"
    using pass_okD(3) [OF ok] n(2) unfolding effect_linked_def by (auto simp: live at node_is_pure_def)
  show "guards_framed ?g"
    using pass_okD(4) [OF ok] dead unfolding guards_framed_def by (auto simp: nth_append less_Suc_eq)
  show "phis_ok ?g"
    unfolding phis_ok_def
  proof (intro allI impI)
    fix j assume j: "live_at ?g j" "n_kind (node_at ?g j) = NK_Phi"
    with live n(3) have jg: "live_at g j" by (auto simp: last)
    with j(2) at pass_okD(5) [OF ok] have "phi_shape g j" by (simp add: phis_ok_def)
    then show "phi_shape ?g j"
      using at [OF jg] by (auto simp: phi_shape_def is_merge_def nth_append split: list.splits)
  qed
qed

lemma add_node_exec:
  assumes wf: "graph_wf g" and room: "length (g_nodes g) < kInvalidNodeId"
    and ex: "exec F sel g v" and ins: "\<forall>s \<in> set (n_inputs n). s \<noteq> length (g_nodes g)"
    and val: "\<And>t. node_ok F sel v t n (x t)"
  shows "exec F sel (snd (add_node n g)) (\<lambda>t j. if j = length (g_nodes g) then x t else v t j)"
  unfolding exec_def
proof (intro allI impI)
  let ?g = "snd (add_node n g)" and ?v = "\<lambda>t j. if j = length (g_nodes g) then x t else v t j"
  fix t j assume j: "live_at ?g j"
  show "node_ok F sel ?v t (node_at ?g j) (?v t j)"
  proof (cases "j = length (g_nodes g)")
    case True
    have "node_ok F sel ?v t n (x t) \<longleftrightarrow> node_ok F sel v t n (x t)"
      by (rule node_ok_cong) (use ins in auto)
    with True val show ?thesis by simp
  next
    case False
    with j have jl: "j < length (g_nodes g)" "live_at g j" by (auto simp: live_at_def nth_append split: if_splits)
    have "s \<noteq> length (g_nodes g)" if "s \<in> set (n_inputs (node_at g j))" for s
      using wf_edge [OF wf jl(1) that] room by auto
    then have "node_ok F sel ?v t (node_at g j) (v t j) \<longleftrightarrow> node_ok F sel v t (node_at g j) (v t j)"
      by (intro node_ok_cong) auto
    with ex jl False show ?thesis by (simp add: exec_def nth_append)
  qed
qed

subsection \<open>Checking a concrete graph\<close>

text \<open>Executable forms of the invariants, for evaluating them on graphs built by edits.\<close>

definition all_live :: "graph \<Rightarrow> (node_id \<Rightarrow> bool) \<Rightarrow> bool" where
  "all_live g P = list_all (\<lambda>i. node_is_dead (node_at g i) \<or> P i) [0..<length (g_nodes g)]"

lemma all_live_iff: "all_live g P \<longleftrightarrow> (\<forall>i. live_at g i \<longrightarrow> P i)"
  by (auto simp: all_live_def live_at_def list_all_iff)

lemma phis_ok_code [code]:
  "phis_ok g = all_live g (\<lambda>i. n_kind (node_at g i) \<noteq> NK_Phi \<or> phi_shape g i)"
  by (auto simp: all_live_iff phis_ok_def)

definition build :: "graph_edit list \<Rightarrow> graph" where
  "build es = the (run_edits es graph_new)"

definition build_check :: "graph_edit list \<Rightarrow> bool" where
  "build_check es = (case run_edits es graph_new of None \<Rightarrow> False
     | Some g \<Rightarrow> Option.is_none (verify g) \<and> phis_ok g)"

lemma build_pass_ok: "build_check es \<Longrightarrow> pass_ok (build es)"
  using run_edits_wf [OF graph_new_wf, of es]
  by (auto simp: build_check_def build_def pass_ok_def Option.is_none_def split: option.splits)

end
