(* ===== verification/Sccp.thy ===== *)
theory Sccp
  imports Valuations
begin

section \<open>Sparse constant propagation\<close>

text \<open>
  \<open>compiler/passes/src/mid/SCCP.cpp\<close>. The pass keeps a lattice value per node, visits all
  nodes in id order until a sweep changes nothing, then replaces every pure node whose value
  is a constant. \<open>int64_t\<close> overflow, \<open>INT64_MIN / -1\<close> and shifts outside \<open>[0, 64)\<close> are
  undefined in C++ and an outcome \<open>UB\<close> of the model.
\<close>

datatype lattice = LTop | LConst i64 | LBottom

fun lmerge :: "lattice \<Rightarrow> lattice \<Rightarrow> lattice \<times> bool" where
  "lmerge s LTop = (s, False)"
| "lmerge LBottom v = (LBottom, False)"
| "lmerge LTop v = (v, True)"
| "lmerge (LConst a) (LConst b) = (if a = b then (LConst a, False) else (LBottom, True))"
| "lmerge (LConst a) LBottom = (LBottom, True)"

datatype fold_result = Ub | NoFold | Fold i64

definition signed_result :: "int \<Rightarrow> fold_result" where
  "signed_result x = (if - (2 ^ 63) \<le> x \<and> x < 2 ^ 63 then Fold (word_of_int x) else Ub)"

definition apply_binop :: "node_kind \<Rightarrow> i64 \<Rightarrow> i64 \<Rightarrow> fold_result" where
  "apply_binop k a b = (case k of
     NK_Add \<Rightarrow> signed_result (sint a + sint b)
   | NK_Sub \<Rightarrow> signed_result (sint a - sint b)
   | NK_Mul \<Rightarrow> signed_result (sint a * sint b)
   | NK_Div \<Rightarrow> if b \<noteq> 0 then signed_result (tdiv (sint a) (sint b)) else NoFold
   | NK_Mod \<Rightarrow> if b \<noteq> 0 then
                (if sint a = - (2 ^ 63) \<and> sint b = - 1 then Ub else Fold (word_of_int (tmod (sint a) (sint b))))
              else NoFold
   | NK_UDiv \<Rightarrow> if b \<noteq> 0 then Fold (a div b) else NoFold
   | NK_UMod \<Rightarrow> if b \<noteq> 0 then Fold (a mod b) else NoFold
   | NK_And \<Rightarrow> Fold (a AND b)
   | NK_Or \<Rightarrow> Fold (a OR b)
   | NK_Xor \<Rightarrow> Fold (a XOR b)
   | NK_Shl \<Rightarrow> if unat b < 64 then Fold (push_bit (unat b) a) else Ub
   | NK_Shr \<Rightarrow> if unat b < 64 then Fold (signed_drop_bit (unat b) a) else Ub
   | NK_LShr \<Rightarrow> if unat b < 64 then Fold (drop_bit (unat b) a) else Ub
   | NK_CmpEq \<Rightarrow> Fold (bool_i64 (a = b))
   | NK_CmpNe \<Rightarrow> Fold (bool_i64 (a \<noteq> b))
   | NK_CmpLt \<Rightarrow> Fold (bool_i64 (sint a < sint b))
   | NK_CmpLe \<Rightarrow> Fold (bool_i64 (sint a \<le> sint b))
   | NK_CmpGt \<Rightarrow> Fold (bool_i64 (sint a > sint b))
   | NK_CmpGe \<Rightarrow> Fold (bool_i64 (sint a \<ge> sint b))
   | NK_CmpUlt \<Rightarrow> Fold (bool_i64 (a < b))
   | NK_CmpUle \<Rightarrow> Fold (bool_i64 (a \<le> b))
   | NK_CmpUgt \<Rightarrow> Fold (bool_i64 (a > b))
   | NK_CmpUge \<Rightarrow> Fold (bool_i64 (a \<ge> b))
   | _ \<Rightarrow> NoFold)"

definition apply_unop :: "node_kind \<Rightarrow> i64 \<Rightarrow> fold_result" where
  "apply_unop k a = (case k of
     NK_Neg \<Rightarrow> signed_result (- sint a)
   | NK_Not \<Rightarrow> Fold (bool_i64 (a = 0))
   | NK_BitNot \<Rightarrow> Fold (NOT a)
   | _ \<Rightarrow> NoFold)"

text \<open>The loop over the inputs of a phi: \<open>None\<close> is \<open>poison\<close>, \<open>Some None\<close> is \<open>!have_any\<close>.\<close>

fun phi_meet :: "graph \<Rightarrow> lattice list \<Rightarrow> node_id list \<Rightarrow> i64 option \<Rightarrow> i64 option option" where
  "phi_meet g st [] m = Some m"
| "phi_meet g st (i # is) m =
     (if i = kInvalidNodeId \<or> i \<ge> g_size g then phi_meet g st is m
      else if n_kind (node_at g i) = NK_Region \<or> n_kind (node_at g i) = NK_Loop then phi_meet g st is m
      else case st ! i of
             LConst c \<Rightarrow> (case m of None \<Rightarrow> phi_meet g st is (Some c)
                         | Some d \<Rightarrow> if d \<noteq> c then None else phi_meet g st is m)
           | _ \<Rightarrow> None)"

text \<open>
  The loop over the inputs of every other node: it stops at a bottom, folds constants into
  the accumulator (\<open>None\<close> while \<open>first\<close>), and notes unknown inputs in \<open>all_const\<close>.
\<close>

datatype op_result = OpUb | OpBottom | OpDone "i64 option" bool

fun op_fold :: "node_kind \<Rightarrow> nat \<Rightarrow> lattice list \<Rightarrow> node_id list \<Rightarrow> i64 option \<Rightarrow> bool \<Rightarrow> op_result" where
  "op_fold k n st [] acc all_const = OpDone acc all_const"
| "op_fold k n st (i # is) acc all_const =
     (if i = kInvalidNodeId \<or> i \<ge> n then op_fold k n st is acc all_const
      else case st ! i of
             LTop \<Rightarrow> op_fold k n st is acc False
           | LBottom \<Rightarrow> OpBottom
           | LConst c \<Rightarrow>
               (case acc of
                  None \<Rightarrow> op_fold k n st is (Some c) all_const
                | Some a \<Rightarrow> (case apply_binop k a c of
                     Ub \<Rightarrow> OpUb
                   | NoFold \<Rightarrow> OpDone acc False
                   | Fold r \<Rightarrow> op_fold k n st is (Some r) all_const)))"

definition lupdate :: "lattice list \<Rightarrow> node_id \<Rightarrow> lattice \<Rightarrow> lattice list \<times> bool" where
  "lupdate st i v = (st[i := fst (lmerge (st ! i) v)], snd (lmerge (st ! i) v))"

text \<open>The new lattice value that a visit of the node merges in: \<open>None\<close> is undefined behaviour.\<close>

definition sccp_eval :: "graph \<Rightarrow> lattice list \<Rightarrow> node_id \<Rightarrow> lattice option" where
  "sccp_eval g st i =
     (let nd = node_at g i; n = g_size g in
      if node_is_dead nd \<or> n_kind nd = NK_Constant then Some LTop
      else if n_kind nd = NK_Phi then
        (case phi_meet g st (data_ins nd) None of
           Some (Some c) \<Rightarrow> Some (LConst c)
         | _ \<Rightarrow> Some LBottom)
      else if n_kind nd = NK_Neg \<or> n_kind nd = NK_Not \<or> n_kind nd = NK_BitNot then
        (let in0 = (if data_ins nd = [] then kInvalidNodeId else data_ins nd ! 0) in
         if in0 = kInvalidNodeId \<or> in0 \<ge> n then Some LTop
         else case st ! in0 of
                LBottom \<Rightarrow> Some LBottom
              | LTop \<Rightarrow> Some LTop
              | LConst c \<Rightarrow> (case apply_unop (n_kind nd) c of
                   Ub \<Rightarrow> None | NoFold \<Rightarrow> Some LTop | Fold r \<Rightarrow> Some (LConst r)))
      else (case op_fold (n_kind nd) n st (data_ins nd) None True of
              OpUb \<Rightarrow> None
            | OpBottom \<Rightarrow> Some LBottom
            | OpDone (Some c) True \<Rightarrow> Some (LConst c)
            | OpDone _ _ \<Rightarrow> Some LTop))"

definition sccp_visit :: "graph \<Rightarrow> lattice list \<Rightarrow> node_id \<Rightarrow> (lattice list \<times> bool) option" where
  "sccp_visit g st i = map_option (lupdate st i) (sccp_eval g st i)"

fun sccp_sweep :: "graph \<Rightarrow> node_id list \<Rightarrow> lattice list \<Rightarrow> bool \<Rightarrow> (lattice list \<times> bool) option" where
  "sccp_sweep g [] st changed = Some (st, changed)"
| "sccp_sweep g (i # is) st changed =
     (case sccp_visit g st i of
        None \<Rightarrow> None
      | Some (st', c) \<Rightarrow> sccp_sweep g is st' (changed \<or> c))"

text \<open>\<open>while (changed)\<close>: not returning is the outer \<open>None\<close>, undefined behaviour the inner one.\<close>

partial_function (option) sccp_loop :: "graph \<Rightarrow> lattice list \<Rightarrow> lattice list option option" where
  "sccp_loop g st =
     (case sccp_sweep g [0..<g_size g] st False of
        None \<Rightarrow> Some None
      | Some p \<Rightarrow> if snd p then sccp_loop g (fst p) else Some (Some (fst p)))"

declare sccp_loop.simps [code]

definition sccp_seed :: "graph \<Rightarrow> lattice list" where
  "sccp_seed g = map (\<lambda>i. if \<not> node_is_dead (node_at g i) \<and> n_kind (node_at g i) = NK_Constant
     then LConst (n_payload (node_at g i)) else LTop) [0..<g_size g]"

fun sccp_rewrite :: "lattice list \<Rightarrow> node_id list \<Rightarrow> graph \<Rightarrow> nat \<Rightarrow> graph \<times> nat" where
  "sccp_rewrite st [] g removed = (g, removed)"
| "sccp_rewrite st (i # is) g removed =
     (if node_is_dead (node_at g i) \<or> n_kind (node_at g i) = NK_Constant \<or> \<not> node_is_pure (node_at g i)
      then sccp_rewrite st is g removed
      else case st ! i of
             LConst c \<Rightarrow>
               (let (new, g1) = make_constant_i64 c (n_type (node_at g i)) g
                in sccp_rewrite st is (set_dead i (replace_uses i new g1)) (removed + 1))
           | _ \<Rightarrow> sccp_rewrite st is g removed)"

datatype 'a ub = UB | Defined 'a

definition sccp_run :: "graph \<Rightarrow> (graph \<times> nat) ub option" where
  "sccp_run g = map_option (\<lambda>r. case r of None \<Rightarrow> UB
     | Some st \<Rightarrow> Defined (sccp_rewrite st [0..<g_size g] g 0)) (sccp_loop g (sccp_seed g))"

subsection \<open>Termination\<close>

fun lrank :: "lattice \<Rightarrow> nat" where
  "lrank LTop = 0"
| "lrank (LConst c) = 1"
| "lrank LBottom = 2"

lemma lmerge_rank:
  "lrank (fst (lmerge s v)) \<ge> lrank s" "snd (lmerge s v) \<longleftrightarrow> lrank (fst (lmerge s v)) > lrank s"
  by (cases "(s, v)" rule: lmerge.cases; simp)+

lemma lrank_le: "lrank s \<le> 2"
  by (cases s) auto

definition total_rank :: "lattice list \<Rightarrow> nat" where
  "total_rank st = sum_list (map lrank st)"

lemma total_rank_le: "total_rank st \<le> 2 * length st"
proof (induction st)
  case (Cons a st)
  with lrank_le [of a] show ?case by (simp add: total_rank_def)
qed (simp add: total_rank_def)

lemma total_rank_update:
  "i < length st \<Longrightarrow> lrank x \<ge> lrank (st ! i) \<Longrightarrow>
   total_rank (st[i := x]) = total_rank st + (lrank x - lrank (st ! i))"
  unfolding total_rank_def by (induction st arbitrary: i) (auto split: nat.splits)

lemma sccp_visit_rank:
  assumes "sccp_visit g st i = Some (st', c)" "i < length st"
  shows "length st' = length st" "total_rank st' \<ge> total_rank st" "c \<Longrightarrow> total_rank st' > total_rank st"
proof -
  from assms(1) obtain v where v: "st' = st[i := fst (lmerge (st ! i) v)]" "c = snd (lmerge (st ! i) v)"
    by (auto simp: sccp_visit_def lupdate_def)
  note r = total_rank_update [OF assms(2) lmerge_rank(1) [of "st ! i" v]]
  show "length st' = length st" "total_rank st' \<ge> total_rank st" using v r by auto
  show "c \<Longrightarrow> total_rank st' > total_rank st" using v r lmerge_rank(2) [of "st ! i" v] by simp
qed

lemma sccp_sweep_rank:
  assumes "sccp_sweep g is st ch = Some (st', c)" "set is \<subseteq> {..<length st}"
  shows "length st' = length st \<and> total_rank st' \<ge> total_rank st \<and> (c \<longrightarrow> ch \<or> total_rank st' > total_rank st)"
  using assms
proof (induction "is" arbitrary: st ch)
  case (Cons i "is")
  then obtain st1 c1 where s: "sccp_visit g st i = Some (st1, c1)" "sccp_sweep g is st1 (ch \<or> c1) = Some (st', c)"
    by (auto split: option.splits)
  have "i < length st" using Cons.prems by simp
  note v = sccp_visit_rank [OF s(1) this]
  from Cons.IH [OF s(2)] Cons.prems v(1) v(2,3) show ?case by fastforce
qed simp

lemma sccp_loop_total: "length st = g_size g \<Longrightarrow> \<exists>r. sccp_loop g st = Some r"
proof (induction "2 * g_size g - total_rank st" arbitrary: st rule: less_induct)
  case less
  show ?case
  proof (cases "sccp_sweep g [0..<g_size g] st False")
    case None
    then show ?thesis by (simp add: sccp_loop.simps)
  next
    case (Some p)
    obtain st' c where p: "p = (st', c)" by (cases p)
    with Some sccp_sweep_rank [of g "[0..<g_size g]" st False st' c] less.prems have
      r: "length st' = g_size g" "c \<longrightarrow> total_rank st' > total_rank st" by (auto simp: atLeast0LessThan)
    show ?thesis
    proof (cases c)
      case True
      with r total_rank_le [of st'] have "2 * g_size g - total_rank st' < 2 * g_size g - total_rank st" by auto
      from less.hyps [OF this r(1)] True Some p show ?thesis by (simp add: sccp_loop.simps [of g st])
    next
      case False
      with Some p show ?thesis by (simp add: sccp_loop.simps [of g st])
    qed
  qed
qed

subsection \<open>Constant folding agrees with the arithmetic of the kinds\<close>

definition binop_kinds :: "node_kind list" where
  "binop_kinds = [NK_Add, NK_Sub, NK_Mul, NK_Div, NK_Mod, NK_UDiv, NK_UMod, NK_And, NK_Or, NK_Xor,
     NK_Shl, NK_Shr, NK_LShr, NK_CmpEq, NK_CmpNe, NK_CmpLt, NK_CmpLe, NK_CmpGt, NK_CmpGe,
     NK_CmpUlt, NK_CmpUle, NK_CmpUgt, NK_CmpUge]"

definition unop_kinds :: "node_kind list" where
  "unop_kinds = [NK_Neg, NK_Not, NK_BitNot]"

lemma signed_result_Fold: "signed_result x = Fold r \<Longrightarrow> r = word_of_int x"
  by (auto simp: signed_result_def split: if_splits)

lemma word_of_sint [simp]: "word_of_int (sint a + sint b) = (a + b :: i64)"
  "word_of_int (sint a - sint b) = (a - b :: i64)" "word_of_int (sint a * sint b) = (a * b :: i64)"
  "word_of_int (- sint a) = (- a :: i64)"
  by simp_all

lemma signed_result_div:
  "signed_result (tdiv (sint a) (sint b)) = Fold r \<Longrightarrow>
   \<not> (sint (a :: i64) = - (2 ^ 63) \<and> sint (b :: i64) = - 1) \<and> r = word_of_int (tdiv (sint a) (sint b))"
  by (auto simp: signed_result_def tdiv_def split: if_splits)

lemma apply_binop_sem: "apply_binop k a b = Fold r \<Longrightarrow> binop_sem k a b = Some r"
  using signed_result_div [of a b r]
  by (cases k) (auto simp: apply_binop_def binop_sem_def dest!: signed_result_Fold split: if_splits)

lemma apply_unop_sem: "apply_unop k a = Fold r \<Longrightarrow> unop_sem k a = Some r"
  by (cases k) (auto simp: apply_unop_def unop_sem_def dest!: signed_result_Fold)

lemma apply_binop_other: "k \<notin> set binop_kinds \<Longrightarrow> apply_binop k a b = NoFold"
  by (cases k) (simp_all add: apply_binop_def binop_kinds_def)

subsection \<open>Constants are never revised\<close>

definition consts_le :: "lattice list \<Rightarrow> lattice list \<Rightarrow> bool" where
  "consts_le st st' \<longleftrightarrow> (\<forall>i < length st. \<forall>c. st ! i = LConst c \<longrightarrow> st' ! i = LConst c)"

lemma phi_meet_mono:
  assumes "consts_le st st'" "length st = g_size g" "phi_meet g st is m = Some (Some c)"
  shows "phi_meet g st' is m = Some (Some c)"
  using assms(3)
proof (induction "is" arbitrary: m)
  case (Cons i "is")
  show ?case
  proof (cases "i = kInvalidNodeId \<or> i \<ge> g_size g \<or> n_kind (node_at g i) = NK_Region \<or> n_kind (node_at g i) = NK_Loop")
    case True
    with Cons show ?thesis by auto
  next
    case False
    with Cons.prems obtain d where d: "st ! i = LConst d" by (auto split: lattice.splits)
    then have "st' ! i = LConst d" using assms(1,2) False by (auto simp: consts_le_def)
    with False Cons d show ?thesis by (auto split: option.splits if_splits)
  qed
qed simp

lemma op_fold_False: "op_fold k n st is acc False \<noteq> OpDone x True"
  by (induction "is" arbitrary: acc) (auto split: lattice.splits option.splits fold_result.splits)

lemma op_fold_mono:
  assumes "consts_le st st'" "length st = n" "op_fold k n st is acc ac = OpDone (Some c) True"
  shows "op_fold k n st' is acc ac = OpDone (Some c) True"
  using assms(3)
proof (induction "is" arbitrary: acc ac)
  case (Cons i "is")
  show ?case
  proof (cases "i = kInvalidNodeId \<or> i \<ge> n")
    case True
    with Cons show ?thesis by auto
  next
    case False
    with Cons.prems obtain d where d: "st ! i = LConst d"
      by (auto simp: op_fold_False split: lattice.splits)
    then have "st' ! i = LConst d" using assms(1,2) False by (auto simp: consts_le_def)
    with False Cons d show ?thesis by (auto split: option.splits fold_result.splits)
  qed
qed simp

lemma sccp_eval_mono:
  assumes "consts_le st st'" "length st = g_size g" "sccp_eval g st i = Some (LConst c)"
  shows "sccp_eval g st' i = Some (LConst c)"
proof -
  let ?nd = "node_at g i"
  have live: "\<not> (node_is_dead ?nd \<or> n_kind ?nd = NK_Constant)"
    using assms(3) by (auto simp: sccp_eval_def)
  consider (phi) "n_kind ?nd = NK_Phi" | (un) "n_kind ?nd = NK_Neg \<or> n_kind ?nd = NK_Not \<or> n_kind ?nd = NK_BitNot"
    | (op) "n_kind ?nd \<noteq> NK_Phi" "\<not> (n_kind ?nd = NK_Neg \<or> n_kind ?nd = NK_Not \<or> n_kind ?nd = NK_BitNot)" by blast
  then show ?thesis
  proof cases
    case phi
    with assms(3) live have "phi_meet g st (data_ins ?nd) None = Some (Some c)"
      by (auto simp: sccp_eval_def split: option.splits)
    from phi_meet_mono [OF assms(1,2) this] phi live show ?thesis by (simp add: sccp_eval_def)
  next
    case un
    then have np: "n_kind ?nd \<noteq> NK_Phi" by auto
    let ?in0 = "if data_ins ?nd = [] then kInvalidNodeId else data_ins ?nd ! 0"
    have v: "\<not> (?in0 = kInvalidNodeId \<or> ?in0 \<ge> g_size g)"
    proof
      assume "?in0 = kInvalidNodeId \<or> ?in0 \<ge> g_size g"
      then have "sccp_eval g st i = Some LTop" using live np un unfolding sccp_eval_def Let_def by simp
      with assms(3) show False by simp
    qed
    have e: "sccp_eval g s i = (case s ! ?in0 of LBottom \<Rightarrow> Some LBottom | LTop \<Rightarrow> Some LTop
        | LConst c \<Rightarrow> (case apply_unop (n_kind ?nd) c of Ub \<Rightarrow> None | NoFold \<Rightarrow> Some LTop | Fold r \<Rightarrow> Some (LConst r)))" for s
      using live np un v unfolding sccp_eval_def Let_def by simp
    obtain d where "st ! ?in0 = LConst d" using assms(3) unfolding e by (auto split: lattice.splits)
    moreover from this have "st' ! ?in0 = LConst d" using assms(1,2) v by (auto simp: consts_le_def)
    ultimately show ?thesis using assms(3) unfolding e by simp
  next
    case op
    have e: "sccp_eval g s i = (case op_fold (n_kind ?nd) (g_size g) s (data_ins ?nd) None True of
              OpUb \<Rightarrow> None | OpBottom \<Rightarrow> Some LBottom
            | OpDone (Some c) True \<Rightarrow> Some (LConst c) | OpDone _ _ \<Rightarrow> Some LTop)" for s
      using live op unfolding sccp_eval_def Let_def by simp
    have "op_fold (n_kind ?nd) (g_size g) st (data_ins ?nd) None True = OpDone (Some c) True"
      using assms(3) unfolding e by (auto split: op_result.splits option.splits bool.splits)
    from op_fold_mono [OF assms(1,2) this] show ?thesis unfolding e by simp
  qed
qed

inductive sccp_reach :: "graph \<Rightarrow> lattice list \<Rightarrow> lattice list \<Rightarrow> bool" for g where
  refl: "sccp_reach g st st"
| step: "sccp_reach g st st1 \<Longrightarrow> i < g_size g \<Longrightarrow> sccp_visit g st1 i = Some (st2, c) \<Longrightarrow> sccp_reach g st st2"

lemma sccp_reach_trans: "sccp_reach g b c \<Longrightarrow> sccp_reach g a b \<Longrightarrow> sccp_reach g a c"
  by (induction rule: sccp_reach.induct) (auto intro: sccp_reach.step)

lemma sccp_sweep_reach:
  "sccp_sweep g is st ch = Some (st', c) \<Longrightarrow> set is \<subseteq> {..<g_size g} \<Longrightarrow> sccp_reach g st st'"
proof (induction "is" arbitrary: st ch)
  case (Cons i "is")
  then obtain st1 c1 where s: "sccp_visit g st i = Some (st1, c1)" "sccp_sweep g is st1 (ch \<or> c1) = Some (st', c)"
    by (auto split: option.splits)
  have "sccp_reach g st st1" using s(1) Cons.prems(2) by (auto intro: sccp_reach.intros)
  with Cons.IH [OF s(2)] Cons.prems(2) show ?case by (auto intro: sccp_reach_trans)
qed (auto intro: sccp_reach.refl)

lemma sccp_loop_reach_aux: "sccp_loop g st = Some r \<Longrightarrow> \<forall>st'. r = Some st' \<longrightarrow> sccp_reach g st st'"
proof (erule sccp_loop.raw_induct [rotated, where P = "\<lambda>g st r. \<forall>st'. r = Some st' \<longrightarrow> sccp_reach g st st'"])
  fix loop g st r
  assume IH: "\<And>g st y. loop g st = Some y \<Longrightarrow> \<forall>st'. y = Some st' \<longrightarrow> sccp_reach g st st'"
    and r: "(case sccp_sweep g [0..<g_size g] st False of None \<Rightarrow> Some None
       | Some p \<Rightarrow> if snd p then loop g (fst p) else Some (Some (fst p))) = Some r"
  show "\<forall>st'. r = Some st' \<longrightarrow> sccp_reach g st st'"
  proof (intro allI impI)
    fix st' assume st': "r = Some st'"
    with r obtain st1 ch where s: "sccp_sweep g [0..<g_size g] st False = Some (st1, ch)"
      by (cases "sccp_sweep g [0..<g_size g] st False") auto
    have 1: "sccp_reach g st st1" by (rule sccp_sweep_reach [OF s]) (simp add: atLeast0LessThan)
    show "sccp_reach g st st'"
    proof (cases ch)
      case True
      with r s IH st' have "sccp_reach g st1 st'" by auto
      with 1 show ?thesis by (rule sccp_reach_trans [rotated])
    qed (use r s st' 1 in auto)
  qed
qed

lemma sccp_loop_reach: "sccp_loop g st = Some (Some st') \<Longrightarrow> sccp_reach g st st'"
  using sccp_loop_reach_aux by blast

definition sccp_stable :: "graph \<Rightarrow> lattice list \<Rightarrow> bool" where
  "sccp_stable g st \<longleftrightarrow> length st = g_size g \<and> (\<forall>i < length st. \<forall>c. st ! i = LConst c \<longrightarrow>
     live_at g i \<and> (if n_kind (node_at g i) = NK_Constant then c = n_payload (node_at g i)
       else sccp_eval g st i = Some (LConst c)))"

lemma sccp_eval_LConst: "sccp_eval g st i = Some (LConst c) \<Longrightarrow>
    \<not> node_is_dead (node_at g i) \<and> n_kind (node_at g i) \<noteq> NK_Constant"
  by (auto simp: sccp_eval_def)

lemma lmerge_LConst:
  assumes "fst (lmerge s v) = LConst c"
  shows "s = LConst c \<or> (s = LTop \<and> v = LConst c)"
  using assms by (cases "(s, v)" rule: lmerge.cases) (auto split: if_splits)

lemma sccp_visit_stable:
  assumes "sccp_stable g st" "i < g_size g" "sccp_visit g st i = Some (st', ch)" "g_size g = length (g_nodes g)"
  shows "sccp_stable g st' \<and> consts_le st st'"
proof -
  obtain v where v: "sccp_eval g st i = Some v" "st' = st[i := fst (lmerge (st ! i) v)]"
    using assms(3) by (auto simp: sccp_visit_def lupdate_def)
  have len: "length st = g_size g" using assms(1) by (simp add: sccp_stable_def)
  have st': "st' ! j = (if j = i then fst (lmerge (st ! i) v) else st ! j)" if "j < length st" for j
    using v(2) that assms(2) len by (simp add: nth_list_update)
  have le: "consts_le st st'"
    unfolding consts_le_def
  proof (intro allI impI)
    fix j c assume j: "j < length st" "st ! j = LConst c"
    show "st' ! j = LConst c"
    proof (cases "j = i")
      case True
      have "v = LTop \<or> v = LConst c"
        using assms(1) j True v(1) sccp_eval_def [of g st i]
        by (auto simp: sccp_stable_def Let_def split: if_splits)
      with True j st' show ?thesis by auto
    qed (use j st' in auto)
  qed
  moreover have "sccp_stable g st'"
    unfolding sccp_stable_def
  proof (intro conjI allI impI)
    show "length st' = g_size g" using v(2) len by simp
    fix j c assume j: "j < length st'" "st' ! j = LConst c"
    then have jl: "j < length st" using v(2) by simp
    have "st ! j = LConst c \<or> (j = i \<and> v = LConst c)"
      using st' [OF jl] j(2) lmerge_LConst [of "st ! i" v c] by (auto split: if_splits)
    then have *: "live_at g j \<and> (if n_kind (node_at g j) = NK_Constant then c = n_payload (node_at g j)
       else sccp_eval g st j = Some (LConst c))"
    proof
      assume "j = i \<and> v = LConst c"
      with v(1) sccp_eval_LConst [of g st i c] assms(2,4) show ?thesis by (simp add: live_at_def)
    qed (use assms(1) jl in \<open>simp add: sccp_stable_def\<close>)
    then show "live_at g j" by simp
    from * show "if n_kind (node_at g j) = NK_Constant then c = n_payload (node_at g j)
       else sccp_eval g st' j = Some (LConst c)"
      using sccp_eval_mono [OF le len] by simp
  qed
  ultimately show ?thesis by simp
qed

lemma consts_le_trans: "consts_le a b \<Longrightarrow> consts_le b c \<Longrightarrow> length a = length b \<Longrightarrow> consts_le a c"
  by (simp add: consts_le_def)

lemma sccp_reach_stable:
  assumes "sccp_reach g st st'" "sccp_stable g st" "g_size g = length (g_nodes g)"
  shows "sccp_stable g st' \<and> consts_le st st'"
  using assms
proof (induction rule: sccp_reach.induct)
  case (step st st1 i st2 c)
  then have "sccp_stable g st1" "consts_le st st1" by auto
  moreover from sccp_visit_stable [OF this(1) step(2,3)] step have "sccp_stable g st2" "consts_le st1 st2" by auto
  ultimately show ?case using step by (auto simp: sccp_stable_def intro: consts_le_trans)
qed (simp add: consts_le_def)

lemma sccp_seed_stable:
  assumes "g_size g = length (g_nodes g)"
  shows "sccp_stable g (sccp_seed g)"
  using assms by (auto simp: sccp_stable_def sccp_seed_def live_at_def split: if_splits)

subsection \<open>Soundness of the lattice values\<close>

definition may_const :: "node_kind \<Rightarrow> bool" where
  "may_const k \<longleftrightarrow> k = NK_Constant \<or> k = NK_Phi \<or> k \<in> set unop_kinds \<or> k \<in> set binop_kinds"

text \<open>The arithmetic nodes have the arity and the effect class the creation routines give them.\<close>

definition arith_ok :: "graph \<Rightarrow> bool" where
  "arith_ok g \<longleftrightarrow> (\<forall>i. live_at g i \<longrightarrow>
     (may_const (n_kind (node_at g i)) \<longrightarrow> node_is_pure (node_at g i)) \<and>
     (n_kind (node_at g i) \<in> set unop_kinds \<longrightarrow> (\<exists>x. n_inputs (node_at g i) = [x] \<and> x < length (g_nodes g))) \<and>
     (n_kind (node_at g i) \<in> set binop_kinds \<longrightarrow>
        (\<exists>x y. n_inputs (node_at g i) = [x, y] \<and> x < length (g_nodes g) \<and> y < length (g_nodes g))))"

definition sccp_sound :: "'e kind_fun \<Rightarrow> selector \<Rightarrow> graph \<Rightarrow> lattice list \<Rightarrow> bool" where
  "sccp_sound F sel g st \<longleftrightarrow> (\<forall>i < length st. \<forall>c. st ! i = LConst c \<longrightarrow>
     (\<forall>v. exec F sel g v \<longrightarrow> (\<forall>t. v t i = VInt c)))"

lemma phi_meet_const:
  "phi_meet g st is m = Some (Some c) \<Longrightarrow>
   (m = None \<or> m = Some c) \<and>
   (\<forall>i \<in> set is. i \<noteq> kInvalidNodeId \<longrightarrow> i < g_size g \<longrightarrow> \<not> is_merge g i \<longrightarrow> g_size g = length (g_nodes g) \<longrightarrow> st ! i = LConst c)"
proof (induction "is" arbitrary: m)
  case (Cons i "is")
  show ?case
  proof (cases "i = kInvalidNodeId \<or> i \<ge> g_size g \<or> n_kind (node_at g i) = NK_Region \<or> n_kind (node_at g i) = NK_Loop")
    case True
    then have "phi_meet g st (i # is) m = phi_meet g st is m" by auto
    with Cons.prems have "phi_meet g st is m = Some (Some c)" by (simp only:)
    from Cons.IH [OF this] True show ?thesis by (auto simp: is_merge_def)
  next
    case False
    with Cons.prems obtain d where d: "st ! i = LConst d" by (auto split: lattice.splits)
    show ?thesis
    proof (cases m)
      case None
      with False Cons.prems d have "phi_meet g st is (Some d) = Some (Some c)" by simp
      with Cons.IH [OF this] None d show ?thesis by auto
    next
      case (Some e)
      with False Cons.prems d have "e = d" "phi_meet g st is m = Some (Some c)" by (auto split: if_splits)
      with Cons.IH [of m] Some d show ?thesis by auto
    qed
  qed
qed simp

lemma sccp_eval_sound:
  assumes ok: "pass_ok g" and ar: "arith_ok g" and i: "live_at g i" and k: "may_const (n_kind (node_at g i))"
    and st: "length st = g_size g" "sccp_sound F sel g st" and sz: "g_size g = length (g_nodes g)"
    and ev: "sccp_eval g st i = Some (LConst c)" and ex: "exec F sel g v"
  shows "v t i = VInt c"
proof -
  let ?nd = "node_at g i"
  have nok: "node_ok F sel v t ?nd (v t i)" using ex i by (simp add: exec_def)
  have alive: "\<not> node_is_dead ?nd" "n_kind ?nd \<noteq> NK_Constant" using sccp_eval_LConst [OF ev] by auto
  have pure: "data_ins ?nd = n_inputs ?nd" using ar i k by (auto simp: arith_ok_def data_ins_def)
  have sound: "v t' j = VInt d" if "st ! j = LConst d" "j < length (g_nodes g)" for j d t'
    using st that ex unfolding sccp_sound_def sz by metis
  have inv: "j < length (g_nodes g) \<Longrightarrow> j \<noteq> kInvalidNodeId" for j using ok by (auto simp: pass_ok_def graph_wf_def)
  consider "n_kind ?nd = NK_Phi" | "n_kind ?nd \<in> set unop_kinds" | "n_kind ?nd \<in> set binop_kinds"
    using k alive by (auto simp: may_const_def)
  then show ?thesis
  proof cases
    case 1
    then have "phi_shape g i" using pass_okD(5) [OF ok] i by (simp add: phis_ok_def)
    then obtain r vals where rv: "n_inputs ?nd = r # vals" "\<forall>x \<in> set vals. x < length (g_nodes g) \<and> \<not> is_merge g x"
      "is_merge g r" by (auto simp: phi_shape_def split: list.splits)
    from ev 1 alive pure have m: "phi_meet g st (r # vals) None = Some (Some c)"
      unfolding sccp_eval_def Let_def rv(1) by (auto split: option.splits)
    then have all: "\<forall>x \<in> set vals. st ! x = LConst c"
      using phi_meet_const [OF m] rv(2) inv sz by auto
    have "vals \<noteq> []"
    proof
      assume "vals = []"
      with m rv(3) show False by (auto simp: is_merge_def split: if_splits)
    qed
    moreover obtain t' n where "sel t r = (t', n)" by fastforce
    ultimately have "v t i = v t' (vals ! (n mod length vals))" "n mod length vals < length vals"
      using nok 1 rv by (auto simp: node_ok_def free_kinds_def)
    with all sound rv(2) show ?thesis by (metis nth_mem)
  next
    case 2
    then obtain x where x: "n_inputs ?nd = [x]" "x < length (g_nodes g)" using ar i unfolding arith_ok_def by blast
    have un: "n_kind ?nd = NK_Neg \<or> n_kind ?nd = NK_Not \<or> n_kind ?nd = NK_BitNot" "n_kind ?nd \<noteq> NK_Phi"
      using 2 by (auto simp: unop_kinds_def)
    have "sccp_eval g st i = (case st ! x of LBottom \<Rightarrow> Some LBottom | LTop \<Rightarrow> Some LTop
        | LConst c \<Rightarrow> (case apply_unop (n_kind ?nd) c of Ub \<Rightarrow> None | NoFold \<Rightarrow> Some LTop | Fold r \<Rightarrow> Some (LConst r)))"
      using alive un inv [OF x(2)] x sz pure unfolding sccp_eval_def Let_def by simp
    with ev obtain a where a: "st ! x = LConst a" "apply_unop (n_kind ?nd) a = Fold c"
      by (auto split: lattice.splits fold_result.splits)
    have "node_sem (n_kind ?nd) (map (v t) [x]) = Some c"
      using sound [OF a(1) x(2)] apply_unop_sem [OF a(2)] by simp
    moreover have "n_kind ?nd \<notin> set free_kinds" using un by (auto simp: free_kinds_def)
    ultimately show ?thesis using nok un alive x(1) by (simp add: node_ok_def apply_kind_def)
  next
    case 3
    then obtain x y where x: "n_inputs ?nd = [x, y]" "x < length (g_nodes g)" "y < length (g_nodes g)"
      using ar i unfolding arith_ok_def by blast
    have bin: "\<not> (n_kind ?nd = NK_Neg \<or> n_kind ?nd = NK_Not \<or> n_kind ?nd = NK_BitNot)" "n_kind ?nd \<noteq> NK_Phi"
      "n_kind ?nd \<notin> set free_kinds"
      using 3 by (auto simp: binop_kinds_def free_kinds_def)
    have "sccp_eval g st i = (case op_fold (n_kind ?nd) (g_size g) st [x, y] None True of
              OpUb \<Rightarrow> None | OpBottom \<Rightarrow> Some LBottom
            | OpDone (Some c) True \<Rightarrow> Some (LConst c) | OpDone _ _ \<Rightarrow> Some LTop)"
      using alive bin pure x(1) unfolding sccp_eval_def Let_def by simp
    with ev obtain a b where a: "st ! x = LConst a" "st ! y = LConst b" "apply_binop (n_kind ?nd) a b = Fold c"
      using inv x sz by (auto split: lattice.splits fold_result.splits op_result.splits)
    have "node_sem (n_kind ?nd) (map (v t) [x, y]) = Some c"
      using sound [OF a(1) x(2)] sound [OF a(2) x(3)] apply_binop_sem [OF a(3)] by simp
    then show ?thesis using nok bin alive x(1) by (simp add: node_ok_def apply_kind_def)
  qed
qed

lemma sccp_seed_sound:
  assumes "g_size g = length (g_nodes g)"
  shows "sccp_sound F sel g (sccp_seed g)"
proof -
  have "v t i = VInt c" if "exec F sel g v" "i < length (sccp_seed g)" "sccp_seed g ! i = LConst c" for v t i c
  proof -
    have *: "live_at g i" "n_kind (node_at g i) = NK_Constant" "c = n_payload (node_at g i)"
      using that(2,3) assms by (auto simp: sccp_seed_def live_at_def split: if_splits)
    with that(1) have "node_ok F sel v t (node_at g i) (v t i)" by (simp add: exec_def)
    with * show ?thesis by (simp add: node_ok_def free_kinds_def)
  qed
  then show ?thesis by (simp add: sccp_sound_def)
qed

lemma sccp_reach_sound:
  assumes "sccp_reach g st0 st" "pass_ok g" "arith_ok g" "g_size g = length (g_nodes g)"
    and "\<forall>i < length st. \<forall>c. st ! i = LConst c \<longrightarrow> may_const (n_kind (node_at g i))"
    and "sccp_stable g st0" "sccp_sound F sel g st0"
  shows "sccp_sound F sel g st"
  using assms
proof (induction rule: sccp_reach.induct)
  case (step st0 st1 i st2 c)
  have stab: "sccp_stable g st1" using sccp_reach_stable [OF step(1)] step.prems by blast
  from sccp_visit_stable [OF this step(2,3)] step have le: "consts_le st1 st2" and stab2: "sccp_stable g st2" by auto
  have len: "length st1 = g_size g" "length st2 = g_size g" using stab stab2 by (auto simp: sccp_stable_def)
  have "\<forall>i < length st1. \<forall>c. st1 ! i = LConst c \<longrightarrow> may_const (n_kind (node_at g i))"
    using step.prems(4) le len unfolding consts_le_def by auto
  with step have sound: "sccp_sound F sel g st1" by blast
  obtain w where w: "sccp_eval g st1 i = Some w" "st2 = st1[i := fst (lmerge (st1 ! i) w)]"
    using step(3) by (auto simp: sccp_visit_def lupdate_def)
  show ?case unfolding sccp_sound_def
  proof (intro allI impI)
    fix j d v t assume j: "j < length st2" "st2 ! j = LConst d" and ex: "exec F sel g v"
    have "st1 ! j = LConst d \<or> (j = i \<and> w = LConst d)"
      using w(2) j lmerge_LConst [of "st1 ! i" w d] len by (cases "j = i") auto
    then show "v t j = VInt d"
    proof
      assume "st1 ! j = LConst d"
      with sound j len ex show ?thesis by (auto simp: sccp_sound_def)
    next
      assume ji: "j = i \<and> w = LConst d"
      have "live_at g j" using stab2 j by (simp add: sccp_stable_def)
      with ji w(1) j step.prems(4) step.prems(1-3) sound len ex show ?thesis
        by (intro sccp_eval_sound [of g j st1]) auto
    qed
  qed
qed

subsection \<open>The rewrite\<close>

definition sccp_folds :: "graph \<Rightarrow> lattice list \<Rightarrow> node_id \<Rightarrow> bool" where
  "sccp_folds g st i \<longleftrightarrow> live_at g i \<and> n_kind (node_at g i) \<noteq> NK_Constant \<and> node_is_pure (node_at g i)
     \<and> (\<exists>c. st ! i = LConst c)"

lemma fold_step:
  fixes c :: i64 and ty :: type_id
  assumes ok: "pass_ok h" and room: "length (g_nodes h) < kInvalidNodeId"
    and i: "live_at h i" and nm: "\<not> is_merge h i"
  defines "h1 \<equiv> snd (make_constant_i64 c ty h)" and "new \<equiv> fst (make_constant_i64 c ty h)"
  defines "h2 \<equiv> set_dead i (replace_uses i new h1)"
  shows "pass_ok h2" "length (g_nodes h2) = Suc (length (g_nodes h))" "new = length (g_nodes h)"
    and "j < length (g_nodes h) \<Longrightarrow> (live_at h2 j \<longleftrightarrow> live_at h j \<and> j \<noteq> i)
      \<and> n_kind (node_at h2 j) = n_kind (node_at h j) \<and> n_effect (node_at h2 j) = n_effect (node_at h j)"
    and "exec F sel h v \<Longrightarrow> (\<And>t. v t i = VInt c) \<Longrightarrow>
      exec F sel h2 (\<lambda>t j. if j = length (g_nodes h) then VInt c else v t j)"
proof -
  have wf: "graph_wf h" using ok by (simp add: pass_ok_def)
  let ?n = "\<lparr>n_kind = NK_Constant, n_effect = effect_class_of NK_Constant, n_flags = 0,
     n_type = ty, n_payload = c, n_inputs = []\<rparr>"
  have h1: "h1 = snd (add_node ?n h)" by (simp add: h1_def make_constant_i64_def make_node_def)
  have new: "new = length (g_nodes h)"
    using add_node_id [OF wf] by (simp add: new_def make_constant_i64_def make_node_def)
  then show "new = length (g_nodes h)" .
  have ok1: "pass_ok h1" unfolding h1 by (rule add_node_pass_ok [OF ok room]) auto
  have il: "i < length (g_nodes h)" using i by (simp add: live_at_def)
  have live1: "live_at h1 i" "live_at h1 new"
    using i il by (auto simp: live_at_def h1 new nth_append flags_has_def)
  have nm1: "\<not> is_merge h1 i" "\<not> is_merge h1 new"
    using nm il by (auto simp: is_merge_def h1 new nth_append)
  have ne: "new \<noteq> i" using il new by simp
  show "pass_ok h2" unfolding h2_def using redirect_pass_ok [OF ok1 live1 ne nm1] .
  have wf1: "graph_wf h1" and il1: "i < length (g_nodes h1)" and nid: "id_ok h1 new"
    using ok1 live1 by (auto simp: pass_ok_def live_at_def id_ok_def)
  note r = redirect_nodes [OF wf1 il1 nid, folded h2_def]
  show "length (g_nodes h2) = Suc (length (g_nodes h))" using r(2) by (simp add: h1)
  show "(live_at h2 j \<longleftrightarrow> live_at h j \<and> j \<noteq> i)
      \<and> n_kind (node_at h2 j) = n_kind (node_at h j) \<and> n_effect (node_at h2 j) = n_effect (node_at h j)"
    if "j < length (g_nodes h)"
    using r(3) [of j] r(4) [of j] that by (auto simp: h1 live_at_def nth_append)
  show "exec F sel h2 (\<lambda>t j. if j = length (g_nodes h) then VInt c else v t j)"
    if ex: "exec F sel h v" and eq: "\<And>t. v t i = VInt c"
  proof -
    have "exec F sel h1 (\<lambda>t j. if j = length (g_nodes h) then VInt c else v t j)"
      unfolding h1 by (rule add_node_exec [OF wf room ex]) (auto simp: node_ok_def free_kinds_def)
    from redirect_exec [OF ok1 live1 nm1(1) this] show ?thesis
      unfolding h2_def using eq new il by auto
  qed
qed

lemma sccp_rewrite_sound:
  assumes ok: "pass_ok h" and sim: "simulates F sel g h" and n: "length (g_nodes g) \<le> length (g_nodes h)"
    and room: "length (g_nodes h) + length is \<le> kInvalidNodeId"
    and "is": "set is \<subseteq> {..<length (g_nodes g)}" "distinct is"
    and same: "\<forall>i \<in> set is. live_at h i = live_at g i \<and> n_kind (node_at h i) = n_kind (node_at g i)
      \<and> n_effect (node_at h i) = n_effect (node_at g i)"
    and sound: "sccp_sound F sel g st" "length st = length (g_nodes g)"
    and kinds: "\<forall>i < length st. \<forall>c. st ! i = LConst c \<longrightarrow> may_const (n_kind (node_at g i))"
  shows "pass_ok (fst (sccp_rewrite st is h r)) \<and> simulates F sel g (fst (sccp_rewrite st is h r))
    \<and> (\<forall>i < length (g_nodes g). live_at (fst (sccp_rewrite st is h r)) i
          \<longleftrightarrow> live_at h i \<and> \<not> (i \<in> set is \<and> sccp_folds g st i))
    \<and> snd (sccp_rewrite st is h r) = r + length (filter (sccp_folds g st) is)"
  using assms(1-7)
proof (induction "is" arbitrary: h r)
  case (Cons i "is")
  have il: "i < length (g_nodes g)" "i < length (g_nodes h)" using Cons.prems by auto
  have same_i: "live_at h i = live_at g i" "n_kind (node_at h i) = n_kind (node_at g i)"
    "n_effect (node_at h i) = n_effect (node_at g i)" using Cons.prems(7) by auto
  show ?case
  proof (cases "sccp_folds g st i")
    case False
    have "sccp_rewrite st (i # is) h r = sccp_rewrite st is h r"
      using False same_i il by (auto simp: sccp_folds_def live_at_def node_is_pure_def split: lattice.splits)
    with Cons.IH [of h r] Cons.prems False show ?thesis by auto
  next
    case True
    then obtain c where c: "st ! i = LConst c" and f: "live_at g i" "n_kind (node_at g i) \<noteq> NK_Constant"
      "node_is_pure (node_at g i)" by (auto simp: sccp_folds_def)
    have live: "live_at h i" using f same_i by simp
    have nm: "\<not> is_merge h i"
    proof -
      have "may_const (n_kind (node_at g i))" using kinds c il sound(2) by simp
      then show ?thesis using same_i
        by (auto simp: is_merge_def may_const_def unop_kinds_def binop_kinds_def)
    qed
    let ?ty = "n_type (node_at h i)"
    let ?h2 = "set_dead i (replace_uses i (fst (make_constant_i64 c ?ty h)) (snd (make_constant_i64 c ?ty h)))"
    have room: "length (g_nodes h) < kInvalidNodeId" using Cons.prems(4) by simp
    note s = fold_step [OF Cons.prems(1) room live nm, where c = c and ty = ?ty]
    have step: "sccp_rewrite st (i # is) h r = sccp_rewrite st is ?h2 (r + 1)"
      using f same_i il c live
      by (auto simp: live_at_def node_is_pure_def split: prod.split)
    have "simulates F sel g ?h2"
      unfolding simulates_def
    proof (intro allI impI)
      fix v assume ex: "exec F sel g v"
      then obtain w where w: "exec F sel h w" "\<forall>t i. i < length (g_nodes g) \<longrightarrow> w t i = v t i"
        using Cons.prems(2) unfolding simulates_def by blast
      have "w t i = VInt c" for t using w(2) il sound ex c by (auto simp: sccp_sound_def)
      from s(5) [OF w(1) this] w(2) Cons.prems(3) show
        "\<exists>v'. exec F sel ?h2 v' \<and> (\<forall>t i. i < length (g_nodes g) \<longrightarrow> v' t i = v t i)"
        by (intro exI [of _ "\<lambda>t j. if j = length (g_nodes h) then VInt c else w t j"]) auto
    qed
    moreover have "\<forall>j \<in> set is. live_at ?h2 j = live_at g j \<and> n_kind (node_at ?h2 j) = n_kind (node_at g j)
      \<and> n_effect (node_at ?h2 j) = n_effect (node_at g j)"
    proof
      fix j assume j: "j \<in> set is"
      then have "j < length (g_nodes h)" "j \<noteq> i" using Cons.prems(3,5,6) by auto
      with s(4) [of j] Cons.prems(7) j show "live_at ?h2 j = live_at g j \<and> n_kind (node_at ?h2 j) = n_kind (node_at g j)
        \<and> n_effect (node_at ?h2 j) = n_effect (node_at g j)" by auto
    qed
    ultimately have IH: "pass_ok (fst (sccp_rewrite st is ?h2 (r + 1))) \<and> simulates F sel g (fst (sccp_rewrite st is ?h2 (r + 1)))
      \<and> (\<forall>j < length (g_nodes g). live_at (fst (sccp_rewrite st is ?h2 (r + 1))) j
          \<longleftrightarrow> live_at ?h2 j \<and> \<not> (j \<in> set is \<and> sccp_folds g st j))
      \<and> snd (sccp_rewrite st is ?h2 (r + 1)) = r + 1 + length (filter (sccp_folds g st) is)"
      using s(1,2) Cons.prems(3-6) by (intro Cons.IH) auto
    have "live_at ?h2 j \<longleftrightarrow> live_at h j \<and> j \<noteq> i" if "j < length (g_nodes g)" for j
      using s(4) [of j] that Cons.prems(3) by auto
    with IH True show ?thesis unfolding step by auto
  qed
qed (use assms in simp)



lemma arith_ok_code [code]:
  "arith_ok g = all_live g (\<lambda>i. (may_const (n_kind (node_at g i)) \<longrightarrow> node_is_pure (node_at g i)) \<and>
     (n_kind (node_at g i) \<in> set unop_kinds \<longrightarrow>
        (case n_inputs (node_at g i) of [x] \<Rightarrow> x < length (g_nodes g) | _ \<Rightarrow> False)) \<and>
     (n_kind (node_at g i) \<in> set binop_kinds \<longrightarrow>
        (case n_inputs (node_at g i) of [x, y] \<Rightarrow> x < length (g_nodes g) \<and> y < length (g_nodes g) | _ \<Rightarrow> False)))"
  unfolding arith_ok_def all_live_iff
  by (intro iff_allI imp_cong conj_cong refl) (auto split: list.splits)

definition demo_edits :: "graph_edit list" where
  "demo_edits = [MakeNode NK_Constant [] 3 7, MakeNode NK_Constant [] 3 5, MakeNode NK_Add [1, 2] 3 0,
     MakeNode NK_Return [0, 0, 3] 0 0]"


text \<open>
  C36. What the third hypothesis of the soundness theorem excludes happens: the generic fold
  treats every node with a single constant data input as that constant. In the graph of
  \<open>return f(7)\<close> the call's result projection is replaced by the constant 7, and the returned
  value is 7 whatever \<open>f\<close> computes.
\<close>

definition call_edits :: "graph_edit list" where
  "call_edits = [MakeNode NK_Constant [] 3 7, MakeNode NK_Proj [0] 0 0, MakeNode NK_Proj [0] 0 1,
     MakeCall 2 3 5 [1] 3 Crowded, MakeNode NK_Proj [4] 3 0, MakeNode NK_Return [2, 4, 5] 0 0]"


text \<open>
  C37. The lattice has one integer domain for every type. In the graph of \<open>return 1.5 + 2.5\<close>,
  whose literals lowering makes constants holding the bits of the doubles, the addition folds
  to the integer sum of the bit patterns, 0x7FFC000000000000, which is a NaN and not the bits
  0x4010000000000000 of 4.0.
\<close>

definition float_edits :: "graph_edit list" where
  "float_edits = [MakeNode NK_Constant [] kInvalidTypeId 0x3FF8000000000000,
     MakeNode NK_Constant [] kInvalidTypeId 0x4004000000000000,
     MakeNode NK_Add [1, 2] kInvalidTypeId 0, MakeNode NK_Return [0, 0, 3] kInvalidTypeId 0]"


end
