(* ===== verification/StrengthReduction.thy ===== *)
theory StrengthReduction
  imports Sccp BitVectors
begin

section \<open>Strength reduction\<close>

text \<open>
  \<open>compiler/passes/src/mid/StrengthReduction.cpp\<close>: one pass over the ids, including those
  of the nodes it appends, that replaces an arithmetic node by an operand, a fresh constant
  or a shift. \<open>sr_new_node\<close> is the \<open>switch\<close>; \<open>kInvalidNodeId\<close> means no rewrite.
\<close>

definition is_power_of_two :: "i64 \<Rightarrow> bool" where
  "is_power_of_two v \<longleftrightarrow> v \<noteq> 0 \<and> v AND (v - 1) = 0"

function log2_loop :: "i64 \<Rightarrow> nat \<Rightarrow> nat" where
  "log2_loop v r = (if v > 1 then log2_loop (drop_bit 1 v) (r + 1) else r)"
  by pat_completeness auto

termination
proof (relation "measure (\<lambda>(v, r). unat v)")
  fix v :: i64 and r :: nat assume v: "v > 1"
  have "unat (drop_bit 1 v) = unat v div 2" by (simp add: drop_bit_eq_div unat_div)
  moreover have "1 < unat v" using v by (simp add: word_less_nat_alt)
  ultimately show "((drop_bit 1 v, r + 1), v, r) \<in> measure (\<lambda>(v, r). unat v)" by simp
qed simp

declare log2_loop.simps [simp del]

definition log2_pow2 :: "i64 \<Rightarrow> nat" where
  "log2_pow2 v = log2_loop v 0"

definition const_val :: "node \<Rightarrow> i64 option" where
  "const_val nd = (if n_kind nd \<noteq> NK_Constant then None else Some (n_payload nd))"

definition sr_shift :: "node_kind \<Rightarrow> type_id \<Rightarrow> node_id \<Rightarrow> i64 \<Rightarrow> graph \<Rightarrow> node_id \<times> graph" where
  "sr_shift k ty lhs c g =
     (let (amt, g1) = make_constant_i64 (of_nat (log2_pow2 c)) ty g in make_binop k lhs amt ty g1)"

definition sr_new_node :: "node_kind \<Rightarrow> type_id \<Rightarrow> node_id \<Rightarrow> node_id \<Rightarrow> graph \<Rightarrow> node_id \<times> graph" where
  "sr_new_node k ty lhs rhs g =
     (let lval = const_val (node_at g lhs); rval = const_val (node_at g rhs)
      in case k of
           NK_Mul \<Rightarrow>
             if rval = Some 1 then (lhs, g)
             else if rval = Some 0 then make_constant_i64 0 ty g
             else (case rval of
                     Some c \<Rightarrow> if is_power_of_two c then sr_shift NK_Shl ty lhs c g else (kInvalidNodeId, g)
                   | None \<Rightarrow> (kInvalidNodeId, g))
         | NK_UDiv \<Rightarrow>
             (case rval of
                Some c \<Rightarrow> if is_power_of_two c \<and> sint c > 0 then sr_shift NK_LShr ty lhs c g else (kInvalidNodeId, g)
              | None \<Rightarrow> (kInvalidNodeId, g))
         | NK_Add \<Rightarrow>
             if rval = Some 0 then (lhs, g) else if lval = Some 0 then (rhs, g) else (kInvalidNodeId, g)
         | NK_Sub \<Rightarrow>
             if rval = Some 0 then (lhs, g)
             else if lhs = rhs then make_constant_i64 0 ty g else (kInvalidNodeId, g)
         | NK_And \<Rightarrow>
             if rval = Some 0 then make_constant_i64 0 ty g
             else if rval = Some (- 1) then (lhs, g)
             else if lval = Some 0 then make_constant_i64 0 ty g
             else if lval = Some (- 1) then (rhs, g) else (kInvalidNodeId, g)
         | NK_Or \<Rightarrow>
             if rval = Some 0 then (lhs, g)
             else if rval = Some (- 1) then make_constant_i64 (- 1) ty g
             else if lval = Some 0 then (rhs, g)
             else if lval = Some (- 1) then make_constant_i64 (- 1) ty g else (kInvalidNodeId, g)
         | NK_Xor \<Rightarrow>
             if rval = Some 0 then (lhs, g)
             else if lval = Some 0 then (rhs, g)
             else if lhs = rhs then make_constant_i64 0 ty g else (kInvalidNodeId, g)
         | _ \<Rightarrow> (kInvalidNodeId, g))"

text \<open>The body of the loop: the graph, and whether a node was replaced.\<close>

definition sr_step :: "node_id \<Rightarrow> graph \<Rightarrow> graph \<times> bool" where
  "sr_step i g =
     (let nd = node_at g i; d = data_ins nd
      in if node_is_dead nd \<or> \<not> node_is_pure nd \<or> length d \<noteq> 2 then (g, False)
         else if d ! 0 = kInvalidNodeId \<or> d ! 1 = kInvalidNodeId then (g, False)
         else if d ! 0 \<ge> g_size g \<or> d ! 1 \<ge> g_size g then (g, False)
         else (case sr_new_node (n_kind nd) (n_type nd) (d ! 0) (d ! 1) g of (new, g1) \<Rightarrow>
                 if new \<noteq> kInvalidNodeId then (set_dead i (replace_uses i new g1), True) else (g1, False)))"

partial_function (option) sr_loop :: "node_id \<Rightarrow> graph \<Rightarrow> nat \<Rightarrow> (graph \<times> nat) option" where
  "sr_loop i g replaced =
     (if i < g_size g then
        sr_loop (u32 (i + 1)) (fst (sr_step i g)) (if snd (sr_step i g) then replaced + 1 else replaced)
      else Some (g, replaced))"

declare sr_loop.simps [code]

definition sr_run :: "graph \<Rightarrow> (graph \<times> nat) option" where
  "sr_run g = sr_loop 0 g 0"

subsection \<open>Powers of two\<close>

lemma is_power_of_two_iff: "is_power_of_two v \<longleftrightarrow> (\<exists>k < 64. v = 2 ^ k)"
proof
  assume v: "is_power_of_two v"
  then have "bit v i \<longleftrightarrow> i = countr_zero64 v" for i
    using bit_and_minus_one [of v i] countr_zero64_spec(1) [of v] by (auto simp: is_power_of_two_def)
  then have "v = 2 ^ countr_zero64 v"
    using v countr_zero64_spec(3) [of v] by (intro bit_eqI) (auto simp: bit_exp_iff is_power_of_two_def)
  then show "\<exists>k < 64. v = 2 ^ k" using countr_zero64_spec(3) [of v] v by (auto simp: is_power_of_two_def)
next
  assume "\<exists>k < 64. v = 2 ^ k"
  then obtain k where k: "k < 64" "v = 2 ^ k" by blast
  then have ne: "v \<noteq> 0" by simp
  have "bit v i \<longleftrightarrow> i = k" for i using k by (auto simp: bit_exp_iff)
  then have "\<not> bit (v AND (v - 1)) i" for i
    using bit_and_minus_one [OF ne, of i] countr_zero64_spec(1) [OF ne] by auto
  then have "v AND (v - 1) = 0" by (intro bit_eqI) auto
  with ne show "is_power_of_two v" by (simp add: is_power_of_two_def)
qed

lemma unat_pow2_i64: "k < 64 \<Longrightarrow> unat (2 ^ k :: i64) = 2 ^ k"
proof -
  assume k: "k < 64"
  have "(2 ^ k :: i64) = word_of_nat (2 ^ k)" by simp
  then have "unat (2 ^ k :: i64) = 2 ^ k mod 2 ^ 64" by (simp only: unat_of_nat) simp
  also have "\<dots> = 2 ^ k" using k by (intro mod_less power_strict_increasing) auto
  finally show ?thesis .
qed

lemma log2_loop_pow2: "k < 64 \<Longrightarrow> log2_loop (2 ^ k) r = r + k"
proof (induction k arbitrary: r)
  case 0
  then show ?case by (simp add: log2_loop.simps)
next
  case (Suc k)
  have u: "unat (2 ^ Suc k :: i64) = 2 ^ Suc k" using Suc.prems by (rule unat_pow2_i64)
  then have gt: "1 < (2 ^ Suc k :: i64)" unfolding word_less_nat_alt u
    using one_less_power [of "2 :: nat" "Suc k"] by (simp del: power_Suc)
  have "unat (drop_bit 1 (2 ^ Suc k :: i64)) = unat (2 ^ k :: i64)"
    using u unat_pow2_i64 [of k] Suc.prems by (simp only: drop_bit_eq_div unat_div) simp
  then have "drop_bit 1 (2 ^ Suc k :: i64) = 2 ^ k" by (rule unsigned_word_eqI)
  then show ?case using gt Suc.IH [of "r + 1"] Suc.prems by (subst log2_loop.simps) (simp del: power_Suc)
qed

lemma log2_pow2_exp [simp]: "k < 64 \<Longrightarrow> log2_pow2 (2 ^ k) = k"
  by (simp add: log2_pow2_def log2_loop_pow2)

lemma mul_pow2: "a * 2 ^ k = push_bit k a" for a :: i64
  by (simp add: push_bit_eq_mult)

lemma udiv_pow2: "a div 2 ^ k = drop_bit k a" for a :: i64
  by (simp add: drop_bit_eq_div)

subsection \<open>Executions on integers\<close>

text \<open>
  The rewrites are identities of integer arithmetic. They are stated for executions in which
  the operands of arithmetic nodes are integers (the pass does not look at types).
\<close>

definition int_exec :: "'e kind_fun \<Rightarrow> selector \<Rightarrow> graph \<Rightarrow> 'e valuation \<Rightarrow> bool" where
  "int_exec F sel g v \<longleftrightarrow> exec F sel g v \<and>
     (\<forall>t i. live_at g i \<longrightarrow> n_kind (node_at g i) \<in> set binop_kinds \<longrightarrow>
        (\<forall>s \<in> set (n_inputs (node_at g i)). \<exists>a. v t s = VInt a))"

text \<open>
  Arithmetic is acyclic (cycles go through phis) and reads values: a rank decreases from each
  arithmetic node to its operands.
\<close>

definition ranked :: "(node_id \<Rightarrow> nat) \<Rightarrow> graph \<Rightarrow> bool" where
  "ranked rk g \<longleftrightarrow> (\<forall>i. live_at g i \<longrightarrow> n_kind (node_at g i) \<in> set binop_kinds \<longrightarrow>
     (\<forall>s \<in> set (n_inputs (node_at g i)). rk s < rk i \<and> \<not> is_merge g s))"

definition sr_inv :: "(node_id \<Rightarrow> nat) \<Rightarrow> graph \<Rightarrow> bool" where
  "sr_inv rk g \<longleftrightarrow> pass_ok g \<and> arith_ok g \<and> ranked rk g"

text \<open>The nodes the pass appends: a constant, or a shift of live operands.\<close>

definition new_node_ok :: "(node_id \<Rightarrow> nat) \<Rightarrow> nat \<Rightarrow> graph \<Rightarrow> node \<Rightarrow> bool" where
  "new_node_ok rk q g n \<longleftrightarrow> n_flags n = 0 \<and> n_effect n = Pure \<and>
     (n_kind n = NK_Constant \<and> n_inputs n = [] \<or>
      n_kind n \<in> set [NK_Shl, NK_LShr] \<and>
        (\<exists>x y. n_inputs n = [x, y] \<and> live_at g x \<and> live_at g y \<and> \<not> is_merge g x \<and> \<not> is_merge g y \<and> rk x < q \<and> rk y < q))"

lemma add_node_live:
  assumes "n_flags n = 0"
  shows "live_at (snd (add_node n g)) j \<longleftrightarrow> live_at g j \<or> j = length (g_nodes g)"
  using assms by (auto simp: live_at_def nth_append flags_has_def)

lemma add_node_merge:
  "n_kind n \<noteq> NK_Region \<Longrightarrow> n_kind n \<noteq> NK_Loop \<Longrightarrow> is_merge (snd (add_node n g)) j = is_merge g j"
  by (auto simp: is_merge_def nth_append less_Suc_eq)

lemma add_node_sr_inv:
  assumes inv: "sr_inv rk g" and room: "length (g_nodes g) < kInvalidNodeId" and n: "new_node_ok rk q g n"
  shows "sr_inv (rk(length (g_nodes g) := q)) (snd (add_node n g))"
proof -
  let ?l = "length (g_nodes g)" and ?g = "snd (add_node n g)"
  have ok: "pass_ok g" and ar: "arith_ok g" and rk: "ranked rk g" using inv by (auto simp: sr_inv_def)
  have flags: "n_flags n = 0" "n_effect n = Pure" and kind: "n_kind n \<noteq> NK_Phi" "n_kind n \<noteq> NK_Region" "n_kind n \<noteq> NK_Loop"
    using n by (auto simp: new_node_ok_def)
  note live = add_node_live [OF flags(1), of g] and mrg = add_node_merge [OF kind(2,3), of g]
  have old: "node_at ?g j = node_at g j" "j < ?l" "j \<noteq> ?l" if "live_at g j" for j
    using that by (auto simp: live_at_def nth_append)
  have "pass_ok ?g"
    by (rule add_node_pass_ok [OF ok room]) (use n in \<open>auto simp: new_node_ok_def\<close>)
  moreover have "arith_ok ?g"
    unfolding arith_ok_def
  proof (intro allI impI)
    fix i assume i: "live_at ?g i"
    show "(may_const (n_kind (node_at ?g i)) \<longrightarrow> node_is_pure (node_at ?g i)) \<and>
     (n_kind (node_at ?g i) \<in> set unop_kinds \<longrightarrow> (\<exists>x. n_inputs (node_at ?g i) = [x] \<and> x < length (g_nodes ?g))) \<and>
     (n_kind (node_at ?g i) \<in> set binop_kinds \<longrightarrow>
        (\<exists>x y. n_inputs (node_at ?g i) = [x, y] \<and> x < length (g_nodes ?g) \<and> y < length (g_nodes ?g)))"
    proof (cases "i = ?l")
      case True
      have "node_at ?g i = n" using True by simp
      with n show ?thesis
        by (auto simp: new_node_ok_def node_is_pure_def unop_kinds_def binop_kinds_def live_at_def)
    next
      case False
      with i live have "live_at g i" by simp
      with ar old(1) [OF this] show ?thesis unfolding arith_ok_def by (auto simp: less_Suc_eq)
    qed
  qed
  moreover have "ranked (rk(?l := q)) ?g"
    unfolding ranked_def
  proof (intro allI impI ballI)
    fix i s assume i: "live_at ?g i" and k: "n_kind (node_at ?g i) \<in> set binop_kinds"
      and s: "s \<in> set (n_inputs (node_at ?g i))"
    show "(rk(?l := q)) s < (rk(?l := q)) i \<and> \<not> is_merge ?g s"
    proof (cases "i = ?l")
      case True
      have "node_at ?g i = n" using True by simp
      with n s True show ?thesis
        by (auto simp: new_node_ok_def mrg live_at_def)
    next
      case False
      with i live have ig: "live_at g i" by simp
      have "s \<noteq> ?l"
        using wf_edge [of g i s] ok s old [OF ig] room by (auto simp: pass_ok_def)
      with rk ig k s False old(1) [OF ig] show ?thesis by (simp add: ranked_def mrg)
    qed
  qed
  ultimately show ?thesis by (simp add: sr_inv_def)
qed

lemma add_node_int_exec:
  assumes inv: "sr_inv rk g" and room: "length (g_nodes g) < kInvalidNodeId" and n: "new_node_ok rk q g n"
    and ex: "int_exec F sel g v" and val: "\<And>t. node_ok F sel v t n (x t)"
    and ints: "\<And>t s. s \<in> set (n_inputs n) \<Longrightarrow> \<exists>a. v t s = VInt a"
  shows "int_exec F sel (snd (add_node n g)) (\<lambda>t j. if j = length (g_nodes g) then x t else v t j)"
proof -
  let ?l = "length (g_nodes g)" and ?g = "snd (add_node n g)"
  have wf: "graph_wf g" using inv by (simp add: sr_inv_def pass_ok_def)
  have ins: "\<forall>s \<in> set (n_inputs n). s \<noteq> ?l" using n by (auto simp: new_node_ok_def live_at_def)
  have "exec F sel ?g (\<lambda>t j. if j = ?l then x t else v t j)"
    using ex by (intro add_node_exec [OF wf room _ ins val]) (simp add: int_exec_def)
  moreover have "\<exists>a. (if s = ?l then x t else v t s) = VInt a"
    if i: "live_at ?g i" "n_kind (node_at ?g i) \<in> set binop_kinds" "s \<in> set (n_inputs (node_at ?g i))" for t i s
  proof (cases "i = ?l")
    case True
    have "node_at ?g i = n" using True by simp
    with i(3) ins ints show ?thesis by auto
  next
    case False
    have "n_flags n = 0" using n by (simp add: new_node_ok_def)
    with False i(1) have ig: "live_at g i" using add_node_live by auto
    then have old: "node_at ?g i = node_at g i" "i < ?l" by (auto simp: live_at_def nth_append)
    have "s \<noteq> ?l" using wf_edge [OF wf old(2), of s] i(3) old(1) room by auto
    with ex ig i(2,3) old(1) show ?thesis by (simp add: int_exec_def)
  qed
  ultimately show ?thesis by (simp add: int_exec_def)
qed

lemma redirect_sr_inv:
  assumes inv: "sr_inv rk g" and i: "live_at g i" and new: "live_at g new" "new \<noteq> i"
    and nm: "\<not> is_merge g i" "\<not> is_merge g new" and r: "rk new \<le> rk i"
  shows "sr_inv rk (set_dead i (replace_uses i new g))"
proof -
  let ?g = "set_dead i (replace_uses i new g)"
  have ok: "pass_ok g" using inv by (simp add: sr_inv_def)
  have wf: "graph_wf g" and il: "i < length (g_nodes g)" and nid: "id_ok g new" and nl: "new < length (g_nodes g)"
    using ok i new by (auto simp: pass_ok_def live_at_def id_ok_def)
  note rn = redirect_nodes [OF wf il nid]
  have nd: "n_kind (node_at ?g j) = n_kind (node_at g j)" "n_effect (node_at ?g j) = n_effect (node_at g j)"
    "n_inputs (node_at ?g j) = map (\<lambda>x. if x = i then new else x) (n_inputs (node_at g j))" if "j < length (g_nodes g)" for j
    using rn(3) [OF that] by auto
  have mrg: "is_merge ?g j = is_merge g j" for j using nd(1) [of j] by (auto simp: is_merge_def rn(2))
  have jl: "live_at ?g j \<Longrightarrow> live_at g j \<and> j < length (g_nodes g)" for j using rn(4) by (auto simp: live_at_def)
  have "arith_ok ?g"
    unfolding arith_ok_def rn(2)
  proof (intro allI impI)
    fix j assume "live_at ?g j"
    with jl have j: "live_at g j" "j < length (g_nodes g)" by auto
    with inv have "(may_const (n_kind (node_at g j)) \<longrightarrow> node_is_pure (node_at g j)) \<and>
     (n_kind (node_at g j) \<in> set unop_kinds \<longrightarrow> (\<exists>x. n_inputs (node_at g j) = [x] \<and> x < length (g_nodes g))) \<and>
     (n_kind (node_at g j) \<in> set binop_kinds \<longrightarrow>
        (\<exists>x y. n_inputs (node_at g j) = [x, y] \<and> x < length (g_nodes g) \<and> y < length (g_nodes g)))"
      unfolding sr_inv_def arith_ok_def by blast
    then show "(may_const (n_kind (node_at ?g j)) \<longrightarrow> node_is_pure (node_at ?g j)) \<and>
     (n_kind (node_at ?g j) \<in> set unop_kinds \<longrightarrow> (\<exists>x. n_inputs (node_at ?g j) = [x] \<and> x < length (g_nodes g))) \<and>
     (n_kind (node_at ?g j) \<in> set binop_kinds \<longrightarrow>
        (\<exists>x y. n_inputs (node_at ?g j) = [x, y] \<and> x < length (g_nodes g) \<and> y < length (g_nodes g)))"
      unfolding nd(1) [OF j(2)] nd(3) [OF j(2)] node_is_pure_def nd(2) [OF j(2)] using nl by auto
  qed
  moreover have "ranked rk ?g"
    unfolding ranked_def
  proof (intro allI impI ballI)
    fix j s assume j: "live_at ?g j" "n_kind (node_at ?g j) \<in> set binop_kinds" and s: "s \<in> set (n_inputs (node_at ?g j))"
    from jl [OF j(1)] have jg: "live_at g j" "j < length (g_nodes g)" by auto
    from s nd(3) [OF jg(2)] obtain x where x: "x \<in> set (n_inputs (node_at g j))" "s = (if x = i then new else x)" by auto
    have "rk x < rk j \<and> \<not> is_merge g x"
      using inv jg(1) j(2) x(1) nd(1) [OF jg(2)] by (auto simp: sr_inv_def ranked_def)
    with x(2) r nm show "rk s < rk j \<and> \<not> is_merge ?g s" unfolding mrg by auto
  qed
  ultimately show ?thesis using redirect_pass_ok [OF ok i new nm] by (simp add: sr_inv_def)
qed

lemma redirect_int_exec:
  assumes inv: "sr_inv rk g" and i: "live_at g i" and new: "live_at g new"
    and nm: "\<not> is_merge g i"
    and ex: "int_exec F sel g v" and eq: "\<And>t. v t new = v t i"
  shows "int_exec F sel (set_dead i (replace_uses i new g)) v"
proof -
  let ?g = "set_dead i (replace_uses i new g)"
  have ok: "pass_ok g" using inv by (simp add: sr_inv_def)
  have wf: "graph_wf g" and il: "i < length (g_nodes g)" and nid: "id_ok g new"
    using ok i new by (auto simp: pass_ok_def live_at_def id_ok_def)
  note rn = redirect_nodes [OF wf il nid]
  have "\<exists>a. v t s = VInt a" if j: "live_at ?g j" "n_kind (node_at ?g j) \<in> set binop_kinds"
    "s \<in> set (n_inputs (node_at ?g j))" for t j s
  proof -
    have jg: "live_at g j" "j < length (g_nodes g)" "j \<noteq> i" using j(1) rn(4) by (auto simp: live_at_def)
    with j(3) rn(3) [OF jg(2)] obtain x where x: "x \<in> set (n_inputs (node_at g j))" "s = (if x = i then new else x)" by auto
    have "n_kind (node_at g j) \<in> set binop_kinds" using j(2) rn(3) [OF jg(2)] jg(3) by simp
    with ex jg(1) x(1) have "\<exists>a. v t x = VInt a" by (auto simp: int_exec_def)
    with x(2) eq show ?thesis by auto
  qed
  moreover have "exec F sel g v" using ex by (simp add: int_exec_def)
  then have "exec F sel ?g v" by (rule redirect_exec [OF ok i new nm]) (rule eq)
  ultimately show ?thesis by (simp add: int_exec_def)
qed

subsection \<open>The replacement has the value of the node\<close>

definition sr_site :: "(node_id \<Rightarrow> nat) \<Rightarrow> graph \<Rightarrow> node_id \<Rightarrow> node_kind \<Rightarrow> node_id \<Rightarrow> node_id \<Rightarrow> bool" where
  "sr_site rk g i k l r \<longleftrightarrow> sr_inv rk g \<and> length (g_nodes g) + 2 \<le> kInvalidNodeId \<and> live_at g i
     \<and> n_kind (node_at g i) = k \<and> k \<in> set binop_kinds \<and> n_inputs (node_at g i) = [l, r]"

definition sr_grown :: "(node_id \<Rightarrow> nat) \<Rightarrow> graph \<Rightarrow> (node_id \<Rightarrow> nat) \<Rightarrow> graph \<Rightarrow> bool" where
  "sr_grown rk g rk1 g1 \<longleftrightarrow> sr_inv rk1 g1 \<and> (\<forall>j < length (g_nodes g). rk1 j = rk j)
     \<and> length (g_nodes g) \<le> length (g_nodes g1) \<and> length (g_nodes g1) \<le> length (g_nodes g) + 2
     \<and> (\<forall>j < length (g_nodes g). node_at g1 j = node_at g j)
     \<and> (\<forall>j. length (g_nodes g) \<le> j \<longrightarrow> j < length (g_nodes g1) \<longrightarrow>
          n_kind (node_at g1 j) \<in> {NK_Constant, NK_Shl, NK_LShr})"

definition sr_new_ok :: "'e kind_fun \<Rightarrow> selector \<Rightarrow> (node_id \<Rightarrow> nat) \<Rightarrow> graph \<Rightarrow> node_id \<Rightarrow> node_id \<times> graph \<Rightarrow> bool" where
  "sr_new_ok F sel rk g i = (\<lambda>(new, g1).
     new = kInvalidNodeId \<and> g1 = g \<or>
     (\<exists>rk1. sr_grown rk g rk1 g1 \<and> live_at g1 new \<and> new \<noteq> i \<and> \<not> is_merge g1 new \<and> rk1 new \<le> rk i \<and>
        (\<forall>v. int_exec F sel g v \<longrightarrow> (\<exists>v1. int_exec F sel g1 v1 \<and>
           (\<forall>t j. j < length (g_nodes g) \<longrightarrow> v1 t j = v t j) \<and> (\<forall>t. v1 t new = v t i)))))"

lemma sr_site_operands:
  assumes "sr_site rk g i k l r" "s = l \<or> s = r"
  shows "live_at g s" "rk s < rk i" "\<not> is_merge g s"
proof -
  have inv: "pass_ok g" "arith_ok g" "ranked rk g" "live_at g i" and k: "n_kind (node_at g i) \<in> set binop_kinds"
    and ins: "n_inputs (node_at g i) = [l, r]" using assms(1) by (auto simp: sr_site_def sr_inv_def)
  have s: "s \<in> set (n_inputs (node_at g i))" using assms(2) ins by auto
  have "s < length (g_nodes g)" using inv(2,4) k ins assms(2) unfolding arith_ok_def by fastforce
  with inv(1) have "s \<noteq> kInvalidNodeId" by (auto simp: pass_ok_def graph_wf_def)
  with pass_ok_input_live [OF inv(1,4) s] show "live_at g s" by simp
  show "rk s < rk i" "\<not> is_merge g s" using inv(3,4) k s by (auto simp: ranked_def)
qed

lemma sr_site_value:
  assumes "sr_site rk g i k l r" "int_exec F sel g v"
  shows "\<exists>a b. v t l = VInt a \<and> v t r = VInt b
    \<and> v t i = apply_kind F k (n_type (node_at g i)) (n_payload (node_at g i)) [VInt a, VInt b]"
proof -
  have i: "live_at g i" "n_kind (node_at g i) = k" "k \<in> set binop_kinds" "n_inputs (node_at g i) = [l, r]"
    using assms(1) by (auto simp: sr_site_def)
  with assms(2) obtain a b where ab: "v t l = VInt a" "v t r = VInt b" unfolding int_exec_def by fastforce
  have "node_ok F sel v t (node_at g i) (v t i)" using assms(2) i(1) by (simp add: int_exec_def exec_def)
  moreover have "k \<notin> set free_kinds" "k \<noteq> NK_Constant" "k \<noteq> NK_Phi"
    using i(3) by (auto simp: binop_kinds_def free_kinds_def)
  ultimately show ?thesis using ab i by (simp add: node_ok_def)
qed

lemma const_val_value:
  "int_exec F sel g v \<Longrightarrow> live_at g s \<Longrightarrow> const_val (node_at g s) = Some c \<Longrightarrow> v t s = VInt c"
  by (force simp: int_exec_def exec_def const_val_def node_ok_def free_kinds_def split: if_splits)

lemma sr_new_operand:
  assumes site: "sr_site rk g i k l r" and s: "s = l \<or> s = r"
    and eq: "\<And>v t. int_exec F sel g v \<Longrightarrow> v t s = v t i"
  shows "sr_new_ok F sel rk g i (s, g)"
  using sr_site_operands [OF site s] site eq
  by (auto simp: sr_new_ok_def sr_grown_def sr_site_def intro!: exI [of _ rk])

lemma make_constant_add:
  "make_constant_i64 c ty g = add_node \<lparr>n_kind = NK_Constant, n_effect = Pure, n_flags = 0,
     n_type = ty, n_payload = c, n_inputs = []\<rparr> g"
  by (simp add: make_constant_i64_def make_node_def)

lemma sr_inv_wf: "sr_inv rk g \<Longrightarrow> graph_wf g"
  by (simp add: sr_inv_def pass_ok_def)

lemma sr_new_const:
  assumes site: "sr_site rk g i k l r" and eq: "\<And>v t. int_exec F sel g v \<Longrightarrow> v t i = VInt c"
  shows "sr_new_ok F sel rk g i (make_constant_i64 c ty g)"
proof -
  let ?n = "\<lparr>n_kind = NK_Constant, n_effect = Pure, n_flags = 0, n_type = ty, n_payload = c, n_inputs = []\<rparr>"
  let ?l = "length (g_nodes g)" and ?g = "snd (add_node ?n g)"
  have inv: "sr_inv rk g" and room: "?l < kInvalidNodeId" and i: "i < ?l"
    using site by (auto simp: sr_site_def live_at_def)
  have n: "new_node_ok rk 0 g ?n" by (simp add: new_node_ok_def)
  have g1: "make_constant_i64 c ty g = (?l, ?g)"
    using add_node_id [OF sr_inv_wf [OF inv], of ?n] by (simp add: make_constant_add prod_eq_iff)
  have "\<exists>v1. int_exec F sel ?g v1 \<and> (\<forall>t j. j < ?l \<longrightarrow> v1 t j = v t j) \<and> (\<forall>t. v1 t ?l = v t i)"
    if ex: "int_exec F sel g v" for v
  proof -
    have "int_exec F sel ?g (\<lambda>t j. if j = ?l then VInt c else v t j)"
      by (rule add_node_int_exec [OF inv room n ex]) (simp_all add: node_ok_def free_kinds_def)
    then show ?thesis using eq [OF ex] by (intro exI conjI) auto
  qed
  moreover have "sr_grown rk g (rk(?l := 0)) ?g"
    using add_node_sr_inv [OF inv room n] by (auto simp: sr_grown_def nth_append)
  moreover have "live_at ?g ?l" "\<not> is_merge ?g ?l"
    using add_node_live [of ?n g] add_node_merge [of ?n g] by (auto simp: is_merge_def)
  ultimately show ?thesis using i unfolding g1 sr_new_ok_def
    by (auto intro!: exI [of _ "rk(?l := 0)"])
qed

lemma sr_new_shift:
  assumes site: "sr_site rk g i k l r" and sh: "sh = NK_Shl \<or> sh = NK_LShr" and c: "c = 2 ^ m" "m < 64"
    and eq: "\<And>v t a. int_exec F sel g v \<Longrightarrow> v t l = VInt a \<Longrightarrow>
      v t i = VInt (if sh = NK_Shl then push_bit m a else drop_bit m a)"
  shows "sr_new_ok F sel rk g i (sr_shift sh ty l c g)"
proof -
  let ?n = "\<lparr>n_kind = NK_Constant, n_effect = Pure, n_flags = 0, n_type = ty, n_payload = of_nat m, n_inputs = []\<rparr>"
  let ?l = "length (g_nodes g)" and ?g = "snd (add_node ?n g)"
  let ?s = "\<lparr>n_kind = sh, n_effect = Pure, n_flags = 0, n_type = ty, n_payload = 0, n_inputs = [l, ?l]\<rparr>"
  let ?h = "snd (add_node ?s ?g)" and ?q = "rk i" and ?rk = "rk(?l := 0)"
  have inv: "sr_inv rk g" and room: "?l < kInvalidNodeId" "length (g_nodes ?g) < kInvalidNodeId" and i: "i < ?l"
    using site by (auto simp: sr_site_def live_at_def)
  have n: "new_node_ok rk 0 g ?n" by (simp add: new_node_ok_def)
  note inv1 = add_node_sr_inv [OF inv room(1) n]
  note op = sr_site_operands [OF site, of l, simplified]
  have live: "live_at ?g l" "live_at ?g ?l" and mrg: "\<not> is_merge ?g l" "\<not> is_merge ?g ?l"
    using op add_node_live [of ?n g] add_node_merge [of ?n g] by (auto simp: is_merge_def)
  have ln: "l \<noteq> ?l" using op(1) by (auto simp: live_at_def)
  have s: "new_node_ok ?rk ?q ?g ?s"
    using sh live mrg op(2) ln by (auto simp: new_node_ok_def)
  note inv2 = add_node_sr_inv [OF inv1 room(2) s]
  have e: "effect_class_of sh = Pure" using sh by auto
  have g1: "sr_shift sh ty l c g = (Suc ?l, ?h)"
    using add_node_id [OF sr_inv_wf [OF inv], of ?n] add_node_id [OF sr_inv_wf [OF inv1], of ?s] c
    by (simp add: sr_shift_def make_constant_add make_binop_def make_node_def e prod_eq_iff split: prod.split)
  have "\<exists>v1. int_exec F sel ?h v1 \<and> (\<forall>t j. j < ?l \<longrightarrow> v1 t j = v t j) \<and> (\<forall>t. v1 t (Suc ?l) = v t i)"
    if ex: "int_exec F sel g v" for v
  proof -
    let ?v = "\<lambda>t j. if j = ?l then VInt (of_nat m) else v t j"
    have ex1: "int_exec F sel ?g ?v"
      by (rule add_node_int_exec [OF inv room(1) n ex]) (simp_all add: node_ok_def free_kinds_def)
    have vl: "\<exists>a. v t l = VInt a" for t using sr_site_value [OF site ex] by blast
    have um: "unat (of_nat m :: i64) = m" using c(2) by (simp add: unat_of_nat)
    then have m0: "of_nat m = (0 :: i64) \<Longrightarrow> m = 0" by (metis unat_0)
    have "node_ok F sel ?v t ?s (v t i)" for t
    proof -
      obtain a where a: "v t l = VInt a" using vl by blast
      have "node_sem sh [VInt a, VInt (of_nat m)] = Some (if sh = NK_Shl then push_bit m a else drop_bit m a)"
        using sh c(2) by (auto simp: binop_sem_def um dest: m0)
      with eq [OF ex a] a ln sh show ?thesis by (auto simp: node_ok_def free_kinds_def apply_kind_def)
    qed
    moreover have "\<exists>a. ?v t x = VInt a" if "x \<in> set (n_inputs ?s)" for t x using that vl by auto
    ultimately have "int_exec F sel ?h (\<lambda>t j. if j = length (g_nodes ?g) then v t i else ?v t j)"
      by (rule add_node_int_exec [OF inv1 room(2) s ex1])
    then show ?thesis by (intro exI conjI) auto
  qed
  moreover have "sr_grown rk g (?rk(Suc ?l := ?q)) ?h"
    using inv2 sh by (auto simp: sr_grown_def nth_append less_Suc_eq)
  moreover have "live_at ?h (Suc ?l)" "\<not> is_merge ?h (Suc ?l)"
    using add_node_live [of ?s ?g] add_node_merge [of ?s ?g] sh by (auto simp: is_merge_def)
  ultimately show ?thesis using i unfolding g1 sr_new_ok_def
    by (auto intro!: exI [of _ "?rk(Suc ?l := ?q)"])
qed

definition agrees :: "i64 option \<Rightarrow> i64 \<Rightarrow> bool" where
  "agrees c a \<longleftrightarrow> c = None \<or> c = Some a"

text \<open>What is known of the operand values \<open>a\<close> and \<open>b\<close> at a rewrite site.\<close>

definition operands_known :: "graph \<Rightarrow> node_id \<Rightarrow> node_id \<Rightarrow> i64 \<Rightarrow> i64 \<Rightarrow> bool" where
  "operands_known g l r a b \<longleftrightarrow> agrees (const_val (node_at g l)) a \<and> agrees (const_val (node_at g r)) b \<and> (l = r \<longrightarrow> a = b)"

lemma sr_site_sem:
  assumes site: "sr_site rk g i k l r" and ex: "int_exec F sel g v"
  shows "\<exists>a b. v t l = VInt a \<and> v t r = VInt b \<and> operands_known g l r a b
    \<and> (\<forall>w. binop_sem k a b = Some w \<longrightarrow> v t i = VInt w)"
proof -
  obtain a b where ab: "v t l = VInt a" "v t r = VInt b"
    "v t i = apply_kind F k (n_type (node_at g i)) (n_payload (node_at g i)) [VInt a, VInt b]"
    using sr_site_value [OF site ex] by blast
  have "agrees (const_val (node_at g l)) a" "agrees (const_val (node_at g r)) b"
    using const_val_value [OF ex sr_site_operands(1) [OF site]] ab(1,2) unfolding agrees_def
    by (metis option.exhaust val.inject(1))+
  moreover have "l = r \<longrightarrow> a = b" using ab(1,2) by auto
  ultimately show ?thesis using ab by (auto simp: operands_known_def apply_kind_def)
qed

lemma sr_left:
  assumes site: "sr_site rk g i k l r" and w: "\<And>a b. operands_known g l r a b \<Longrightarrow> binop_sem k a b = Some a"
  shows "sr_new_ok F sel rk g i (l, g)"
proof (rule sr_new_operand [OF site])
  fix v t assume "int_exec F sel g v"
  from sr_site_sem [OF site this, of t] w show "v t l = v t i" by metis
qed simp

lemma sr_right:
  assumes site: "sr_site rk g i k l r" and w: "\<And>a b. operands_known g l r a b \<Longrightarrow> binop_sem k a b = Some b"
  shows "sr_new_ok F sel rk g i (r, g)"
proof (rule sr_new_operand [OF site])
  fix v t assume "int_exec F sel g v"
  from sr_site_sem [OF site this, of t] w show "v t r = v t i" by metis
qed simp

lemma sr_constant:
  assumes site: "sr_site rk g i k l r" and w: "\<And>a b. operands_known g l r a b \<Longrightarrow> binop_sem k a b = Some c"
  shows "sr_new_ok F sel rk g i (make_constant_i64 c ty g)"
proof (rule sr_new_const [OF site])
  fix v t assume "int_exec F sel g v"
  from sr_site_sem [OF site this, of t] w show "v t i = VInt c" by metis
qed

lemma sr_shifted:
  assumes site: "sr_site rk g i k l r" and sh: "sh = NK_Shl \<or> sh = NK_LShr" and c: "is_power_of_two c"
    and w: "\<And>a b m. operands_known g l r a b \<Longrightarrow> c = 2 ^ m \<Longrightarrow> m < 64 \<Longrightarrow>
      binop_sem k a b = Some (if sh = NK_Shl then push_bit m a else drop_bit m a)"
  shows "sr_new_ok F sel rk g i (sr_shift sh ty l c g)"
proof -
  obtain m where m: "c = 2 ^ m" "m < 64" using c by (auto simp: is_power_of_two_iff)
  show ?thesis
  proof (rule sr_new_shift [OF site sh m])
    fix v t a assume "int_exec F sel g v" "v t l = VInt a"
    with sr_site_sem [OF site this(1), of t] w m
    show "v t i = VInt (if sh = NK_Shl then push_bit m a else drop_bit m a)" by fastforce
  qed
qed

lemma sr_none: "sr_new_ok F sel rk g i (kInvalidNodeId, g)"
  by (simp add: sr_new_ok_def)

lemmas sr_rules = sr_left sr_right sr_constant sr_shifted

lemma sr_new_node_ok:
  assumes site: "sr_site rk g i k l r"
  shows "sr_new_ok F sel rk g i (sr_new_node k ty l r g)"
proof -
  have k: "operands_known g l r a b \<Longrightarrow> const_val (node_at g r) = Some c \<Longrightarrow> b = c"
    "operands_known g l r a b \<Longrightarrow> const_val (node_at g l) = Some c \<Longrightarrow> a = c"
    "operands_known g l r a b \<Longrightarrow> l = r \<Longrightarrow> a = b" for a b c
    by (auto simp: operands_known_def agrees_def)
  show ?thesis
  proof (cases k)
    case NK_Mul
    note s = site [unfolded NK_Mul]
    show ?thesis unfolding NK_Mul sr_new_node_def Let_def node_kind.case
      by (auto split: option.split simp: sr_none binop_sem_def mul_pow2
          intro!: sr_left [OF s] sr_constant [OF s] sr_shifted [OF s] dest: k)
  next
    case NK_UDiv
    note s = site [unfolded NK_UDiv]
    show ?thesis unfolding NK_UDiv sr_new_node_def Let_def node_kind.case
      by (auto split: option.split simp: sr_none binop_sem_def udiv_pow2
          intro!: sr_shifted [OF s] dest: k)
  next
    case NK_Add
    note s = site [unfolded NK_Add]
    show ?thesis unfolding NK_Add sr_new_node_def Let_def node_kind.case
      by (auto simp: sr_none binop_sem_def intro!: sr_left [OF s] sr_right [OF s] dest: k)
  next
    case NK_Sub
    note s = site [unfolded NK_Sub]
    have 1: "sr_new_ok F sel rk g i (l, g)" if "const_val (node_at g r) = Some 0"
      by (rule sr_left [OF s]) (drule k(1) [OF _ that], simp add: binop_sem_def)
    have 2: "sr_new_ok F sel rk g i (make_constant_i64 0 ty g)" if "l = r"
      by (rule sr_constant [OF s]) (drule k(3) [OF _ that], simp add: binop_sem_def)
    show ?thesis unfolding NK_Sub sr_new_node_def Let_def node_kind.case
      by (simp add: 1 2 sr_none del: split_paired_All)
  next
    case NK_And
    note s = site [unfolded NK_And]
    show ?thesis unfolding NK_And sr_new_node_def Let_def node_kind.case
      by (auto simp: sr_none binop_sem_def intro!: sr_left [OF s] sr_right [OF s] sr_constant [OF s] dest: k)
  next
    case NK_Or
    note s = site [unfolded NK_Or]
    show ?thesis unfolding NK_Or sr_new_node_def Let_def node_kind.case
      by (auto simp: sr_none binop_sem_def intro!: sr_left [OF s] sr_right [OF s] sr_constant [OF s] dest: k)
  next
    case NK_Xor
    note s = site [unfolded NK_Xor]
    have 1: "sr_new_ok F sel rk g i (l, g)" if "const_val (node_at g r) = Some 0"
      by (rule sr_left [OF s]) (drule k(1) [OF _ that], simp add: binop_sem_def)
    have 2: "sr_new_ok F sel rk g i (make_constant_i64 0 ty g)" if "l = r"
      by (rule sr_constant [OF s]) (drule k(3) [OF _ that], simp add: binop_sem_def)
    have 3: "sr_new_ok F sel rk g i (r, g)" if "const_val (node_at g l) = Some 0"
      by (rule sr_right [OF s]) (drule k(2) [OF _ that], simp add: binop_sem_def)
    show ?thesis unfolding NK_Xor sr_new_node_def Let_def node_kind.case
      by (simp add: 1 2 3 sr_none del: split_paired_All)
  qed (simp_all add: sr_new_node_def sr_none)
qed

subsection \<open>The whole pass\<close>

definition int_simulates :: "'e kind_fun \<Rightarrow> selector \<Rightarrow> graph \<Rightarrow> graph \<Rightarrow> bool" where
  "int_simulates F sel g g' \<longleftrightarrow> (\<forall>v. int_exec F sel g v \<longrightarrow>
     (\<exists>v'. int_exec F sel g' v' \<and> (\<forall>t i. i < length (g_nodes g) \<longrightarrow> v' t i = v t i)))"

lemma int_simulates_refl: "int_simulates F sel g g"
  by (auto simp: int_simulates_def)

lemma int_simulates_trans:
  assumes "int_simulates F sel g1 g2" "int_simulates F sel g2 g3" "length (g_nodes g1) \<le> length (g_nodes g2)"
  shows "int_simulates F sel g1 g3"
  unfolding int_simulates_def
proof (intro allI impI)
  fix v assume "int_exec F sel g1 v"
  then obtain v2 where v2: "int_exec F sel g2 v2" "\<forall>t i. i < length (g_nodes g1) \<longrightarrow> v2 t i = v t i"
    using assms(1) by (auto simp: int_simulates_def)
  then obtain v3 where "int_exec F sel g3 v3" "\<forall>t i. i < length (g_nodes g2) \<longrightarrow> v3 t i = v2 t i"
    using assms(2) by (auto simp: int_simulates_def)
  with v2 assms(3) show "\<exists>v'. int_exec F sel g3 v' \<and> (\<forall>t i. i < length (g_nodes g1) \<longrightarrow> v' t i = v t i)"
    by (intro exI [of _ v3]) auto
qed

definition sr_kinds :: "node_kind set" where
  "sr_kinds = {NK_Mul, NK_UDiv, NK_Add, NK_Sub, NK_And, NK_Or, NK_Xor}"

lemma sr_new_node_other: "k \<notin> sr_kinds \<Longrightarrow> sr_new_node k ty l r g = (kInvalidNodeId, g)"
  by (cases k) (simp_all add: sr_new_node_def sr_kinds_def)

text \<open>What one iteration does to the graph, besides keeping the invariant.\<close>

definition sr_moved :: "'e kind_fun \<Rightarrow> selector \<Rightarrow> graph \<Rightarrow> graph \<Rightarrow> nat \<Rightarrow> bool" where
  "sr_moved F sel g g' b \<longleftrightarrow> int_simulates F sel g g' \<and> length (g_nodes g) \<le> length (g_nodes g')
     \<and> length (g_nodes g') \<le> length (g_nodes g) + 2 * b
     \<and> (\<forall>j. length (g_nodes g) \<le> j \<longrightarrow> j < length (g_nodes g') \<longrightarrow> n_kind (node_at g' j) \<notin> sr_kinds)
     \<and> (\<forall>j < length (g_nodes g). n_kind (node_at g' j) = n_kind (node_at g j))"

lemma sr_moved_refl: "sr_moved F sel g g 0"
  by (simp add: sr_moved_def int_simulates_refl)

lemma sr_moved_trans: "sr_moved F sel g1 g2 b \<Longrightarrow> sr_moved F sel g2 g3 c \<Longrightarrow> sr_moved F sel g1 g3 (b + c)"
proof -
  assume a: "sr_moved F sel g1 g2 b" "sr_moved F sel g2 g3 c"
  have "n_kind (node_at g3 j) \<notin> sr_kinds" if "length (g_nodes g1) \<le> j" "j < length (g_nodes g3)" for j
    using a that unfolding sr_moved_def by (metis not_le)
  then show "sr_moved F sel g1 g3 (b + c)"
    using a int_simulates_trans [of F sel g1 g2 g3] unfolding sr_moved_def by auto
qed

lemma sr_step_ok:
  assumes inv: "sr_inv rk g" and room: "length (g_nodes g) + 2 \<le> kInvalidNodeId" and i: "i < length (g_nodes g)"
  shows "\<exists>rk'. sr_inv rk' (fst (sr_step i g)) \<and> sr_moved F sel g (fst (sr_step i g)) (if snd (sr_step i g) then 1 else 0)"
proof -
  let ?nd = "node_at g i" and ?k = "n_kind (node_at g i)"
  show ?thesis
  proof (cases "live_at g i \<and> ?k \<in> sr_kinds")
    case False
    then have "fst (sr_step i g) = g \<and> \<not> snd (sr_step i g)"
      using i sr_new_node_other [of ?k] by (auto simp: sr_step_def Let_def live_at_def)
    with inv sr_moved_refl [of F sel g] show ?thesis by auto
  next
    case True
    then have live: "live_at g i" and k: "?k \<in> set binop_kinds" by (auto simp: sr_kinds_def binop_kinds_def)
    have ar: "arith_ok g" using inv by (simp add: sr_inv_def)
    then obtain l r where ins: "n_inputs ?nd = [l, r]" "l < length (g_nodes g)" "r < length (g_nodes g)"
      using live k unfolding arith_ok_def by blast
    have pure: "node_is_pure ?nd" using ar live k by (auto simp: arith_ok_def may_const_def)
    have site: "sr_site rk g i ?k l r" using inv room live k ins by (simp add: sr_site_def)
    have sz: "g_size g = length (g_nodes g)" using room by (simp add: g_size_def kInvalidNodeId_def)
    obtain new g1 where n: "sr_new_node ?k (n_type ?nd) l r g = (new, g1)" by fastforce
    have step: "sr_step i g = (if new \<noteq> kInvalidNodeId then (set_dead i (replace_uses i new g1), True) else (g1, False))"
      using live pure ins sz room n by (simp add: sr_step_def Let_def live_at_def data_ins_def)
    from sr_new_node_ok [OF site, of F sel "n_type ?nd"] n have "sr_new_ok F sel rk g i (new, g1)" by simp
    then consider (none) "new = kInvalidNodeId" "g1 = g"
      | (some) rk1 where "sr_grown rk g rk1 g1" "live_at g1 new" "new \<noteq> i" "\<not> is_merge g1 new" "rk1 new \<le> rk i"
        "\<forall>v. int_exec F sel g v \<longrightarrow> (\<exists>v1. int_exec F sel g1 v1 \<and>
           (\<forall>t j. j < length (g_nodes g) \<longrightarrow> v1 t j = v t j) \<and> (\<forall>t. v1 t new = v t i))"
      by (auto simp: sr_new_ok_def)
    then show ?thesis
    proof cases
      case none
      with inv step sr_moved_refl [of F sel g] show ?thesis by auto
    next
      case some
      let ?g = "set_dead i (replace_uses i new g1)"
      have g1: "sr_inv rk1 g1" "rk1 i = rk i" "node_at g1 i = ?nd" "live_at g1 i"
        using some(1) i live by (auto simp: sr_grown_def live_at_def)
      have nm: "\<not> is_merge g1 i" using g1(3) True by (auto simp: is_merge_def sr_kinds_def)
      have inv': "sr_inv rk1 ?g"
        by (rule redirect_sr_inv [OF g1(1,4) some(2,3) nm some(4)]) (use some(5) g1(2) in simp)
      have "new \<noteq> kInvalidNodeId"
        using some(2) sr_inv_wf [OF g1(1)] by (auto simp: live_at_def graph_wf_def)
      then have st: "sr_step i g = (?g, True)" by (simp add: step)
      have rn: "length (g_nodes ?g) = length (g_nodes g1)"
        "\<And>j. j < length (g_nodes g1) \<Longrightarrow> n_kind (node_at ?g j) = n_kind (node_at g1 j)"
        using redirect_nodes [OF sr_inv_wf [OF g1(1)], of i new] g1(4) some(2) by (auto simp: live_at_def id_ok_def)
      have "int_simulates F sel g ?g"
        unfolding int_simulates_def
      proof (intro allI impI)
        fix v assume "int_exec F sel g v"
        with some(6) obtain v1 where v1: "int_exec F sel g1 v1"
          "\<forall>t j. j < length (g_nodes g) \<longrightarrow> v1 t j = v t j" "\<forall>t. v1 t new = v t i" by blast
        have "int_exec F sel ?g v1"
          by (rule redirect_int_exec [OF g1(1,4) some(2) nm v1(1)]) (use v1(2,3) i in simp)
        with v1(2) show "\<exists>v'. int_exec F sel ?g v' \<and> (\<forall>t j. j < length (g_nodes g) \<longrightarrow> v' t j = v t j)" by blast
      qed
      then have "sr_moved F sel g ?g 1"
        using some(1) rn unfolding sr_moved_def sr_grown_def by (auto simp: sr_kinds_def)
      with inv' st show ?thesis by auto
    qed
  qed
qed

lemma sr_loop_tail:
  assumes "length (g_nodes g) < kInvalidNodeId" "\<forall>j. i \<le> j \<longrightarrow> j < length (g_nodes g) \<longrightarrow> n_kind (node_at g j) \<notin> sr_kinds"
  shows "sr_loop i g r = Some (g, r)"
  using assms(2)
proof (induction "length (g_nodes g) - i" arbitrary: i)
  case 0
  then show ?case using assms(1) by (simp add: sr_loop.simps g_size_def kInvalidNodeId_def)
next
  case (Suc x)
  have "sr_step i g = (g, False)"
    using Suc sr_new_node_other [of "n_kind (node_at g i)"] by (auto simp: sr_step_def Let_def)
  moreover have "i < g_size g" "u32 (i + 1) = i + 1" using Suc.hyps(2) assms(1) by (auto simp: g_size_def kInvalidNodeId_def)
  moreover have "sr_loop (i + 1) g r = Some (g, r)" using Suc by auto
  ultimately show ?case by (subst sr_loop.simps) simp
qed

lemma sr_loop_ok:
  assumes "sr_inv rk h" "i \<le> n" "n \<le> length (g_nodes h)" "length (g_nodes h) + 2 * (n - i) < kInvalidNodeId"
    and "\<forall>j. n \<le> j \<longrightarrow> j < length (g_nodes h) \<longrightarrow> n_kind (node_at h j) \<notin> sr_kinds"
  shows "\<exists>g' b. sr_loop i h r = Some (g', r + b) \<and> pass_ok g' \<and> sr_moved F sel h g' b"
  using assms
proof (induction "n - i" arbitrary: i h r rk)
  case 0
  then have "sr_loop i h r = Some (h, r + 0)" by (simp add: sr_loop_tail)
  with 0 sr_moved_refl [of F sel h] show ?case by (auto simp: sr_inv_def)
next
  case (Suc x)
  let ?h = "fst (sr_step i h)" and ?b = "if snd (sr_step i h) then 1 else 0 :: nat"
  have i: "i < length (g_nodes h)" "length (g_nodes h) + 2 \<le> kInvalidNodeId" using Suc.prems(3,4) Suc.hyps(2) by auto
  from sr_step_ok [OF Suc.prems(1) i(2,1), of F sel] obtain rk' where s: "sr_inv rk' ?h" "sr_moved F sel h ?h ?b" by blast
  have len: "length (g_nodes h) \<le> length (g_nodes ?h)" "length (g_nodes ?h) \<le> length (g_nodes h) + 2 * ?b"
    and new: "\<And>j. length (g_nodes h) \<le> j \<Longrightarrow> j < length (g_nodes ?h) \<Longrightarrow> n_kind (node_at ?h j) \<notin> sr_kinds"
    and old: "\<And>j. j < length (g_nodes h) \<Longrightarrow> n_kind (node_at ?h j) = n_kind (node_at h j)"
    using s(2) unfolding sr_moved_def by blast+
  have b: "?b \<le> 1" by simp
  have "x = n - (i + 1)" "i + 1 \<le> n" using Suc.hyps(2) by auto
  moreover have "length (g_nodes ?h) + 2 * (n - (i + 1)) < kInvalidNodeId"
    using len(2) b Suc.prems(4) Suc.hyps(2) by linarith
  moreover have "\<forall>j. n \<le> j \<longrightarrow> j < length (g_nodes ?h) \<longrightarrow> n_kind (node_at ?h j) \<notin> sr_kinds"
    using new old Suc.prems(5) by (metis not_le)
  ultimately obtain g' c where g': "sr_loop (i + 1) ?h (r + ?b) = Some (g', r + ?b + c)" "pass_ok g'" "sr_moved F sel ?h g' c"
    using Suc.hyps(1) [of "i + 1" rk' ?h "r + ?b"] s(1) Suc.prems(3) len(1) by auto
  have "sr_loop i h r = sr_loop (i + 1) ?h (r + ?b)"
    using i by (subst sr_loop.simps) (simp add: g_size_def kInvalidNodeId_def)
  with g' sr_moved_trans [OF s(2) g'(3)] show ?case by (metis add.assoc)
qed

text \<open>
  C6. Strength reduction on a verified graph whose arithmetic nodes are acyclic with two
  existing operands: the loop over the growing node vector ends, the result passes the
  verifier, every integer execution of the graph is an execution of the result with the
  same value at every node the graph had, and each replacement appends at most two nodes.
\<close>

theorem strength_reduction_correct:
  assumes "pass_ok g" "arith_ok g" "ranked rk g" "3 * length (g_nodes g) < kInvalidNodeId"
  shows "\<exists>g' r. sr_run g = Some (g', r) \<and> pass_ok g' \<and> int_simulates F sel g g'
    \<and> length (g_nodes g') \<le> length (g_nodes g) + 2 * r"
  using sr_loop_ok [of rk g 0 "length (g_nodes g)" 0 F sel] assms
  by (auto simp: sr_inv_def sr_run_def sr_moved_def)

definition mul_edits :: "graph_edit list" where
  "mul_edits = [MakeNode NK_Parameter [] 3 0, MakeNode NK_Constant [] 3 8, MakeNode NK_Mul [1, 2] 3 0,
     MakeNode NK_Return [0, 0, 3] 0 0]"

theorem strength_reduction_correct_witness:
  "\<exists>g' r. sr_run (build mul_edits) = Some (g', r) \<and> pass_ok g' \<and>
     int_simulates (\<lambda>k ty p xs. VOpaque (0 :: nat)) (\<lambda>t r. (t, 0)) (build mul_edits) g'"
proof -
  have ok: "pass_ok (build mul_edits)" by (rule build_pass_ok) code_simp
  have ar: "arith_ok (build mul_edits)" and len: "length (g_nodes (build mul_edits)) = 5" by code_simp+
  have "all_live (build mul_edits) (\<lambda>i. n_kind (node_at (build mul_edits) i) \<in> set binop_kinds \<longrightarrow>
      list_all (\<lambda>s. s < i \<and> \<not> is_merge (build mul_edits) s) (n_inputs (node_at (build mul_edits) i)))" by code_simp
  then have "ranked (\<lambda>i. i) (build mul_edits)" by (auto simp: ranked_def all_live_iff list_all_iff)
  from strength_reduction_correct [OF ok ar this] len show ?thesis by (fastforce simp: kInvalidNodeId_def)
qed

end
