(* ===== verification/Edce.thy ===== *)
theory Edce
  imports Valuations BitVectors
begin

section \<open>Effect-driven dead code elimination\<close>

text \<open>
  \<open>compiler/passes/src/mid/EDCE.cpp\<close>: mark backwards from the crowded, return and stop
  nodes, then sweep. The marked set is a \<open>BitVector\<close>, whose operations may only be called
  inside its size (\<open>None\<close> is a violated \<open>[[assume]]\<close>).
\<close>

definition edce_root :: "node \<Rightarrow> bool" where
  "edce_root nd \<longleftrightarrow> node_is_crowded nd \<or> n_kind nd = NK_Return \<or> n_kind nd = NK_Stop"

fun edce_roots :: "graph \<Rightarrow> node_id list \<Rightarrow> node_id list \<Rightarrow> bit_vector \<Rightarrow> (node_id list \<times> bit_vector) option" where
  "edce_roots g [] wl live = Some (wl, live)"
| "edce_roots g (i # is) wl live =
     (if node_is_dead (node_at g i) then edce_roots g is wl live
      else if edce_root (node_at g i) then
        Option.bind (bv_set i live) (edce_roots g is (wl @ [i]))
      else edce_roots g is wl live)"

text \<open>The inputs the marking loop follows: the three \<open>continue\<close> guards.\<close>

definition edce_succs :: "graph \<Rightarrow> node_id \<Rightarrow> node_id list" where
  "edce_succs g i = filter (\<lambda>s. s \<noteq> kInvalidNodeId \<and> s < g_size g \<and> \<not> node_is_dead (node_at g s))
     (n_inputs (node_at g i))"

fun edce_sweep :: "bit_vector \<Rightarrow> node_id list \<Rightarrow> graph \<Rightarrow> nat \<Rightarrow> (graph \<times> nat) option" where
  "edce_sweep live [] g removed = Some (g, removed)"
| "edce_sweep live (i # is) g removed =
     (if i = kStartNodeId \<or> node_is_dead (node_at g i) then edce_sweep live is g removed
      else case bv_test live i of
             None \<Rightarrow> None
           | Some True \<Rightarrow> edce_sweep live is (update_node i (node_set_flag IsLive) g) removed
           | Some False \<Rightarrow> edce_sweep live is (update_node i (node_set_flag IsDead) g) (removed + 1))"

definition edce_run :: "graph \<Rightarrow> (graph \<times> nat) option" where
  "edce_run g =
     (let n = g_size g in
      Option.bind (edce_roots g [0..<n] [] (bv_new n)) (\<lambda>(wl, live).
      Option.bind (mark_reach bv_set bv_test (edce_succs g) wl live) (\<lambda>live.
      edce_sweep live [0..<n] g 0)))"

subsection \<open>The marked set\<close>

definition edce_root_set :: "graph \<Rightarrow> node_id set" where
  "edce_root_set g = {i. live_at g i \<and> edce_root (node_at g i)}"

text \<open>What must stay: everything a root reads, transitively, through live nodes.\<close>

definition edce_live :: "graph \<Rightarrow> node_id set" where
  "edce_live g = (succ_rel (edce_succs g))\<^sup>* `` edce_root_set g"

lemma edce_roots_ok:
  assumes "bv_inv live" "set is \<subseteq> {..<bv_size live}"
  shows "\<exists>live'. edce_roots g is wl live = Some (wl @ filter (\<lambda>i. \<not> node_is_dead (node_at g i) \<and> edce_root (node_at g i)) is, live')
    \<and> bv_inv live' \<and> bv_size live' = bv_size live
    \<and> bv_abs live' = bv_abs live \<union> {i \<in> set is. \<not> node_is_dead (node_at g i) \<and> edce_root (node_at g i)}"
  using assms
proof (induction "is" arbitrary: wl live)
  case (Cons i "is")
  show ?case
  proof (cases "\<not> node_is_dead (node_at g i) \<and> edce_root (node_at g i)")
    case True
    from bv.ins_ok [of live i] Cons.prems obtain l1 where l1: "bv_set i live = Some l1" "bv_inv l1"
      "bv_size l1 = bv_size live" "bv_abs l1 = insert i (bv_abs live)" by auto
    from Cons.IH [of l1 "wl @ [i]"] l1 Cons.prems True show ?thesis by auto
  next
    case False
    then have "edce_roots g (i # is) wl live = edce_roots g is wl live" by auto
    moreover have "{j \<in> set (i # is). \<not> node_is_dead (node_at g j) \<and> edce_root (node_at g j)}
        = {j \<in> set is. \<not> node_is_dead (node_at g j) \<and> edce_root (node_at g j)}" using False by auto
    moreover have "filter (\<lambda>i. \<not> node_is_dead (node_at g i) \<and> edce_root (node_at g i)) (i # is)
        = filter (\<lambda>i. \<not> node_is_dead (node_at g i) \<and> edce_root (node_at g i)) is" using False by auto
    moreover have "set is \<subseteq> {..<bv_size live}" using Cons.prems(2) by simp
    ultimately show ?thesis using Cons.IH [OF Cons.prems(1), of wl] by (simp only:)
  qed
qed simp

lemma edce_live_subset: "g_size g = length (g_nodes g) \<Longrightarrow> i \<in> edce_live g \<Longrightarrow> live_at g i"
proof -
  assume sz: "g_size g = length (g_nodes g)" and "i \<in> edce_live g"
  then obtain r where r: "r \<in> edce_root_set g" and "(r, i) \<in> (succ_rel (edce_succs g))\<^sup>*" by (auto simp: edce_live_def)
  from this(2) show "live_at g i"
  proof (cases rule: rtranclE)
    case base
    with r show ?thesis by (simp add: edce_root_set_def)
  next
    case (step j)
    with sz show ?thesis by (auto simp: succ_rel_def edce_succs_def live_at_def)
  qed
qed

lemma edce_live_input:
  assumes "pass_ok g" "g_size g = length (g_nodes g)" "i \<in> edce_live g" "s \<in> set (n_inputs (node_at g i))"
    "s < length (g_nodes g)"
  shows "s \<in> edce_live g"
proof -
  have "live_at g i" using edce_live_subset [OF assms(2,3)] .
  from pass_ok_input_live [OF assms(1) this assms(4)] assms(1,5) have "live_at g s" "s \<noteq> kInvalidNodeId"
    by (auto simp: pass_ok_def graph_wf_def)
  with assms(2,4,5) have "(i, s) \<in> succ_rel (edce_succs g)" by (simp add: succ_rel_def edce_succs_def live_at_def)
  with assms(3) show ?thesis by (auto simp: edce_live_def intro: rtrancl_into_rtrancl)
qed

lemma edce_mark:
  assumes "g_size g = length (g_nodes g)" "length (g_nodes g) \<le> 4294967232"
  shows "\<exists>wl l0 live. edce_roots g [0..<g_size g] [] (bv_new (g_size g)) = Some (wl, l0)
    \<and> mark_reach bv_set bv_test (edce_succs g) wl l0 = Some live
    \<and> bv_size live = length (g_nodes g) \<and> bv_abs live = edce_live g"
proof -
  let ?n = "length (g_nodes g)"
  note new = bv_new_spec [OF assms(2)]
  obtain l0 where l0: "edce_roots g [0..<?n] [] (bv_new ?n) =
      Some (filter (\<lambda>i. \<not> node_is_dead (node_at g i) \<and> edce_root (node_at g i)) [0..<?n], l0)"
    "bv_inv l0" "bv_size l0 = ?n"
    "bv_abs l0 = {i \<in> set [0..<?n]. \<not> node_is_dead (node_at g i) \<and> edce_root (node_at g i)}"
    using edce_roots_ok [OF new(1), of "[0..<?n]" g "[]"] new by (auto simp: atLeast0LessThan)
  have roots: "bv_abs l0 = edce_root_set g" unfolding l0(4) by (auto simp: edce_root_set_def live_at_def)
  have "\<exists>live. mark_reach bv_set bv_test (edce_succs g)
      (filter (\<lambda>i. \<not> node_is_dead (node_at g i) \<and> edce_root (node_at g i)) [0..<?n]) l0 = Some live
    \<and> bv_inv live \<and> bv_size live = bv_size l0 \<and> bv_abs live = (succ_rel (edce_succs g))\<^sup>* `` bv_abs l0"
    by (rule bv.mark_reach_ok [OF l0(2)]) (use assms(1) in \<open>auto simp: l0(3,4) edce_succs_def\<close>)
  then show ?thesis using l0(1,3) assms(1) by (auto simp: roots edce_live_def)
qed

lemma edce_sweep_ok:
  assumes "bv_size live = length (g_nodes g)" "set is \<subseteq> {..<length (g_nodes g)}" "distinct is"
  shows "\<exists>g'. edce_sweep live is g r = Some (g', r + length (filter (\<lambda>i. i \<noteq> 0 \<and> live_at g i \<and> i \<notin> bv_abs live) is))
    \<and> length (g_nodes g') = length (g_nodes g) \<and> g_outputs g' = g_outputs g
    \<and> (\<forall>j < length (g_nodes g). node_at g' j =
         (if j \<in> set is \<and> j \<noteq> 0 \<and> live_at g j
          then node_set_flag (if j \<in> bv_abs live then IsLive else IsDead) (node_at g j) else node_at g j))"
  using assms
proof (induction "is" arbitrary: g r)
  case (Cons i "is")
  have i: "i < length (g_nodes g)" "i \<notin> set is" using Cons.prems by auto
  show ?case
  proof (cases "i = 0 \<or> node_is_dead (node_at g i)")
    case True
    then have "edce_sweep live (i # is) g r = edce_sweep live is g r" by (auto simp: kStartNodeId_def)
    moreover have "\<not> (i \<noteq> 0 \<and> live_at g i)" using True by (auto simp: live_at_def)
    ultimately show ?thesis using Cons.IH [of g r] Cons.prems by (auto simp del: edce_sweep.simps)
  next
    case False
    let ?b = "if i \<in> bv_abs live then IsLive else IsDead"
    let ?g = "update_node i (node_set_flag ?b) g" and ?r = "if i \<in> bv_abs live then r else r + 1"
    have t: "bv_test live i = Some (i \<in> bv_abs live)" using i Cons.prems(1) by (simp add: bv_test_spec)
    have step: "edce_sweep live (i # is) g r = edce_sweep live is ?g ?r"
      using False t by (simp add: kStartNodeId_def)
    have at: "node_at ?g j = (if j = i then node_set_flag ?b (node_at g i) else node_at g j)" if "j < length (g_nodes g)" for j
      using that by (rule node_at_update)
    have live: "live_at ?g j = live_at g j" if "j \<noteq> i" for j
      using at [of j] that by (auto simp: live_at_def)
    have li: "live_at g i" using False i by (simp add: live_at_def)
    have filt: "filter (\<lambda>j. j \<noteq> 0 \<and> live_at ?g j \<and> j \<notin> bv_abs live) is = filter (\<lambda>j. j \<noteq> 0 \<and> live_at g j \<and> j \<notin> bv_abs live) is"
    proof (intro filter_cong refl)
      fix j assume "j \<in> set is"
      then have "j \<noteq> i" using i(2) by auto
      then show "(j \<noteq> 0 \<and> live_at ?g j \<and> j \<notin> bv_abs live) = (j \<noteq> 0 \<and> live_at g j \<and> j \<notin> bv_abs live)"
        using live by simp
    qed
    have "bv_size live = length (g_nodes ?g)" "set is \<subseteq> {..<length (g_nodes ?g)}" "distinct is"
      using Cons.prems by auto
    from Cons.IH [OF this, of ?r] obtain g' where g': "edce_sweep live is ?g ?r
        = Some (g', ?r + length (filter (\<lambda>i. i \<noteq> 0 \<and> live_at g i \<and> i \<notin> bv_abs live) is))"
      "length (g_nodes g') = length (g_nodes g)" "g_outputs g' = g_outputs g"
      "\<forall>j < length (g_nodes g). node_at g' j = (if j \<in> set is \<and> j \<noteq> 0 \<and> live_at ?g j
          then node_set_flag (if j \<in> bv_abs live then IsLive else IsDead) (node_at ?g j) else node_at ?g j)"
      unfolding filt by auto
    have "node_at g' j = (if j \<in> set (i # is) \<and> j \<noteq> 0 \<and> live_at g j
          then node_set_flag (if j \<in> bv_abs live then IsLive else IsDead) (node_at g j) else node_at g j)"
      if j: "j < length (g_nodes g)" for j
      using g'(4) j at [OF j] live [of j] i(2) False li by (cases "j = i") auto
    moreover have "?r + length (filter (\<lambda>i. i \<noteq> 0 \<and> live_at g i \<and> i \<notin> bv_abs live) is)
        = r + length (filter (\<lambda>i. i \<noteq> 0 \<and> live_at g i \<and> i \<notin> bv_abs live) (i # is))"
      using False li by auto
    ultimately show ?thesis using g'(1-3) unfolding step by auto
  qed
qed simp

subsection \<open>What the pass does\<close>

definition edce_result :: "graph \<Rightarrow> graph \<Rightarrow> bool" where
  "edce_result g g' \<longleftrightarrow> length (g_nodes g') = length (g_nodes g) \<and> g_outputs g' = g_outputs g
     \<and> (\<forall>j < length (g_nodes g). node_at g' j =
         (if j \<noteq> 0 \<and> live_at g j then node_set_flag (if j \<in> edce_live g then IsLive else IsDead) (node_at g j)
          else node_at g j))"

lemma edce_run_ok:
  assumes "g_size g = length (g_nodes g)" "length (g_nodes g) \<le> 4294967232"
  shows "\<exists>g'. edce_run g = Some (g', card {i. i \<noteq> 0 \<and> live_at g i \<and> i \<notin> edce_live g}) \<and> edce_result g g'"
proof -
  obtain wl l0 live where m: "edce_roots g [0..<g_size g] [] (bv_new (g_size g)) = Some (wl, l0)"
    "mark_reach bv_set bv_test (edce_succs g) wl l0 = Some live"
    "bv_size live = length (g_nodes g)" "bv_abs live = edce_live g"
    using edce_mark [OF assms] by blast
  let ?f = "filter (\<lambda>i. i \<noteq> 0 \<and> live_at g i \<and> i \<notin> bv_abs live) [0..<length (g_nodes g)]"
  have "set ?f = {i. i \<noteq> 0 \<and> live_at g i \<and> i \<notin> edce_live g}" by (auto simp: m(4) live_at_def)
  moreover have "card (set ?f) = length ?f" by (rule distinct_card) simp
  ultimately have "length ?f = card {i. i \<noteq> 0 \<and> live_at g i \<and> i \<notin> edce_live g}" by simp
  then show ?thesis
    using edce_sweep_ok [OF m(3), of "[0..<length (g_nodes g)]" 0] m(1,2) assms(1)
    by (auto simp: edce_run_def edce_result_def m(4) atLeast0LessThan)
qed

lemma edce_result_live:
  assumes "edce_result g g'" "g_size g = length (g_nodes g)"
  shows "live_at g' i \<longleftrightarrow> i \<in> edce_live g \<or> (i = 0 \<and> live_at g 0)"
proof (cases "i < length (g_nodes g)")
  case True
  with assms(1) have nd: "node_at g' i = (if i \<noteq> 0 \<and> live_at g i then
      node_set_flag (if i \<in> edce_live g then IsLive else IsDead) (node_at g i) else node_at g i)"
    by (simp add: edce_result_def)
  have "i \<in> edce_live g \<Longrightarrow> live_at g i" using edce_live_subset [OF assms(2)] .
  moreover have "length (g_nodes g') = length (g_nodes g)" using assms(1) by (simp add: edce_result_def)
  ultimately show ?thesis using True nd by (auto simp: live_at_def split: if_splits)
next
  case False
  with assms edce_live_subset [OF assms(2), of i] show ?thesis by (auto simp: edce_result_def live_at_def)
qed

lemma edce_result_fields:
  assumes "edce_result g g'" "j < length (g_nodes g)"
  shows "n_kind (node_at g' j) = n_kind (node_at g j)" "n_effect (node_at g' j) = n_effect (node_at g j)"
    "n_type (node_at g' j) = n_type (node_at g j)" "n_payload (node_at g' j) = n_payload (node_at g j)"
    "n_inputs (node_at g' j) = n_inputs (node_at g j)"
    "b \<noteq> IsLive \<Longrightarrow> b \<noteq> IsDead \<Longrightarrow> node_has (node_at g' j) b = node_has (node_at g j) b"
  using assms by (auto simp: edce_result_def)

lemma edce_result_pass_ok:
  assumes ok: "pass_ok g" and sz: "g_size g = length (g_nodes g)" and start: "n_inputs (node_at g 0) = []"
    "node_is_pure (node_at g 0)" "n_kind (node_at g 0) = NK_Start"
    and res: "edce_result g g'"
  shows "pass_ok g'"
proof (rule pass_okI)
  have len: "length (g_nodes g') = length (g_nodes g)" "g_outputs g' = g_outputs g"
    using res by (auto simp: edce_result_def)
  note f = edce_result_fields [OF res]
  note live = edce_result_live [OF res sz]
  have lg: "live_at g' i \<Longrightarrow> live_at g i \<and> i < length (g_nodes g)" for i
    using live edce_live_subset [OF sz, of i] by (auto simp: live_at_def)
  show "graph_wf g'"
    using pass_okD(1) [OF ok] f(5) unfolding graph_wf_def balanced_def edges_ok_def len by simp
  show "no_dead_input g'"
    unfolding no_dead_input_def len
  proof (intro allI impI ballI)
    fix i s assume i: "live_at g' i" "s \<in> set (n_inputs (node_at g' i))" "s < length (g_nodes g)"
    have s: "s \<in> set (n_inputs (node_at g i))" using i(2) lg [OF i(1)] f(5) by simp
    have "i \<noteq> 0"
    proof
      assume "i = 0"
      with s start(1) show False by simp
    qed
    with i(1) live have "i \<in> edce_live g" by simp
    from edce_live_input [OF ok sz this s i(3)] have "live_at g' s" using live by simp
    then show "\<not> node_is_dead (node_at g' s)" by (simp add: live_at_def)
  qed
  show "effect_linked g'"
    using pass_okD(3) [OF ok] lg f(1,2,5) unfolding effect_linked_def node_is_pure_def eff_in_def by (metis (no_types, lifting))
  show "guards_framed g'"
    using pass_okD(4) [OF ok] f(6) unfolding guards_framed_def len by simp
  have "is_merge g' r = is_merge g r" for r using f(1) [of r] by (auto simp: is_merge_def len)
  then show "phis_ok g'"
    using pass_okD(5) [OF ok] lg f(1,5) unfolding phis_ok_def phi_shape_def len by (auto split: list.splits)
qed

lemma edce_result_exec:
  assumes "edce_result g g'" "g_size g = length (g_nodes g)" "exec F sel g v"
  shows "exec F sel g' v"
  unfolding exec_def
proof (intro allI impI)
  fix t i assume "live_at g' i"
  then have i: "live_at g i" "i < length (g_nodes g)"
    using edce_result_live [OF assms(1,2)] edce_live_subset [OF assms(2), of i] by (auto simp: live_at_def)
  have "node_ok F sel v t (node_at g' i) (v t i) \<longleftrightarrow> node_ok F sel v t (node_at g i) (v t i)"
    by (rule node_ok_cong) (simp_all add: edce_result_fields [OF assms(1) i(2)])
  with assms(3) i show "node_ok F sel v t (node_at g' i) (v t i)" by (simp add: exec_def)
qed

text \<open>
  C14. Exactness of dead code elimination: the pass returns on every verified graph (no bit
  outside the vector is touched); afterwards the live nodes are exactly \<open>Start\<close> and the nodes
  that some crowded, return or stop node reaches through the inputs of live nodes; the
  returned number counts the removed nodes; the graph passes the verifier and every
  execution of the graph is one of the result.
\<close>

theorem edce_correct:
  assumes "pass_ok g" "length (g_nodes g) \<le> 4294967232" "live_at g 0"
    and "n_inputs (node_at g 0) = []" "node_is_pure (node_at g 0)" "n_kind (node_at g 0) = NK_Start"
  shows "\<exists>g'. edce_run g = Some (g', card {i. live_at g i \<and> \<not> live_at g' i})
    \<and> (\<forall>i. live_at g' i \<longleftrightarrow> i = 0 \<or> i \<in> edce_live g)
    \<and> pass_ok g' \<and> (\<forall>F sel (v :: 'e valuation). exec F sel g v \<longrightarrow> exec F sel g' v)"
proof -
  have sz: "g_size g = length (g_nodes g)" using assms(2) by (simp add: g_size_def)
  obtain g' where g': "edce_run g = Some (g', card {i. i \<noteq> 0 \<and> live_at g i \<and> i \<notin> edce_live g})" "edce_result g g'"
    using edce_run_ok [OF sz assms(2)] by blast
  note live = edce_result_live [OF g'(2) sz]
  have "{i. i \<noteq> 0 \<and> live_at g i \<and> i \<notin> edce_live g} = {i. live_at g i \<and> \<not> live_at g' i}"
    using live assms(3) by auto
  then show ?thesis
    using g' live assms(3) edce_result_pass_ok [OF assms(1) sz assms(4-6) g'(2)] edce_result_exec [OF g'(2) sz] by auto
qed

definition dead_edits :: "graph_edit list" where
  "dead_edits = [MakeNode NK_Parameter [] 3 0, MakeNode NK_Constant [] 3 8, MakeNode NK_Add [1, 2] 3 0,
     MakeNode NK_Return [0, 0, 1] 0 0]"

lemma dead_edits_ok:
  "pass_ok (build dead_edits)" "length (g_nodes (build dead_edits)) = 5" "live_at (build dead_edits) 0"
  "n_inputs (node_at (build dead_edits) 0) = []" "node_is_pure (node_at (build dead_edits) 0)"
  "n_kind (node_at (build dead_edits) 0) = NK_Start"
  by (rule build_pass_ok, code_simp) code_simp+

theorem edce_correct_witness:
  "\<exists>g' r. edce_run (build dead_edits) = Some (g', r) \<and> pass_ok g'
     \<and> (\<forall>i. live_at g' i \<longleftrightarrow> i = 0 \<or> i \<in> edce_live (build dead_edits))"
  using edce_correct [OF dead_edits_ok(1) _ dead_edits_ok(3-6), where ?'e = nat] dead_edits_ok(2) by auto



end
