(* ===== verification/Gvn.thy ===== *)
theory Gvn
  imports Valuations SwissTables
begin

section \<open>Global value numbering\<close>

text \<open>
  \<open>compiler/passes/src/mid/GVN.cpp\<close>: pure nodes are keyed by kind, type, payload and the
  FNV-1a hash of their data inputs in a \<open>SwissTable\<close>; a node whose key is present is
  redirected to the first node with that key. (\<open>HashConsing.cpp\<close> uses the same key.)
\<close>

record gvn_key =
  gk_kind :: nat
  gk_pad :: nat
  gk_type :: type_id
  gk_payload :: i64
  gk_inputs_hash :: i64

definition fnv_basis :: i64 where "fnv_basis = 0xcbf29ce484222325"
definition fnv_prime :: i64 where "fnv_prime = 0x100000001b3"

definition fnv_step :: "i64 \<Rightarrow> i64 \<Rightarrow> i64" where
  "fnv_step h x = (h XOR x) * fnv_prime"

definition gvn_key_hash :: "gvn_key \<Rightarrow> i64" where
  "gvn_key_hash k =
     fnv_step (fnv_step (fnv_step (fnv_step fnv_basis (of_nat (gk_kind k))) (of_nat (gk_type k)))
       (gk_payload k)) (gk_inputs_hash k)"

definition hash_inputs :: "node_id list \<Rightarrow> i64" where
  "hash_inputs is = fold (\<lambda>i h. fnv_step h (of_nat i)) is fnv_basis"

definition hash_data_ins :: "node \<Rightarrow> i64" where
  "hash_data_ins n = hash_inputs (data_ins n)"

definition gvn_key_of :: "node \<Rightarrow> gvn_key" where
  "gvn_key_of n = \<lparr>gk_kind = node_kind_code (n_kind n), gk_pad = 0, gk_type = n_type n,
     gk_payload = n_payload n, gk_inputs_hash = hash_data_ins n\<rparr>"

text \<open>The first loop: the table, the rewrite map and the number of redundant nodes.\<close>

fun gvn_scan :: "graph \<Rightarrow> node_id list \<Rightarrow> (gvn_key, node_id) swiss \<Rightarrow> node_id list \<Rightarrow> nat
    \<Rightarrow> (node_id list \<times> nat) option" where
  "gvn_scan g [] table rewrite_map replaced = Some (rewrite_map, replaced)"
| "gvn_scan g (i # is) table rewrite_map replaced =
     (let n = node_at g i in
      if node_is_dead n \<or> \<not> node_is_pure n \<or> n_kind n = NK_Parameter then gvn_scan g is table rewrite_map replaced
      else case st_get gvn_key_hash table (gvn_key_of n) of
             Some existing \<Rightarrow> gvn_scan g is table (rewrite_map[i := existing]) (replaced + 1)
           | None \<Rightarrow> (case st_insert gvn_key_hash (gvn_key_of n) i table of
                        None \<Rightarrow> None
                      | Some (_, table') \<Rightarrow> gvn_scan g is table' rewrite_map replaced))"

definition gvn_target :: "node_id list \<Rightarrow> node_id \<Rightarrow> node_id option" where
  "gvn_target rm s = (if s \<noteq> kInvalidNodeId \<and> s < length rm \<and> rm ! s \<noteq> kInvalidNodeId then Some (rm ! s) else None)"

fun gvn_rewire_node :: "node_id list \<Rightarrow> node_id \<Rightarrow> nat list \<Rightarrow> graph \<Rightarrow> graph option" where
  "gvn_rewire_node rm i [] g = Some g"
| "gvn_rewire_node rm i (k # ks) g =
     (case gvn_target rm (n_inputs (node_at g i) ! k) of
        None \<Rightarrow> gvn_rewire_node rm i ks g
      | Some new \<Rightarrow> Option.bind (set_input i k new g) (gvn_rewire_node rm i ks))"

fun gvn_rewire :: "node_id list \<Rightarrow> node_id list \<Rightarrow> graph \<Rightarrow> graph option" where
  "gvn_rewire rm [] g = Some g"
| "gvn_rewire rm (i # is) g =
     (if node_is_dead (node_at g i) then gvn_rewire rm is g
      else Option.bind (gvn_rewire_node rm i [0..<length (n_inputs (node_at g i))] g) (gvn_rewire rm is))"

fun gvn_kill :: "node_id list \<Rightarrow> node_id list \<Rightarrow> graph \<Rightarrow> graph" where
  "gvn_kill rm [] g = g"
| "gvn_kill rm (i # is) g = gvn_kill rm is (if rm ! i \<noteq> kInvalidNodeId then mark_dead i g else g)"

definition gvn_run :: "graph \<Rightarrow> (graph \<times> nat) option" where
  "gvn_run g =
     (let n = g_size g in
      Option.bind (st_reserve gvn_key_hash n st_new) (\<lambda>table.
      Option.bind (gvn_scan g [0..<n] table (replicate n kInvalidNodeId) 0) (\<lambda>(rm, replaced).
      if replaced = 0 then Some (g, 0)
      else map_option (\<lambda>g'. (gvn_kill rm [0..<n] g', replaced)) (gvn_rewire rm [0..<n] g))))"

subsection \<open>The scan\<close>

definition gvn_eligible :: "graph \<Rightarrow> node_id \<Rightarrow> bool" where
  "gvn_eligible g i \<longleftrightarrow> live_at g i \<and> node_is_pure (node_at g i) \<and> n_kind (node_at g i) \<noteq> NK_Parameter"

abbreviation gvn_key_at :: "graph \<Rightarrow> node_id \<Rightarrow> gvn_key" where
  "gvn_key_at g i \<equiv> gvn_key_of (node_at g i)"

text \<open>The first node with the key of node \<open>i\<close>.\<close>

definition gvn_leader :: "graph \<Rightarrow> node_id \<Rightarrow> node_id" where
  "gvn_leader g i = (LEAST j. gvn_eligible g j \<and> gvn_key_at g j = gvn_key_at g i)"

lemma gvn_leader:
  assumes "gvn_eligible g i"
  shows "gvn_eligible g (gvn_leader g i)" "gvn_key_at g (gvn_leader g i) = gvn_key_at g i" "gvn_leader g i \<le> i"
    and "gvn_leader g (gvn_leader g i) = gvn_leader g i"
proof -
  let ?P = "\<lambda>j. gvn_eligible g j \<and> gvn_key_at g j = gvn_key_at g i"
  have "?P (gvn_leader g i)" unfolding gvn_leader_def by (rule LeastI [of ?P i]) (use assms in simp)
  then show k: "gvn_eligible g (gvn_leader g i)" "gvn_key_at g (gvn_leader g i) = gvn_key_at g i" by auto
  show "gvn_leader g i \<le> i" unfolding gvn_leader_def by (rule Least_le) (use assms in simp)
  show "gvn_leader g (gvn_leader g i) = gvn_leader g i"
    unfolding gvn_leader_def [of g "gvn_leader g i"] k(2) by (simp add: gvn_leader_def)
qed

lemma gvn_leader_eq: "gvn_key_at g i = gvn_key_at g j \<Longrightarrow> gvn_leader g i = gvn_leader g j"
  by (simp add: gvn_leader_def)

definition gvn_seen :: "graph \<Rightarrow> nat \<Rightarrow> gvn_key \<Rightarrow> node_id option" where
  "gvn_seen g m k = (if \<exists>j < m. gvn_eligible g j \<and> gvn_key_at g j = k
     then Some (LEAST j. gvn_eligible g j \<and> gvn_key_at g j = k) else None)"

definition gvn_map :: "graph \<Rightarrow> nat \<Rightarrow> node_id list" where
  "gvn_map g m = map (\<lambda>i. if i < m \<and> gvn_eligible g i \<and> gvn_leader g i \<noteq> i then gvn_leader g i else kInvalidNodeId)
     [0..<length (g_nodes g)]"

lemma gvn_seen_skip: "\<not> gvn_eligible g m \<Longrightarrow> gvn_seen g (Suc m) = gvn_seen g m"
  by (auto simp: gvn_seen_def fun_eq_iff less_Suc_eq)

lemma gvn_map_skip: "\<not> gvn_eligible g m \<or> gvn_leader g m = m \<Longrightarrow> gvn_map g (Suc m) = gvn_map g m"
  by (auto simp: gvn_map_def less_Suc_eq)

lemma gvn_seen_leader:
  assumes "gvn_eligible g m"
  shows "gvn_seen g m (gvn_key_at g m) = (if gvn_leader g m = m then None else Some (gvn_leader g m))"
proof (cases "gvn_leader g m = m")
  case True
  have "\<not> (\<exists>j < m. gvn_eligible g j \<and> gvn_key_at g j = gvn_key_at g m)"
  proof
    assume "\<exists>j < m. gvn_eligible g j \<and> gvn_key_at g j = gvn_key_at g m"
    then obtain j where j: "j < m" "gvn_eligible g j" "gvn_key_at g j = gvn_key_at g m" by blast
    with gvn_leader(3) [OF j(2)] gvn_leader_eq [OF j(3)] True show False by simp
  qed
  with True show ?thesis by (simp add: gvn_seen_def)
next
  case False
  with gvn_leader [OF assms] have "\<exists>j < m. gvn_eligible g j \<and> gvn_key_at g j = gvn_key_at g m"
    by (intro exI [of _ "gvn_leader g m"]) auto
  with False show ?thesis by (simp add: gvn_seen_def gvn_leader_def)
qed

lemma gvn_seen_insert:
  assumes "gvn_eligible g m" "gvn_leader g m = m"
  shows "gvn_seen g (Suc m) = (gvn_seen g m)(gvn_key_at g m \<mapsto> m)"
proof
  fix k
  show "gvn_seen g (Suc m) k = ((gvn_seen g m)(gvn_key_at g m \<mapsto> m)) k"
  proof (cases "k = gvn_key_at g m")
    case True
    then have "gvn_seen g (Suc m) k = Some (gvn_leader g m)"
      using assms(1) by (auto simp: gvn_seen_def gvn_leader_def)
    with True assms(2) show ?thesis by simp
  next
    case False
    then show ?thesis by (auto simp: gvn_seen_def less_Suc_eq)
  qed
qed

lemma gvn_seen_again:
  assumes "gvn_eligible g m" "gvn_leader g m \<noteq> m"
  shows "gvn_seen g (Suc m) = gvn_seen g m"
proof -
  have "\<exists>j < m. gvn_eligible g j \<and> gvn_key_at g j = gvn_key_at g m"
    using gvn_leader [OF assms(1)] assms(2) by (intro exI [of _ "gvn_leader g m"]) auto
  then show ?thesis by (auto simp: gvn_seen_def fun_eq_iff less_Suc_eq)
qed

lemma gvn_scan_ok:
  assumes "st_ok gvn_key_hash table" "st_get gvn_key_hash table = gvn_seen g m"
    and "m \<le> length (g_nodes g)"
  shows "gvn_scan g [m..<length (g_nodes g)] table (gvn_map g m) r
    = Some (gvn_map g (length (g_nodes g)),
        r + length (filter (\<lambda>i. gvn_eligible g i \<and> gvn_leader g i \<noteq> i) [m..<length (g_nodes g)]))"
  using assms
proof (induction "length (g_nodes g) - m" arbitrary: m table r)
  case 0
  then show ?case by simp
next
  case (Suc x)
  let ?n = "length (g_nodes g)"
  have m: "m < ?n" using Suc.hyps(2) by simp
  have up: "[m..<?n] = m # [Suc m..<?n]" using m by (simp add: upt_conv_Cons)
  note IH = Suc.hyps(1) [of "Suc m"]
  have x: "x = ?n - Suc m" "Suc m \<le> ?n" using Suc.hyps(2) by auto
  show ?case
  proof (cases "gvn_eligible g m")
    case False
    then have "gvn_scan g (m # [Suc m..<?n]) table (gvn_map g m) r
        = gvn_scan g [Suc m..<?n] table (gvn_map g (Suc m)) r"
      using m gvn_map_skip [of g m] by (auto simp: gvn_eligible_def live_at_def Let_def)
    then show ?thesis unfolding up
      using IH [OF x(1) Suc.prems(1) _ x(2)] Suc.prems(2) gvn_seen_skip [OF False] False by simp
  next
    case True
    then have e: "\<not> node_is_dead (node_at g m)" "node_is_pure (node_at g m)" "n_kind (node_at g m) \<noteq> NK_Parameter"
      by (auto simp: gvn_eligible_def live_at_def)
    show ?thesis
    proof (cases "gvn_leader g m = m")
      case leader: True
      then have none: "st_get gvn_key_hash table (gvn_key_at g m) = None"
        using gvn_seen_leader [OF True] Suc.prems(2) by simp
      from sw.put_ok [OF Suc.prems(1), of "gvn_key_at g m" m] obtain t' b where
        t': "st_insert gvn_key_hash (gvn_key_at g m) m table = Some (b, t')" "st_ok gvn_key_hash t'"
          "st_get gvn_key_hash t' = (st_get gvn_key_hash table)(gvn_key_at g m \<mapsto> m)" by auto
      have "gvn_scan g (m # [Suc m..<?n]) table (gvn_map g m) r
          = gvn_scan g [Suc m..<?n] t' (gvn_map g (Suc m)) r"
        using e none t'(1) gvn_map_skip [of g m] leader by (simp add: Let_def)
      then show ?thesis unfolding up
        using IH [OF x(1) t'(2) _ x(2)] t'(3) Suc.prems(2) gvn_seen_insert [OF True leader] leader by simp
    next
      case dup: False
      then have some: "st_get gvn_key_hash table (gvn_key_at g m) = Some (gvn_leader g m)"
        using gvn_seen_leader [OF True] Suc.prems(2) by simp
      have "(gvn_map g m)[m := gvn_leader g m] = gvn_map g (Suc m)"
        using m True dup by (intro nth_equalityI) (auto simp: gvn_map_def nth_list_update less_Suc_eq)
      then have "gvn_scan g (m # [Suc m..<?n]) table (gvn_map g m) r
          = gvn_scan g [Suc m..<?n] table (gvn_map g (Suc m)) (r + 1)"
        using e some by (simp add: Let_def)
      then show ?thesis unfolding up
        using IH [OF x(1) Suc.prems(1) _ x(2)] Suc.prems(2) gvn_seen_again [OF True dup] True dup by simp
    qed
  qed
qed

subsection \<open>Rewiring\<close>

definition gvn_sub :: "node_id list \<Rightarrow> node_id \<Rightarrow> node_id" where
  "gvn_sub rm s = (case gvn_target rm s of None \<Rightarrow> s | Some t \<Rightarrow> t)"

lemma set_input_node:
  assumes "graph_wf g" "i < length (g_nodes g)" "k < length (n_inputs (node_at g i))" "id_ok g new"
  shows "\<exists>g'. set_input i k new g = Some g' \<and> graph_wf g' \<and> length (g_nodes g') = length (g_nodes g)
    \<and> (\<forall>j < length (g_nodes g). node_at g' j =
        (if j = i then (node_at g i)\<lparr>n_inputs := (n_inputs (node_at g i))[k := new]\<rparr> else node_at g j))"
proof -
  have "\<exists>g'. set_input i k new g = Some g' \<and> length (g_nodes g') = length (g_nodes g)
    \<and> (\<forall>j < length (g_nodes g). node_at g' j =
        (if j = i then (node_at g i)\<lparr>n_inputs := (n_inputs (node_at g i))[k := new]\<rparr> else node_at g j))"
  proof (cases "n_inputs (node_at g i) ! k = new")
    case True
    then have "(n_inputs (node_at g i))[k := new] = n_inputs (node_at g i)" by (metis list_update_id)
    then have "(node_at g i)\<lparr>n_inputs := (n_inputs (node_at g i))[k := new]\<rparr> = node_at g i" by simp
    with True assms(3) show ?thesis by (auto simp: set_input_def Let_def)
  next
    case False
    with assms(2,3) show ?thesis by (auto simp: set_input_def Let_def node_at_update)
  qed
  with set_input_wf [OF assms(1,2,4)] show ?thesis by blast
qed

definition gvn_targets_ok :: "node_id list \<Rightarrow> graph \<Rightarrow> bool" where
  "gvn_targets_ok rm g \<longleftrightarrow> (\<forall>s t. gvn_target rm s = Some t \<longrightarrow> id_ok g t)"

lemma gvn_targets_ok_cong: "length (g_nodes g') = length (g_nodes g) \<Longrightarrow> gvn_targets_ok rm g' = gvn_targets_ok rm g"
  by (simp add: gvn_targets_ok_def id_ok_def)

lemma gvn_rewire_node_ok:
  assumes "graph_wf g" "i < length (g_nodes g)" "gvn_targets_ok rm g"
    and "n_inputs (node_at g i) = map (gvn_sub rm) (take k ins) @ drop k ins" "k \<le> length ins"
  shows "\<exists>g'. gvn_rewire_node rm i [k..<length ins] g = Some g' \<and> graph_wf g'
    \<and> length (g_nodes g') = length (g_nodes g)
    \<and> (\<forall>j < length (g_nodes g). node_at g' j =
        (if j = i then (node_at g i)\<lparr>n_inputs := map (gvn_sub rm) ins\<rparr> else node_at g j))"
  using assms
proof (induction "length ins - k" arbitrary: k g)
  case 0
  then have "n_inputs (node_at g i) = map (gvn_sub rm) ins" by simp
  then have "(node_at g i)\<lparr>n_inputs := map (gvn_sub rm) ins\<rparr> = node_at g i" by (metis node.surjective node.update_convs(6))
  with 0 show ?case by auto
next
  case (Suc x)
  have k: "k < length ins" "x = length ins - Suc k" "Suc k \<le> length ins" using Suc.hyps(2) by auto
  then have up: "[k..<length ins] = k # [Suc k..<length ins]" by (simp add: upt_conv_Cons)
  let ?cur = "n_inputs (node_at g i)"
  have cur: "?cur ! k = ins ! k" "k < length ?cur" using Suc.prems(4) k by (auto simp: nth_append)
  have next_ins: "map (gvn_sub rm) (take k ins) @ gvn_sub rm (ins ! k) # drop (Suc k) ins
      = map (gvn_sub rm) (take (Suc k) ins) @ drop (Suc k) ins"
    using k(1) by (simp add: take_Suc_conv_app_nth)
  have dk: "drop k ins = ins ! k # drop (Suc k) ins" using k(1) by (simp add: Cons_nth_drop_Suc)
  show ?case
  proof (cases "gvn_target rm (ins ! k)")
    case None
    then have "gvn_sub rm (ins ! k) = ins ! k" by (simp add: gvn_sub_def)
    with next_ins dk Suc.prems(4) have "?cur = map (gvn_sub rm) (take (Suc k) ins) @ drop (Suc k) ins" by simp
    from Suc.hyps(1) [OF k(2) Suc.prems(1-3) this k(3)] None cur(1) show ?thesis unfolding up by simp
  next
    case (Some new)
    then have sub: "gvn_sub rm (ins ! k) = new" by (simp add: gvn_sub_def)
    have "id_ok g new" using Suc.prems(3) Some by (simp add: gvn_targets_ok_def)
    from set_input_node [OF Suc.prems(1,2) cur(2) this] obtain g1 where
      g1: "set_input i k new g = Some g1" "graph_wf g1" "length (g_nodes g1) = length (g_nodes g)"
        "\<forall>j < length (g_nodes g). node_at g1 j = (if j = i then (node_at g i)\<lparr>n_inputs := ?cur[k := new]\<rparr> else node_at g j)"
      by blast
    have "?cur[k := new] = map (gvn_sub rm) (take (Suc k) ins) @ drop (Suc k) ins"
      using k(1) dk unfolding Suc.prems(4) next_ins [symmetric] sub by (simp add: list_update_append)
    then have i1: "n_inputs (node_at g1 i) = map (gvn_sub rm) (take (Suc k) ins) @ drop (Suc k) ins"
      using g1(4) Suc.prems(2) by simp
    have ids: "gvn_targets_ok rm g1" using Suc.prems(3) gvn_targets_ok_cong [OF g1(3)] by simp
    have il: "i < length (g_nodes g1)" using Suc.prems(2) g1(3) by simp
    have nd: "(node_at g1 i)\<lparr>n_inputs := map (gvn_sub rm) ins\<rparr> = (node_at g i)\<lparr>n_inputs := map (gvn_sub rm) ins\<rparr>"
      using g1(4) Suc.prems(2) by simp
    from Suc.hyps(1) [OF k(2) g1(2) il ids i1 k(3)] obtain g' where
      g': "gvn_rewire_node rm i [Suc k..<length ins] g1 = Some g'" "graph_wf g'" "length (g_nodes g') = length (g_nodes g1)"
        "\<forall>j < length (g_nodes g1). node_at g' j =
          (if j = i then (node_at g1 i)\<lparr>n_inputs := map (gvn_sub rm) ins\<rparr> else node_at g1 j)" by blast
    have "gvn_rewire_node rm i (k # [Suc k..<length ins]) g = Some g'" using Some cur(1) g1(1) g'(1) by simp
    with g'(2-4) g1(3,4) nd show ?thesis unfolding up by (intro exI [of _ g']) auto
  qed
qed

definition gvn_renamed :: "node_id list \<Rightarrow> node \<Rightarrow> node" where
  "gvn_renamed rm n = n\<lparr>n_inputs := map (gvn_sub rm) (n_inputs n)\<rparr>"

lemma gvn_renamed_simps [simp]:
  "n_kind (gvn_renamed rm n) = n_kind n" "n_effect (gvn_renamed rm n) = n_effect n"
  "n_flags (gvn_renamed rm n) = n_flags n" "n_type (gvn_renamed rm n) = n_type n"
  "n_payload (gvn_renamed rm n) = n_payload n"
  "n_inputs (gvn_renamed rm n) = map (gvn_sub rm) (n_inputs n)"
  by (simp_all add: gvn_renamed_def)

lemma gvn_rewire_ok:
  assumes "graph_wf g" "gvn_targets_ok rm g" "set is \<subseteq> {..<length (g_nodes g)}" "distinct is"
  shows "\<exists>g'. gvn_rewire rm is g = Some g' \<and> graph_wf g' \<and> length (g_nodes g') = length (g_nodes g)
    \<and> (\<forall>j < length (g_nodes g). node_at g' j =
        (if j \<in> set is \<and> live_at g j then gvn_renamed rm (node_at g j) else node_at g j))"
  using assms
proof (induction "is" arbitrary: g)
  case (Cons i "is")
  have i: "i < length (g_nodes g)" "i \<notin> set is" using Cons.prems by auto
  show ?case
  proof (cases "node_is_dead (node_at g i)")
    case True
    with Cons i show ?thesis by (fastforce simp: live_at_def)
  next
    case False
    then have live: "live_at g i" using i by (simp add: live_at_def)
    from gvn_rewire_node_ok [OF Cons.prems(1) i(1) Cons.prems(2), where k = 0 and ins = "n_inputs (node_at g i)"]
    obtain g1 where g1: "gvn_rewire_node rm i [0..<length (n_inputs (node_at g i))] g = Some g1" "graph_wf g1"
      "length (g_nodes g1) = length (g_nodes g)"
      "\<forall>j < length (g_nodes g). node_at g1 j = (if j = i then gvn_renamed rm (node_at g i) else node_at g j)"
      by (auto simp: gvn_renamed_def)
    have ids: "gvn_targets_ok rm g1" using Cons.prems(2) gvn_targets_ok_cong [OF g1(3)] by simp
    have "set is \<subseteq> {..<length (g_nodes g1)}" "distinct is" using Cons.prems(3,4) g1(3) by auto
    from Cons.IH [OF g1(2) ids this] obtain g' where g': "gvn_rewire rm is g1 = Some g'" "graph_wf g'"
      "length (g_nodes g') = length (g_nodes g)"
      "\<forall>j < length (g_nodes g). node_at g' j =
        (if j \<in> set is \<and> live_at g1 j then gvn_renamed rm (node_at g1 j) else node_at g1 j)"
      unfolding g1(3) by blast
    have "live_at g1 j = live_at g j" for j using g1(3,4) by (cases "j = i") (auto simp: live_at_def)
    then have "\<forall>j < length (g_nodes g). node_at g' j =
        (if j \<in> set (i # is) \<and> live_at g j then gvn_renamed rm (node_at g j) else node_at g j)"
      using g'(4) g1(4) i(2) live by auto
    with g' g1(1) False show ?thesis by auto
  qed
qed simp

lemma gvn_kill_ok:
  assumes "graph_wf g" "set is \<subseteq> {..<length (g_nodes g)}"
  shows "graph_wf (gvn_kill rm is g) \<and> length (g_nodes (gvn_kill rm is g)) = length (g_nodes g)
    \<and> (\<forall>j < length (g_nodes g). node_at (gvn_kill rm is g) j = node_at g j
         \<or> node_at (gvn_kill rm is g) j = node_set_flag IsDead (node_at g j))
    \<and> (\<forall>j < length (g_nodes g). node_is_dead (node_at (gvn_kill rm is g) j) \<longleftrightarrow>
         node_is_dead (node_at g j) \<or> (j \<in> set is \<and> rm ! j \<noteq> kInvalidNodeId))"
  using assms
proof (induction "is" arbitrary: g)
  case (Cons i "is")
  let ?g = "if rm ! i \<noteq> kInvalidNodeId then mark_dead i g else g"
  have len: "length (g_nodes ?g) = length (g_nodes g)" by (simp add: mark_dead_def)
  have at: "node_at ?g j = (if j = i \<and> rm ! i \<noteq> kInvalidNodeId then node_set_flag IsDead (node_at g j) else node_at g j)"
    if "j < length (g_nodes g)" for j
    using that by (simp add: mark_dead_def node_at_update)
  have "graph_wf ?g" using Cons.prems(1) mark_dead_wf by auto
  moreover have "set is \<subseteq> {..<length (g_nodes ?g)}" using Cons.prems(2) len by auto
  ultimately have IH: "graph_wf (gvn_kill rm is ?g)" "length (g_nodes (gvn_kill rm is ?g)) = length (g_nodes g)"
    "\<forall>j < length (g_nodes g). node_at (gvn_kill rm is ?g) j = node_at ?g j
         \<or> node_at (gvn_kill rm is ?g) j = node_set_flag IsDead (node_at ?g j)"
    "\<forall>j < length (g_nodes g). node_is_dead (node_at (gvn_kill rm is ?g) j) \<longleftrightarrow>
         node_is_dead (node_at ?g j) \<or> (j \<in> set is \<and> rm ! j \<noteq> kInvalidNodeId)"
    using Cons.IH [of ?g] len by auto
  have idem: "node_set_flag IsDead (node_set_flag IsDead n) = node_set_flag IsDead n" for n
    by (simp add: node_set_flag_def flags_set_def or.assoc)
  show ?case
  proof (intro conjI allI impI)
    show "graph_wf (gvn_kill rm (i # is) g)" "length (g_nodes (gvn_kill rm (i # is) g)) = length (g_nodes g)"
      using IH(1,2) by auto
    fix j assume j: "j < length (g_nodes g)"
    show "node_at (gvn_kill rm (i # is) g) j = node_at g j \<or> node_at (gvn_kill rm (i # is) g) j = node_set_flag IsDead (node_at g j)"
      using IH(3) j at [OF j] idem by (auto split: if_splits)
    show "node_is_dead (node_at (gvn_kill rm (i # is) g) j) \<longleftrightarrow>
         node_is_dead (node_at g j) \<or> (j \<in> set (i # is) \<and> rm ! j \<noteq> kInvalidNodeId)"
      using IH(4) j at [OF j] by auto
  qed
qed simp

subsection \<open>Merging preserves executions and the verifier's invariants\<close>

definition gvn_merged :: "graph \<Rightarrow> node_id \<Rightarrow> bool" where
  "gvn_merged g i \<longleftrightarrow> gvn_eligible g i \<and> gvn_leader g i \<noteq> i"

definition gvn_rename :: "graph \<Rightarrow> node_id \<Rightarrow> node_id" where
  "gvn_rename g i = (if gvn_merged g i then gvn_leader g i else i)"

text \<open>
  What the key has to guarantee: equal keys are equal data inputs (no collision of the
  64-bit hash), and two nodes the semantics does not determine are never equal.
\<close>

definition gvn_faithful :: "graph \<Rightarrow> bool" where
  "gvn_faithful g \<longleftrightarrow> (\<forall>i j. gvn_eligible g i \<longrightarrow> gvn_eligible g j \<longrightarrow> gvn_key_at g i = gvn_key_at g j \<longrightarrow> i \<noteq> j \<longrightarrow>
     n_inputs (node_at g i) = n_inputs (node_at g j) \<and> n_kind (node_at g i) \<notin> set free_kinds)"

lemma gvn_eligible_less: "gvn_eligible g i \<Longrightarrow> i < length (g_nodes g)"
  by (simp add: gvn_eligible_def live_at_def)

lemma gvn_merged_less: "gvn_merged g i \<Longrightarrow> gvn_leader g i < i \<and> i < length (g_nodes g)"
  using gvn_leader(3) [of g i] gvn_eligible_less by (auto simp: gvn_merged_def)

lemma length_gvn_map [simp]: "length (gvn_map g m) = length (g_nodes g)"
  by (simp add: gvn_map_def)

lemma gvn_sub_map:
  assumes "length (g_nodes g) \<le> kInvalidNodeId"
  shows "gvn_sub (gvn_map g (length (g_nodes g))) s = gvn_rename g s"
    and "gvn_target (gvn_map g (length (g_nodes g))) s = Some t \<Longrightarrow> t < length (g_nodes g)"
    and "s < length (g_nodes g) \<Longrightarrow> gvn_map g (length (g_nodes g)) ! s \<noteq> kInvalidNodeId \<longleftrightarrow> gvn_merged g s"
proof -
  let ?n = "length (g_nodes g)" and ?rm = "gvn_map g (length (g_nodes g))"
  have nth: "?rm ! s = (if gvn_merged g s then gvn_leader g s else kInvalidNodeId)" if "s < ?n" for s
    using that by (simp add: gvn_map_def gvn_merged_def)
  have ne: "gvn_merged g s \<Longrightarrow> gvn_leader g s \<noteq> kInvalidNodeId" for s using gvn_merged_less [of g s] assms by auto
  have target: "gvn_target ?rm s = (if gvn_merged g s then Some (gvn_leader g s) else None)" for s
  proof (cases "s < ?n")
    case True
    with nth [OF True] ne [of s] assms show ?thesis by (auto simp: gvn_target_def)
  next
    case False
    with gvn_merged_less [of g s] show ?thesis by (auto simp: gvn_target_def)
  qed
  show "gvn_sub ?rm s = gvn_rename g s" by (simp add: gvn_sub_def target gvn_rename_def)
  show "gvn_target ?rm s = Some t \<Longrightarrow> t < ?n" using gvn_merged_less [of g s] by (auto simp: target split: if_splits)
  show "s < ?n \<Longrightarrow> ?rm ! s \<noteq> kInvalidNodeId \<longleftrightarrow> gvn_merged g s" using nth ne by auto
qed

lemma gvn_key_fields:
  "gvn_key_at g i = gvn_key_at g j \<Longrightarrow> n_kind (node_at g i) = n_kind (node_at g j) \<and>
     n_type (node_at g i) = n_type (node_at g j) \<and> n_payload (node_at g i) = n_payload (node_at g j)"
  by (simp add: gvn_key_of_def)

lemma gvn_merged_same:
  assumes "gvn_faithful g" "gvn_merged g i"
  shows "n_inputs (node_at g (gvn_leader g i)) = n_inputs (node_at g i)"
    "n_kind (node_at g (gvn_leader g i)) = n_kind (node_at g i)" "n_kind (node_at g i) \<notin> set free_kinds"
    "n_type (node_at g (gvn_leader g i)) = n_type (node_at g i)"
    "n_payload (node_at g (gvn_leader g i)) = n_payload (node_at g i)"
    "live_at g i" "live_at g (gvn_leader g i)" "\<not> gvn_merged g (gvn_leader g i)"
proof -
  have e: "gvn_eligible g i" "gvn_leader g i \<noteq> i" using assms(2) by (auto simp: gvn_merged_def)
  note l = gvn_leader [OF e(1)]
  show "n_inputs (node_at g (gvn_leader g i)) = n_inputs (node_at g i)" "n_kind (node_at g i) \<notin> set free_kinds"
    using assms(1) e l(1,2) unfolding gvn_faithful_def by metis+
  show "n_kind (node_at g (gvn_leader g i)) = n_kind (node_at g i)" "n_type (node_at g (gvn_leader g i)) = n_type (node_at g i)"
    "n_payload (node_at g (gvn_leader g i)) = n_payload (node_at g i)" using gvn_key_fields [OF l(2)] by auto
  show "live_at g i" "live_at g (gvn_leader g i)" using e l by (auto simp: gvn_eligible_def)
  show "\<not> gvn_merged g (gvn_leader g i)" using l(4) by (simp add: gvn_merged_def)
qed

lemma node_ok_det:
  assumes "node_ok F sel v t n x" "node_ok F sel v t n y" "n_kind n \<notin> set free_kinds"
    and "n_kind n = NK_Phi \<Longrightarrow> \<exists>r w vals. n_inputs n = r # w # vals"
  shows "x = y"
  using assms by (auto simp: node_ok_def split: if_splits prod.splits)

lemma gvn_rename_value:
  assumes ok: "pass_ok g" and f: "gvn_faithful g" and ex: "exec F sel g v"
  shows "v t (gvn_rename g i) = v t i"
proof (cases "gvn_merged g i")
  case True
  note s = gvn_merged_same [OF f True]
  let ?l = "gvn_leader g i"
  have "node_ok F sel v t (node_at g ?l) (v t ?l)" "node_ok F sel v t (node_at g i) (v t i)"
    using ex s(6,7) by (auto simp: exec_def)
  moreover have "node_ok F sel v t (node_at g ?l) (v t ?l) \<longleftrightarrow> node_ok F sel v t (node_at g i) (v t ?l)"
    by (rule node_ok_cong) (use s in auto)
  moreover have "\<exists>r w vals. n_inputs (node_at g i) = r # w # vals" if k: "n_kind (node_at g i) = NK_Phi"
  proof -
    have "phi_shape g i" using pass_okD(5) [OF ok] s(6) k by (simp add: phis_ok_def)
    then show ?thesis by (auto simp: phi_shape_def neq_Nil_conv split: list.splits)
  qed
  ultimately show ?thesis using node_ok_det [of F sel v t "node_at g i" "v t ?l" "v t i"] s(3) True
    by (simp add: gvn_rename_def)
qed (simp add: gvn_rename_def)

lemma node_ok_map:
  assumes "node_ok F sel v t n x" "\<And>t s. v t (f s) = v t s"
    and "n_kind n = NK_Phi \<Longrightarrow> n_inputs n = [] \<or> f (hd (n_inputs n)) = hd (n_inputs n)"
  shows "node_ok F sel v t (n\<lparr>n_inputs := map f (n_inputs n)\<rparr>) x"
proof -
  have m: "map (v t) (map f xs) = map (v t) xs" for t xs by (simp add: assms(2))
  have p: "vals \<noteq> [] \<Longrightarrow> v t (map f vals ! (k mod length vals)) = v t (vals ! (k mod length vals))" for t k vals
    by (simp add: assms(2))
  show ?thesis
  proof (cases "n_kind n = NK_Phi")
    case True
    with assms(1,3) p show ?thesis by (auto simp: node_ok_def free_kinds_def split: list.splits prod.splits)
  next
    case False
    with assms(1) show ?thesis unfolding node_ok_def by (simp add: m del: map_map)
  qed
qed

text \<open>The result of a run that merges: renamed inputs on live nodes, merged nodes dead.\<close>

definition gvn_result :: "graph \<Rightarrow> graph \<Rightarrow> bool" where
  "gvn_result g g' \<longleftrightarrow> graph_wf g' \<and> length (g_nodes g') = length (g_nodes g)
     \<and> (\<forall>j. live_at g' j \<longleftrightarrow> live_at g j \<and> \<not> gvn_merged g j)
     \<and> (\<forall>j < length (g_nodes g). n_kind (node_at g' j) = n_kind (node_at g j))
     \<and> (\<forall>j < length (g_nodes g). \<forall>b. b \<noteq> IsDead \<longrightarrow> node_has (node_at g' j) b = node_has (node_at g j) b)
     \<and> (\<forall>j. live_at g' j \<longrightarrow> node_at g' j = (node_at g j)\<lparr>n_inputs := map (gvn_rename g) (n_inputs (node_at g j))\<rparr>)"

lemma gvn_rename_live:
  assumes "gvn_faithful g" "live_at g s"
  shows "live_at g (gvn_rename g s) \<and> \<not> gvn_merged g (gvn_rename g s)"
proof (cases "gvn_merged g s")
  case True
  then show ?thesis using gvn_merged_same(7,8) [OF assms(1) True] by (simp add: gvn_rename_def)
qed (use assms(2) in \<open>simp add: gvn_rename_def\<close>)

lemma gvn_rename_kind: "gvn_faithful g \<Longrightarrow> n_kind (node_at g (gvn_rename g s)) = n_kind (node_at g s)"
  using gvn_merged_same(2) by (simp add: gvn_rename_def)

lemma gvn_rename_free:
  assumes "gvn_faithful g" "n_kind (node_at g s) \<in> set free_kinds"
  shows "gvn_rename g s = s"
  using gvn_merged_same(3) [OF assms(1), of s] assms(2) by (auto simp: gvn_rename_def)

lemma gvn_phi_head:
  assumes "pass_ok g" "gvn_faithful g" "live_at g j" "n_kind (node_at g j) = NK_Phi"
  shows "\<exists>r vals. n_inputs (node_at g j) = r # vals \<and> is_merge g r \<and> gvn_rename g r = r \<and> vals \<noteq> []
    \<and> (\<forall>x \<in> set vals. x < length (g_nodes g) \<and> \<not> is_merge g x)"
proof -
  have "phi_shape g j" using pass_okD(5) [OF assms(1)] assms(3,4) by (simp add: phis_ok_def)
  then obtain r vals where r: "n_inputs (node_at g j) = r # vals" "is_merge g r" "vals \<noteq> []"
    "\<forall>x \<in> set vals. x < length (g_nodes g) \<and> \<not> is_merge g x" by (auto simp: phi_shape_def split: list.splits)
  moreover have "gvn_rename g r = r"
    using r(2) by (intro gvn_rename_free [OF assms(2)]) (auto simp: is_merge_def free_kinds_def)
  ultimately show ?thesis by blast
qed

lemma gvn_result_pass_ok:
  assumes ok: "pass_ok g" and f: "gvn_faithful g" and res: "gvn_result g g'"
  shows "pass_ok g'"
proof (rule pass_okI)
  have len: "length (g_nodes g') = length (g_nodes g)" and wf: "graph_wf g'" using res by (auto simp: gvn_result_def)
  then show "graph_wf g'" by simp
  have live: "live_at g' j \<longleftrightarrow> live_at g j \<and> \<not> gvn_merged g j" for j using res by (simp add: gvn_result_def)
  have at: "live_at g' j \<Longrightarrow> node_at g' j = (node_at g j)\<lparr>n_inputs := map (gvn_rename g) (n_inputs (node_at g j))\<rparr>" for j
    using res by (simp add: gvn_result_def)
  have mrg: "is_merge g' j = is_merge g j" for j using res by (auto simp: gvn_result_def is_merge_def)
  have bound: "length (g_nodes g) \<le> kInvalidNodeId" using ok by (simp add: pass_ok_def graph_wf_def)
  have inv: "gvn_rename g kInvalidNodeId = kInvalidNodeId"
    using gvn_merged_less [of g kInvalidNodeId] bound by (auto simp: gvn_rename_def)
  show "no_dead_input g'"
    unfolding no_dead_input_def len
  proof (intro allI impI ballI)
    fix j s assume j: "live_at g' j" and s: "s \<in> set (n_inputs (node_at g' j))" "s < length (g_nodes g)"
    from s(1) at [OF j] obtain x where x: "x \<in> set (n_inputs (node_at g j))" "s = gvn_rename g x" by auto
    have "x \<noteq> kInvalidNodeId" using s(2) x(2) inv bound by auto
    with pass_ok_input_live [OF ok _ x(1)] j live have "live_at g x" by auto
    from gvn_rename_live [OF f this] x(2) live have "live_at g' s" by simp
    then show "\<not> node_is_dead (node_at g' s)" by (simp add: live_at_def)
  qed
  show "effect_linked g'"
    unfolding effect_linked_def
  proof (intro allI impI)
    fix j assume j: "live_at g' j" "\<not> node_is_pure (node_at g' j)" "n_kind (node_at g' j) \<noteq> NK_Start"
    then have e: "eff_in (node_at g j) \<noteq> kInvalidNodeId"
      using pass_okD(3) [OF ok] live at [OF j(1)] by (auto simp: effect_linked_def node_is_pure_def)
    have "gvn_rename g s \<noteq> kInvalidNodeId" if "s \<noteq> kInvalidNodeId" for s
      using gvn_merged_less [of g s] bound that by (auto simp: gvn_rename_def)
    with e at [OF j(1)] show "eff_in (node_at g' j) \<noteq> kInvalidNodeId" by (auto simp: eff_in_def split: if_splits)
  qed
  show "guards_framed g'" using pass_okD(4) [OF ok] res unfolding guards_framed_def gvn_result_def by simp
  show "phis_ok g'"
    unfolding phis_ok_def
  proof (intro allI impI)
    fix j assume j: "live_at g' j" "n_kind (node_at g' j) = NK_Phi"
    then have "live_at g j" "n_kind (node_at g j) = NK_Phi" using live at [OF j(1)] by auto
    from gvn_phi_head [OF ok f this] obtain r vals where r: "n_inputs (node_at g j) = r # vals" "is_merge g r"
      "gvn_rename g r = r" "vals \<noteq> []" "\<forall>x \<in> set vals. x < length (g_nodes g) \<and> \<not> is_merge g x" by blast
    have "gvn_rename g x < length (g_nodes g) \<and> \<not> is_merge g (gvn_rename g x)" if "x \<in> set vals" for x
      using r(5) that gvn_rename_kind [OF f, of x] gvn_merged_less [of g x]
      by (auto simp: is_merge_def gvn_rename_def split: if_splits)
    with r at [OF j(1)] show "phi_shape g' j" by (auto simp: phi_shape_def mrg len)
  qed
qed

lemma gvn_result_exec:
  assumes ok: "pass_ok g" and f: "gvn_faithful g" and res: "gvn_result g g'" and ex: "exec F sel g v"
  shows "exec F sel g' v"
  unfolding exec_def
proof (intro allI impI)
  fix t j assume j: "live_at g' j"
  with res have lj: "live_at g j" and at: "node_at g' j = (node_at g j)\<lparr>n_inputs := map (gvn_rename g) (n_inputs (node_at g j))\<rparr>"
    by (auto simp: gvn_result_def)
  have "node_ok F sel v t (node_at g j) (v t j)" using ex lj by (simp add: exec_def)
  moreover have "n_kind (node_at g j) = NK_Phi \<Longrightarrow> n_inputs (node_at g j) = [] \<or>
      gvn_rename g (hd (n_inputs (node_at g j))) = hd (n_inputs (node_at g j))"
    using gvn_phi_head [OF ok f lj] by auto
  ultimately show "node_ok F sel v t (node_at g' j) (v t j)"
    unfolding at by (intro node_ok_map gvn_rename_value [OF ok f ex]) auto
qed

subsection \<open>The pass\<close>

lemma gvn_run_ok:
  assumes ok: "pass_ok g" and bound: "length (g_nodes g) < kInvalidNodeId"
  shows "\<exists>g'. gvn_run g = Some (g', card {i. gvn_merged g i}) \<and> gvn_result g g'"
proof -
  let ?n = "length (g_nodes g)"
  let ?rm = "gvn_map g ?n"
  have wf: "graph_wf g" using ok by (simp add: pass_ok_def)
  have sz: "g_size g = ?n" using bound by (simp add: g_size_def kInvalidNodeId_def)
  have b: "?n \<le> kInvalidNodeId" using bound by simp
  have emp: "st_ok gvn_key_hash (st_new :: (gvn_key, node_id) swiss)" "st_abs (st_new :: (gvn_key, node_id) swiss) = Map.empty"
    by (rule st_new_ok)+
  have inv: "st_inv gvn_key_hash (st_new :: (gvn_key, node_id) swiss)" "st_clean (st_new :: (gvn_key, node_id) swiss)"
    using emp(1) by (auto simp: st_ok_def)
  obtain table :: "(gvn_key, node_id) swiss" where
    t: "st_reserve gvn_key_hash ?n st_new = Some table" "st_ok gvn_key_hash table" "st_abs table = Map.empty"
    using st_reserve_spec [OF inv(1), of ?n] inv(2) emp(2) unfolding st_ok_def by (elim exE conjE) simp
  have "st_get gvn_key_hash table = gvn_seen g 0"
    using t(2,3) by (auto simp: st_get_abs st_ok_def gvn_seen_def fun_eq_iff)
  moreover have merged: "gvn_merged g = (\<lambda>i. gvn_eligible g i \<and> gvn_leader g i \<noteq> i)"
    by (simp add: fun_eq_iff gvn_merged_def)
  ultimately have scan:
    "gvn_scan g [0..<?n] table (replicate ?n kInvalidNodeId) 0
      = Some (?rm, length (filter (gvn_merged g) [0..<?n]))"
    using gvn_scan_ok [OF t(2), of g 0 0] by (simp add: gvn_map_def [of g 0] map_replicate_const merged)
  have "{i. gvn_merged g i} = set (filter (gvn_merged g) [0..<?n])" using gvn_merged_less by auto
  then have card: "length (filter (gvn_merged g) [0..<?n]) = card {i. gvn_merged g i}"
    by (metis distinct_card distinct_filter distinct_upt)
  have run: "gvn_run g = (if card {i. gvn_merged g i} = 0 then Some (g, 0)
      else map_option (\<lambda>g'. (gvn_kill ?rm [0..<?n] g', card {i. gvn_merged g i})) (gvn_rewire ?rm [0..<?n] g))"
    by (simp add: gvn_run_def sz t(1) scan card Let_def)
  show ?thesis
  proof (cases "card {i. gvn_merged g i} = 0")
    case True
    have "finite {i. gvn_merged g i}" by (rule finite_subset [of _ "{..<?n}"]) (use gvn_merged_less in auto)
    with True have none: "\<not> gvn_merged g i" for i by auto
    then have "gvn_rename g = id" by (simp add: gvn_rename_def fun_eq_iff)
    with none wf have "gvn_result g g" by (simp add: gvn_result_def)
    with True run show ?thesis by auto
  next
    case False
    note sub = gvn_sub_map [OF b]
    have targets: "gvn_targets_ok ?rm g" using sub(2) by (auto simp: gvn_targets_ok_def id_ok_def)
    from gvn_rewire_ok [OF wf targets, of "[0..<?n]"] obtain g1 where g1: "gvn_rewire ?rm [0..<?n] g = Some g1" "graph_wf g1"
      "length (g_nodes g1) = ?n"
      "\<forall>j < ?n. node_at g1 j = (if live_at g j then gvn_renamed ?rm (node_at g j) else node_at g j)"
      by (auto simp: atLeast0LessThan)
    have dead1: "node_is_dead (node_at g1 j) = node_is_dead (node_at g j)" if "j < ?n" for j
      using g1(4) that by auto
    let ?g = "gvn_kill ?rm [0..<?n] g1"
    have k: "graph_wf ?g" "length (g_nodes ?g) = ?n"
      "\<And>j. j < ?n \<Longrightarrow> node_at ?g j = node_at g1 j \<or> node_at ?g j = node_set_flag IsDead (node_at g1 j)"
      "\<And>j. j < ?n \<Longrightarrow> node_is_dead (node_at ?g j) \<longleftrightarrow> node_is_dead (node_at g1 j) \<or> gvn_merged g j"
      using gvn_kill_ok [OF g1(2), of "[0..<?n]" ?rm] g1(3) sub(3) by (auto simp: atLeast0LessThan)
    have live: "live_at ?g j \<longleftrightarrow> live_at g j \<and> \<not> gvn_merged g j" for j
      using k(2,4) dead1 by (auto simp: live_at_def)
    have "gvn_result g ?g"
      unfolding gvn_result_def
    proof (intro conjI allI impI)
      show "graph_wf ?g" "length (g_nodes ?g) = ?n" using k by auto
      show "live_at ?g j = (live_at g j \<and> \<not> gvn_merged g j)" for j by (rule live)
      fix j assume j: "j < ?n"
      show "n_kind (node_at ?g j) = n_kind (node_at g j)"
        using k(3) [OF j] g1(4) j by (auto split: if_splits)
      fix b assume "b \<noteq> IsDead"
      then show "node_has (node_at ?g j) b = node_has (node_at g j) b"
        using k(3) [OF j] g1(4) j by (auto split: if_splits)
    next
      fix j assume lj: "live_at ?g j"
      then have j: "j < ?n" "\<not> node_is_dead (node_at ?g j)" "live_at g j" using live k(2) by (auto simp: live_at_def)
      have "node_at ?g j = node_at g1 j" using k(3) [OF j(1)] j(2) by auto
      then show "node_at ?g j = (node_at g j)\<lparr>n_inputs := map (gvn_rename g) (n_inputs (node_at g j))\<rparr>"
        using g1(4) j sub(1) by (simp add: gvn_renamed_def)
    qed
    with False run g1(1) show ?thesis by auto
  qed
qed

text \<open>
  C15. Value numbering on a verified graph: if the 64-bit keys of its live pure nodes do not
  collide and no two of its start, region or loop nodes are equal, the pass returns, the
  result passes the verifier, every execution of the graph is an execution of the result,
  and the removed nodes are exactly the pure non-parameter nodes that are not the first
  with their key, as many as the returned number.
\<close>

theorem gvn_correct:
  assumes "pass_ok g" "length (g_nodes g) < kInvalidNodeId" "gvn_faithful g"
  shows "\<exists>g'. gvn_run g = Some (g', card {i. gvn_merged g i}) \<and> pass_ok g'
    \<and> (\<forall>F sel (v :: 'e valuation). exec F sel g v \<longrightarrow> exec F sel g' v)
    \<and> (\<forall>j. live_at g' j \<longleftrightarrow> live_at g j \<and> \<not> (gvn_eligible g j \<and> gvn_leader g j \<noteq> j))"
proof -
  obtain g' where g': "gvn_run g = Some (g', card {i. gvn_merged g i})" "gvn_result g g'"
    using gvn_run_ok [OF assms(1,2)] by blast
  with gvn_result_pass_ok [OF assms(1,3) g'(2)] gvn_result_exec [OF assms(1,3) g'(2)] show ?thesis
    by (auto simp: gvn_result_def gvn_merged_def)
qed

lemma gvn_faithful_code [code]:
  "gvn_faithful g = list_all (\<lambda>i. if \<not> gvn_eligible g i then True else list_all (\<lambda>j.
     if i = j then True else if \<not> gvn_eligible g j then True
     else let m = node_at g i; n = node_at g j in
       if n_kind m \<noteq> n_kind n then True else if n_payload m \<noteq> n_payload n then True
       else if n_inputs m = n_inputs n \<and> n_kind m \<notin> set free_kinds then True
       else gvn_key_of m \<noteq> gvn_key_of n) [0..<length (g_nodes g)]) [0..<length (g_nodes g)]"
  (is "_ = ?R")
proof
  assume "gvn_faithful g"
  then show ?R unfolding gvn_faithful_def list_all_iff Let_def by (simp split del: if_split) metis
next
  assume R: ?R
  show "gvn_faithful g"
    unfolding gvn_faithful_def
  proof (intro allI impI)
    fix i j assume e: "gvn_eligible g i" "gvn_eligible g j" and k: "gvn_key_at g i = gvn_key_at g j" and ne: "i \<noteq> j"
    from R e ne gvn_eligible_less [OF e(1)] gvn_eligible_less [OF e(2)] gvn_key_fields [OF k] k
    show "n_inputs (node_at g i) = n_inputs (node_at g j) \<and> n_kind (node_at g i) \<notin> set free_kinds"
      unfolding list_all_iff Let_def by (metis atLeastLessThan_iff set_upt zero_le)
  qed
qed

definition dup_edits :: "graph_edit list" where
  "dup_edits = [MakeNode NK_Parameter [] 3 0, MakeNode NK_Constant [] 3 8, MakeNode NK_Constant [] 3 8,
     MakeNode NK_Add [1, 2] 3 0, MakeNode NK_Add [1, 2] 3 0, MakeNode NK_Mul [4, 5] 3 0, MakeNode NK_Return [0, 0, 6] 0 0]"

theorem gvn_correct_witness:
  "\<exists>g' r. gvn_run (build dup_edits) = Some (g', r) \<and> pass_ok g' \<and> \<not> live_at g' 5 \<and> live_at g' 4"
proof -
  have ok: "pass_ok (build dup_edits)" by (rule build_pass_ok) code_simp
  have f: "gvn_faithful (build dup_edits)" and len: "length (g_nodes (build dup_edits)) = 8" by code_simp+
  have e: "gvn_eligible (build dup_edits) 4" "gvn_eligible (build dup_edits) 5" "live_at (build dup_edits) 4"
    "gvn_key_at (build dup_edits) 5 = gvn_key_at (build dup_edits) 4"
    "list_all (\<lambda>j. gvn_eligible (build dup_edits) j \<longrightarrow> gvn_key_at (build dup_edits) j \<noteq> gvn_key_at (build dup_edits) 4) [0..<4]"
    by code_simp+
  have "gvn_leader (build dup_edits) 4 = 4"
    unfolding gvn_leader_def using e(1,5) by (intro Least_equality) (auto simp: list_all_iff not_less [symmetric])
  moreover from this have "gvn_leader (build dup_edits) 5 = 4" using gvn_leader_eq [OF e(4)] by simp
  ultimately show ?thesis using gvn_correct [OF ok _ f, where ?'e = nat] len e(1-3) by (auto simp: kInvalidNodeId_def)
qed

subsection \<open>When the key is exact\<close>

definition fnv_prime_inv :: i64 where "fnv_prime_inv = 0xce965057aff6957b"

lemma fnv_prime_inv: "fnv_prime * fnv_prime_inv = 1"
  by (simp add: fnv_prime_def fnv_prime_inv_def)

lemma fnv_prime_cancel: "x * fnv_prime = y * fnv_prime \<longleftrightarrow> x = y"
proof
  assume "x * fnv_prime = y * fnv_prime"
  then have "(x * fnv_prime) * fnv_prime_inv = (y * fnv_prime) * fnv_prime_inv" by simp
  then show "x = y" by (simp add: mult.assoc fnv_prime_inv)
qed simp

lemma xor_left_cancel: "h XOR x = h XOR y \<longleftrightarrow> x = y" for h :: i64
proof
  assume "h XOR x = h XOR y"
  then have "h XOR (h XOR x) = h XOR (h XOR y)" by simp
  then show "x = y" by (simp add: xor.assoc [symmetric])
qed simp

lemma fnv_step_inject: "fnv_step h x = fnv_step h' y \<longleftrightarrow> h XOR x = h' XOR y"
  by (simp add: fnv_step_def fnv_prime_cancel)

lemma high_bits_close:
  fixes x y :: i64
  assumes "drop_bit 24 x = drop_bit 24 y"
  shows "\<bar>uint x - uint y\<bar> < 2 ^ 24"
proof -
  have "uint x div 16777216 = uint y div 16777216"
    using arg_cong [OF assms, of uint] by (simp add: drop_bit_eq_div uint_div_distrib)
  then have "\<bar>uint x - uint y\<bar> < 16777216"
    using div_mult_mod_eq [of "uint x" 16777216] div_mult_mod_eq [of "uint y" 16777216]
      pos_mod_bound [of 16777216 "uint x"] pos_mod_bound [of 16777216 "uint y"]
      pos_mod_sign [of 16777216 "uint x"] pos_mod_sign [of 16777216 "uint y"]
    by linarith
  then show ?thesis by simp
qed

lemma fnv_mult_close:
  fixes u w :: i64
  assumes "\<bar>uint u - uint w\<bar> < 2 ^ 24" "\<bar>uint (u * fnv_prime) - uint (w * fnv_prime)\<bar> < 2 ^ 24"
  shows "u = w"
proof -
  let ?P = "1099511628211 :: int"
  define D E where "D = uint u - uint w" and "E = uint (u * fnv_prime) - uint (w * fnv_prime)"
  have m: "uint (x * fnv_prime) = (uint x * ?P) mod 2 ^ 64" for x :: i64
    by (simp add: uint_word_ariths fnv_prime_def)
  have "E mod 2 ^ 64 = (uint u * ?P - uint w * ?P) mod 2 ^ 64" unfolding E_def m by (rule mod_diff_eq)
  then have "(D * ?P - E) mod 2 ^ 64 = (D * ?P - (uint u * ?P - uint w * ?P)) mod 2 ^ 64" by (metis mod_diff_right_eq)
  also have "D * ?P - (uint u * ?P - uint w * ?P) = 0" unfolding D_def by (simp add: algebra_simps)
  finally have "(D * ?P - E) mod 2 ^ 64 = 0" by simp
  then obtain k where k: "D * ?P - E = 2 ^ 64 * k" by (metis dvdE mod_0_imp_dvd)
  have b: "\<bar>D\<bar> \<le> 2 ^ 24 - 1" "\<bar>E\<bar> < 2 ^ 24" using assms by (auto simp: D_def E_def)
  then have "k = 0" using k by auto
  with k b have "D = 0" by auto
  then show ?thesis by (simp add: D_def word_uint_eq_iff)
qed

lemma id_high_bits: "a < 2 ^ 24 \<Longrightarrow> drop_bit 24 (of_nat a :: i64) = 0"
  by (rule word_unat_eq_iff [THEN iffD2])
    (simp add: drop_bit_eq_div unat_div_distrib unat_of_nat)

lemma id_word_inject: "a < 2 ^ 24 \<Longrightarrow> b < 2 ^ 24 \<Longrightarrow> (of_nat a :: i64) = of_nat b \<longleftrightarrow> a = b"
  by (simp add: word_of_nat_eq_iff take_bit_eq_mod)

lemma xor_id_close:
  fixes x y :: i64
  assumes "x XOR of_nat a = y XOR of_nat b" "a < 2 ^ 24" "b < 2 ^ 24"
  shows "drop_bit 24 x = drop_bit 24 y"
  using arg_cong [OF assms(1), of "drop_bit 24"] assms(2,3) by (simp add: id_high_bits)

lemma hash_inputs_exact:
  assumes "length xs = length ys" "length xs \<le> 2" "\<forall>i \<in> set xs \<union> set ys. i < 2 ^ 24"
  shows "hash_inputs xs = hash_inputs ys \<longleftrightarrow> xs = ys"
proof -
  have one: "a = b" if "fnv_step h (of_nat a) = fnv_step h (of_nat b)" "a < 2 ^ 24" "b < 2 ^ 24" for a b h
    using that by (simp add: fnv_step_inject id_word_inject xor_left_cancel)
  have two: "a = c \<and> b = d" if h: "hash_inputs [a, b] = hash_inputs [c, d]"
    and s: "a < 2 ^ 24" "b < 2 ^ 24" "c < 2 ^ 24" "d < 2 ^ 24" for a b c d
  proof -
    let ?u = "fnv_basis XOR of_nat a" and ?w = "fnv_basis XOR of_nat c"
    from h have e: "(?u * fnv_prime) XOR of_nat b = (?w * fnv_prime) XOR of_nat d"
      by (simp add: hash_inputs_def fnv_step_def fnv_prime_cancel)
    have "drop_bit 24 ?u = drop_bit 24 ?w" using s by (simp add: id_high_bits)
    from fnv_mult_close [OF high_bits_close [OF this] high_bits_close [OF xor_id_close [OF e s(2,4)]]]
    have "a = c" using s(1,3) by (simp add: id_word_inject xor_left_cancel)
    with e s(2,4) show ?thesis by (simp add: id_word_inject xor_left_cancel)
  qed
  consider "xs = []" "ys = []" | a b where "xs = [a]" "ys = [b]" | a b c d where "xs = [a, b]" "ys = [c, d]"
    using assms(1,2) by (cases xs; cases "tl xs"; cases ys; cases "tl ys") auto
  then show ?thesis
  proof cases
    case (2 a b)
    with one [of fnv_basis a b] assms(3) show ?thesis by (auto simp: hash_inputs_def)
  next
    case (3 a b c d)
    with two [of a b c d] assms(3) show ?thesis by auto
  qed simp
qed

text \<open>
  The key hash is exact on operators of at most two inputs: with fewer than 2^24 nodes,
  two input lists of the same length at most two have the same 64-bit hash only when they
  are the same list.
\<close>

theorem hash_inputs_inject:
  assumes "length xs = length ys" "length xs \<le> 2" "\<forall>i \<in> set xs \<union> set ys. i < 2 ^ 24"
  shows "hash_inputs xs = hash_inputs ys \<longleftrightarrow> xs = ys"
  using assms by (rule hash_inputs_exact)

theorem hash_inputs_inject_witness: "hash_inputs [5, 6] \<noteq> hash_inputs [6, 5]"
  using hash_inputs_inject [of "[5, 6]" "[6, 5]"] by simp


text \<open>Two calls of one pure function with different arguments whose keys collide.\<close>

definition collision_edits :: "graph_edit list" where
  "collision_edits = [MakeNode NK_Proj [0] 0 0, MakeNode NK_Proj [0] 0 1] @ replicate 8 (MakeNode NK_Parameter [] 3 0)
     @ [MakeNode NK_CallPure [1, 2, 10, 3, 3, 9, 6, 9, 5, 3, 10, 6, 8, 10, 7, 8, 8, 3, 7, 3, 8, 5, 10, 4] 3 7,
        MakeNode NK_CallPure [1, 2, 3, 3, 8, 8, 9, 5, 5, 5, 6, 4, 6, 10, 10, 4, 6, 4, 6, 10, 5, 9, 6, 3] 3 7,
        MakeNode NK_Return [1, 2, 12] 0 0]"

lemma gvn_unmerged:
  assumes "\<forall>j < i. n_kind (node_at g j) \<noteq> n_kind (node_at g i) \<or> n_payload (node_at g j) \<noteq> n_payload (node_at g i)"
  shows "\<not> gvn_merged g i"
proof
  assume m: "gvn_merged g i"
  then have e: "gvn_eligible g i" by (simp add: gvn_merged_def)
  from gvn_key_fields [OF gvn_leader(2) [OF e]] gvn_merged_less [OF m] assms show False by auto
qed

text \<open>
  C38. The key is not exact in general: there is a graph the verifier accepts with two calls of
  the same pure function on different arguments that value numbering merges: the second call
  is removed and the return that used it then returns the result of the first.
\<close>

theorem gvn_collision_merges_calls:
  "pass_ok (build collision_edits)
    \<and> data_ins (node_at (build collision_edits) 11) \<noteq> data_ins (node_at (build collision_edits) 12)
    \<and> n_inputs (node_at (build collision_edits) 13) = [1, 2, 12]
    \<and> (\<exists>g' r. gvn_run (build collision_edits) = Some (g', r) \<and> \<not> live_at g' 12
        \<and> n_inputs (node_at g' 13) = [1, 2, 11])"
proof -
  define g where "g = build collision_edits"
  have ok: "pass_ok g" unfolding g_def by (rule build_pass_ok) code_simp
  have "case run_edits collision_edits graph_new of None \<Rightarrow> False | Some g \<Rightarrow> length (g_nodes g) = 14
    \<and> n_inputs (node_at g 13) = [1, 2, 12] \<and> data_ins (node_at g 11) \<noteq> data_ins (node_at g 12)
    \<and> gvn_eligible g 11 \<and> gvn_eligible g 12 \<and> gvn_key_at g 11 = gvn_key_at g 12 \<and> live_at g 13
    \<and> list_all (\<lambda>i. list_all (\<lambda>j. n_kind (node_at g j) \<noteq> n_kind (node_at g i) \<or>
         n_payload (node_at g j) \<noteq> n_payload (node_at g i)) [0..<i]) [1, 2, 11, 13]" by code_simp
  then have c: "length (g_nodes g) = 14" "n_inputs (node_at g 13) = [1, 2, 12]" "data_ins (node_at g 11) \<noteq> data_ins (node_at g 12)"
    "gvn_eligible g 11" "gvn_eligible g 12" "gvn_key_at g 12 = gvn_key_at g 11" "live_at g 13"
    "\<And>i. i \<in> {1, 2, 11, 13} \<Longrightarrow> \<not> gvn_merged g i"
    unfolding g_def build_def
    by (auto split: option.splits simp: list_all_iff simp del: upt_Suc intro!: gvn_unmerged)
  have l: "gvn_leader g 11 = 11" "gvn_leader g 12 = 11"
    using c(4) c(8) [of 11] gvn_leader_eq [OF c(6)] by (auto simp: gvn_merged_def)
  have "gvn_rename g 12 = 11" "gvn_rename g 1 = 1" "gvn_rename g 2 = 2" "gvn_merged g 12"
    using l c(5,8) by (auto simp: gvn_rename_def gvn_merged_def)
  moreover obtain g' where g': "gvn_run g = Some (g', card {i. gvn_merged g i})" "gvn_result g g'"
    using gvn_run_ok [OF ok] c(1) by (auto simp: kInvalidNodeId_def)
  ultimately have "\<not> live_at g' 12" "n_inputs (node_at g' 13) = [1, 2, 11]"
    using c(2,7) c(8) [of 13] by (auto simp: gvn_result_def)
  with ok c(2,3) g'(1) show ?thesis unfolding g_def by blast
qed

end
