(* ===== verification/HashCons.thy ===== *)
theory HashCons
  imports Gvn
begin

section \<open>Hash-consing of new nodes\<close>

text \<open>
  \<open>compiler/ir/src/HashConsing.cpp\<close>: a table from the same key as in value numbering
  (kind, type, payload and the FNV-1a hash of the inputs) to the node made for it.
\<close>

record hash_cons =
  hc_graph :: graph
  hc_table :: "(gvn_key, node_id) swiss"

definition hc_new :: "graph \<Rightarrow> hash_cons" where
  "hc_new g = \<lparr>hc_graph = g, hc_table = st_new\<rparr>"

definition hc_key :: "node_kind \<Rightarrow> node_id list \<Rightarrow> type_id \<Rightarrow> i64 \<Rightarrow> gvn_key" where
  "hc_key k ins ty p = \<lparr>gk_kind = node_kind_code k, gk_pad = 0, gk_type = ty, gk_payload = p,
     gk_inputs_hash = hash_inputs ins\<rparr>"

definition lookup_or_insert :: "node_kind \<Rightarrow> node_id list \<Rightarrow> type_id \<Rightarrow> i64 \<Rightarrow> hash_cons
    \<Rightarrow> (node_id \<times> hash_cons) option" where
  "lookup_or_insert k ins ty p hc =
     (let key = hc_key k ins ty p in
      case st_get gvn_key_hash (hc_table hc) key of
        Some existing \<Rightarrow> Some (existing, hc)
      | None \<Rightarrow> (let (i, g) = make_node k ins ty p (hc_graph hc) in
                 map_option (\<lambda>(_, t). (i, \<lparr>hc_graph = g, hc_table = t\<rparr>))
                   (st_insert gvn_key_hash key i (hc_table hc))))"

subsection \<open>The invariant\<close>

definition node_key :: "node \<Rightarrow> gvn_key" where
  "node_key n = hc_key (n_kind n) (n_inputs n) (n_type n) (n_payload n)"

definition hc_inv :: "hash_cons \<Rightarrow> bool" where
  "hc_inv hc \<longleftrightarrow> st_ok gvn_key_hash (hc_table hc)
     \<and> (\<forall>k i. st_get gvn_key_hash (hc_table hc) k = Some i \<longrightarrow>
          i < length (g_nodes (hc_graph hc)) \<and> node_key (node_at (hc_graph hc) i) = k)"

lemma hc_new_inv: "hc_inv (hc_new g)"
  by (simp add: hc_inv_def hc_new_def sw.inv_empty sw.get_empty)

lemma make_node_shape:
  assumes "length (g_nodes g) < kInvalidNodeId"
  shows "fst (make_node k ins ty p g) = length (g_nodes g)"
    and "g_nodes (snd (make_node k ins ty p g)) = g_nodes g @ [\<lparr>n_kind = k, n_effect = effect_class_of k,
       n_flags = 0, n_type = ty, n_payload = p, n_inputs = ins\<rparr>]"
  using assms by (simp_all add: make_node_def add_node_def Let_def bump_version_def kInvalidNodeId_def)

lemma lookup_or_insert_ok:
  assumes inv: "hc_inv hc" and len: "length (g_nodes (hc_graph hc)) < kInvalidNodeId"
  shows "\<exists>i hc' new. lookup_or_insert k ins ty p hc = Some (i, hc') \<and> hc_inv hc'
    \<and> st_get gvn_key_hash (hc_table hc') = (st_get gvn_key_hash (hc_table hc))(hc_key k ins ty p \<mapsto> i)
    \<and> g_nodes (hc_graph hc') = g_nodes (hc_graph hc) @ new \<and> length new \<le> 1
    \<and> (st_get gvn_key_hash (hc_table hc) (hc_key k ins ty p) \<noteq> None \<longrightarrow> new = [] \<and> hc' = hc)"
proof (cases "st_get gvn_key_hash (hc_table hc) (hc_key k ins ty p)")
  case (Some i)
  then show ?thesis using inv
    by (intro exI [of _ i] exI [of _ hc] exI [of _ "[]"]) (auto simp: lookup_or_insert_def Let_def fun_upd_idem)
next
  case None
  let ?key = "hc_key k ins ty p" and ?m = "make_node k ins ty p (hc_graph hc)"
  let ?n = "\<lparr>n_kind = k, n_effect = effect_class_of k, n_flags = 0, n_type = ty, n_payload = p, n_inputs = ins\<rparr>"
  note m = make_node_shape [OF len, of k ins ty p]
  have "st_ok gvn_key_hash (hc_table hc)" using inv by (simp add: hc_inv_def)
  from sw.put_ok [OF this, of ?key "fst ?m"] obtain b t where
    t: "st_insert gvn_key_hash ?key (fst ?m) (hc_table hc) = Some (b, t)" "st_ok gvn_key_hash t"
      "st_get gvn_key_hash t = (st_get gvn_key_hash (hc_table hc))(?key \<mapsto> fst ?m)" by auto
  let ?hc = "\<lparr>hc_graph = snd ?m, hc_table = t\<rparr>"
  have "node_key ?n = ?key" by (simp add: node_key_def)
  then have "hc_inv ?hc"
    using inv t(2) unfolding hc_inv_def by (auto simp: t(3) m nth_append less_Suc_eq)
  moreover have "lookup_or_insert k ins ty p hc = Some (fst ?m, ?hc)"
    using None t(1) by (simp add: lookup_or_insert_def Let_def split_beta)
  ultimately show ?thesis using None t(3) m(2) by (intro exI [of _ "fst ?m"] exI [of _ ?hc] exI [of _ "[?n]"]) auto
qed

subsection \<open>Sequences of requests\<close>

type_synonym hc_request = "node_kind \<times> node_id list \<times> type_id \<times> i64"

fun hc_run :: "hc_request list \<Rightarrow> hash_cons \<Rightarrow> (node_id list \<times> hash_cons) option" where
  "hc_run [] hc = Some ([], hc)"
| "hc_run ((k, ins, ty, p) # rs) hc =
     (case lookup_or_insert k ins ty p hc of None \<Rightarrow> None
      | Some (i, hc') \<Rightarrow> map_option (\<lambda>(ids, hc''). (i # ids, hc'')) (hc_run rs hc'))"

abbreviation req_key :: "hc_request \<Rightarrow> gvn_key" where
  "req_key r \<equiv> (case r of (k, ins, ty, p) \<Rightarrow> hc_key k ins ty p)"

lemma hc_run_ok:
  assumes "hc_inv hc" "length (g_nodes (hc_graph hc)) + length rs < kInvalidNodeId"
  shows "\<exists>ids hc' new. hc_run rs hc = Some (ids, hc') \<and> hc_inv hc'
    \<and> map Some ids = map (st_get gvn_key_hash (hc_table hc') \<circ> req_key) rs
    \<and> st_get gvn_key_hash (hc_table hc) \<subseteq>\<^sub>m st_get gvn_key_hash (hc_table hc')
    \<and> g_nodes (hc_graph hc') = g_nodes (hc_graph hc) @ new"
  using assms
proof (induction rs arbitrary: hc)
  case (Cons r rs)
  obtain k ins ty p where r: "r = (k, ins, ty, p)" by (cases r)
  let ?get = "\<lambda>hc. st_get gvn_key_hash (hc_table hc)"
  have "length (g_nodes (hc_graph hc)) < kInvalidNodeId" using Cons.prems(2) by simp
  from lookup_or_insert_ok [OF Cons.prems(1) this, of k ins ty p] obtain i hc1 new1 where
    s: "lookup_or_insert k ins ty p hc = Some (i, hc1)" "hc_inv hc1" "?get hc1 = (?get hc)(hc_key k ins ty p \<mapsto> i)"
      "g_nodes (hc_graph hc1) = g_nodes (hc_graph hc) @ new1" "length new1 \<le> 1"
      "?get hc (hc_key k ins ty p) \<noteq> None \<longrightarrow> new1 = [] \<and> hc1 = hc" by blast
  have "length (g_nodes (hc_graph hc1)) + length rs < kInvalidNodeId" using Cons.prems(2) s(4,5) by simp
  from Cons.IH [OF s(2) this] obtain ids' hc' new where
    t: "hc_run rs hc1 = Some (ids', hc')" "hc_inv hc'" "map Some ids' = map (?get hc' \<circ> req_key) rs"
      "?get hc1 \<subseteq>\<^sub>m ?get hc'" "g_nodes (hc_graph hc') = g_nodes (hc_graph hc1) @ new" by blast
  have mono: "?get hc \<subseteq>\<^sub>m ?get hc1"
  proof (cases "?get hc (hc_key k ins ty p)")
    case None
    with s(3) show ?thesis by (auto simp: map_le_def)
  next
    case (Some y)
    with s(6) show ?thesis by (simp add: map_le_refl)
  qed
  have "?get hc' (req_key r) = Some i" using t(4) s(3) unfolding r by (auto simp: map_le_def dom_def)
  with s(1,4) t map_le_trans [OF mono t(4)] show ?case unfolding r by auto
qed (auto simp: map_le_refl)



end
