(* ===== verification/PassBase.thy ===== *)
theory PassBase
  imports Valuations IdSets
begin

section \<open>What the mid-level passes share\<close>

text \<open>
  Passes as functions on graphs, the invariant each must keep (the use lists stay exact),
  the loops that only set a flag on the nodes a condition picks, and the byte vector
  (\<open>std::vector<uint8_t>\<close>) the analyses use as a visited set.
\<close>

text \<open>The named input shapes of \<open>NodeShape.hpp\<close>.\<close>

definition kReturnInputs :: nat where "kReturnInputs = 3"
definition kReturnValIndex :: nat where "kReturnValIndex = 2"
definition kSelectInputs :: nat where "kSelectInputs = 3"
definition kIfInputs :: nat where "kIfInputs = 2"
definition kIfCondIndex :: nat where "kIfCondIndex = 1"
definition kPhiInputs2Branches :: nat where "kPhiInputs2Branches = 3"

lemmas shape_defs = kReturnInputs_def kReturnValIndex_def kSelectInputs_def kIfInputs_def
  kIfCondIndex_def kPhiInputs2Branches_def

definition is_call_kind :: "node_kind \<Rightarrow> bool" where
  "is_call_kind k \<longleftrightarrow> k = NK_CallPure \<or> k = NK_CallAltered \<or> k = NK_CallCrowded"

subsection \<open>Keeping the use lists exact\<close>

text \<open>
  \<open>extends g g'\<close>: the step from \<open>g\<close> to \<open>g'\<close> never removes a node from the vector, and keeps
  the graph well formed as long as node ids last.
\<close>

named_theorems extends_intros \<open>the steps that keep the use lists exact\<close>

definition extends :: "graph \<Rightarrow> graph \<Rightarrow> bool" where
  "extends g g' \<longleftrightarrow> length (g_nodes g) \<le> length (g_nodes g')
     \<and> (graph_wf g \<longrightarrow> length (g_nodes g') < kInvalidNodeId \<longrightarrow> graph_wf g')"

lemma extends_refl [extends_intros]: "extends g g"
  by (simp add: extends_def)

lemma extends_trans [trans]: "extends g1 g2 \<Longrightarrow> extends g2 g3 \<Longrightarrow> extends g1 g3"
  by (auto simp: extends_def)

lemma extends_wf: "extends g g' \<Longrightarrow> graph_wf g \<Longrightarrow> length (g_nodes g') < kInvalidNodeId \<Longrightarrow> graph_wf g'"
  by (simp add: extends_def)

lemma extends_len: "extends g g' \<Longrightarrow> length (g_nodes g) \<le> length (g_nodes g')"
  by (simp add: extends_def)

lemma wf_g_size: "graph_wf g \<Longrightarrow> g_size g = length (g_nodes g)"
  by (simp add: graph_wf_def g_size_def kInvalidNodeId_def)

lemma extends_update [extends_intros]:
  "(\<And>n. n_inputs (f n) = n_inputs n) \<Longrightarrow> extends g (update_node i f g)"
  by (simp add: extends_def update_node_wf)

lemma extends_set_flag [extends_intros]: "extends g (update_node i (node_set_flag b) g)"
  by (rule extends_update) simp

lemma extends_set_dead [extends_intros]: "extends g (set_dead i g)"
  unfolding set_dead_def by (rule extends_set_flag)

lemma extends_add_node:
  "\<forall>s \<in> set (n_inputs n). id_ok g s \<Longrightarrow> extends g (snd (add_node n g))"
  by (auto simp: extends_def intro!: add_node_wf)

lemma extends_swap:
  "u < length (g_nodes g) \<Longrightarrow> id_ok g new \<Longrightarrow> extends g (swap_input u i new g)"
  by (simp add: extends_def swap_input_wf)

lemma swap_inputs_len: "length (g_nodes (fold (\<lambda>u g. swap_input u i new g) us g)) = length (g_nodes g)"
  by (induction us arbitrary: g) simp_all

lemma replace_uses_len [simp]: "length (g_nodes (replace_uses i new g)) = length (g_nodes g)"
  unfolding replace_uses_def by (rule swap_inputs_len)

lemma extends_replace_uses:
  assumes "graph_wf g \<Longrightarrow> i < length (g_nodes g)" "graph_wf g \<Longrightarrow> id_ok g new"
  shows "extends g (replace_uses i new g)"
  using assms replace_uses_spec(1) by (auto simp: extends_def)

lemma id_ok_mono: "id_ok g s \<Longrightarrow> extends g g' \<Longrightarrow> id_ok g' s"
  by (auto simp: id_ok_def extends_def)

lemma make_constant_wf:
  "extends g (snd (make_constant_i64 c ty g))"
  "length (g_nodes g) < kInvalidNodeId \<Longrightarrow> fst (make_constant_i64 c ty g) = length (g_nodes g)"
proof -
  show "extends g (snd (make_constant_i64 c ty g))"
    unfolding make_constant_i64_def make_node_def by (rule extends_add_node) simp
qed (simp add: make_constant_i64_def make_node_def add_node_def Let_def kInvalidNodeId_def)

subsection \<open>Loops that flag nodes\<close>

text \<open>
  The loops \<open>for (id = 0; id < g.size(); ++id)\<close> of the passes whose only effect is to set a
  flag on the nodes their guards let through, and to count them.
\<close>

fun flag_where :: "(graph \<Rightarrow> node_id \<Rightarrow> bool) \<Rightarrow> node_flag \<Rightarrow> node_id list \<Rightarrow> graph \<Rightarrow> nat \<Rightarrow> graph \<times> nat" where
  "flag_where P b [] g c = (g, c)"
| "flag_where P b (i # is) g c =
     (if P g i then flag_where P b is (update_node i (node_set_flag b) g) (c + 1) else flag_where P b is g c)"

lemma flag_where_extends: "extends g (fst (flag_where P b is g c))"
proof (induction P b "is" g c rule: flag_where.induct)
  case (2 P b i "is" g c)
  then show ?case using extends_trans [OF extends_set_flag] by auto
qed (simp add: extends_refl)

text \<open>A condition on a node that setting the flag on other nodes does not disturb.\<close>

definition undisturbed :: "node_flag \<Rightarrow> (graph \<Rightarrow> node_id \<Rightarrow> bool) \<Rightarrow> bool" where
  "undisturbed b P \<longleftrightarrow> (\<forall>g i j. i < length (g_nodes g) \<longrightarrow> j \<noteq> i \<longrightarrow>
     P (update_node j (node_set_flag b) g) i = P g i)"

lemma flag_where_spec:
  assumes "undisturbed b P" "distinct is" "set is \<subseteq> {..<length (g_nodes g)}"
  shows "flag_where P b is g c = (fst (flag_where P b is g c), c + length (filter (P g) is))
    \<and> length (g_nodes (fst (flag_where P b is g c))) = length (g_nodes g)
    \<and> (\<forall>j < length (g_nodes g). node_at (fst (flag_where P b is g c)) j
        = (if j \<in> set is \<and> P g j then node_set_flag b (node_at g j) else node_at g j))"
  using assms(2,3)
proof (induction "is" arbitrary: g c)
  case (Cons i "is")
  let ?u = "update_node i (node_set_flag b) g"
  have stable: "P ?u j = P g j" if "j \<in> set is" for j
    using assms(1) that Cons.prems unfolding undisturbed_def by (metis distinct.simps(2) lessThan_iff
        list.set_intros(2) subsetD)
  have f: "filter (P ?u) is = filter (P g) is" using stable by (auto intro: filter_cong)
  have i: "i < length (g_nodes g)" using Cons.prems by simp
  show ?case
  proof (cases "P g i")
    case True
    have "distinct is" "set is \<subseteq> {..<length (g_nodes ?u)}" using Cons.prems by auto
    note IH = Cons.IH [OF this, of "c + 1"]
    have "node_at (fst (flag_where P b is ?u (c + 1))) j
        = (if j \<in> set (i # is) \<and> P g j then node_set_flag b (node_at g j) else node_at g j)"
      if j: "j < length (g_nodes g)" for j
      using IH stable [of j] True j i Cons.prems(1) by (auto simp: node_at_update)
    with IH True f show ?thesis by simp
  next
    case False
    have "distinct is" "set is \<subseteq> {..<length (g_nodes g)}" using Cons.prems by auto
    from Cons.IH [OF this, of c] False show ?thesis by auto
  qed
qed simp

lemma flag_where_all:
  assumes "undisturbed b P" "graph_wf g"
  defines "g' \<equiv> fst (flag_where P b [0..<g_size g] g 0)"
  shows "snd (flag_where P b [0..<g_size g] g 0) = card {i. i < length (g_nodes g) \<and> P g i}"
    and "graph_wf g'" "length (g_nodes g') = length (g_nodes g)"
    and "j < length (g_nodes g) \<Longrightarrow> node_at g' j = (if P g j then node_set_flag b (node_at g j) else node_at g j)"
proof -
  have sz: "g_size g = length (g_nodes g)" by (rule wf_g_size [OF assms(2)])
  have "distinct [0..<g_size g]" "set [0..<g_size g] \<subseteq> {..<length (g_nodes g)}" using sz by auto
  note s = flag_where_spec [OF assms(1) this, of 0]
  show "length (g_nodes g') = length (g_nodes g)" using s by (simp add: g'_def)
  have "{i. i < length (g_nodes g) \<and> P g i} = set (filter (P g) [0..<g_size g])" using sz by auto
  then have "card {i. i < length (g_nodes g) \<and> P g i} = length (filter (P g) [0..<g_size g])"
    by (metis distinct_card distinct_filter distinct_upt)
  with s show "snd (flag_where P b [0..<g_size g] g 0) = card {i. i < length (g_nodes g) \<and> P g i}"
    by (metis add_0 snd_conv)
  show "node_at g' j = (if P g j then node_set_flag b (node_at g j) else node_at g j)" if "j < length (g_nodes g)"
    using s that sz by (simp add: g'_def)
  have "is_inp_ok": "n_inputs (node_at g' j) = n_inputs (node_at g j)" if "j < length (g_nodes g)" for j
    using s that sz by (simp add: g'_def)
  have "fst (flag_where P b is g c) = g'" if "is = [0..<g_size g]" "c = 0" for "is" c using that by (simp add: g'_def)
  have o: "g_outputs (fst (flag_where P b is h c)) = g_outputs h" for "is" h c
    by (induction P b "is" h c rule: flag_where.induct) auto
  show "graph_wf g'"
    using assms(2) \<open>length (g_nodes g') = length (g_nodes g)\<close> is_inp_ok o [of "[0..<g_size g]" g 0, folded g'_def]
    unfolding graph_wf_def balanced_def edges_ok_def by simp
qed

subsection \<open>The byte vector as a set of ids\<close>

definition bytes_new :: "nat \<Rightarrow> bool list" where
  "bytes_new n = replicate n False"

definition bytes_set :: "nat \<Rightarrow> bool list \<Rightarrow> bool list option" where
  "bytes_set i b = (if i < length b then Some (b[i := True]) else None)"

definition bytes_test :: "bool list \<Rightarrow> nat \<Rightarrow> bool option" where
  "bytes_test b i = (if i < length b then Some (b ! i) else None)"

definition bytes_abs :: "bool list \<Rightarrow> nat set" where
  "bytes_abs b = {i. i < length b \<and> b ! i}"

interpretation bytes: id_set "\<lambda>_. True" bytes_abs length bytes_set bytes_test
proof
  fix s :: "bool list" and v
  assume v: "v < length s"
  then have "bytes_abs (s[v := True]) = insert v (bytes_abs s)"
    by (auto simp: bytes_abs_def nth_list_update)
  with v show "\<exists>s'. bytes_set v s = Some s' \<and> True \<and> length s' = length s \<and> bytes_abs s' = insert v (bytes_abs s)"
    by (simp add: bytes_set_def)
qed (auto simp: bytes_abs_def bytes_test_def)

lemma bytes_new_abs [simp]: "bytes_abs (bytes_new n) = {}" "length (bytes_new n) = n"
  by (auto simp: bytes_abs_def bytes_new_def)

end
