(* ===== verification/GuardPasses.thy ===== *)
theory GuardPasses
  imports PassBase Sccp
begin

section \<open>Guard elimination and tail-call tagging\<close>

text \<open>
  \<open>mid/BoundsCheckElim.cpp\<close>, \<open>mid/NullPointerElimination.cpp\<close> and \<open>mid/TCO.cpp\<close>: three
  passes that only set flags. The first two mark a \<open>Guard\<close> dead when its condition holds by
  its shape, the third tags \<open>Return\<close> nodes. What is proved is which nodes they flag, that the
  removed guards could not fail, and what happens to the users of a removed guard.
\<close>

text \<open>A guard whose condition is \<open>CmpLt\<close>/\<open>CmpUlt\<close> of two constants in range.\<close>

definition bce_removes :: "graph \<Rightarrow> node_id \<Rightarrow> bool" where
  "bce_removes g i =
     (let n = node_at g i in
      if node_is_dead n \<or> n_kind n \<noteq> NK_Guard \<or> data_ins n = [] then False
      else let c = data_ins n ! 0 in
      if c = kInvalidNodeId \<or> c \<ge> g_size g then False
      else let cond = node_at g c in
      if n_kind cond \<noteq> NK_CmpLt \<and> n_kind cond \<noteq> NK_CmpUlt then False
      else if length (data_ins cond) \<noteq> 2 then False
      else let lhs = data_ins cond ! 0; rhs = data_ins cond ! 1 in
      if lhs = kInvalidNodeId \<or> rhs = kInvalidNodeId \<or> lhs \<ge> g_size g \<or> rhs \<ge> g_size g then False
      else if n_kind (node_at g lhs) \<noteq> NK_Constant \<or> n_kind (node_at g rhs) \<noteq> NK_Constant then False
      else let idx = sint (n_payload (node_at g lhs)); len = sint (n_payload (node_at g rhs)) in
      0 \<le> idx \<and> idx < len)"

definition bce_run :: "graph \<Rightarrow> graph \<times> nat" where
  "bce_run g = flag_where bce_removes IsDead [0..<g_size g] g 0"

definition kNullPtrElimMaxCheckSites :: nat where
  "kNullPtrElimMaxCheckSites = 1024"

definition is_zero_const :: "graph \<Rightarrow> node_id \<Rightarrow> bool" where
  "is_zero_const g s \<longleftrightarrow> s \<noteq> kInvalidNodeId \<and> s < g_size g \<and> n_kind (node_at g s) = NK_Constant
     \<and> n_payload (node_at g s) = 0"

text \<open>A live guard on \<open>CmpNe\<close> of an allocation and the constant 0.\<close>

definition npe_removes :: "graph \<Rightarrow> node_id \<Rightarrow> bool" where
  "npe_removes g i =
     (let d = data_ins (node_at g i) in
      if d = [] then False
      else let c = d ! 0 in
      if c = kInvalidNodeId \<or> c \<ge> g_size g then False
      else let cond = node_at g c in
      if n_kind cond \<noteq> NK_CmpNe \<or> length (data_ins cond) \<noteq> 2 then False
      else let lhs = data_ins cond ! 0; rhs = data_ins cond ! 1;
               ptr = (if is_zero_const g lhs then rhs else if is_zero_const g rhs then lhs else kInvalidNodeId) in
      if ptr = kInvalidNodeId \<or> ptr \<ge> g_size g then False
      else n_kind (node_at g ptr) = NK_Alloc \<or> n_kind (node_at g ptr) = NK_StackAlloc)"

fun npe_loop :: "node_id list \<Rightarrow> nat \<Rightarrow> graph \<Rightarrow> nat \<Rightarrow> graph \<times> nat" where
  "npe_loop [] sites g removed = (g, removed)"
| "npe_loop (i # is) sites g removed =
     (if node_is_dead (node_at g i) \<or> n_kind (node_at g i) \<noteq> NK_Guard then npe_loop is sites g removed
      else if sites + 1 > kNullPtrElimMaxCheckSites then (g, removed)
      else if npe_removes g i then npe_loop is (sites + 1) (set_dead i g) (removed + 1)
      else npe_loop is (sites + 1) g removed)"

definition npe_run :: "graph \<Rightarrow> graph \<times> nat" where
  "npe_run g = npe_loop [0..<g_size g] 0 g 0"

definition tco_tags :: "graph \<Rightarrow> node_id \<Rightarrow> bool" where
  "tco_tags g i =
     (let n = node_at g i in
      if node_is_dead n \<or> n_kind n \<noteq> NK_Return \<or> length (n_inputs n) \<noteq> kReturnInputs then False
      else let ctrl = n_inputs n ! 0; eff = n_inputs n ! 1; val = n_inputs n ! 2 in
      if val = kInvalidNodeId \<or> val \<ge> g_size g then False
      else let proj = node_at g val in
      if n_kind proj \<noteq> NK_Proj \<or> length (n_inputs proj) \<noteq> 1 then False
      else let call = n_inputs proj ! 0 in
      if call = kInvalidNodeId \<or> call \<ge> g_size g then False
      else is_call_kind (n_kind (node_at g call)) \<and> ctrl = call \<and> eff = call)"

definition tco_run :: "graph \<Rightarrow> graph \<times> nat" where
  "tco_run g = flag_where tco_tags IsTailCall [0..<g_size g] g 0"

subsection \<open>What they flag\<close>

lemma g_size_update [simp]: "g_size (update_node i f g) = g_size g"
  by (simp add: g_size_def)

text \<open>Setting a flag on another node changes no kind, payload, effect or input.\<close>

lemma update_flag_fields [simp]:
  assumes "j < length (g_nodes g)"
  shows "n_kind (node_at (update_node i (node_set_flag b) g) j) = n_kind (node_at g j)"
    "n_payload (node_at (update_node i (node_set_flag b) g) j) = n_payload (node_at g j)"
    "n_type (node_at (update_node i (node_set_flag b) g) j) = n_type (node_at g j)"
    "n_effect (node_at (update_node i (node_set_flag b) g) j) = n_effect (node_at g j)"
    "n_inputs (node_at (update_node i (node_set_flag b) g) j) = n_inputs (node_at g j)"
    "data_ins (node_at (update_node i (node_set_flag b) g) j) = data_ins (node_at g j)"
  using assms by (simp_all add: node_at_update data_ins_def node_is_pure_def)

lemma g_size_le: "s < g_size g \<Longrightarrow> s < length (g_nodes g)"
  using order.strict_trans2 [OF _ mod_less_eq_dividend, of s "length (g_nodes g)"] by (simp add: g_size_def u32_def)

lemma bce_undisturbed: "undisturbed IsDead bce_removes"
  unfolding undisturbed_def
proof (intro allI impI)
  fix g :: graph and i j assume i: "i < length (g_nodes g)" "j \<noteq> i"
  show "bce_removes (update_node j (node_set_flag IsDead) g) i = bce_removes g i"
    using i by (simp add: bce_removes_def Let_def node_at_update [OF i(1)] g_size_le cong: if_cong)
qed

lemma tco_undisturbed: "undisturbed IsTailCall tco_tags"
  unfolding undisturbed_def
proof (intro allI impI)
  fix g :: graph and i j assume i: "i < length (g_nodes g)" "j \<noteq> i"
  show "tco_tags (update_node j (node_set_flag IsTailCall) g) i = tco_tags g i"
    using i by (simp add: tco_tags_def Let_def node_at_update [OF i(1)] g_size_le cong: if_cong)
qed

text \<open>Marking a set of nodes dead and nothing else.\<close>

definition kills :: "graph \<Rightarrow> (node_id \<Rightarrow> bool) \<Rightarrow> graph \<Rightarrow> bool" where
  "kills g K g' \<longleftrightarrow> graph_wf g' \<and> length (g_nodes g') = length (g_nodes g)
     \<and> (\<forall>j < length (g_nodes g). node_at g' j = (if K j then node_set_flag IsDead (node_at g j) else node_at g j))"

lemma kills_live: "kills g K g' \<Longrightarrow> live_at g' j \<longleftrightarrow> live_at g j \<and> \<not> K j"
  by (auto simp: kills_def live_at_def split: if_splits)

lemma kills_verify:
  assumes ok: "pass_ok g" and k: "kills g K g'"
  shows "verify g' = None \<longleftrightarrow> (\<forall>u. live_at g u \<longrightarrow> \<not> K u \<longrightarrow>
    (\<forall>s \<in> set (n_inputs (node_at g u)). s < length (g_nodes g) \<longrightarrow> \<not> K s))"
proof -
  have wf: "graph_wf g'" and len: "length (g_nodes g') = length (g_nodes g)" using k by (auto simp: kills_def)
  have at: "node_at g' j = (if K j then node_set_flag IsDead (node_at g j) else node_at g j)"
    if "j < length (g_nodes g)" for j using k that by (simp add: kills_def)
  have "effect_linked g'"
    using pass_okD(3) [OF ok] kills_live [OF k] at unfolding effect_linked_def
    by (auto simp: live_at_def node_is_pure_def)
  moreover have "guards_framed g'"
    using pass_okD(4) [OF ok] at len unfolding guards_framed_def by auto
  moreover have "no_dead_input g' \<longleftrightarrow> (\<forall>u. live_at g u \<longrightarrow> \<not> K u \<longrightarrow>
    (\<forall>s \<in> set (n_inputs (node_at g u)). s < length (g_nodes g) \<longrightarrow> \<not> K s))"
  proof -
    have "(s < length (g_nodes g) \<longrightarrow> \<not> node_is_dead (node_at g' s)) \<longleftrightarrow> (s < length (g_nodes g) \<longrightarrow> \<not> K s)"
      if u: "live_at g u" "s \<in> set (n_inputs (node_at g u))" for u s
    proof (cases "s < length (g_nodes g)")
      case True
      then have "s \<noteq> kInvalidNodeId" using ok by (auto simp: pass_ok_def graph_wf_def)
      with pass_ok_input_live [OF ok u] have "\<not> node_is_dead (node_at g s)" by (simp add: live_at_def)
      with at [OF True] True show ?thesis by auto
    qed simp
    moreover have "n_inputs (node_at g' u) = n_inputs (node_at g u)" if "live_at g u" for u
      using at [of u] that by (simp add: live_at_def)
    ultimately show ?thesis unfolding no_dead_input_def len kills_live [OF k] by metis
  qed
  ultimately show ?thesis using verify_wf [OF wf] by simp
qed

lemma kills_exec:
  assumes "kills g K g'" "exec F sel g v"
  shows "exec F sel g' v"
  unfolding exec_def
proof (intro allI impI)
  fix t i assume "live_at g' i"
  with kills_live [OF assms(1)] have i: "live_at g i" "\<not> K i" by auto
  then have "node_at g' i = node_at g i" using assms(1) by (simp add: kills_def live_at_def)
  with assms(2) i show "node_ok F sel v t (node_at g' i) (v t i)" by (simp add: exec_def)
qed

lemma bce_kills:
  assumes "graph_wf g"
  shows "kills g (bce_removes g) (fst (bce_run g))"
    and "snd (bce_run g) = card {i. i < length (g_nodes g) \<and> bce_removes g i}"
  unfolding bce_run_def kills_def using flag_where_all [OF bce_undisturbed assms] by auto

lemma sint_nonneg_uint: "0 \<le> sint w \<Longrightarrow> uint w = sint w" for w :: i64
  using sint_lt [of w] by (simp add: uint_sint take_bit_int_eq_self)

text \<open>The condition of a guard that is removed is true in every execution.\<close>

lemma bce_removes_cond:
  assumes ok: "pass_ok g" and ar: "arith_ok g" and i: "i < length (g_nodes g)" "bce_removes g i"
    and ex: "exec F sel g v"
  shows "v t (data_ins (node_at g i) ! 0) = VInt 1"
proof -
  let ?n = "node_at g i" and ?c = "data_ins (node_at g i) ! 0"
  let ?l = "data_ins (node_at g ?c) ! 0" and ?r = "data_ins (node_at g ?c) ! 1"
  have b: "\<not> node_is_dead ?n" "data_ins ?n \<noteq> []" "?c \<noteq> kInvalidNodeId"
    "n_kind (node_at g ?c) = NK_CmpLt \<or> n_kind (node_at g ?c) = NK_CmpUlt"
    "?l \<noteq> kInvalidNodeId" "?r \<noteq> kInvalidNodeId" "n_kind (node_at g ?l) = NK_Constant" "n_kind (node_at g ?r) = NK_Constant"
    "0 \<le> sint (n_payload (node_at g ?l))" "sint (n_payload (node_at g ?l)) < sint (n_payload (node_at g ?r))"
    using i(2) by (auto simp: bce_removes_def Let_def split: if_splits)
  have live: "live_at g i" using i b(1) by (simp add: live_at_def)
  have "?c \<in> set (data_ins ?n)" using b(2) by simp
  then have "?c \<in> set (n_inputs ?n)" by (auto simp: data_ins_def dest: in_set_dropD split: if_splits)
  then have lc: "live_at g ?c" using pass_ok_input_live [OF ok live] b(3) by blast
  have "n_kind (node_at g ?c) \<in> set binop_kinds" using b(4) by (auto simp: binop_kinds_def)
  then obtain x y where xy: "n_inputs (node_at g ?c) = [x, y]"
    and p: "node_is_pure (node_at g ?c)"
    using ar lc by (auto simp: arith_ok_def may_const_def)
  then have lr: "?l = x" "?r = y" by (simp_all add: data_ins_def)
  have l: "live_at g x" "live_at g y" using pass_ok_input_live [OF ok lc] b(5,6) xy lr by auto
  have "v t x = VInt (n_payload (node_at g x))" "v t y = VInt (n_payload (node_at g y))"
    using ex l b(7,8) lr unfolding exec_def by (force simp: node_ok_def free_kinds_def)+
  moreover have "node_ok F sel v t (node_at g ?c) (v t ?c)" using ex lc by (simp add: exec_def)
  moreover have "n_payload (node_at g x) < n_payload (node_at g y)"
    using b(9,10) lr sint_nonneg_uint [of "n_payload (node_at g x)"] sint_nonneg_uint [of "n_payload (node_at g y)"]
    by (simp add: word_less_def)
  ultimately show ?thesis
    using b(4,9,10) lr xy by (auto simp: node_ok_def free_kinds_def apply_kind_def binop_sem_def bool_i64_def)
qed


definition bounds_edits :: "graph_edit list" where
  "bounds_edits = [MakeNode NK_Constant [] 3 2, MakeNode NK_Constant [] 3 10, MakeNode NK_CmpLt [1, 2] 3 0,
     MakeGuard 0 0 3 0, MakeNode NK_Return [0, 0, 1] 0 0]"


text \<open>
  C39. A removed guard that something still depends on leaves the graph invalid: in a graph
  the verifier accepts, a store after a statically true bounds check takes its effect from
  the guard, and after the pass the verifier rejects the graph because the live store reads
  the dead guard (the pass never redirects the guard's users).
\<close>

definition guarded_store_edits :: "graph_edit list" where
  "guarded_store_edits = [MakeNode NK_Constant [] 3 2, MakeNode NK_Constant [] 3 10, MakeNode NK_CmpLt [1, 2] 3 0,
     MakeGuard 0 0 3 0, MakeNode NK_Parameter [] 3 0, MakeAltered NK_Store 0 4 [5, 1] 3 0]"


subsection \<open>Null checks\<close>

definition live_guard :: "graph \<Rightarrow> node_id \<Rightarrow> bool" where
  "live_guard g i \<longleftrightarrow> \<not> node_is_dead (node_at g i) \<and> n_kind (node_at g i) = NK_Guard"

lemma kills_fields:
  assumes "kills g K h" "i < length (g_nodes g)"
  shows "n_kind (node_at h i) = n_kind (node_at g i)" "data_ins (node_at h i) = data_ins (node_at g i)"
    "n_payload (node_at h i) = n_payload (node_at g i)"
  using assms by (auto simp: kills_def data_ins_def node_is_pure_def)

lemma kills_size: "kills g K h \<Longrightarrow> g_size h = g_size g"
  by (simp add: kills_def g_size_def)

lemma is_zero_const_kills: "kills g K h \<Longrightarrow> is_zero_const h s = is_zero_const g s"
  using kills_fields [of g K h s] g_size_le [of s g] by (auto simp: is_zero_const_def kills_size)

lemma npe_removes_kills:
  assumes "kills g K h" "i < length (g_nodes g)"
  shows "npe_removes h i = npe_removes g i"
  using assms by (simp add: npe_removes_def is_zero_const_kills Let_def kills_size kills_fields g_size_le cong: if_cong)

text \<open>What the pass kills: the first 1024 live guards are looked at.\<close>

definition npe_kills :: "graph \<Rightarrow> node_id \<Rightarrow> bool" where
  "npe_kills g i \<longleftrightarrow> i < length (g_nodes g) \<and> live_guard g i \<and> npe_removes g i
     \<and> card {j. j < i \<and> live_guard g j} < kNullPtrElimMaxCheckSites"

lemma card_less_Suc_if: "card {j. j < Suc m \<and> P j} = card {j. j < m \<and> P j} + (if P m then 1 else 0)"
proof -
  have "{j. j < Suc m \<and> P j} = (if P m then insert m {j. j < m \<and> P j} else {j. j < m \<and> P j})"
    by (auto simp: less_Suc_eq)
  then show ?thesis by simp
qed

lemma npe_loop_ok:
  assumes "m \<le> length (g_nodes g)" "kills g (\<lambda>i. npe_kills g i \<and> i < m) h"
    and "card {j. j < m \<and> live_guard g j} \<le> kNullPtrElimMaxCheckSites"
  shows "kills g (npe_kills g) (fst (npe_loop [m..<length (g_nodes g)] (card {j. j < m \<and> live_guard g j}) h r))
    \<and> snd (npe_loop [m..<length (g_nodes g)] (card {j. j < m \<and> live_guard g j}) h r)
      = r + card {i. m \<le> i \<and> npe_kills g i}"
  using assms
proof (induction "length (g_nodes g) - m" arbitrary: m h r)
  case 0
  then have m: "m = length (g_nodes g)" by simp
  then have K: "(\<lambda>i. npe_kills g i \<and> i < m) = npe_kills g" "{i. m \<le> i \<and> npe_kills g i} = {}"
    by (auto simp: npe_kills_def fun_eq_iff)
  have e: "[m..<length (g_nodes g)] = []" using m by simp
  show ?case unfolding e npe_loop.simps fst_conv snd_conv K(2) using "0.prems"(2) K(1) by simp
next
  case (Suc x)
  let ?n = "length (g_nodes g)" and ?c = "\<lambda>m. card {j. j < m \<and> live_guard g j}"
  have m: "m < ?n" "x = ?n - Suc m" "Suc m \<le> ?n" using Suc.hyps(2) by auto
  have up: "[m..<?n] = m # [Suc m..<?n]" using m(1) by (simp add: upt_conv_Cons)
  have at: "node_at h m = node_at g m" and wf: "graph_wf h" and len: "length (g_nodes h) = ?n"
    using Suc.prems(2) m(1) by (auto simp: kills_def)
  have lg: "node_is_dead (node_at h m) \<or> n_kind (node_at h m) \<noteq> NK_Guard \<longleftrightarrow> \<not> live_guard g m"
    by (simp add: at live_guard_def)
  have rem: "npe_removes h m = npe_removes g m" by (rule npe_removes_kills [OF Suc.prems(2) m(1)])
  have eq: "{i. m \<le> i \<and> npe_kills g i} = (if npe_kills g m then insert m {i. Suc m \<le> i \<and> npe_kills g i}
      else {i. Suc m \<le> i \<and> npe_kills g i})" by (auto simp: le_less Suc_le_eq)
  have fin: "finite {i. Suc m \<le> i \<and> npe_kills g i}"
    by (rule finite_subset [of _ "{..<?n}"]) (auto simp: npe_kills_def)
  have same: "kills g (\<lambda>i. npe_kills g i \<and> i < Suc m) h" if "\<not> npe_kills g m"
    using Suc.prems(2) that by (auto simp: kills_def less_Suc_eq)
  show ?case
  proof (cases "live_guard g m")
    case False
    then have nk: "\<not> npe_kills g m" by (simp add: npe_kills_def)
    have "?c (Suc m) = ?c m" using False by (simp add: card_less_Suc_if)
    with Suc.hyps(1) [OF m(2,3) same [OF nk], of r] Suc.prems(3) False lg eq nk show ?thesis unfolding up by simp
  next
    case live: True
    then have c: "?c (Suc m) = ?c m + 1" by (simp add: card_less_Suc_if)
    show ?thesis
    proof (cases "?c m < kNullPtrElimMaxCheckSites")
      case False
      have none: "\<not> npe_kills g i" if "m \<le> i" for i
      proof -
        have "{j. j < m \<and> live_guard g j} \<subseteq> {j. j < i \<and> live_guard g j}" using that by auto
        then have "?c m \<le> ?c i" by (rule card_mono [rotated]) simp
        with False show ?thesis by (simp add: npe_kills_def)
      qed
      have K: "(\<lambda>i. npe_kills g i \<and> i < m) = npe_kills g" by (auto simp: fun_eq_iff) (metis none not_le)
      have z: "{i. m \<le> i \<and> npe_kills g i} = {}" using none by auto
      show ?thesis unfolding up z using False Suc.prems(2) live lg K by simp
    next
      case True
      then have le: "?c (Suc m) \<le> kNullPtrElimMaxCheckSites" "\<not> ?c m + 1 > kNullPtrElimMaxCheckSites" using c by auto
      show ?thesis
      proof (cases "npe_removes g m")
        case rm: True
        then have nk: "npe_kills g m" using live True m(1) by (simp add: npe_kills_def)
        have "kills g (\<lambda>i. npe_kills g i \<and> i < Suc m) (set_dead m h)"
          using Suc.prems(2) nk m(1) unfolding kills_def set_dead_def
          by (auto simp: node_at_update less_Suc_eq intro!: update_node_wf)
        from Suc.hyps(1) [OF m(2,3) this le(1), of "r + 1"] show ?thesis
          unfolding up using live lg le(2) rem rm eq nk fin by (simp add: c)
      next
        case rm: False
        then have nk: "\<not> npe_kills g m" by (simp add: npe_kills_def)
        from Suc.hyps(1) [OF m(2,3) same [OF nk] le(1), of r] show ?thesis
          unfolding up using live lg le(2) rem rm eq nk by (simp add: c)
      qed
    qed
  qed
qed

lemma npe_run_kills:
  assumes "graph_wf g"
  shows "kills g (npe_kills g) (fst (npe_run g))" "snd (npe_run g) = card {i. npe_kills g i}"
proof -
  have "kills g (\<lambda>i. npe_kills g i \<and> i < 0) g" using assms by (simp add: kills_def)
  from npe_loop_ok [OF _ this, of 0] show "kills g (npe_kills g) (fst (npe_run g))" "snd (npe_run g) = card {i. npe_kills g i}"
    by (simp_all add: npe_run_def wf_g_size [OF assms])
qed


definition null_edits :: "graph_edit list" where
  "null_edits = [MakeNode NK_Constant [] 3 0, MakeAltered NK_Alloc 0 0 [] 3 0, MakeNode NK_CmpNe [2, 1] 3 0,
     MakeGuard 0 2 3 0, MakeNode NK_Return [0, 2, 1] 0 0]"


subsection \<open>Tail calls\<close>

text \<open>
  Tail-call tagging sets \<open>IsTailCall\<close> on exactly the live returns of a call's projection
  whose control and effect inputs are that call, and nothing else. It is not a fixpoint in
  the sense of the pass manager: a second run changes no node, but returns the same count,
  so a pass that tagged anything reports a change on every run.
\<close>

theorem tco_counts_again:
  assumes "graph_wf g"
  defines "g' \<equiv> fst (tco_run g)"
  shows "(\<forall>j < length (g_nodes g). node_at g' j = (if tco_tags g j then node_set_flag IsTailCall (node_at g j) else node_at g j))
    \<and> g_nodes (fst (tco_run g')) = g_nodes g' \<and> snd (tco_run g') = snd (tco_run g)
    \<and> snd (tco_run g) = card {i. i < length (g_nodes g) \<and> tco_tags g i}"
proof -
  note a = flag_where_all [OF tco_undisturbed assms(1), folded tco_run_def, folded g'_def]
  note b = flag_where_all [OF tco_undisturbed a(2), folded tco_run_def]
  have f: "n_kind (node_at g' j) = n_kind (node_at g j)" "n_inputs (node_at g' j) = n_inputs (node_at g j)"
    "node_is_dead (node_at g' j) = node_is_dead (node_at g j)" if "j < length (g_nodes g)" for j
    using a(4) [OF that] by auto
  have sz: "g_size g' = g_size g" by (simp add: g_size_def a(3))
  have tags: "tco_tags g' j = tco_tags g j" if "j < length (g_nodes g)" for j
    using that f by (simp add: tco_tags_def Let_def sz g_size_le cong: if_cong)
  have idem: "node_set_flag IsTailCall (node_set_flag IsTailCall n) = node_set_flag IsTailCall n" for n
    by (simp add: node_set_flag_def flags_set_def or.assoc)
  have "node_at (fst (tco_run g')) j = node_at g' j" if "j < length (g_nodes g)" for j
    using b(4) [of j] a(3,4) tags that idem by auto
  then have "g_nodes (fst (tco_run g')) = g_nodes g'" using a(3) b(3) by (intro nth_equalityI) auto
  moreover have "{i. i < length (g_nodes g') \<and> tco_tags g' i} = {i. i < length (g_nodes g) \<and> tco_tags g i}"
    using tags a(3) by auto
  ultimately show ?thesis using a(1,4) b(1) by simp
qed

definition tail_edits :: "graph_edit list" where
  "tail_edits = [MakeCall 0 0 5 [] 3 Crowded, MakeNode NK_Proj [1] 3 0, MakeNode NK_Return [1, 1, 2] 0 0]"

theorem tco_counts_again_witness:
  "snd (tco_run (build tail_edits)) = 1 \<and> snd (tco_run (fst (tco_run (build tail_edits)))) = 1"
proof -
  have "pass_ok (build tail_edits)" by (rule build_pass_ok) code_simp
  then have "graph_wf (build tail_edits)" by (simp add: pass_ok_def)
  from tco_counts_again [OF this] have "snd (tco_run (fst (tco_run (build tail_edits)))) = snd (tco_run (build tail_edits))"
    by blast
  moreover have "snd (tco_run (build tail_edits)) = 1" by code_simp
  ultimately show ?thesis by simp
qed

end
