(* ===== verification/EffectWalks.thy ===== *)
theory EffectWalks
  imports PassBase SwissTables SparseSets
begin

section \<open>The passes that walk the effect chain\<close>

text \<open>
  \<open>mid/CSE.cpp\<close>, \<open>mid/DSE.cpp\<close> and \<open>mid/RCOptimization.cpp\<close>. Each makes a fresh projection
  of \<open>Start\<close> and follows effect edges from it. The hash of node ids (\<open>std::hash\<close>) is a
  parameter; \<open>None\<close> is a violated assumption of a container.
\<close>

definition find_start :: "graph \<Rightarrow> node_id option" where
  "find_start g = find (\<lambda>i. n_kind (node_at g i) = NK_Start) [0..<g_size g]"

text \<open>The first user of \<open>c\<close> that takes its effect from \<open>c\<close>.\<close>

definition next_effect :: "graph \<Rightarrow> node_id \<Rightarrow> node_id option" where
  "next_effect g c = find (\<lambda>u. u < g_size g \<and> \<not> node_is_pure (node_at g u) \<and> eff_in (node_at g u) = c) (g_outputs g ! c)"

definition first_data :: "node \<Rightarrow> node_id" where
  "first_data n = (if data_ins n = [] then kInvalidNodeId else data_ins n ! 0)"

subsection \<open>Load-after-load elimination\<close>

type_synonym id_map = "(node_id, node_id) swiss"

definition cse_visit :: "(node_id \<Rightarrow> i64) \<Rightarrow> node_id \<Rightarrow> graph \<Rightarrow> id_map \<Rightarrow> nat \<Rightarrow> (graph \<times> id_map \<times> nat) option" where
  "cse_visit hash c g table removed =
     (let n = node_at g c; ptr = first_data n in
      if n_kind n = NK_Load then
        (if ptr = kInvalidNodeId then Some (g, table, removed)
         else case st_get hash table ptr of
                Some prev_load \<Rightarrow> Some (set_dead c (replace_uses c prev_load g), table, removed + 1)
              | None \<Rightarrow> map_option (\<lambda>(_, t). (g, t, removed)) (st_insert hash ptr c table))
      else if n_kind n = NK_Store \<and> ptr \<noteq> kInvalidNodeId then Some (g, st_erase hash ptr table, removed)
      else Some (g, table, removed))"

partial_function (option) cse_loop :: "(node_id \<Rightarrow> i64) \<Rightarrow> node_id \<Rightarrow> graph \<Rightarrow> id_map \<Rightarrow> nat \<Rightarrow> (graph \<times> nat) option" where
  "cse_loop hash cursor g table removed =
     (case next_effect g cursor of
        None \<Rightarrow> Some (g, removed)
      | Some c \<Rightarrow> Option.bind (cse_visit hash c g table removed)
                   (\<lambda>r. cse_loop hash c (fst r) (fst (snd r)) (snd (snd r))))"

definition cse_run :: "(node_id \<Rightarrow> i64) \<Rightarrow> graph \<Rightarrow> (graph \<times> nat) option" where
  "cse_run hash g =
     (case find_start g of
        None \<Rightarrow> Some (g, 0)
      | Some s \<Rightarrow> (let (eff, g1) = make_proj s 1 kInvalidTypeId g in
                   if eff = kInvalidNodeId then Some (g1, 0) else cse_loop hash eff g1 st_new 0))"

subsection \<open>Dead store elimination\<close>

fun dse_read_pointers :: "graph \<Rightarrow> node_id list \<Rightarrow> sparse_set \<Rightarrow> sparse_set option" where
  "dse_read_pointers g [] s = Some s"
| "dse_read_pointers g (i # is) s =
     (let n = node_at g i in
      if node_is_dead n \<or> n_kind n \<noteq> NK_Load \<or> data_ins n = [] then dse_read_pointers g is s
      else Option.bind (ss_insert (data_ins n ! 0) s) (\<lambda>(s', _). dse_read_pointers g is s'))"

definition clobbers :: "node_kind \<Rightarrow> bool" where
  "clobbers k \<longleftrightarrow> k = NK_AtomicLoad \<or> k = NK_AtomicStore \<or> k = NK_AtomicRMW \<or> k = NK_Fence
     \<or> k = NK_CallAltered \<or> k = NK_CallCrowded"

definition dse_visit :: "(node_id \<Rightarrow> i64) \<Rightarrow> sparse_set \<Rightarrow> node_id \<Rightarrow> graph \<Rightarrow> id_map \<Rightarrow> nat \<Rightarrow> (graph \<times> id_map \<times> nat) option" where
  "dse_visit hash read c g table removed =
     (let n = node_at g c; ptr = first_data n in
      if n_kind n = NK_Store then
        (if ptr = kInvalidNodeId then Some (g, table, removed)
         else if \<not> ss_contains read ptr then Some (set_dead c g, table, removed + 1)
         else case st_find hash table ptr of
                Some i \<Rightarrow> map_option (\<lambda>(_, prev). (set_dead prev g,
                    table\<lparr>st_slots := (st_slots table)[i := Some (ptr, c)]\<rparr>, removed + 1)) (st_slots table ! i)
              | None \<Rightarrow> map_option (\<lambda>(_, t). (g, t, removed)) (st_insert hash ptr c table))
      else if n_kind n = NK_Load then
        Some (g, if ptr \<noteq> kInvalidNodeId then st_erase hash ptr table else table, removed)
      else if clobbers (n_kind n) then Some (g, st_clear table, removed)
      else Some (g, table, removed))"

partial_function (option) dse_loop :: "(node_id \<Rightarrow> i64) \<Rightarrow> sparse_set \<Rightarrow> node_id \<Rightarrow> graph \<Rightarrow> id_map \<Rightarrow> nat \<Rightarrow> (graph \<times> nat) option" where
  "dse_loop hash read cursor g table removed =
     (case next_effect g cursor of
        None \<Rightarrow> Some (g, removed)
      | Some c \<Rightarrow> Option.bind (dse_visit hash read c g table removed)
                   (\<lambda>r. dse_loop hash read c (fst r) (fst (snd r)) (snd (snd r))))"

definition dse_run :: "(node_id \<Rightarrow> i64) \<Rightarrow> graph \<Rightarrow> (graph \<times> nat) option" where
  "dse_run hash g =
     Option.bind (dse_read_pointers g [0..<g_size g] (ss_resize (g_size g))) (\<lambda>read.
     case find_start g of
        None \<Rightarrow> Some (g, 0)
      | Some s \<Rightarrow> (let (eff, g1) = make_proj s 1 kInvalidTypeId g in
                   if eff = kInvalidNodeId then Some (g1, 0) else dse_loop hash read eff g1 st_new 0))"

subsection \<open>Reference count pairs\<close>

definition kRcOptMaxOpsPerFunction :: nat where
  "kRcOptMaxOpsPerFunction = 4096"

definition rc_visit :: "node_id \<Rightarrow> graph \<Rightarrow> node_id \<Rightarrow> node_id \<Rightarrow> nat \<Rightarrow> graph \<times> node_id \<times> node_id \<times> nat" where
  "rc_visit c g last_call last_ptr removed =
     (let n = node_at g c in
      if n_kind n = NK_CallAltered then
        (if data_ins n = [] then (g, last_call, last_ptr, removed)
         else let ptr = data_ins n ! 0 in
         if last_call \<noteq> kInvalidNodeId \<and> last_ptr = ptr
         then (set_dead c (set_dead last_call g), kInvalidNodeId, kInvalidNodeId, removed + 2)
         else (g, c, ptr, removed))
      else (g, kInvalidNodeId, kInvalidNodeId, removed))"

function rc_loop :: "node_id \<Rightarrow> nat \<Rightarrow> graph \<Rightarrow> node_id \<Rightarrow> node_id \<Rightarrow> nat \<Rightarrow> graph \<times> nat" where
  "rc_loop cursor seen g last_call last_ptr removed =
     (if seen + 1 > kRcOptMaxOpsPerFunction then (g, removed)
      else case next_effect g cursor of
             None \<Rightarrow> (g, removed)
           | Some c \<Rightarrow> (case rc_visit c g last_call last_ptr removed of
                (g', lc, lp, r) \<Rightarrow> rc_loop c (seen + 1) g' lc lp r))"
  by pat_completeness auto
termination by (relation "measure (\<lambda>(_, seen, _). kRcOptMaxOpsPerFunction - seen)") auto

declare rc_loop.simps [simp del]

definition rc_run :: "graph \<Rightarrow> graph \<times> nat" where
  "rc_run g =
     (case find_start g of
        None \<Rightarrow> (g, 0)
      | Some s \<Rightarrow> (let (eff, g1) = make_proj s 1 kInvalidTypeId g in
                   if eff = kInvalidNodeId then (g1, 0) else rc_loop eff 0 g1 kInvalidNodeId kInvalidNodeId 0))"

subsection \<open>What they do\<close>

text \<open>The fresh projection has no users, so no walk leaves it.\<close>

lemma fresh_proj_no_effect:
  assumes "graph_wf g" "length (g_nodes g) < kInvalidNodeId" "s < length (g_nodes g)"
  shows "fst (make_proj s w ty g) = length (g_nodes g)"
    and "next_effect (snd (make_proj s w ty g)) (length (g_nodes g)) = None"
proof -
  let ?g = "snd (make_proj s w ty g)" and ?n = "length (g_nodes g)"
  show "fst (make_proj s w ty g) = ?n"
    unfolding make_proj_def make_node_def by (rule add_node_id [OF assms(1)])
  have len: "length (g_nodes ?g) = Suc ?n" by (simp add: make_proj_def make_node_def)
  have wf: "graph_wf ?g"
    unfolding make_proj_def make_node_def by (rule add_node_wf [OF assms(1,2)]) (use assms(3) in \<open>simp add: id_ok_def\<close>)
  have "u \<notin> set (g_outputs ?g ! ?n)" for u
  proof
    assume "u \<in> set (g_outputs ?g ! ?n)"
    then have u: "u < Suc ?n" "?n \<in> set (n_inputs (node_at ?g u))" using wf_outputs_member [OF wf, of ?n u] len by auto
    show False
    proof (cases "u = ?n")
      case True
      with u(2) assms(3) show False by (simp add: make_proj_def make_node_def)
    next
      case False
      with u have "u < ?n" "?n \<in> set (n_inputs (node_at g u))"
        by (auto simp: make_proj_def make_node_def nth_append)
      with wf_edge [OF assms(1)] assms(2) show False by fastforce
    qed
  qed
  then have "g_outputs ?g ! ?n = []" by (cases "g_outputs ?g ! ?n") auto
  then show "next_effect ?g ?n = None" by (simp add: next_effect_def)
qed

lemma find_start_0:
  assumes "graph_wf g" "n_kind (node_at g 0) = NK_Start"
  shows "find_start g = Some 0"
proof -
  have "0 < length (g_nodes g)" using assms(1) by (simp add: graph_wf_def)
  then have "[0..<g_size g] = 0 # [1..<g_size g]" by (simp add: wf_g_size [OF assms(1)] upt_conv_Cons)
  with assms(2) show ?thesis by (simp add: find_start_def)
qed

lemma ss_insert_room:
  "v < length (ss_sparse s) \<Longrightarrow> \<exists>s' b. ss_insert v s = Some (s', b) \<and> length (ss_sparse s') = length (ss_sparse s)"
  by (simp add: ss_insert_def Let_def) blast

lemma dse_read_pointers_total:
  assumes "\<forall>i \<in> set is. \<not> node_is_dead (node_at g i) \<longrightarrow> n_kind (node_at g i) = NK_Load \<longrightarrow>
      data_ins (node_at g i) \<noteq> [] \<longrightarrow> data_ins (node_at g i) ! 0 < length (ss_sparse s)"
  shows "dse_read_pointers g is s \<noteq> None"
  using assms
proof (induction "is" arbitrary: s)
  case (Cons i "is")
  let ?n = "node_at g i"
  show ?case
  proof (cases "node_is_dead ?n \<or> n_kind ?n \<noteq> NK_Load \<or> data_ins ?n = []")
    case True
    then have "dse_read_pointers g (i # is) s = dse_read_pointers g is s" by (simp add: Let_def)
    with Cons.IH [of s] Cons.prems show ?thesis by simp
  next
    case False
    then have "data_ins ?n ! 0 < length (ss_sparse s)" using Cons.prems by simp
    then obtain s' b where s': "ss_insert (data_ins ?n ! 0) s = Some (s', b)" "length (ss_sparse s') = length (ss_sparse s)"
      using ss_insert_room by blast
    have "dse_read_pointers g is s' \<noteq> None" using Cons.prems s'(2) by (intro Cons.IH) simp
    moreover have "dse_read_pointers g (i # is) s = dse_read_pointers g is s'" using False s'(1) by (simp add: Let_def)
    ultimately show ?thesis by simp
  qed
qed simp

text \<open>
  C40. None of the three effect-chain passes ever rewrites anything. On a well-formed graph
  that starts with \<open>Start\<close> (and whose loads read an existing pointer), each of common
  subexpression elimination, dead store elimination and reference-count pairing appends one
  projection of \<open>Start\<close>, finds that the new node has no users, and returns 0.
\<close>

theorem effect_walks_append_only:
  assumes "graph_wf g" "length (g_nodes g) < kInvalidNodeId" "n_kind (node_at g 0) = NK_Start"
    and "\<forall>i < length (g_nodes g). n_kind (node_at g i) = NK_Load \<longrightarrow> first_data (node_at g i) < length (g_nodes g)"
  defines "g' \<equiv> snd (make_proj 0 1 kInvalidTypeId g)"
  shows "cse_run hash g = Some (g', 0) \<and> dse_run hash g = Some (g', 0) \<and> rc_run g = (g', 0)
    \<and> length (g_nodes g') = length (g_nodes g) + 1"
proof -
  have n0: "0 < length (g_nodes g)" using assms(1) by (simp add: graph_wf_def)
  note f = fresh_proj_no_effect [OF assms(1,2) n0, of 1 kInvalidTypeId, folded g'_def]
  have ne: "length (g_nodes g) \<noteq> kInvalidNodeId" using assms(2) by simp
  have p: "make_proj 0 1 kInvalidTypeId g = (length (g_nodes g), g')" using f(1) by (simp add: g'_def prod_eq_iff)
  note st = find_start_0 [OF assms(1,3)]
  have "\<forall>i \<in> set [0..<g_size g]. \<not> node_is_dead (node_at g i) \<longrightarrow> n_kind (node_at g i) = NK_Load \<longrightarrow>
      data_ins (node_at g i) \<noteq> [] \<longrightarrow> data_ins (node_at g i) ! 0 < length (ss_sparse (ss_resize (g_size g)))"
    using assms(4) by (auto simp: wf_g_size [OF assms(1)] ss_resize_def first_data_def)
  then obtain read where "dse_read_pointers g [0..<g_size g] (ss_resize (g_size g)) = Some read"
    using dse_read_pointers_total by blast
  then have "dse_run hash g = Some (g', 0)"
    using st p ne f(2) by (simp add: dse_run_def dse_loop.simps)
  moreover have "cse_run hash g = Some (g', 0)"
    using st p ne f(2) by (simp add: cse_run_def cse_loop.simps)
  moreover have "rc_run g = (g', 0)"
    using st p ne f(2) by (simp add: rc_run_def rc_loop.simps kRcOptMaxOpsPerFunction_def)
  ultimately show ?thesis by (simp add: g'_def make_proj_def make_node_def)
qed

definition double_load_edits :: "graph_edit list" where
  "double_load_edits = [MakeNode NK_Proj [0] 0 0, MakeNode NK_Proj [0] 0 1, MakeNode NK_Parameter [] 3 0,
     MakeAltered NK_Load 1 2 [3] 3 0, MakeAltered NK_Load 1 4 [3] 3 0, MakeNode NK_Return [1, 5, 5] 0 0]"

theorem effect_walks_append_only_witness:
  "\<exists>g'. cse_run of_nat (build double_load_edits) = Some (g', 0) \<and> length (g_nodes g') = 8 \<and> length (g_nodes (build double_load_edits)) = 7"
proof -
  have "pass_ok (build double_load_edits)" by (rule build_pass_ok) code_simp
  then have wf: "graph_wf (build double_load_edits)" by (simp add: pass_ok_def)
  have c: "length (g_nodes (build double_load_edits)) = 7" "n_kind (node_at (build double_load_edits) 0) = NK_Start"
    "list_all (\<lambda>i. n_kind (node_at (build double_load_edits) i) = NK_Load \<longrightarrow> first_data (node_at (build double_load_edits) i) < 7) [0..<7]"
    by code_simp+
  have "length (g_nodes (build double_load_edits)) < kInvalidNodeId" by (simp add: c(1) kInvalidNodeId_def)
  from effect_walks_append_only [OF wf this c(2)] c(1,3) show ?thesis by (auto simp: list_all_iff)
qed

end
