(* ===== verification/LoopMotion.thy ===== *)
theory LoopMotion
  imports PassBase
begin

section \<open>Loop-invariant code motion (analysis)\<close>

text \<open>
  \<open>mid/LICM.cpp\<close>: for each loop, mark the nodes that its phis depend on, count the pure
  nodes used inside whose inputs all lie outside, and the loads and stores inside. The pass
  rewrites nothing; its counts go to the telemetry.
\<close>

definition loop_phis :: "graph \<Rightarrow> node_id \<Rightarrow> node_id list" where
  "loop_phis g loop = filter (\<lambda>i. \<not> node_is_dead (node_at g i) \<and> n_kind (node_at g i) = NK_Phi
     \<and> n_inputs (node_at g i) \<noteq> [] \<and> n_inputs (node_at g i) ! 0 = loop) [0..<g_size g]"

definition inside_succs :: "graph \<Rightarrow> node_id \<Rightarrow> node_id \<Rightarrow> node_id list" where
  "inside_succs g loop cur = filter (\<lambda>s. s \<noteq> kInvalidNodeId \<and> s < g_size g \<and> s \<noteq> loop
     \<and> n_kind (node_at g s) \<noteq> NK_Constant \<and> n_kind (node_at g s) \<noteq> NK_Parameter) (n_inputs (node_at g cur))"

definition mark_inside :: "graph \<Rightarrow> node_id \<Rightarrow> bool list \<Rightarrow> bool list option" where
  "mark_inside g loop inside =
     (let phis = loop_phis g loop in
      mark_reach bytes_set bytes_test (inside_succs g loop) phis (fold (\<lambda>i b. b[i := True]) phis inside))"

definition defined_outside :: "graph \<Rightarrow> node_id \<Rightarrow> bool list \<Rightarrow> bool" where
  "defined_outside g i inside \<longleftrightarrow> i = kInvalidNodeId \<or> i \<ge> g_size g \<or> \<not> inside ! i"

definition licm_invariant :: "graph \<Rightarrow> bool list \<Rightarrow> node_id \<Rightarrow> bool" where
  "licm_invariant g inside p =
     (let n = node_at g p in
      \<not> inside ! p \<and> \<not> node_is_dead n \<and> node_is_pure n \<and> n_kind n \<noteq> NK_Constant \<and> n_kind n \<noteq> NK_Parameter
      \<and> list_ex (\<lambda>u. u < g_size g \<and> inside ! u) (users_snapshot g p)
      \<and> list_all (\<lambda>s. defined_outside g s inside) (data_ins n))"

definition licm_blocked :: "graph \<Rightarrow> bool list \<Rightarrow> node_id \<Rightarrow> bool" where
  "licm_blocked g inside p =
     (let n = node_at g p in
      inside ! p \<and> \<not> node_is_dead n \<and> (n_kind n = NK_Load \<or> n_kind n = NK_Store))"

text \<open>The counts: loops, invariant pure nodes, blocked loads and stores.\<close>

fun licm_counts :: "graph \<Rightarrow> node_id list \<Rightarrow> nat \<times> nat \<times> nat \<Rightarrow> (nat \<times> nat \<times> nat) option" where
  "licm_counts g [] c = Some c"
| "licm_counts g (i # is) (loops, invs, blocked) =
     (if node_is_dead (node_at g i) \<or> n_kind (node_at g i) \<noteq> NK_Loop then licm_counts g is (loops, invs, blocked)
      else Option.bind (mark_inside g i (bytes_new (g_size g))) (\<lambda>inside.
        licm_counts g is (loops + 1, invs + length (filter (licm_invariant g inside) [0..<g_size g]),
          blocked + length (filter (licm_blocked g inside) [0..<g_size g]))))"

definition licm_run :: "graph \<Rightarrow> (graph \<times> nat) option" where
  "licm_run g = map_option (\<lambda>_. (g, 0)) (licm_counts g [0..<g_size g] (0, 0, 0))"

subsection \<open>What is marked\<close>

lemma length_fold_set: "length (fold (\<lambda>i b. b[i := True]) is inside) = length inside"
  by (induction "is" arbitrary: inside) simp_all

lemma fold_set_abs:
  assumes "set is \<subseteq> {..<length inside}"
  shows "bytes_abs (fold (\<lambda>i b. b[i := True]) is inside) = bytes_abs inside \<union> set is"
  using assms
proof (induction "is" arbitrary: inside)
  case (Cons i "is")
  have "bytes_abs (inside[i := True]) = insert i (bytes_abs inside)"
    using Cons.prems by (auto simp: bytes_abs_def nth_list_update)
  with Cons.IH [of "inside[i := True]"] Cons.prems show ?case by simp
qed simp



end
