(* ===== verification/EscapeAnalysis.thy ===== *)
theory EscapeAnalysis
  imports PassBase
begin

section \<open>Escape analysis and stack promotion\<close>

text \<open>
  \<open>mid/EscapeAnalysis.cpp\<close>: a worklist over the users of an allocation, stopped by the first
  use that lets the pointer out, and the rewrite of the allocations that stay in to
  \<open>StackAlloc\<close>.
\<close>

datatype use_verdict = Escapes | Stops | WalksOn

definition use_of :: "node \<Rightarrow> node_id \<Rightarrow> use_verdict" where
  "use_of u cur =
     (if n_kind u = NK_Return then
        (if length (n_inputs u) = kReturnInputs \<and> n_inputs u ! kReturnValIndex = cur then Escapes else Stops)
      else if is_call_kind (n_kind u) then (if cur \<in> set (data_ins u) then Escapes else Stops)
      else if n_kind u = NK_Store \<or> n_kind u = NK_AtomicStore then
        (if length (data_ins u) \<ge> 2 \<and> data_ins u ! 1 = cur then Escapes else Stops)
      else if n_kind u = NK_AtomicRMW then Escapes
      else if n_kind u = NK_Load \<or> n_kind u = NK_AtomicLoad then Stops
      else WalksOn)"

text \<open>The loop over the users of the current node: \<open>None\<close> is \<open>return true\<close>.\<close>

fun esc_users :: "graph \<Rightarrow> node_id \<Rightarrow> node_id list \<Rightarrow> node_id list \<Rightarrow> bool list \<Rightarrow> (node_id list \<times> bool list) option" where
  "esc_users g cur [] wl visited = Some (wl, visited)"
| "esc_users g cur (user # us) wl visited =
     (if user \<ge> g_size g \<or> node_is_dead (node_at g user) then esc_users g cur us wl visited
      else case use_of (node_at g user) cur of
             Escapes \<Rightarrow> None
           | Stops \<Rightarrow> esc_users g cur us wl visited
           | WalksOn \<Rightarrow> if visited ! user then esc_users g cur us wl visited
                        else esc_users g cur us (wl @ [user]) (visited[user := True]))"

partial_function (option) esc_loop :: "graph \<Rightarrow> node_id list \<Rightarrow> bool list \<Rightarrow> bool option" where
  "esc_loop g wl visited =
     (if wl = [] then Some False
      else case esc_users g (last wl) (g_outputs g ! last wl) (butlast wl) visited of
             None \<Rightarrow> Some True
           | Some (wl', visited') \<Rightarrow> esc_loop g wl' visited')"

declare esc_loop.simps [code]

definition escapes :: "graph \<Rightarrow> node_id \<Rightarrow> bool option" where
  "escapes g a = esc_loop g [a] ((bytes_new (g_size g))[a := True])"

definition promote :: "node \<Rightarrow> node" where
  "promote n = node_set_flag IsStackPromoted (n\<lparr>n_kind := NK_StackAlloc, n_effect := Pure\<rparr>)"

fun escape_loop :: "node_id list \<Rightarrow> graph \<Rightarrow> nat \<Rightarrow> (graph \<times> nat) option" where
  "escape_loop [] g promoted = Some (g, promoted)"
| "escape_loop (i # is) g promoted =
     (if node_is_dead (node_at g i) \<or> n_kind (node_at g i) \<noteq> NK_Alloc then escape_loop is g promoted
      else Option.bind (escapes g i) (\<lambda>e.
        if e then escape_loop is g promoted
        else escape_loop is (update_node i promote g) (promoted + 1)))"

definition escape_run :: "graph \<Rightarrow> (graph \<times> nat) option" where
  "escape_run g = escape_loop [0..<g_size g] g 0"

subsection \<open>The walk computes reachability of an escaping use\<close>

definition esc_user :: "graph \<Rightarrow> node_id \<Rightarrow> use_verdict \<Rightarrow> node_id \<Rightarrow> bool" where
  "esc_user g cur w u \<longleftrightarrow> u < g_size g \<and> \<not> node_is_dead (node_at g u) \<and> use_of (node_at g u) cur = w"

definition esc_next :: "graph \<Rightarrow> node_id \<Rightarrow> node_id list" where
  "esc_next g cur = filter (esc_user g cur WalksOn) (g_outputs g ! cur)"

definition esc_here :: "graph \<Rightarrow> node_id \<Rightarrow> bool" where
  "esc_here g cur \<longleftrightarrow> (\<exists>u \<in> set (g_outputs g ! cur). esc_user g cur Escapes u)"

lemma esc_users_eq:
  assumes "length visited = g_size g"
  shows "esc_users g cur us wl visited =
    (if \<exists>u \<in> set us. esc_user g cur Escapes u then None
     else push_new bytes_set bytes_test (filter (esc_user g cur WalksOn) us) wl visited)"
  using assms
proof (induction us arbitrary: wl visited)
  case (Cons u us)
  show ?case
  proof (cases "u \<ge> g_size g \<or> node_is_dead (node_at g u)")
    case True
    then have "\<not> esc_user g cur w u" for w by (auto simp: esc_user_def)
    with True Cons show ?thesis by auto
  next
    case False
    then have e: "esc_user g cur w u \<longleftrightarrow> use_of (node_at g u) cur = w" for w by (auto simp: esc_user_def)
    show ?thesis
    proof (cases "use_of (node_at g u) cur")
      case Escapes
      with False e show ?thesis by simp
    next
      case Stops
      with False e Cons show ?thesis by simp
    next
      case WalksOn
      have "bytes_test visited u = Some (visited ! u)" "bytes_set u visited = Some (visited[u := True])"
        using False Cons.prems by (simp_all add: bytes_test_def bytes_set_def)
      with WalksOn False e Cons.IH [of visited wl] Cons.IH [of "visited[u := True]" "wl @ [u]"] Cons.prems show ?thesis
        by simp
    qed
  qed
qed simp

lemma esc_loop_ok:
  assumes "length visited = g_size g" "set wl \<subseteq> bytes_abs visited"
    and "\<And>u. u \<in> bytes_abs visited - set wl \<Longrightarrow> set (esc_next g u) \<subseteq> bytes_abs visited \<and> \<not> esc_here g u"
  shows "esc_loop g wl visited = Some (\<exists>u \<in> (succ_rel (esc_next g))\<^sup>* `` bytes_abs visited. esc_here g u)"
  using assms
proof (induction "(g_size g - card (bytes_abs visited), length wl)" arbitrary: visited wl
    rule: wf_induct_rule [OF wf_lex_prod [OF wf_less_than wf_less_than]])
  case 1
  note len = \<open>length visited = g_size g\<close>
  show ?case
  proof (cases "wl = []")
    case True
    have "(succ_rel (esc_next g))\<^sup>* `` bytes_abs visited = bytes_abs visited"
      using closed_reach [of "bytes_abs visited" "bytes_abs visited" "esc_next g"] 1(4) True by auto
    with 1(4) True show ?thesis by (subst esc_loop.simps) auto
  next
    case False
    let ?u = "last wl" and ?w = "butlast wl"
    have u: "?u \<in> bytes_abs visited" using False 1(3) by (meson last_in_set subsetD)
    show ?thesis
    proof (cases "esc_here g ?u")
      case True
      then have "esc_users g ?u (g_outputs g ! ?u) ?w visited = None"
        by (simp add: esc_users_eq [OF len] esc_here_def)
      with False True u show ?thesis by (subst esc_loop.simps) auto
    next
      case here: False
      have range: "\<forall>v \<in> set (esc_next g ?u). v < length visited" by (auto simp: esc_next_def esc_user_def len)
      obtain new s1 where p: "push_new bytes_set bytes_test (esc_next g ?u) ?w visited = Some (?w @ new, s1)"
        and s1: "length s1 = length visited" "bytes_abs s1 = bytes_abs visited \<union> set (esc_next g ?u)"
        "set new = set (esc_next g ?u) - bytes_abs visited" "distinct new"
        using bytes.push_new_ok [OF TrueI range, of ?w] by auto
      have step: "esc_loop g wl visited = esc_loop g (?w @ new) s1"
        using False here p by (subst esc_loop.simps) (simp add: esc_users_eq [OF len] esc_here_def esc_next_def)
      have fin: "finite (bytes_abs s1)" by (auto simp: bytes_abs_def)
      have "((g_size g - card (bytes_abs s1), length (?w @ new)), (g_size g - card (bytes_abs visited), length wl))
          \<in> less_than <*lex*> less_than"
      proof (cases "new = []")
        case True
        with s1 have "bytes_abs s1 = bytes_abs visited" by auto
        with True False show ?thesis by auto
      next
        case nonempty: False
        then have "bytes_abs visited \<subset> bytes_abs s1" using s1 by (metis DiffD1 DiffD2 Un_iff last_in_set psubsetI sup_ge1)
        then have "card (bytes_abs visited) < card (bytes_abs s1)" using fin by (rule psubset_card_mono [rotated])
        moreover have "card (bytes_abs s1) \<le> g_size g"
          using bytes.abs_univ [of s1] s1(1) len by (metis card_lessThan card_mono finite_lessThan)
        ultimately show ?thesis by auto
      qed
      moreover have "set (?w @ new) \<subseteq> bytes_abs s1"
        using 1(3) s1 by (auto dest: in_set_butlastD)
      moreover have "set (esc_next g v) \<subseteq> bytes_abs s1 \<and> \<not> esc_here g v" if v: "v \<in> bytes_abs s1 - set (?w @ new)" for v
      proof (cases "v = ?u")
        case False
        have "wl = ?w @ [?u]" using \<open>wl \<noteq> []\<close> by simp
        with False v s1 have "v \<in> bytes_abs visited - set wl" by (metis DiffE DiffI UnE Un_iff set_append set_ConsD empty_set list.simps(15) singletonD)
        with 1(4) s1 show ?thesis by blast
      qed (use s1 here in auto)
      ultimately have "esc_loop g (?w @ new) s1 = Some (\<exists>u \<in> (succ_rel (esc_next g))\<^sup>* `` bytes_abs s1. esc_here g u)"
        using 1(1) [of s1 "?w @ new"] s1(1) len by simp
      moreover have "(succ_rel (esc_next g))\<^sup>* `` bytes_abs s1 = (succ_rel (esc_next g))\<^sup>* `` bytes_abs visited"
        using u by (auto simp: s1 Image_Un succ_rel_def intro: converse_rtrancl_into_rtrancl)
      ultimately show ?thesis using step by simp
    qed
  qed
qed

definition escapes_spec :: "graph \<Rightarrow> node_id \<Rightarrow> bool" where
  "escapes_spec g a \<longleftrightarrow> (\<exists>u. (a, u) \<in> (succ_rel (esc_next g))\<^sup>* \<and> esc_here g u)"

lemma escapes_ok:
  assumes "a < g_size g"
  shows "escapes g a = Some (escapes_spec g a)"
proof -
  have "bytes_abs ((bytes_new (g_size g))[a := True]) = {a}"
    using assms by (auto simp: bytes_abs_def bytes_new_def nth_list_update)
  with esc_loop_ok [of "(bytes_new (g_size g))[a := True]" g "[a]"] show ?thesis
    by (auto simp: escapes_def escapes_spec_def)
qed

subsection \<open>The promotion\<close>

definition promotes :: "graph \<Rightarrow> node_id \<Rightarrow> bool" where
  "promotes g i \<longleftrightarrow> i < length (g_nodes g) \<and> \<not> node_is_dead (node_at g i) \<and> n_kind (node_at g i) = NK_Alloc
     \<and> \<not> escapes_spec g i"

definition promoted :: "graph \<Rightarrow> (node_id \<Rightarrow> bool) \<Rightarrow> graph \<Rightarrow> bool" where
  "promoted g P h \<longleftrightarrow> length (g_nodes h) = length (g_nodes g) \<and> g_outputs h = g_outputs g
     \<and> (\<forall>j < length (g_nodes g). node_at h j = (if P j then promote (node_at g j) else node_at g j))
     \<and> (\<forall>j. P j \<longrightarrow> n_kind (node_at g j) = NK_Alloc)"

lemma promote_simps [simp]:
  "n_kind (promote n) = NK_StackAlloc" "n_effect (promote n) = Pure" "n_inputs (promote n) = n_inputs n"
  "node_is_dead (promote n) = node_is_dead n"
  by (simp_all add: promote_def)

lemma promoted_user:
  assumes "promoted g P h"
  shows "esc_user h cur w u = esc_user g cur w u"
proof (cases "u < g_size g")
  case True
  have sz: "g_size h = g_size g" using assms by (simp add: promoted_def g_size_def)
  have "u < length (g_nodes g)"
    using order.strict_trans2 [OF _ mod_less_eq_dividend, of u "length (g_nodes g)"] True by (simp add: g_size_def u32_def)
  with assms have at: "node_at h u = (if P u then promote (node_at g u) else node_at g u)"
    and k: "P u \<Longrightarrow> n_kind (node_at g u) = NK_Alloc" by (auto simp: promoted_def)
  show ?thesis
    using k by (cases "P u") (simp_all add: esc_user_def sz at use_of_def is_call_kind_def)
next
  case False
  with assms show ?thesis by (simp add: esc_user_def promoted_def g_size_def)
qed

lemma promoted_escapes: "promoted g P h \<Longrightarrow> escapes_spec h a = escapes_spec g a"
proof -
  assume p: "promoted g P h"
  then have o: "g_outputs h = g_outputs g" by (simp add: promoted_def)
  have u: "esc_user h = esc_user g" by (intro ext) (rule promoted_user [OF p])
  have "esc_next h = esc_next g" "esc_here h = esc_here g"
    by (rule ext, simp only: esc_next_def o u) (rule ext, simp only: esc_here_def o u)
  then show ?thesis by (simp add: escapes_spec_def)
qed

lemma escape_loop_ok:
  assumes "g_size g = length (g_nodes g)" "m \<le> length (g_nodes g)" "promoted g (\<lambda>i. promotes g i \<and> i < m) h"
  shows "\<exists>g'. escape_loop [m..<length (g_nodes g)] h r = Some (g', r + length (filter (promotes g) [m..<length (g_nodes g)]))
    \<and> promoted g (promotes g) g'"
  using assms(2,3)
proof (induction "length (g_nodes g) - m" arbitrary: m h r)
  case 0
  then have "m = length (g_nodes g)" by simp
  moreover from this have "(\<lambda>i. promotes g i \<and> i < m) = promotes g" by (auto simp: promotes_def fun_eq_iff)
  ultimately show ?case using 0 by simp
next
  case (Suc x)
  let ?n = "length (g_nodes g)"
  have m: "m < ?n" "x = ?n - Suc m" "Suc m \<le> ?n" using Suc.hyps(2) by auto
  have up: "[m..<?n] = m # [Suc m..<?n]" using m(1) by (simp add: upt_conv_Cons)
  have at: "node_at h m = node_at g m" and sz: "g_size h = g_size g"
    using Suc.prems(2) m(1) by (auto simp: promoted_def g_size_def)
  have esc: "escapes h m = Some (escapes_spec g m)"
    using escapes_ok [of m h] m(1) sz assms(1) promoted_escapes [OF Suc.prems(2)] by simp
  have same: "promoted g (\<lambda>i. promotes g i \<and> i < Suc m) h" if "\<not> promotes g m"
    using Suc.prems(2) that by (auto simp: promoted_def less_Suc_eq)
  show ?case
  proof (cases "promotes g m")
    case True
    have "promoted g (\<lambda>i. promotes g i \<and> i < Suc m) (update_node m promote h)"
      using Suc.prems(2) True m(1) unfolding promoted_def
      by (auto simp: node_at_update less_Suc_eq promotes_def)
    from Suc.hyps(1) [OF m(2,3) this, of "r + 1"] obtain g' where
      "escape_loop [Suc m..<?n] (update_node m promote h) (r + 1) = Some (g', r + 1 + length (filter (promotes g) [Suc m..<?n]))"
      "promoted g (promotes g) g'" by blast
    then show ?thesis unfolding up using True esc at by (simp add: promotes_def)
  next
    case False
    from Suc.hyps(1) [OF m(2,3) same [OF False], of r] obtain g' where
      "escape_loop [Suc m..<?n] h r = Some (g', r + length (filter (promotes g) [Suc m..<?n]))"
      "promoted g (promotes g) g'" by blast
    then show ?thesis unfolding up using False esc at m(1) by (auto simp: promotes_def)
  qed
qed

lemma promoted_wf: "graph_wf g \<Longrightarrow> promoted g P h \<Longrightarrow> graph_wf h"
  unfolding graph_wf_def balanced_def edges_ok_def promoted_def by (auto split: if_splits)

lemma escape_run_ok:
  assumes wf: "graph_wf g"
  shows "\<exists>g'. escape_run g = Some (g', card {i. promotes g i}) \<and> promoted g (promotes g) g' \<and> graph_wf g'"
proof -
  let ?n = "length (g_nodes g)"
  have "promoted g (\<lambda>i. promotes g i \<and> i < 0) g" by (simp add: promoted_def)
  from escape_loop_ok [OF wf_g_size [OF wf] _ this, of 0] obtain g' where
    g': "escape_run g = Some (g', length (filter (promotes g) [0..<?n]))" "promoted g (promotes g) g'"
    by (auto simp: escape_run_def wf_g_size [OF wf])
  have "{i. promotes g i} = set (filter (promotes g) [0..<?n])" by (auto simp: promotes_def)
  then have "length (filter (promotes g) [0..<?n]) = card {i. promotes g i}"
    by (metis distinct_card distinct_filter distinct_upt)
  with g' promoted_wf [OF wf g'(2)] show ?thesis by auto
qed


definition alloc_edits :: "graph_edit list" where
  "alloc_edits = [MakeAltered NK_Alloc 0 0 [] 3 0, MakeAltered NK_Alloc 0 0 [] 3 0, MakeNode NK_Constant [] 3 7,
     MakeAltered NK_Store 0 0 [1, 3] 3 0, MakeNode NK_Return [0, 4, 2] 0 0]"


end
