(* ===== verification/CopyPropagation.thy ===== *)
theory CopyPropagation
  imports PassBase
begin

section \<open>Copy propagation\<close>

text \<open>
  \<open>mid/CopyPropagation.cpp\<close>: identity casts, selects with equal branches and phis whose values
  are all the same node are replaced by what they copy.
\<close>

text \<open>
  The loop over a phi's inputs: slot 0 (the region) is skipped by position, missing inputs
  and merge nodes too; \<open>kInvalidNodeId\<close> is "no single value".
\<close>

fun cp_phi_value :: "graph \<Rightarrow> nat \<Rightarrow> node_id list \<Rightarrow> node_id \<Rightarrow> node_id" where
  "cp_phi_value g idx [] first_val = first_val"
| "cp_phi_value g idx (i # is) first_val =
     (if i = kInvalidNodeId \<or> i \<ge> g_size g \<or> idx = 0
         \<or> n_kind (node_at g i) = NK_Region \<or> n_kind (node_at g i) = NK_Loop
      then cp_phi_value g (idx + 1) is first_val
      else if first_val = kInvalidNodeId then cp_phi_value g (idx + 1) is i
      else if first_val \<noteq> i then kInvalidNodeId
      else cp_phi_value g (idx + 1) is first_val)"

definition cp_replacement :: "graph \<Rightarrow> node_id \<Rightarrow> node_id" where
  "cp_replacement g i =
     (let n = node_at g i; d = data_ins n in
      if n_kind n = NK_Cast then
        (if length d = 1 \<and> d ! 0 \<noteq> kInvalidNodeId \<and> d ! 0 < g_size g \<and> n_type (node_at g (d ! 0)) = n_type n
         then d ! 0 else kInvalidNodeId)
      else if n_kind n = NK_Select then
        (if length d = kSelectInputs \<and> d ! 1 = d ! 2 then d ! 1 else kInvalidNodeId)
      else if n_kind n = NK_Phi then cp_phi_value g 0 d kInvalidNodeId
      else kInvalidNodeId)"

fun cp_loop :: "node_id list \<Rightarrow> graph \<Rightarrow> nat \<Rightarrow> graph \<times> nat" where
  "cp_loop [] g removed = (g, removed)"
| "cp_loop (i # is) g removed =
     (if node_is_dead (node_at g i) \<or> cp_replacement g i = kInvalidNodeId then cp_loop is g removed
      else cp_loop is (set_dead i (replace_uses i (cp_replacement g i) g)) (removed + 1))"

definition cp_run :: "graph \<Rightarrow> graph \<times> nat" where
  "cp_run g = cp_loop [0..<g_size g] g 0"

subsection \<open>Graphs whose copies are well founded\<close>

text \<open>
  What the pass relies on: casts, selects and phis are pure; a select and a phi have the type
  of their values; and no copy is built on itself (a rank decreases from a cast and a select
  to its operands and from a phi to its first value).
\<close>

definition cp_kind :: "node_kind \<Rightarrow> bool" where
  "cp_kind k \<longleftrightarrow> k = NK_Cast \<or> k = NK_Select \<or> k = NK_Phi"

definition cp_node_ok :: "(node_id \<Rightarrow> nat) \<Rightarrow> graph \<Rightarrow> node_id \<Rightarrow> bool" where
  "cp_node_ok rk g i \<longleftrightarrow> (let n = node_at g i in
     (cp_kind (n_kind n) \<longrightarrow> node_is_pure n)
     \<and> (n_kind n = NK_Select \<or> n_kind n = NK_Phi \<longrightarrow> (\<forall>s \<in> set (tl (n_inputs n)). s \<noteq> kInvalidNodeId \<longrightarrow> n_type (node_at g s) = n_type n))
     \<and> (n_kind n = NK_Cast \<or> n_kind n = NK_Select \<longrightarrow>
          (\<forall>s \<in> set (n_inputs n). s \<noteq> kInvalidNodeId \<longrightarrow> rk s < rk i \<and> \<not> is_merge g s))
     \<and> (n_kind n = NK_Phi \<longrightarrow> rk (n_inputs n ! 1) < rk i))"

definition cp_ok :: "(node_id \<Rightarrow> nat) \<Rightarrow> graph \<Rightarrow> bool" where
  "cp_ok rk g \<longleftrightarrow> (\<forall>i. live_at g i \<longrightarrow> cp_node_ok rk g i)"

text \<open>
  In an execution the copies are copies: an identity cast has its operand's value, a select
  of equal values that value, and a phi whose operands agree at every step theirs.
\<close>

definition copies_at :: "graph \<Rightarrow> 'e valuation \<Rightarrow> node_id \<Rightarrow> bool" where
  "copies_at g v i \<longleftrightarrow> (let n = node_at g i in
     (\<forall>s t. n_kind n = NK_Cast \<longrightarrow> n_inputs n = [s] \<longrightarrow> s \<noteq> kInvalidNodeId \<longrightarrow> n_type (node_at g s) = n_type n \<longrightarrow> v t i = v t s)
     \<and> (\<forall>c a b t. n_kind n = NK_Select \<longrightarrow> n_inputs n = [c, a, b] \<longrightarrow> v t a = v t b \<longrightarrow> v t i = v t a)
     \<and> (\<forall>r x xs t. n_kind n = NK_Phi \<longrightarrow> n_inputs n = r # x # xs \<longrightarrow> (\<forall>y \<in> set xs. \<forall>t. v t y = v t x) \<longrightarrow> v t i = v t x))"

definition copies :: "graph \<Rightarrow> 'e valuation \<Rightarrow> bool" where
  "copies g v \<longleftrightarrow> (\<forall>i. live_at g i \<longrightarrow> copies_at g v i)"

subsection \<open>One replacement\<close>

lemma cp_phi_value_vals:
  assumes "\<forall>x \<in> set vals. x \<noteq> kInvalidNodeId \<and> x < g_size g \<and> n_kind (node_at g x) \<noteq> NK_Region \<and> n_kind (node_at g x) \<noteq> NK_Loop"
  shows "cp_phi_value g (Suc k) vals f =
    (if f = kInvalidNodeId then (case vals of [] \<Rightarrow> f | x # xs \<Rightarrow> if \<forall>y \<in> set xs. y = x then x else kInvalidNodeId)
     else if \<forall>y \<in> set vals. y = f then f else kInvalidNodeId)"
  using assms by (induction vals arbitrary: k f) (auto split: list.splits)

lemma cp_replacement_cases:
  assumes ok: "pass_ok g" and cp: "cp_ok rk g" and i: "live_at g i" and r: "cp_replacement g i \<noteq> kInvalidNodeId"
  defines "new \<equiv> cp_replacement g i"
  shows "live_at g new" "new \<noteq> i" "\<not> is_merge g i" "\<not> is_merge g new" "n_type (node_at g new) = n_type (node_at g i)"
    "rk new < rk i" "copies g v \<Longrightarrow> v t new = v t i"
proof -
  let ?n = "node_at g i"
  have wf: "graph_wf g" using ok by (simp add: pass_ok_def)
  note sz = wf_g_size [OF wf]
  have ci: "cp_node_ok rk g i" using cp i by (simp add: cp_ok_def)
  have cpy: "copies_at g v i" if "copies g v" using that i by (simp add: copies_def)
  have kind: "cp_kind (n_kind ?n)" using r by (auto simp: cp_replacement_def cp_kind_def Let_def split: if_splits)
  then show nm: "\<not> is_merge g i" by (auto simp: is_merge_def cp_kind_def)
  have di: "data_ins ?n = n_inputs ?n" using ci kind by (simp add: cp_node_ok_def data_ins_def Let_def)
  have nv: "new \<noteq> kInvalidNodeId" using r by (simp add: new_def)
  have "new \<in> set (n_inputs ?n) \<and> n_type (node_at g new) = n_type ?n \<and> rk new < rk i \<and> \<not> is_merge g new
    \<and> (\<forall>t. copies g v \<longrightarrow> v t new = v t i)"
  proof -
    consider "n_kind ?n = NK_Cast" | "n_kind ?n = NK_Select" | "n_kind ?n = NK_Phi" using kind by (auto simp: cp_kind_def)
    then show ?thesis
    proof cases
      case 1
      then have "n_inputs ?n = [new]" "n_type (node_at g new) = n_type ?n"
        using r di by (auto simp: cp_replacement_def new_def Let_def length_Suc_conv split: if_splits)
      with 1 ci cpy nv show ?thesis by (auto simp: cp_node_ok_def copies_at_def Let_def)
    next
      case 2
      then have len: "length (n_inputs ?n) = 3" and e: "n_inputs ?n ! 1 = n_inputs ?n ! 2" "new = n_inputs ?n ! 1"
        using r di by (auto simp: cp_replacement_def new_def Let_def kSelectInputs_def split: if_splits)
      from len obtain c a b where "n_inputs ?n = [c, a, b]" by (auto simp: eval_nat_numeral length_Suc_conv)
      with e have "n_inputs ?n = [c, new, new]" by simp
      with 2 ci cpy nv show ?thesis by (auto simp: cp_node_ok_def copies_at_def Let_def)
    next
      case 3
      then have "phi_shape g i" using pass_okD(5) [OF ok] i by (simp add: phis_ok_def)
      then obtain ph x xs where ins: "n_inputs ?n = ph # x # xs" "\<forall>y \<in> set (x # xs). y < length (g_nodes g) \<and> \<not> is_merge g y"
        by (auto simp: phi_shape_def neq_Nil_conv split: list.splits)
      have good: "\<forall>y \<in> set (x # xs). y \<noteq> kInvalidNodeId \<and> y < g_size g \<and> n_kind (node_at g y) \<noteq> NK_Region
          \<and> n_kind (node_at g y) \<noteq> NK_Loop"
        using ins(2) wf by (auto simp: is_merge_def sz graph_wf_def)
      have "new = cp_phi_value g (Suc 0) (x # xs) kInvalidNodeId"
        using 3 di ins(1) by (simp add: new_def cp_replacement_def Let_def)
      with nv have "new = x" "\<forall>y \<in> set xs. y = x"
        unfolding cp_phi_value_vals [OF good] by (auto split: if_splits)
      with 3 ci cpy nv ins show ?thesis by (auto simp: cp_node_ok_def copies_at_def Let_def)
    qed
  qed
  then show "n_type (node_at g new) = n_type ?n" "rk new < rk i" "\<not> is_merge g new" "copies g v \<Longrightarrow> v t new = v t i" "new \<noteq> i"
    and "live_at g new"
    using pass_ok_input_live [OF ok i, of new] nv by auto
qed

lemma cp_step_keeps:
  assumes ok: "pass_ok g" and cp: "cp_ok rk g" and i: "live_at g i"
    and new: "live_at g new" "new \<noteq> i" "\<not> is_merge g new" "n_type (node_at g new) = n_type (node_at g i)" "rk new < rk i"
  defines "g' \<equiv> set_dead i (replace_uses i new g)"
  shows "cp_ok rk g'" "copies g v \<Longrightarrow> (\<And>t. v t new = v t i) \<Longrightarrow> copies g' v"
proof -
  have wf: "graph_wf g" and il: "i < length (g_nodes g)" and nid: "id_ok g new"
    using ok i new(1) by (auto simp: pass_ok_def live_at_def id_ok_def)
  note r = redirect_nodes [OF wf il nid, folded g'_def]
  let ?s = "\<lambda>x. if x = i then new else x"
  have at: "node_at g' j = subst_inputs i new (node_at g j)" and lj: "live_at g j" "j < length (g_nodes g)" if "live_at g' j" for j
    using r(3) [of j] r(4) [of j] that by (auto simp: live_at_def)
  have ty: "n_type (node_at g' x) = n_type (node_at g x)" if "x < length (g_nodes g)" for x using r(3) [OF that] by simp
  have kind: "n_kind (node_at g' x) = n_kind (node_at g x)" if "x < length (g_nodes g)" for x using r(3) [OF that] by simp
  have mrg: "is_merge g' x = is_merge g x" for x using kind [of x] by (auto simp: is_merge_def r(2))
  have tys: "n_type (node_at g' (?s x)) = n_type (node_at g x)" if "x < length (g_nodes g)" for x
    using ty [of "?s x"] that new(1,4) by (auto simp: live_at_def)
  have edge: "x \<noteq> kInvalidNodeId \<Longrightarrow> x < length (g_nodes g)" if "live_at g j" "x \<in> set (n_inputs (node_at g j))" for x j
    using wf_edge [OF wf _ that(2)] that(1) by (auto simp: live_at_def)
  have phi: "\<exists>ph x xs. n_inputs (node_at g j) = ph # x # xs \<and> is_merge g ph \<and> (\<forall>y \<in> set (x # xs). y < length (g_nodes g))"
    if "live_at g j" "n_kind (node_at g j) = NK_Phi" for j
    using pass_okD(5) [OF ok] that by (fastforce simp: phis_ok_def phi_shape_def neq_Nil_conv split: list.splits)
  have new_inv: "new \<noteq> kInvalidNodeId" using new(1) wf by (auto simp: live_at_def graph_wf_def)
  have rks: "rk (?s x) \<le> rk x" for x using new(5) by auto
  have subs: "s \<noteq> kInvalidNodeId \<and> s < length (g_nodes g)" if "live_at g j" "s \<in> set (n_inputs (node_at g j))" "?s s \<noteq> kInvalidNodeId" for s j
    using that edge [OF that(1,2)] il wf by (auto simp: graph_wf_def split: if_splits)
  show "cp_ok rk g'"
    unfolding cp_ok_def
  proof (intro allI impI)
    fix j assume j: "live_at g' j"
    note lj = lj [OF j] and at = at [OF j]
    have c: "cp_node_ok rk g j" using cp lj(1) by (simp add: cp_ok_def)
    have tl_sub: "set (tl xs) \<subseteq> set xs" for xs :: "node_id list" by (cases xs) auto
    have t: "n_type (node_at g' s') = n_type (node_at g j)"
      if "n_kind (node_at g j) = NK_Select \<or> n_kind (node_at g j) = NK_Phi" "s' \<in> set (tl (map ?s (n_inputs (node_at g j))))" "s' \<noteq> kInvalidNodeId" for s'
    proof -
      from that(2) obtain s where s: "s \<in> set (tl (n_inputs (node_at g j)))" "s' = ?s s" by (auto simp: map_tl [symmetric])
      then have "s \<noteq> kInvalidNodeId" "s < length (g_nodes g)" using subs [OF lj(1), of s] that(3) tl_sub by auto
      moreover from this c that(1) s(1) have "n_type (node_at g s) = n_type (node_at g j)"
        unfolding cp_node_ok_def Let_def by blast
      ultimately show ?thesis using s(2) tys [of s] by simp
    qed
    have k: "rk s' < rk j \<and> \<not> is_merge g' s'"
      if "n_kind (node_at g j) = NK_Cast \<or> n_kind (node_at g j) = NK_Select" "s' \<in> set (map ?s (n_inputs (node_at g j)))" "s' \<noteq> kInvalidNodeId" for s'
    proof -
      from that(2) obtain s where s: "s \<in> set (n_inputs (node_at g j))" "s' = ?s s" by auto
      then have "s \<noteq> kInvalidNodeId" using subs [OF lj(1), of s] that(3) by auto
      with c that(1) s(1) have "rk s < rk j" "\<not> is_merge g s" unfolding cp_node_ok_def Let_def by blast+
      with rks [of s] new(3) s(2) show ?thesis by (simp add: mrg)
    qed
    have p: "rk (map ?s (n_inputs (node_at g j)) ! 1) < rk j" if "n_kind (node_at g j) = NK_Phi"
    proof -
      from phi [OF lj(1) that] obtain ph x xs where ins: "n_inputs (node_at g j) = ph # x # xs" by blast
      with c that have "rk x < rk j" by (simp add: cp_node_ok_def Let_def)
      with rks [of x] show ?thesis by (simp add: ins)
    qed
    show "cp_node_ok rk g' j"
      using c t k p unfolding cp_node_ok_def Let_def at by (simp add: node_is_pure_def)
  qed
  show "copies g' v" if cv: "copies g v" and eq: "\<And>t. v t new = v t i"
    unfolding copies_def
  proof (intro allI impI)
    fix j assume j: "live_at g' j"
    note lj = lj [OF j] and at = at [OF j]
    have c: "copies_at g v j" using cv lj(1) by (simp add: copies_def)
    have vs: "v t (?s x) = v t x" for t x by (simp add: eq)
    have cast: "v t j = v t s'" if "n_kind (node_at g j) = NK_Cast" "map ?s (n_inputs (node_at g j)) = [s']"
      "s' \<noteq> kInvalidNodeId" "n_type (node_at g' s') = n_type (node_at g j)" for s' t
    proof -
      from that(2) obtain s where s: "n_inputs (node_at g j) = [s]" "s' = ?s s" by auto
      then have sv: "s \<noteq> kInvalidNodeId" "s < length (g_nodes g)" using subs [OF lj(1), of s] that(3) by auto
      with tys s(2) that(4) have "n_type (node_at g s) = n_type (node_at g j)" by simp
      with c that(1) s(1) sv(1) have "v t j = v t s" unfolding copies_at_def Let_def by blast
      with s(2) vs [of t s] show ?thesis by simp
    qed
    have select: "v t j = v t a'" if "n_kind (node_at g j) = NK_Select" "map ?s (n_inputs (node_at g j)) = [c', a', b']"
      "v t a' = v t b'" for c' a' b' t
    proof -
      from that(2) obtain x a b where s: "n_inputs (node_at g j) = [x, a, b]" "a' = ?s a" "b' = ?s b" by auto
      with that(3) have "v t a = v t b" using vs [of t a] vs [of t b] by simp
      with c that(1) s(1) have "v t j = v t a" unfolding copies_at_def Let_def by blast
      with s(2) vs [of t a] show ?thesis by simp
    qed
    have merge: "v t j = v t x'" if "n_kind (node_at g j) = NK_Phi" "map ?s (n_inputs (node_at g j)) = r' # x' # xs'"
      "\<forall>y \<in> set xs'. \<forall>t. v t y = v t x'" for r' x' xs' t
    proof -
      from that(2) obtain r x xs where s: "n_inputs (node_at g j) = r # x # xs" "x' = ?s x" "xs' = map ?s xs" by auto
      note agree = that(3)
      have "v t y = v t x" if y: "y \<in> set xs" for y t
      proof -
        have "?s y \<in> set xs'" using y s(3) by simp
        with agree have "v t (?s y) = v t x'" by blast
        then show ?thesis unfolding s(2) vs .
      qed
      with c that(1) s(1) have "v t j = v t x" unfolding copies_at_def Let_def by blast
      with s(2) vs [of t x] show ?thesis by simp
    qed
    show "copies_at g' v j"
      unfolding copies_at_def Let_def at subst_inputs_simps using cast select merge by blast
  qed
qed

subsection \<open>The pass\<close>

lemma cp_loop_ok:
  assumes "pass_ok g" "cp_ok rk g" "set is \<subseteq> {..<length (g_nodes g)}"
  shows "pass_ok (fst (cp_loop is g r)) \<and> (\<forall>F sel (v :: 'e valuation). exec F sel g v \<longrightarrow> copies g v \<longrightarrow>
      exec F sel (fst (cp_loop is g r)) v) \<and> length (g_nodes (fst (cp_loop is g r))) = length (g_nodes g)
    \<and> (\<forall>j. live_at (fst (cp_loop is g r)) j \<longrightarrow> live_at g j)
    \<and> card {j. live_at g j} + r = card {j. live_at (fst (cp_loop is g r)) j} + snd (cp_loop is g r)"
  using assms
proof (induction "is" g r rule: cp_loop.induct)
  case (2 i "is" g r)
  show ?case
  proof (cases "node_is_dead (node_at g i) \<or> cp_replacement g i = kInvalidNodeId")
    case True
    with 2 show ?thesis by simp
  next
    case False
    have i: "live_at g i" using False "2.prems"(3) by (simp add: live_at_def)
    have nv: "cp_replacement g i \<noteq> kInvalidNodeId" using False by simp
    note c = cp_replacement_cases [OF "2.prems"(1,2) i nv]
    let ?g = "set_dead i (replace_uses i (cp_replacement g i) g)"
    note k = cp_step_keeps [OF "2.prems"(1,2) i c(1,2,4,5,6)]
    have wf: "graph_wf g" "i < length (g_nodes g)" "id_ok g (cp_replacement g i)"
      using "2.prems"(1) i c(1) by (auto simp: pass_ok_def live_at_def id_ok_def)
    note r = redirect_nodes [OF wf]
    have ok: "pass_ok ?g" by (rule redirect_pass_ok [OF "2.prems"(1) i c(1-4)])
    have ex: "exec F sel ?g v \<and> copies ?g v" if "exec F sel g v" "copies g v" for F sel and v :: "'e valuation"
      using redirect_exec [OF "2.prems"(1) i c(1,3) that(1) c(7) [OF that(2)]] k(2) [OF that(2) c(7) [OF that(2)]] by blast
    have "{j. live_at g j} = insert i {j. live_at ?g j}" "i \<notin> {j. live_at ?g j}" using r(4) i by auto
    moreover have "finite {j. live_at ?g j}" by (rule finite_subset [of _ "{..<length (g_nodes ?g)}"]) (auto simp: live_at_def)
    ultimately have card: "card {j. live_at g j} = Suc (card {j. live_at ?g j})" by simp
    have "set is \<subseteq> {..<length (g_nodes ?g)}" using "2.prems"(3) r(2) by simp
    from "2.IH"(2) [OF False ok k(1) this] ex r(2,4) card False show ?thesis by auto
  qed
qed simp

text \<open>
  C19. Copy propagation on a verified graph whose copies are well founded: the result passes
  the verifier, every execution in which identity casts, selects of equal values and phis of
  agreeing values are copies is an execution of the result, no node comes back to life, and
  the returned number is the number of nodes removed.
\<close>

theorem copy_propagation_correct:
  assumes "pass_ok g" "cp_ok rk g"
  shows "pass_ok (fst (cp_run g))
    \<and> (\<forall>F sel (v :: 'e valuation). exec F sel g v \<longrightarrow> copies g v \<longrightarrow> exec F sel (fst (cp_run g)) v)
    \<and> (\<forall>j. live_at (fst (cp_run g)) j \<longrightarrow> live_at g j)
    \<and> snd (cp_run g) = card {j. live_at g j} - card {j. live_at (fst (cp_run g)) j}"
proof -
  have "graph_wf g" using assms(1) by (simp add: pass_ok_def)
  then have "set [0..<g_size g] \<subseteq> {..<length (g_nodes g)}" by (simp add: wf_g_size atLeast0LessThan)
  from cp_loop_ok [OF assms this, of 0, folded cp_run_def] show ?thesis by auto
qed

definition copy_edits :: "graph_edit list" where
  "copy_edits = [MakeNode NK_Parameter [] 3 0, MakeNode NK_Cast [1] 3 0, MakeNode NK_Select [1, 2, 2] 3 0,
     MakeNode NK_Cast [3] 4 0, MakeNode NK_Return [0, 0, 4] 0 0]"

theorem copy_propagation_correct_witness:
  "pass_ok (fst (cp_run (build copy_edits))) \<and> snd (cp_run (build copy_edits)) = 2
    \<and> {j. live_at (fst (cp_run (build copy_edits))) j} \<subseteq> {j. live_at (build copy_edits) j}"
proof -
  have ok: "pass_ok (build copy_edits)" by (rule build_pass_ok) code_simp
  have "all_live (build copy_edits) (cp_node_ok (\<lambda>i. i) (build copy_edits))" by code_simp
  then have cp: "cp_ok (\<lambda>i. i) (build copy_edits)" by (simp add: all_live_iff cp_ok_def)
  have "snd (cp_run (build copy_edits)) = 2" by code_simp
  with copy_propagation_correct [OF ok cp, where ?'e = nat] show ?thesis by blast
qed

end
