(* ===== verification/InductionVars.thy ===== *)
theory InductionVars
  imports PassBase SwissTables
begin

section \<open>Induction variables\<close>

text \<open>
  \<open>mid/SCEV.cpp\<close> finds the phis of a loop that count, \<open>phi(loop, start, phi + step)\<close>, and
  \<open>mid/InductionVarSimplification.cpp\<close> replaces a product \<open>phi * K\<close> by a counting phi of its
  own. \<open>h\<close> is the hash of the keys of the analysis' table; \<open>None\<close> is a run that does not
  return. Signed arithmetic of the analysis is taken to wrap.
\<close>

datatype scev_kind = SK_Constant | SK_AddRec | SK_Add | SK_Mul | SK_Unknown

record scev_expr =
  se_kind :: scev_kind
  se_start :: i64
  se_step :: i64
  se_trip :: i64
  se_operand_a :: node_id
  se_operand_b :: node_id

definition scev_unknown :: scev_expr where
  "scev_unknown = \<lparr>se_kind = SK_Unknown, se_start = 0, se_step = 0, se_trip = - 1,
     se_operand_a = kInvalidNodeId, se_operand_b = kInvalidNodeId\<rparr>"

type_synonym scev_map = "(node_id, scev_expr) swiss"

subsection \<open>Scalar evolution\<close>

text \<open>The operand of the addition that is not the phi: the last one, if both differ from it.\<close>

definition scev_step :: "node_id \<Rightarrow> node_id list \<Rightarrow> node_id" where
  "scev_step user bd = foldl (\<lambda>s i. if i = user then s else i) kInvalidNodeId bd"

fun scev_trip :: "graph \<Rightarrow> node_id \<Rightarrow> i64 \<Rightarrow> node_id list \<Rightarrow> i64" where
  "scev_trip g user start [] = - 1"
| "scev_trip g user start (c # cs) =
     (let cd = data_ins (node_at g c); n = n_payload (node_at g (cd ! 1)) in
      if c < g_size g \<and> (n_kind (node_at g c) = NK_CmpLt \<or> n_kind (node_at g c) = NK_CmpUlt) \<and> length cd = 2
        \<and> cd ! 0 = user \<and> cd ! 1 \<noteq> kInvalidNodeId \<and> cd ! 1 < g_size g \<and> n_kind (node_at g (cd ! 1)) = NK_Constant
        \<and> 0 < sint (n - start)
      then n - start else scev_trip g user start cs)"

text \<open>What the analysis says of a user of a loop; \<open>None\<close> is a \<open>continue\<close>.\<close>

definition recurrence :: "graph \<Rightarrow> node_id \<Rightarrow> scev_expr option" where
  "recurrence g user =
     (let phi = node_at g user; start = n_inputs phi ! 1; back = n_inputs phi ! 2;
          bd = data_ins (node_at g back); step = scev_step user bd in
      if user \<ge> g_size g \<or> n_kind phi \<noteq> NK_Phi \<or> length (n_inputs phi) \<noteq> kPhiInputs2Branches then None
      else if start = kInvalidNodeId \<or> back = kInvalidNodeId then None
      else if n_kind (node_at g start) \<noteq> NK_Constant \<or> n_kind (node_at g back) \<noteq> NK_Add \<or> length bd \<noteq> 2 then None
      else if step = kInvalidNodeId \<or> step \<ge> g_size g \<or> n_kind (node_at g step) \<noteq> NK_Constant then None
      else Some (scev_unknown\<lparr>se_kind := SK_AddRec, se_start := n_payload (node_at g start), se_step := n_payload (node_at g step),
        se_trip := scev_trip g user (n_payload (node_at g start)) (users_snapshot g user)\<rparr>))"

fun scev_users :: "(node_id \<Rightarrow> 64 word) \<Rightarrow> graph \<Rightarrow> node_id list \<Rightarrow> scev_map \<times> nat \<Rightarrow> (scev_map \<times> nat) option" where
  "scev_users h g [] r = Some r"
| "scev_users h g (u # us) (m, n) =
     (case recurrence g u of None \<Rightarrow> scev_users h g us (m, n)
      | Some e \<Rightarrow> Option.bind (st_insert h u e m) (\<lambda>(_, m1).
          Option.bind (st_insert h (n_inputs (node_at g u) ! 2) e m1) (\<lambda>(_, m2). scev_users h g us (m2, n + 1))))"

fun scev_loops :: "(node_id \<Rightarrow> 64 word) \<Rightarrow> graph \<Rightarrow> node_id list \<Rightarrow> scev_map \<times> nat \<Rightarrow> (scev_map \<times> nat) option" where
  "scev_loops h g [] r = Some r"
| "scev_loops h g (l # ls) r =
     (if node_is_dead (node_at g l) \<or> n_kind (node_at g l) \<noteq> NK_Loop then scev_loops h g ls r
      else Option.bind (scev_users h g (users_snapshot g l) r) (scev_loops h g ls))"

definition scev_analysis :: "(node_id \<Rightarrow> 64 word) \<Rightarrow> graph \<Rightarrow> (scev_map \<times> nat) option" where
  "scev_analysis h g = scev_loops h g [0..<g_size g] (st_new, 0)"

definition scev_of :: "(node_id \<Rightarrow> 64 word) \<Rightarrow> scev_map \<Rightarrow> node_id \<Rightarrow> scev_expr" where
  "scev_of h m i = (case st_get h m i of Some e \<Rightarrow> e | None \<Rightarrow> scev_unknown)"

definition trip_count_of :: "(node_id \<Rightarrow> 64 word) \<Rightarrow> scev_map \<Rightarrow> node_id \<Rightarrow> i64" where
  "trip_count_of h m i = (case st_get h m i of Some e \<Rightarrow> se_trip e | None \<Rightarrow> - 1)"

definition scev_run :: "(node_id \<Rightarrow> 64 word) \<Rightarrow> graph \<Rightarrow> (graph \<times> nat) option" where
  "scev_run h g = map_option (\<lambda>(m, n). (g, n)) (scev_analysis h g)"

subsection \<open>The derived variable\<close>

definition kIVSMaxInductionVarsPerLoop :: nat where
  "kIVSMaxInductionVarsPerLoop = 8"

definition live_constant :: "graph \<Rightarrow> node_id \<Rightarrow> bool" where
  "live_constant g i \<longleftrightarrow> i \<noteq> kInvalidNodeId \<and> i < g_size g \<and> \<not> node_is_dead (node_at g i) \<and> n_kind (node_at g i) = NK_Constant"

text \<open>The constant factor of a product by the phi.\<close>

definition ivs_factor :: "graph \<Rightarrow> node_id \<Rightarrow> node_id \<Rightarrow> node_id option" where
  "ivs_factor g phi mul =
     (let d = data_ins (node_at g mul) in
      if mul \<ge> g_size g \<or> node_is_dead (node_at g mul) \<or> n_kind (node_at g mul) \<noteq> NK_Mul \<or> length d \<noteq> 2 then None
      else if d ! 0 = phi \<and> live_constant g (d ! 1) then Some (d ! 1)
      else if d ! 1 = phi \<and> live_constant g (d ! 0) then Some (d ! 0) else None)"

definition has_live_user :: "graph \<Rightarrow> node_id \<Rightarrow> bool" where
  "has_live_user g i \<longleftrightarrow> list_ex (\<lambda>u. u < g_size g \<and> \<not> node_is_dead (node_at g u)) (users_snapshot g i)"

definition ivs_derive :: "node_id \<Rightarrow> node_id \<Rightarrow> i64 \<Rightarrow> node_id \<Rightarrow> node_id \<Rightarrow> graph \<Rightarrow> graph option" where
  "ivs_derive loop phi step mul k_id g =
     (let factor = n_payload (node_at g k_id); entry_val = n_inputs (node_at g phi) ! 1; ty = n_type (node_at g phi);
          (j_entry, g1) = (if live_constant g entry_val then make_constant_i64 (n_payload (node_at g entry_val) * factor) ty g
            else make_binop NK_Mul entry_val k_id ty g);
          (j_phi, g2) = make_phi loop [j_entry, kInvalidNodeId] ty g1;
          (j_step, g3) = make_constant_i64 (step * factor) ty g2;
          (j_back, g4) = make_binop NK_Add j_phi j_step ty g3
      in map_option (\<lambda>g5. set_dead mul (replace_uses mul j_phi g5)) (set_input j_phi 2 j_back g4))"

fun ivs_muls :: "node_id \<Rightarrow> node_id \<Rightarrow> i64 \<Rightarrow> node_id list \<Rightarrow> graph \<times> nat \<Rightarrow> (graph \<times> nat) option" where
  "ivs_muls loop phi step [] r = Some r"
| "ivs_muls loop phi step (mul # us) (g, n) =
     (case ivs_factor g phi mul of None \<Rightarrow> ivs_muls loop phi step us (g, n)
      | Some k \<Rightarrow> if has_live_user g mul then Option.bind (ivs_derive loop phi step mul k g) (\<lambda>g'. ivs_muls loop phi step us (g', n + 1))
                  else ivs_muls loop phi step us (g, n))"

text \<open>
  The two loops run to the current size of the graph. \<open>True\<close>: the limit was reached and the
  pass returns.
\<close>

partial_function (option) ivs_phis :: "(node_id \<Rightarrow> 64 word) \<Rightarrow> scev_map \<Rightarrow> node_id \<Rightarrow> node_id \<Rightarrow> graph \<times> nat \<Rightarrow> (bool \<times> graph \<times> nat) option" where
  "ivs_phis h m loop phi r =
     (let g = fst r; p = node_at g phi; e = scev_of h m phi in
      if phi \<ge> g_size g then Some (False, r)
      else if node_is_dead p \<or> n_kind p \<noteq> NK_Phi \<or> n_inputs p = [] \<or> n_inputs p ! 0 \<noteq> loop \<or> se_kind e \<noteq> SK_AddRec \<or> se_step e = 0
      then ivs_phis h m loop (phi + 1) r
      else if snd r \<ge> kIVSMaxInductionVarsPerLoop then Some (True, r)
      else Option.bind (ivs_muls loop phi (se_step e) (users_snapshot g phi) r) (ivs_phis h m loop (phi + 1)))"

partial_function (option) ivs_loops :: "(node_id \<Rightarrow> 64 word) \<Rightarrow> scev_map \<Rightarrow> node_id \<Rightarrow> graph \<times> nat \<Rightarrow> (graph \<times> nat) option" where
  "ivs_loops h m i r =
     (let g = fst r in
      if i \<ge> g_size g then Some r
      else if node_is_dead (node_at g i) \<or> n_kind (node_at g i) \<noteq> NK_Loop then ivs_loops h m (i + 1) r
      else Option.bind (ivs_phis h m i 0 r) (\<lambda>(stop, r'). if stop then Some r' else ivs_loops h m (i + 1) r'))"

declare ivs_phis.simps [code] ivs_loops.simps [code]

definition ivs_run :: "(node_id \<Rightarrow> 64 word) \<Rightarrow> graph \<Rightarrow> (graph \<times> nat) option" where
  "ivs_run h g = Option.bind (scev_analysis h g) (\<lambda>(m, _). ivs_loops h m 0 (g, 0))"

subsection \<open>What the analysis finds\<close>

lemma recurrenceD:
  assumes "recurrence g i = Some e"
  shows "i < g_size g" "n_kind (node_at g i) = NK_Phi" "length (n_inputs (node_at g i)) = 3"
    "n_kind (node_at g (n_inputs (node_at g i) ! 2)) = NK_Add"
    "n_inputs (node_at g i) ! 2 \<noteq> kInvalidNodeId" "n_inputs (node_at g i) ! 1 \<noteq> kInvalidNodeId"
    "n_kind (node_at g (n_inputs (node_at g i) ! 1)) = NK_Constant" "se_start e = n_payload (node_at g (n_inputs (node_at g i) ! 1))"
  using assms by (auto simp: recurrence_def Let_def kPhiInputs2Branches_def split: if_splits)

lemma recurrence_step:
  assumes "recurrence g i = Some e"
  defines "bd \<equiv> data_ins (node_at g (n_inputs (node_at g i) ! 2))"
  shows "length bd = 2" "n_kind (node_at g (scev_step i bd)) = NK_Constant" "se_step e = n_payload (node_at g (scev_step i bd))"
    "scev_step i bd \<noteq> kInvalidNodeId" "scev_step i bd < g_size g" "se_kind e = SK_AddRec"
  using assms by (auto simp: recurrence_def Let_def split: if_splits)

text \<open>Every entry of the table is a recurrence, of a phi or under its addition.\<close>

definition entries_of :: "(node_id \<Rightarrow> 64 word) \<Rightarrow> graph \<Rightarrow> scev_map \<Rightarrow> bool" where
  "entries_of h g m \<longleftrightarrow> st_ok h m \<and> (\<forall>i e. st_get h m i = Some e \<longrightarrow>
     (\<exists>u. recurrence g u = Some e \<and> (i = u \<or> i = n_inputs (node_at g u) ! 2)))"

lemma entries_put:
  assumes "entries_of h g m" "recurrence g u = Some e" "i = u \<or> i = n_inputs (node_at g u) ! 2"
  obtains b m' where "st_insert h i e m = Some (b, m')" "entries_of h g m'"
proof -
  have ok: "st_ok h m" using assms(1) by (simp add: entries_of_def)
  from sw.put_ok [OF this, of i e] obtain b m' where m': "st_insert h i e m = Some (b, m')" "st_ok h m'" "st_get h m' = (st_get h m)(i \<mapsto> e)"
    by auto
  have "entries_of h g m'" unfolding entries_of_def m'(3) using assms m'(2) by (auto simp: entries_of_def)
  with m'(1) that show thesis by blast
qed

lemma scev_users_ok: "entries_of h g m \<Longrightarrow> \<exists>m' n'. scev_users h g us (m, n) = Some (m', n') \<and> entries_of h g m'"
proof (induction us arbitrary: m n)
  case (Cons u us)
  show ?case
  proof (cases "recurrence g u")
    case None
    with Cons show ?thesis by simp
  next
    case (Some e)
    obtain b1 m1 where m1: "st_insert h u e m = Some (b1, m1)" "entries_of h g m1" by (rule entries_put [OF Cons.prems Some]) auto
    obtain b2 m2 where "st_insert h (n_inputs (node_at g u) ! 2) e m1 = Some (b2, m2)" "entries_of h g m2"
      by (rule entries_put [OF m1(2) Some, of "n_inputs (node_at g u) ! 2"]) auto
    with m1 Some Cons.IH show ?thesis by simp
  qed
qed simp

lemma scev_loops_ok: "entries_of h g m \<Longrightarrow> \<exists>m' n'. scev_loops h g ls (m, n) = Some (m', n') \<and> entries_of h g m'"
proof (induction ls arbitrary: m n)
  case (Cons l ls)
  from scev_users_ok [OF Cons.prems, of "users_snapshot g l" n] Cons show ?case by fastforce
qed simp

lemma scev_analysis_ok: "\<exists>m n. scev_analysis h g = Some (m, n) \<and> entries_of h g m"
  unfolding scev_analysis_def by (rule scev_loops_ok) (simp add: entries_of_def sw.inv_empty sw.get_empty)

lemma entries_bound: "entries_of h g m \<Longrightarrow> graph_wf g \<Longrightarrow> st_get h m i = Some e \<Longrightarrow> i < length (g_nodes g)"
proof -
  assume m: "entries_of h g m" "st_get h m i = Some e" and wf: "graph_wf g"
  then obtain u where u: "recurrence g u = Some e" "i = u \<or> i = n_inputs (node_at g u) ! 2" by (auto simp: entries_of_def)
  have "u < length (g_nodes g)" using recurrenceD(1) [OF u(1)] wf_g_size [OF wf] by simp
  moreover have "n_inputs (node_at g u) ! 2 \<in> set (n_inputs (node_at g u))" using recurrenceD(3) [OF u(1)] by simp
  ultimately show ?thesis using wf_edge [OF wf] u(2) recurrenceD(5) [OF u(1)] by metis
qed

lemma entries_phi: "entries_of h g m \<Longrightarrow> st_get h m i = Some e \<Longrightarrow> n_kind (node_at g i) = NK_Phi \<Longrightarrow> recurrence g i = Some e"
  unfolding entries_of_def using recurrenceD(4) by fastforce

subsection \<open>One derived variable\<close>

text \<open>Several nodes at the end of the graph, which may refer to each other.\<close>

lemma append_pass_ok:
  assumes ok: "pass_ok g" and wf': "graph_wf g'" and nodes: "g_nodes g' = g_nodes g @ new"
    and new: "\<forall>n \<in> set new. n_flags n = 0 \<and> n_effect n = Pure
      \<and> (\<forall>s \<in> set (n_inputs n). s = kInvalidNodeId \<or> live_at g s \<or> (length (g_nodes g) \<le> s \<and> s < length (g_nodes g')))"
    and phis: "\<forall>n \<in> set new. n_kind n = NK_Phi \<longrightarrow> (case n_inputs n of [] \<Rightarrow> False
      | r # vals \<Rightarrow> is_merge g r \<and> vals \<noteq> [] \<and> (\<forall>x \<in> set vals. x < length (g_nodes g') \<and> \<not> is_merge g' x))"
  shows "pass_ok g'"
proof (rule pass_okI [OF wf'])
  let ?n = "length (g_nodes g)"
  have old: "node_at g' j = node_at g j" if "j < ?n" for j using that by (simp add: nodes nth_append)
  have fresh: "node_at g' j \<in> set new" if "?n \<le> j" "j < length (g_nodes g')" for j using that by (simp add: nodes nth_append)
  have clear: "\<not> node_has n b" if "n \<in> set new" for n b using new that by (simp add: flags_has_def)
  have live: "live_at g' j \<longleftrightarrow> (if j < ?n then live_at g j else j < length (g_nodes g'))" for j
    using old fresh clear nodes by (auto simp: live_at_def)
  have mrg: "is_merge g r \<Longrightarrow> is_merge g' r" for r using old nodes by (auto simp: is_merge_def)
  have mrg': "is_merge g' x \<Longrightarrow> x < ?n \<Longrightarrow> is_merge g x" for x using old by (auto simp: is_merge_def)
  have lim: "length (g_nodes g') \<le> kInvalidNodeId" using wf' by (simp add: graph_wf_def)
  show "no_dead_input g'" unfolding no_dead_input_def
  proof (intro allI impI ballI)
    fix j s assume j: "live_at g' j" and s: "s \<in> set (n_inputs (node_at g' j))" "s < length (g_nodes g')"
    have "live_at g' s"
    proof (cases "j < ?n")
      case True
      with j live have "live_at g j" by simp
      with s lim old True pass_ok_input_live [OF ok, of j s] live show ?thesis by (auto simp: live_at_def)
    next
      case False
      with j live fresh new s lim show ?thesis by (fastforce simp: live_at_def)
    qed
    then show "\<not> node_is_dead (node_at g' s)" by (simp add: live_at_def)
  qed
  show "effect_linked g'" unfolding effect_linked_def
  proof (intro allI impI)
    fix j assume j: "live_at g' j" "\<not> node_is_pure (node_at g' j)" "n_kind (node_at g' j) \<noteq> NK_Start"
    have "j < ?n"
    proof (rule ccontr)
      assume "\<not> j < ?n"
      with j(1) fresh live have "node_at g' j \<in> set new" by simp
      with new j(2) show False by (simp add: node_is_pure_def)
    qed
    with j old live pass_okD(3) [OF ok] show "eff_in (node_at g' j) \<noteq> kInvalidNodeId" by (simp add: effect_linked_def)
  qed
  show "guards_framed g'" unfolding guards_framed_def
  proof (intro allI impI)
    fix j assume j: "j < length (g_nodes g')" and s: "node_has (node_at g' j) IsPgoSpeculated" "node_has (node_at g' j) IsGuarded"
    have "j < ?n"
    proof (rule ccontr)
      assume "\<not> j < ?n"
      with j fresh clear s(1) show False by simp
    qed
    with s old pass_okD(4) [OF ok] show "node_has (node_at g' j) HasFrameState" by (simp add: guards_framed_def)
  qed
  show "phis_ok g'" unfolding phis_ok_def
  proof (intro allI impI)
    fix j assume j: "live_at g' j" "n_kind (node_at g' j) = NK_Phi"
    show "phi_shape g' j"
    proof (cases "j < ?n")
      case True
      with j live old pass_okD(5) [OF ok] have "phi_shape g j" by (simp add: phis_ok_def)
      with old [OF True] mrg mrg' nodes show ?thesis by (auto simp: phi_shape_def split: list.splits)
    next
      case False
      with j live fresh have "node_at g' j \<in> set new" by simp
      with phis j(2) mrg show ?thesis by (fastforce simp: phi_shape_def split: list.splits)
    qed
  qed
qed

lemma append_exec:
  assumes wf: "graph_wf g" and lim: "length (g_nodes g') \<le> kInvalidNodeId" and nodes: "g_nodes g' = g_nodes g @ new"
    and ex: "exec F sel g v" and v': "\<And>t j. j < length (g_nodes g) \<or> length (g_nodes g') \<le> j \<Longrightarrow> v' t j = v t j"
    and new: "\<And>t j. length (g_nodes g) \<le> j \<Longrightarrow> j < length (g_nodes g') \<Longrightarrow> node_ok F sel v' t (node_at g' j) (v' t j)"
  shows "exec F sel g' v'"
  unfolding exec_def
proof (intro allI impI)
  fix t j assume j: "live_at g' j"
  show "node_ok F sel v' t (node_at g' j) (v' t j)"
  proof (cases "j < length (g_nodes g)")
    case True
    then have at: "node_at g' j = node_at g j" by (simp add: nodes nth_append)
    with j True have "live_at g j" by (simp add: live_at_def)
    with ex have ok: "node_ok F sel v t (node_at g j) (v t j)" by (simp add: exec_def)
    have "v' t s = v t s" if "s \<in> set (n_inputs (node_at g j))" for t s
      using wf_edge [OF wf True that] lim v' by auto
    then have "node_ok F sel v' t (node_at g j) (v t j) \<longleftrightarrow> node_ok F sel v t (node_at g j) (v t j)"
      by (intro node_ok_cong) auto
    with ok at v' True show ?thesis by simp
  qed (use j new in \<open>simp add: live_at_def\<close>)
qed

text \<open>The four nodes of a derived variable whose first id is \<open>n\<close>.\<close>

definition derived_nodes :: "node_id \<Rightarrow> type_id \<Rightarrow> i64 \<Rightarrow> i64 \<Rightarrow> nat \<Rightarrow> node list" where
  "derived_nodes loop ty entry step n =
     [\<lparr>n_kind = NK_Constant, n_effect = effect_class_of NK_Constant, n_flags = 0, n_type = ty, n_payload = entry, n_inputs = []\<rparr>,
      \<lparr>n_kind = NK_Phi, n_effect = Pure, n_flags = 0, n_type = ty, n_payload = 0, n_inputs = [loop, n, n + 3]\<rparr>,
      \<lparr>n_kind = NK_Constant, n_effect = effect_class_of NK_Constant, n_flags = 0, n_type = ty, n_payload = step, n_inputs = []\<rparr>,
      \<lparr>n_kind = NK_Add, n_effect = effect_class_of NK_Add, n_flags = 0, n_type = ty, n_payload = 0, n_inputs = [n + 1, n + 2]\<rparr>]"

lemma ivs_derive_eq:
  assumes wf: "graph_wf g" and room: "length (g_nodes g) + 4 < kInvalidNodeId" and loop: "loop < length (g_nodes g)"
    and entry: "live_constant g (n_inputs (node_at g phi) ! 1)"
  obtains g5 where "graph_wf g5" "ivs_derive loop phi step mul k g = Some (set_dead mul (replace_uses mul (length (g_nodes g) + 1) g5))"
    "g_nodes g5 = g_nodes g @ derived_nodes loop (n_type (node_at g phi))
       (n_payload (node_at g (n_inputs (node_at g phi) ! 1)) * n_payload (node_at g k)) (step * n_payload (node_at g k)) (length (g_nodes g))"
proof -
  let ?n = "length (g_nodes g)" and ?ty = "n_type (node_at g phi)" and ?K = "n_payload (node_at g k)"
    and ?e = "n_payload (node_at g (n_inputs (node_at g phi) ! 1))"
  note mk = make_constant_i64_def make_binop_def make_phi_def make_node_def
  obtain g1 where g1: "make_constant_i64 (?e * ?K) ?ty g = (?n, g1)" "graph_wf g1" "g_nodes g1 = g_nodes g @ take 1 (derived_nodes loop ?ty (?e * ?K) (step * ?K) ?n)"
    using add_node_wf [OF wf] add_node_id [OF wf] room by (simp add: mk prod_eq_iff derived_nodes_def)
  obtain g2 where g2: "make_phi loop [?n, kInvalidNodeId] ?ty g1 = (?n + 1, g2)" "graph_wf g2"
    "g_nodes g2 = g_nodes g1 @ [\<lparr>n_kind = NK_Phi, n_effect = Pure, n_flags = 0, n_type = ?ty, n_payload = 0, n_inputs = [loop, ?n, kInvalidNodeId]\<rparr>]"
    using add_node_wf [OF g1(2)] add_node_id [OF g1(2)] g1(3) room loop by (simp add: mk prod_eq_iff id_ok_def derived_nodes_def)
  obtain g3 where g3: "make_constant_i64 (step * ?K) ?ty g2 = (?n + 2, g3)" "graph_wf g3"
    "g_nodes g3 = g_nodes g2 @ [derived_nodes loop ?ty (?e * ?K) (step * ?K) ?n ! 2]"
    using add_node_wf [OF g2(2)] add_node_id [OF g2(2)] g2(3) g1(3) room by (simp add: mk prod_eq_iff derived_nodes_def)
  obtain g4 where g4: "make_binop NK_Add (?n + 1) (?n + 2) ?ty g3 = (?n + 3, g4)" "graph_wf g4"
    "g_nodes g4 = g_nodes g3 @ [derived_nodes loop ?ty (?e * ?K) (step * ?K) ?n ! 3]"
    using add_node_wf [OF g3(2)] add_node_id [OF g3(2)] g3(3) g2(3) g1(3) room by (simp add: mk prod_eq_iff id_ok_def derived_nodes_def)
  have at: "node_at g4 (?n + 1) = \<lparr>n_kind = NK_Phi, n_effect = Pure, n_flags = 0, n_type = ?ty, n_payload = 0, n_inputs = [loop, ?n, kInvalidNodeId]\<rparr>"
    using g1(3) g2(3) g3(3) g4(3) by (simp add: derived_nodes_def nth_append)
  with room obtain g5 where g5: "set_input (?n + 1) 2 (?n + 3) g4 = Some g5"
    "g_nodes g5 = g_nodes (update_node (?n + 1) (\<lambda>nd. nd\<lparr>n_inputs := (n_inputs nd)[2 := ?n + 3]\<rparr>) g4)"
    by (simp add: set_input_def)
  have "graph_wf g5" using set_input_wf [OF g4(2) _ _ g5(1)] g1(3) g2(3) g3(3) g4(3) by (simp add: id_ok_def derived_nodes_def)
  moreover have "g_nodes g5 = g_nodes g @ derived_nodes loop ?ty (?e * ?K) (step * ?K) ?n"
    using g1(3) g2(3) g3(3) g4(3) at unfolding g5(2) update_node_def
    by (simp add: derived_nodes_def list_update_append numeral_2_eq_2)
  moreover have "ivs_derive loop phi step mul k g = Some (set_dead mul (replace_uses mul (?n + 1) g5))"
    using entry g1(1) g2(1) g3(1) g4(1) g5(1) by (simp add: ivs_derive_def Let_def)
  ultimately show thesis using that by blast
qed

text \<open>
  \<open>counts g e phi loop\<close>: \<open>phi\<close> is \<open>phi(loop, start, phi + step)\<close>. A selector is \<open>timely\<close> at a
  loop when what comes in over the back edge is from an earlier step.
\<close>

definition counts :: "graph \<Rightarrow> scev_expr \<Rightarrow> node_id \<Rightarrow> node_id \<Rightarrow> bool" where
  "counts g e phi loop \<longleftrightarrow> (\<exists>s b c. live_at g phi \<and> n_kind (node_at g phi) = NK_Phi \<and> n_inputs (node_at g phi) = [loop, s, b]
     \<and> live_at g s \<and> n_kind (node_at g s) = NK_Constant \<and> n_payload (node_at g s) = se_start e
     \<and> live_at g b \<and> n_kind (node_at g b) = NK_Add \<and> (n_inputs (node_at g b) = [phi, c] \<or> n_inputs (node_at g b) = [c, phi])
     \<and> live_at g c \<and> n_kind (node_at g c) = NK_Constant \<and> n_payload (node_at g c) = se_step e)"

definition timely :: "selector \<Rightarrow> node_id \<Rightarrow> bool" where
  "timely sel r \<longleftrightarrow> (\<forall>t t' k. sel t r = (t', k) \<longrightarrow> k mod 2 \<noteq> 0 \<longrightarrow> t' < t)"

lemma exec_constant: "exec F sel g v \<Longrightarrow> live_at g i \<Longrightarrow> n_kind (node_at g i) = NK_Constant \<Longrightarrow> v t i = VInt (n_payload (node_at g i))"
  unfolding exec_def by (fastforce simp: node_ok_def free_kinds_def)

lemma exec_binop:
  assumes "exec F sel g v" "live_at g i" "n_kind (node_at g i) = k" "n_inputs (node_at g i) = [a, b]"
    "k = NK_Add \<or> k = NK_Mul" "v t a = VInt x" "v t b = VInt y"
  shows "v t i = VInt (if k = NK_Add then x + y else x * y)"
proof -
  have "node_ok F sel v t (node_at g i) (v t i)" using assms(1,2) by (simp add: exec_def)
  with assms(3-7) show ?thesis by (auto simp: node_ok_def free_kinds_def apply_kind_def binop_sem_def)
qed

lemma exec_phi2:
  assumes "exec F sel g v" "live_at g i" "n_kind (node_at g i) = NK_Phi" "n_inputs (node_at g i) = [r, a, b]" "sel t r = (t', k)"
  shows "v t i = v t' (if k mod 2 = 0 then a else b)"
proof -
  have "node_ok F sel v t (node_at g i) (v t i)" using assms(1,2) by (simp add: exec_def)
  moreover have "k mod 2 = 0 \<or> k mod 2 = 1" by auto
  ultimately show ?thesis using assms(3-5) by (auto simp: node_ok_def free_kinds_def numeral_2_eq_2)
qed

text \<open>A counting phi is an integer at every step.\<close>

lemma counts_step:
  assumes ex: "exec F sel g v" and c: "counts g e phi loop" and i: "v t' phi = VInt a"
  shows "v t' (n_inputs (node_at g phi) ! 2) = VInt (a + se_step e)"
proof -
  from c obtain b k where b: "n_inputs (node_at g phi) ! 2 = b" "live_at g b" "n_kind (node_at g b) = NK_Add"
    "n_inputs (node_at g b) = [phi, k] \<or> n_inputs (node_at g b) = [k, phi]" "live_at g k" "n_kind (node_at g k) = NK_Constant"
    "n_payload (node_at g k) = se_step e" unfolding counts_def by fastforce
  have "v t' k = VInt (se_step e)" using exec_constant [OF ex b(5,6)] b(7) by simp
  with exec_binop [OF ex b(2,3), of phi k t' a "se_step e"] exec_binop [OF ex b(2,3), of k phi t' "se_step e" a] b(1,4) i
  show ?thesis by (auto simp: add.commute)
qed

lemma counts_int:
  assumes ex: "exec F sel g v" and c: "counts g e phi loop" and t: "timely sel loop"
  shows "\<exists>a. v t phi = VInt a"
proof (induction t rule: less_induct)
  case (less t)
  from c obtain s b where p: "live_at g phi" "n_kind (node_at g phi) = NK_Phi" "n_inputs (node_at g phi) = [loop, s, b]"
    "live_at g s" "n_kind (node_at g s) = NK_Constant" by (auto simp: counts_def)
  obtain t' k where s: "sel t loop = (t', k)" by fastforce
  note v = exec_phi2 [OF ex p(1-3) s]
  show ?case
  proof (cases "k mod 2 = 0")
    case True
    with v exec_constant [OF ex p(4,5)] show ?thesis by simp
  next
    case False
    with t s have "t' < t" by (auto simp: timely_def)
    from less [OF this] obtain a where "v t' phi = VInt a" by blast
    from counts_step [OF ex c this] p(3) v False show ?thesis by simp
  qed
qed

text \<open>The product is replaced by a phi that has its value at every step.\<close>

lemma derived_exec:
  assumes wf: "graph_wf g" and ex: "exec F sel g v" and c: "counts g e phi loop" and t: "timely sel loop"
    and mul: "live_at g mul" "n_kind (node_at g mul) = NK_Mul" "n_inputs (node_at g mul) = [phi, k] \<or> n_inputs (node_at g mul) = [k, phi]"
    and k: "live_at g k" "n_kind (node_at g k) = NK_Constant"
    and g5: "graph_wf g5" "g_nodes g5 = g_nodes g @ derived_nodes loop ty (se_start e * n_payload (node_at g k)) (se_step e * n_payload (node_at g k)) (length (g_nodes g))"
  shows "\<exists>v'. exec F sel g5 v' \<and> (\<forall>t j. j < length (g_nodes g) \<longrightarrow> v' t j = v t j) \<and> (\<forall>t. v' t (length (g_nodes g) + 1) = v' t mul)"
proof -
  let ?n = "length (g_nodes g)" and ?K = "n_payload (node_at g k)"
  obtain a where a: "\<And>t. v t phi = VInt (a t)" using counts_int [OF ex c t] by metis
  have vm: "v t mul = VInt (a t * ?K)" for t
    using exec_binop [OF ex mul(1,2), of phi k t "a t" ?K] exec_binop [OF ex mul(1,2), of k phi t ?K "a t"] mul(3) a exec_constant [OF ex k]
    by (auto simp: mult.commute)
  let ?v = "\<lambda>t j. if j = ?n then VInt (se_start e * ?K) else if j = ?n + 1 then VInt (a t * ?K)
    else if j = ?n + 2 then VInt (se_step e * ?K) else if j = ?n + 3 then VInt ((a t + se_step e) * ?K) else v t j"
  have len: "length (g_nodes g5) = ?n + 4" by (simp add: g5(2) derived_nodes_def)
  from c obtain s b where p: "live_at g phi" "n_kind (node_at g phi) = NK_Phi" "n_inputs (node_at g phi) = [loop, s, b]"
    "live_at g s" "n_kind (node_at g s) = NK_Constant" "n_payload (node_at g s) = se_start e" by (auto simp: counts_def)
  have phi: "a t * ?K = (if j mod 2 = 0 then se_start e * ?K else (a t' + se_step e) * ?K)" if "sel t loop = (t', j)" for t t' j
    using exec_phi2 [OF ex p(1-3) that] exec_constant [OF ex p(4,5)] p(3,6) counts_step [OF ex c a, of t'] a [of t] by (auto split: if_splits)
  have "exec F sel g5 ?v"
  proof (rule append_exec [OF wf _ g5(2) ex])
    show "length (g_nodes g5) \<le> kInvalidNodeId" using g5(1) by (simp add: graph_wf_def)
    fix t j assume j: "?n \<le> j" "j < length (g_nodes g5)"
    then consider "j = ?n" | "j = ?n + 1" | "j = ?n + 2" | "j = ?n + 3" using len by linarith
    then show "node_ok F sel ?v t (node_at g5 j) (?v t j)"
    proof cases
      case 2
      obtain t' i where s: "sel t loop = (t', i)" by fastforce
      have "i mod 2 = 0 \<or> i mod 2 = 1" by auto
      with 2 phi [OF s] s show ?thesis by (auto simp: g5(2) derived_nodes_def node_ok_def free_kinds_def nth_append numeral_2_eq_2)
    next
      case 4
      then show ?thesis
        by (simp add: g5(2) derived_nodes_def node_ok_def free_kinds_def nth_append apply_kind_def binop_sem_def distrib_right numeral_3_eq_3)
    qed (simp_all add: g5(2) derived_nodes_def node_ok_def free_kinds_def nth_append numeral_2_eq_2)
  qed (use len in auto)
  moreover have "mul < ?n" using mul(1) by (simp add: live_at_def)
  ultimately show ?thesis by (intro exI [of _ ?v]) (simp add: vm)
qed

subsection \<open>The pass\<close>

definition arith_pure :: "graph \<Rightarrow> bool" where
  "arith_pure g \<longleftrightarrow> (\<forall>i. live_at g i \<longrightarrow> n_kind (node_at g i) = NK_Add \<or> n_kind (node_at g i) = NK_Mul \<longrightarrow> node_is_pure (node_at g i))"

definition muls :: "graph \<Rightarrow> nat" where
  "muls g = card {i. live_at g i \<and> n_kind (node_at g i) = NK_Mul}"

text \<open>What every rewrite keeps; it trades a product for four nodes.\<close>

definition derived_ok :: "'e kind_fun \<Rightarrow> selector \<Rightarrow> graph \<Rightarrow> graph \<Rightarrow> bool" where
  "derived_ok F sel g g' \<longleftrightarrow> pass_ok g' \<and> arith_pure g' \<and> length (g_nodes g) \<le> length (g_nodes g')
     \<and> length (g_nodes g') + 4 * muls g' \<le> length (g_nodes g) + 4 * muls g
     \<and> (\<forall>i. live_at g' i \<longrightarrow> i < length (g_nodes g) \<longrightarrow> live_at g i)
     \<and> (\<forall>i. live_at g i \<longrightarrow> n_kind (node_at g i) \<noteq> NK_Mul \<longrightarrow> live_at g' i)
     \<and> (\<forall>i < length (g_nodes g). n_kind (node_at g' i) = n_kind (node_at g i))
     \<and> (\<forall>i. length (g_nodes g) \<le> i \<longrightarrow> i < length (g_nodes g') \<longrightarrow> n_kind (node_at g' i) \<noteq> NK_Loop)
     \<and> (\<forall>e phi loop. counts g e phi loop \<longrightarrow> counts g' e phi loop) \<and> simulates F sel g g'"

lemma derived_refl: "pass_ok g \<Longrightarrow> arith_pure g \<Longrightarrow> derived_ok F sel g g"
  by (simp add: derived_ok_def simulates_refl)

lemma derivedD:
  assumes "derived_ok F sel g g'"
  shows "pass_ok g'" "arith_pure g'" "length (g_nodes g) \<le> length (g_nodes g')" "simulates F sel g g'"
    "length (g_nodes g') + 4 * muls g' \<le> length (g_nodes g) + 4 * muls g"
    "live_at g' i \<Longrightarrow> i < length (g_nodes g) \<Longrightarrow> live_at g i"
    "live_at g i \<Longrightarrow> n_kind (node_at g i) \<noteq> NK_Mul \<Longrightarrow> live_at g' i"
    "i < length (g_nodes g) \<Longrightarrow> n_kind (node_at g' i) = n_kind (node_at g i)"
    "length (g_nodes g) \<le> i \<Longrightarrow> i < length (g_nodes g') \<Longrightarrow> n_kind (node_at g' i) \<noteq> NK_Loop"
    "counts g e phi loop \<Longrightarrow> counts g' e phi loop"
  using assms unfolding derived_ok_def by blast+

lemma derived_trans: "derived_ok F sel g1 g2 \<Longrightarrow> derived_ok F sel g2 g3 \<Longrightarrow> derived_ok F sel g1 g3"
proof -
  assume ab: "derived_ok F sel g1 g2" "derived_ok F sel g2 g3"
  note a = derivedD [OF ab(1)] and b = derivedD [OF ab(2)]
  note le = a(3) b(3)
  have "simulates F sel g1 g3" by (rule simulates_trans [OF a(4) b(4) a(3)])
  moreover have "n_kind (node_at g3 i) \<noteq> NK_Loop" if "length (g_nodes g1) \<le> i" "i < length (g_nodes g3)" for i
    using a(9) [OF that(1)] b(8,9) [of i] that(2) by (cases "i < length (g_nodes g2)") simp_all
  moreover have "live_at g3 i" if "live_at g1 i" "n_kind (node_at g1 i) \<noteq> NK_Mul" for i
  proof -
    have "i < length (g_nodes g1)" using that(1) by (simp add: live_at_def)
    then show ?thesis using b(7) [OF a(7) [OF that]] a(8) that(2) by simp
  qed
  moreover have "live_at g1 i" if "live_at g3 i" "i < length (g_nodes g1)" for i using a(6) b(6) that le by simp
  moreover have "n_kind (node_at g3 i) = n_kind (node_at g1 i)" if "i < length (g_nodes g1)" for i using a(8) b(8) that le by simp
  moreover have "counts g3 e phi loop" if "counts g1 e phi loop" for e phi loop using a(10) b(10) that by blast
  ultimately show ?thesis using b(1,2) a(5) b(5) le unfolding derived_ok_def by simp
qed

lemma derive_step:
  assumes ok: "pass_ok g" "arith_pure g" and room: "length (g_nodes g) + 4 < kInvalidNodeId"
    and loop: "live_at g loop" "n_kind (node_at g loop) = NK_Loop" "timely sel loop" and c: "counts g e phi loop"
    and mul: "live_at g mul" "n_kind (node_at g mul) = NK_Mul" "n_inputs (node_at g mul) = [phi, k] \<or> n_inputs (node_at g mul) = [k, phi]"
    and k: "live_at g k" "n_kind (node_at g k) = NK_Constant"
  shows "\<exists>g'. ivs_derive loop phi (se_step e) mul k g = Some g' \<and> derived_ok F sel g g'"
proof -
  let ?n = "length (g_nodes g)" and ?s = "n_inputs (node_at g phi) ! 1"
  have wf: "graph_wf g" using ok(1) by (rule pass_okD)
  have s: "live_at g ?s" "n_kind (node_at g ?s) = NK_Constant" "n_payload (node_at g ?s) = se_start e" using c by (auto simp: counts_def)
  have lim: "?n \<le> kInvalidNodeId" using wf by (simp add: graph_wf_def)
  have lc: "live_constant g ?s" using s lim wf_g_size [OF wf] by (auto simp: live_constant_def live_at_def)
  have l: "loop < ?n" "mul < ?n" using loop(1) mul(1) by (simp_all add: live_at_def)
  obtain g5 where g5: "graph_wf g5"
    "ivs_derive loop phi (se_step e) mul k g = Some (set_dead mul (replace_uses mul (?n + 1) g5))"
    "g_nodes g5 = g_nodes g @ derived_nodes loop (n_type (node_at g phi)) (se_start e * n_payload (node_at g k)) (se_step e * n_payload (node_at g k)) ?n"
    by (rule ivs_derive_eq [OF wf room l(1) lc, where step = "se_step e" and mul = mul and k = k]) (use s in auto)
  have len: "length (g_nodes g5) = ?n + 4" by (simp add: g5(3) derived_nodes_def)
  have old: "node_at g5 j = node_at g j" if "j < ?n" for j using that by (simp add: g5(3) nth_append)
  have new: "?n \<le> j \<Longrightarrow> j < ?n + 4 \<Longrightarrow> node_at g5 j \<in> set (derived_nodes loop (n_type (node_at g phi))
      (se_start e * n_payload (node_at g k)) (se_step e * n_payload (node_at g k)) ?n)" for j
  proof -
    let ?d = "derived_nodes loop (n_type (node_at g phi)) (se_start e * n_payload (node_at g k)) (se_step e * n_payload (node_at g k)) ?n"
    assume j: "?n \<le> j" "j < ?n + 4"
    have "length ?d = 4" by (simp add: derived_nodes_def)
    with j nth_mem [of "j - ?n" ?d] show ?thesis by (simp add: g5(3) nth_append)
  qed
  have ok5: "pass_ok g5"
  proof (rule append_pass_ok [OF ok(1) g5(1,3)])
    have "\<not> is_merge g5 ?n" "\<not> is_merge g5 (?n + 3)" by (simp_all add: is_merge_def g5(3) derived_nodes_def nth_append)
    moreover have "is_merge g loop" using loop l by (simp add: is_merge_def)
    ultimately show "\<forall>n \<in> set (derived_nodes loop (n_type (node_at g phi)) (se_start e * n_payload (node_at g k)) (se_step e * n_payload (node_at g k)) ?n).
      n_kind n = NK_Phi \<longrightarrow> (case n_inputs n of [] \<Rightarrow> False
      | r # vals \<Rightarrow> is_merge g r \<and> vals \<noteq> [] \<and> (\<forall>x \<in> set vals. x < length (g_nodes g5) \<and> \<not> is_merge g5 x))"
      by (simp add: derived_nodes_def len)
  qed (use loop(1) len in \<open>simp add: derived_nodes_def\<close>)
  have live5: "live_at g5 j \<longleftrightarrow> (if j < ?n then live_at g j else j < ?n + 4)" for j
    using old new [of j] len by (auto simp: live_at_def derived_nodes_def flags_has_def)
  let ?g = "set_dead mul (replace_uses mul (?n + 1) g5)"
  have mrg: "\<not> is_merge g5 mul" "\<not> is_merge g5 (?n + 1)"
    using mul(2) old l(2) by (simp_all add: is_merge_def g5(3) derived_nodes_def nth_append)
  have lv: "live_at g5 mul" "live_at g5 (?n + 1)" using mul(1) l(2) live5 by simp_all
  have "mul < length (g_nodes g5)" "id_ok g5 (?n + 1)" using l(2) len by (simp_all add: id_ok_def)
  note r = redirect_nodes [OF g5(1) this]
  have live: "live_at ?g j \<longleftrightarrow> (if j < ?n then live_at g j \<and> j \<noteq> mul else j < ?n + 4)" for j using r(4) live5 l(2) by auto
  have at: "node_at ?g j = subst_inputs mul (?n + 1) (node_at g j)" if "j < ?n" "j \<noteq> mul" for j using r(3) len old that by simp
  have kind: "n_kind (node_at ?g j) = n_kind (node_at g5 j)" "n_effect (node_at ?g j) = n_effect (node_at g5 j)" if "j < ?n + 4" for j
    using r(3) len that by (simp_all add: len)
  have fresh: "n_kind (node_at g5 j) \<in> {NK_Constant, NK_Phi, NK_Add}" "n_effect (node_at g5 j) = Pure" if "?n \<le> j" "j < ?n + 4" for j
    using new [OF that] by (auto simp: derived_nodes_def)
  have mulI: "live_at ?g i \<and> n_kind (node_at ?g i) = NK_Mul \<longleftrightarrow> (live_at g i \<and> n_kind (node_at g i) = NK_Mul) \<and> i \<noteq> mul" for i
  proof (cases "i < ?n")
    case True
    with kind(1) [of i] old [of i] live [of i] show ?thesis by auto
  next
    case False
    then have "\<not> live_at g i" by (simp add: live_at_def)
    with False kind(1) [of i] fresh(1) [of i] live [of i] show ?thesis by auto
  qed
  have "{i. live_at ?g i \<and> n_kind (node_at ?g i) = NK_Mul} = {i. live_at g i \<and> n_kind (node_at g i) = NK_Mul} - {mul}"
    by (simp only: mulI) blast
  moreover have "finite {i. live_at g i \<and> n_kind (node_at g i) = NK_Mul}" by (rule finite_subset [of _ "{..<?n}"]) (auto simp: live_at_def)
  then have "Suc (card ({i. live_at g i \<and> n_kind (node_at g i) = NK_Mul} - {mul})) = muls g"
    unfolding muls_def by (rule card_Suc_Diff1) (use mul(1,2) in simp)
  ultimately have "Suc (muls ?g) = muls g" by (simp only: muls_def [of ?g])
  moreover have "arith_pure ?g" unfolding arith_pure_def
  proof (intro allI impI)
    fix i assume i: "live_at ?g i" "n_kind (node_at ?g i) = NK_Add \<or> n_kind (node_at ?g i) = NK_Mul"
    then show "node_is_pure (node_at ?g i)"
      using live [of i] kind [of i] old [of i] fresh(2) [of i] ok(2)
      by (cases "i < ?n") (auto simp: arith_pure_def node_is_pure_def)
  qed
  moreover have "counts ?g e' phi' loop'" if c': "counts g e' phi' loop'" for e' phi' loop'
  proof -
    from c' obtain s b c where p: "live_at g phi'" "n_kind (node_at g phi') = NK_Phi" "n_inputs (node_at g phi') = [loop', s, b]"
      "live_at g s" "n_kind (node_at g s) = NK_Constant" "n_payload (node_at g s) = se_start e'"
      "live_at g b" "n_kind (node_at g b) = NK_Add" "n_inputs (node_at g b) = [phi', c] \<or> n_inputs (node_at g b) = [c, phi']"
      "live_at g c" "n_kind (node_at g c) = NK_Constant" "n_payload (node_at g c) = se_step e'" by (auto simp: counts_def)
    have ne: "phi' \<noteq> mul" "s \<noteq> mul" "b \<noteq> mul" "c \<noteq> mul" using p mul(2) by auto
    have lt: "phi' < ?n" "s < ?n" "b < ?n" "c < ?n" using p by (simp_all add: live_at_def)
    have "loop' \<noteq> mul"
    proof -
      have "phi_shape g phi'" using pass_okD(5) [OF ok(1)] p by (simp add: phis_ok_def)
      with p(3) mul(2) show ?thesis by (auto simp: phi_shape_def is_merge_def)
    qed
    with p ne lt at live show ?thesis unfolding counts_def by (intro exI [of _ s] exI [of _ b] exI [of _ c]) auto
  qed
  moreover have "pass_ok ?g" by (rule redirect_pass_ok [OF ok5 lv _ mrg]) (use l in simp)
  moreover have "simulates F sel g ?g" unfolding simulates_def
  proof (intro allI impI)
    fix v assume "exec F sel g v"
    from derived_exec [OF wf this c loop(3) mul k g5(1,3)] obtain v' where v': "exec F sel g5 v'"
      "\<forall>t j. j < ?n \<longrightarrow> v' t j = v t j" "\<forall>t. v' t (?n + 1) = v' t mul" by blast
    have "exec F sel ?g v'" by (rule redirect_exec [OF ok5 lv mrg(1) v'(1)]) (use v'(3) in simp)
    with v'(2) show "\<exists>v'. exec F sel ?g v' \<and> (\<forall>t i. i < ?n \<longrightarrow> v' t i = v t i)" by blast
  qed
  moreover have "n_kind (node_at ?g i) = n_kind (node_at g i)" if "i < ?n" for i using kind(1) old that by simp
  moreover have "n_kind (node_at ?g i) \<noteq> NK_Loop" if "?n \<le> i" "i < ?n + 4" for i using kind(1) fresh(1) that by fastforce
  moreover have "live_at ?g i" if i: "live_at g i" "n_kind (node_at g i) \<noteq> NK_Mul" for i
  proof -
    have "i < ?n" using i(1) by (simp add: live_at_def)
    with i mul(2) live show ?thesis by auto
  qed
  moreover have "live_at g i" if "live_at ?g i" "i < ?n" for i using live that by simp
  moreover have "length (g_nodes ?g) = ?n + 4" using r(2) len by simp
  ultimately have "derived_ok F sel g ?g" unfolding derived_ok_def by simp
  with g5(2) show ?thesis by blast
qed

lemma ivs_factorD:
  assumes ok: "pass_ok g" "arith_pure g" and f: "ivs_factor g phi mul = Some k"
  shows "live_at g mul" "n_kind (node_at g mul) = NK_Mul" "n_inputs (node_at g mul) = [phi, k] \<or> n_inputs (node_at g mul) = [k, phi]"
    "live_at g k" "n_kind (node_at g k) = NK_Constant"
proof -
  have sz: "g_size g = length (g_nodes g)" using wf_g_size pass_okD(1) [OF ok(1)] by blast
  show m: "live_at g mul" "n_kind (node_at g mul) = NK_Mul" using f sz
    by (auto simp: ivs_factor_def Let_def live_at_def split: if_splits)
  show "live_at g k" "n_kind (node_at g k) = NK_Constant" using f sz
    by (auto simp: ivs_factor_def Let_def live_at_def live_constant_def split: if_splits)
  have "data_ins (node_at g mul) = n_inputs (node_at g mul)" using ok(2) m by (simp add: arith_pure_def data_ins_def)
  then show "n_inputs (node_at g mul) = [phi, k] \<or> n_inputs (node_at g mul) = [k, phi]" using f
    by (auto simp: ivs_factor_def Let_def length_Suc_conv numeral_2_eq_2 split: if_splits)
qed

lemma ivs_muls_ok:
  assumes room: "length (g_nodes g0) + 4 * muls g0 < kInvalidNodeId"
    and loop: "live_at g0 loop" "n_kind (node_at g0 loop) = NK_Loop" "timely sel loop" and c: "counts g0 e phi loop"
  shows "derived_ok F sel g0 g \<Longrightarrow> \<exists>g' n'. ivs_muls loop phi (se_step e) us (g, n) = Some (g', n') \<and> derived_ok F sel g0 g'"
proof (induction us arbitrary: g n)
  case (Cons mul us)
  note d = derivedD [OF Cons.prems]
  show ?case
  proof (cases "ivs_factor g phi mul")
    case None
    then show ?thesis using Cons by simp
  next
    case (Some k)
    note f = ivs_factorD [OF d(1,2) Some]
    have "finite {i. live_at g i \<and> n_kind (node_at g i) = NK_Mul}" by (rule finite_subset [of _ "{..<length (g_nodes g)}"]) (auto simp: live_at_def)
    then have "0 < muls g" unfolding muls_def using f(1,2) by (subst card_gt_0_iff) blast
    then have r: "length (g_nodes g) + 4 < kInvalidNodeId" using d(5) room by linarith
    have l: "loop < length (g_nodes g0)" using loop(1) by (simp add: live_at_def)
    have lp: "live_at g loop" "n_kind (node_at g loop) = NK_Loop" using d(7) [OF loop(1)] d(8) [OF l] loop(2) by simp_all
    from derive_step [OF d(1,2) r lp loop(3) d(10) [OF c] f]
    obtain g' where g': "ivs_derive loop phi (se_step e) mul k g = Some g'" "derived_ok F sel g g'" by blast
    show ?thesis using Cons.IH [OF derived_trans [OF Cons.prems g'(2)]] Cons.IH [OF Cons.prems] g'(1) Some by simp
  qed
qed simp

text \<open>The recurrences of the analysis whose addition really adds to the phi.\<close>

definition adds_to_itself :: "graph \<Rightarrow> bool" where
  "adds_to_itself g \<longleftrightarrow> (\<forall>i e. live_at g i \<longrightarrow> recurrence g i = Some e \<longrightarrow> i \<in> set (data_ins (node_at g (n_inputs (node_at g i) ! 2))))"

lemma counts_recurrence:
  assumes ok: "pass_ok g" "arith_pure g" "adds_to_itself g" and i: "live_at g i" "recurrence g i = Some e"
  shows "counts g e i (n_inputs (node_at g i) ! 0)"
proof -
  let ?s = "n_inputs (node_at g i) ! 1" and ?b = "n_inputs (node_at g i) ! 2"
  let ?bd = "data_ins (node_at g ?b)"
  note r = recurrenceD [OF i(2)] and st = recurrence_step [OF i(2)]
  have ins: "n_inputs (node_at g i) = [n_inputs (node_at g i) ! 0, ?s, ?b]" using r(3) by (auto simp: length_Suc_conv numeral_3_eq_3)
  then have "?s \<in> set (n_inputs (node_at g i))" "?b \<in> set (n_inputs (node_at g i))" by (simp_all add: r(3))
  then have lv: "live_at g ?s" "live_at g ?b" using pass_ok_input_live [OF ok(1) i(1)] r(5,6) by blast+
  have bd: "?bd = n_inputs (node_at g ?b)" using ok(2) lv(2) r(4) by (simp add: arith_pure_def data_ins_def)
  obtain x y where xy: "?bd = [x, y]" using st(1) by (auto simp: length_Suc_conv numeral_2_eq_2)
  have "i \<in> {x, y}" using ok(3) i xy unfolding adds_to_itself_def by fastforce
  then have ab: "?bd = [i, scev_step i ?bd] \<or> ?bd = [scev_step i ?bd, i]" using xy st(4) by (auto simp: scev_step_def)
  then have "scev_step i ?bd \<in> set ?bd" by (metis list.set_intros(1,2))
  then have "live_at g (scev_step i ?bd)" using pass_ok_input_live [OF ok(1) lv(2), of "scev_step i ?bd"] st(4) unfolding bd by blast
  then show ?thesis unfolding counts_def using ins r i(1) lv st(2,3) ab bd
    by (intro exI [of _ ?s] exI [of _ ?b] exI [of _ "scev_step i ?bd"]) simp
qed

lemma ivs_phis_ok:
  assumes ok: "pass_ok g0" "arith_pure g0" "adds_to_itself g0" and room: "length (g_nodes g0) + 4 * muls g0 < kInvalidNodeId"
    and m: "entries_of h g0 m" and loop: "live_at g0 loop" "n_kind (node_at g0 loop) = NK_Loop" "timely sel loop"
  shows "derived_ok F sel g0 g \<Longrightarrow> \<exists>b g' n'. ivs_phis h m loop phi (g, n) = Some (b, g', n') \<and> derived_ok F sel g0 g'"
proof (induction "length (g_nodes g0) + 4 * muls g0 - phi" arbitrary: phi g n rule: less_induct)
  case less
  note d = derivedD [OF less.prems]
  let ?p = "node_at g phi" and ?e = "scev_of h m phi"
  have sz: "g_size g = length (g_nodes g)" by (rule wf_g_size [OF pass_okD(1) [OF d(1)]])
  show ?case
  proof (cases "phi < length (g_nodes g)")
    case False
    then have "ivs_phis h m loop phi (g, n) = Some (False, g, n)" using sz by (subst ivs_phis.simps) simp
    with less.prems show ?thesis by blast
  next
    case True
    then have "length (g_nodes g0) + 4 * muls g0 - (phi + 1) < length (g_nodes g0) + 4 * muls g0 - phi" using d(5) by linarith
    note IH = less.hyps [OF this]
    show ?thesis
    proof (cases "node_is_dead ?p \<or> n_kind ?p \<noteq> NK_Phi \<or> n_inputs ?p = [] \<or> n_inputs ?p ! 0 \<noteq> loop \<or> se_kind ?e \<noteq> SK_AddRec \<or> se_step ?e = 0")
      case skip: True
      then show ?thesis using IH [OF less.prems] True sz by (subst ivs_phis.simps) (auto simp: Let_def)
    next
      case go: False
      then have get: "st_get h m phi = Some ?e" by (auto simp: scev_of_def scev_unknown_def split: option.splits)
      have lt: "phi < length (g_nodes g0)" by (rule entries_bound [OF m pass_okD(1) [OF ok(1)] get])
      have lv: "live_at g0 phi" using d(6) [of phi] go True lt by (simp add: live_at_def)
      have "recurrence g0 phi = Some ?e" by (rule entries_phi [OF m get]) (use go d(8) [OF lt] in simp)
      from counts_recurrence [OF ok lv this] have c: "counts g0 ?e phi (n_inputs (node_at g0 phi) ! 0)" .
      have "n_inputs (node_at g0 phi) ! 0 = loop" using d(10) [OF c] go by (auto simp: counts_def)
      with c have c: "counts g0 ?e phi loop" by simp
      from ivs_muls_ok [OF room loop c less.prems, of "users_snapshot g phi" n]
      obtain g1 n1 where g1: "ivs_muls loop phi (se_step ?e) (users_snapshot g phi) (g, n) = Some (g1, n1)" "derived_ok F sel g0 g1" by blast
      have "ivs_phis h m loop phi (g, n) = (if n \<ge> kIVSMaxInductionVarsPerLoop then Some (True, g, n) else ivs_phis h m loop (phi + 1) (g1, n1))"
        using go True sz g1(1) by (subst ivs_phis.simps) (simp add: Let_def)
      then show ?thesis using IH [OF g1(2), of n1] less.prems by simp blast
    qed
  qed
qed

lemma ivs_loops_ok:
  assumes ok: "pass_ok g0" "arith_pure g0" "adds_to_itself g0" and room: "length (g_nodes g0) + 4 * muls g0 < kInvalidNodeId"
    and m: "entries_of h g0 m" and loops: "\<forall>l. live_at g0 l \<longrightarrow> n_kind (node_at g0 l) = NK_Loop \<longrightarrow> timely sel l"
  shows "derived_ok F sel g0 g \<Longrightarrow> \<exists>g' n'. ivs_loops h m i (g, n) = Some (g', n') \<and> derived_ok F sel g0 g'"
proof (induction "length (g_nodes g0) + 4 * muls g0 - i" arbitrary: i g n rule: less_induct)
  case less
  note d = derivedD [OF less.prems]
  have sz: "g_size g = length (g_nodes g)" by (rule wf_g_size [OF pass_okD(1) [OF d(1)]])
  show ?case
  proof (cases "i < length (g_nodes g)")
    case False
    then show ?thesis using less.prems sz by (subst ivs_loops.simps) simp
  next
    case True
    then have "length (g_nodes g0) + 4 * muls g0 - (i + 1) < length (g_nodes g0) + 4 * muls g0 - i" using d(5) by linarith
    note IH = less.hyps [OF this]
    show ?thesis
    proof (cases "node_is_dead (node_at g i) \<or> n_kind (node_at g i) \<noteq> NK_Loop")
      case skip: True
      then show ?thesis using IH [OF less.prems] True sz by (subst ivs_loops.simps) (auto simp: Let_def)
    next
      case go: False
      have lt: "i < length (g_nodes g0)" using d(9) [of i] go True by linarith
      have l: "live_at g0 i" "n_kind (node_at g0 i) = NK_Loop" using d(6) [of i] d(8) [OF lt] go True lt by (simp_all add: live_at_def)
      from ivs_phis_ok [OF ok room m l loops [rule_format, OF l] less.prems, of 0 n]
      obtain b g1 n1 where g1: "ivs_phis h m i 0 (g, n) = Some (b, g1, n1)" "derived_ok F sel g0 g1" by blast
      show ?thesis using go True sz g1 IH [OF g1(2)] by (subst ivs_loops.simps) (simp add: Let_def)
    qed
  qed
qed

lemma muls_le: "muls g \<le> length (g_nodes g)"
proof -
  have "muls g \<le> card {..<length (g_nodes g)}" unfolding muls_def by (rule card_mono) (auto simp: live_at_def)
  then show ?thesis by simp
qed

text \<open>
  C25. The pass returns, and the products it replaces keep their values in every execution:
  on a graph that verifies, whose counting phis do add to themselves and whose loops take the
  back edge from an earlier step.
\<close>

theorem ivs_correct:
  assumes "pass_ok g" "arith_pure g" "adds_to_itself g" "5 * length (g_nodes g) < kInvalidNodeId"
    and "\<forall>l. live_at g l \<longrightarrow> n_kind (node_at g l) = NK_Loop \<longrightarrow> timely sel l"
  shows "\<exists>g' n. ivs_run h g = Some (g', n) \<and> pass_ok g' \<and> simulates F sel g g'"
proof -
  obtain m k where m: "scev_analysis h g = Some (m, k)" "entries_of h g m" using scev_analysis_ok by blast
  have "length (g_nodes g) + 4 * muls g < kInvalidNodeId" using assms(4) muls_le [of g] by linarith
  from ivs_loops_ok [OF assms(1-3) this m(2) assms(5) derived_refl [OF assms(1,2), where F = F and sel = sel], of 0 0]
  obtain g' n where "ivs_loops h m 0 (g, 0) = Some (g', n)" "derived_ok F sel g g'" by blast
  with m(1) derivedD(1,4) show ?thesis unfolding ivs_run_def by fastforce
qed

definition counting_edits :: "node_id \<Rightarrow> node_id \<Rightarrow> graph_edit list" where
  "counting_edits x m = [MakeNode NK_Constant [] 3 0, MakeNode NK_Constant [] 3 3, MakeNode NK_Constant [] 3 2,
     MakeNode NK_Constant [] 3 1, MakeNode NK_Loop [0, 0] 0 0, MakePhi 5 [1, 1] 3, MakePhi 5 [1, 1] 3,
     MakeNode NK_Add [x, 2] 3 0, MakeNode NK_Add [7, 4] 3 0, SetInput 6 2 8, SetInput 7 2 9,
     MakeNode NK_Mul [m, 3] 3 0, MakeNode NK_Add [10, 1] 3 0, MakeNode NK_Return [0, 0, 11] 0 0]"

theorem ivs_correct_witness:
  "\<exists>g' n. ivs_run of_nat (build (counting_edits 6 7)) = Some (g', n) \<and> pass_ok g' \<and>
     simulates (\<lambda>k ty p xs. VOpaque (0 :: nat)) (\<lambda>t r. if t = 0 then (0, 0) else (t - 1, 1)) (build (counting_edits 6 7)) g'"
proof -
  let ?g = "build (counting_edits 6 7)"
  have ok: "pass_ok ?g" by (rule build_pass_ok) code_simp
  have len: "length (g_nodes ?g) = 13" by code_simp
  have "all_live ?g (\<lambda>i. n_kind (node_at ?g i) = NK_Add \<or> n_kind (node_at ?g i) = NK_Mul \<longrightarrow> node_is_pure (node_at ?g i))" by code_simp
  then have ar: "arith_pure ?g" by (simp add: arith_pure_def all_live_iff)
  have "all_live ?g (\<lambda>i. recurrence ?g i \<noteq> None \<longrightarrow> i \<in> set (data_ins (node_at ?g (n_inputs (node_at ?g i) ! 2))))" by code_simp
  then have ad: "adds_to_itself ?g" by (auto simp: adds_to_itself_def all_live_iff)
  show ?thesis by (rule ivs_correct [OF ok ar ad]) (auto simp: len kInvalidNodeId_def timely_def split: if_splits)
qed

lemma ivs_muls_none: "\<forall>u \<in> set us. ivs_factor g phi u = None \<Longrightarrow> ivs_muls loop phi s us (g, n) = Some (g, n)"
  by (induction us) auto

lemma ivs_phis_skip:
  assumes "\<forall>j. i \<le> j \<longrightarrow> j < k \<longrightarrow> n_kind (node_at g j) \<noteq> NK_Phi \<or> se_kind (scev_of h m j) \<noteq> SK_AddRec" "k \<le> g_size g" "i \<le> k"
  shows "ivs_phis h m loop i (g, n) = ivs_phis h m loop k (g, n)"
  using assms(3,1)
proof (induction i rule: inc_induct)
  case (step i)
  then have "ivs_phis h m loop i (g, n) = ivs_phis h m loop (Suc i) (g, n)" using assms(2)
    by (subst ivs_phis.simps) (auto simp: Let_def)
  with step show ?case by simp
qed simp

lemma ivs_loops_skip:
  assumes "\<forall>j. i \<le> j \<longrightarrow> j < k \<longrightarrow> n_kind (node_at g j) \<noteq> NK_Loop" "k \<le> g_size g" "i \<le> k"
  shows "ivs_loops h m i (g, n) = ivs_loops h m k (g, n)"
  using assms(3,1)
proof (induction i rule: inc_induct)
  case (step i)
  then have "ivs_loops h m i (g, n) = ivs_loops h m (Suc i) (g, n)" using assms(2)
    by (subst ivs_loops.simps) (auto simp: Let_def)
  with step show ?case by simp
qed simp

definition miscounted :: graph where
  "miscounted = build (counting_edits 7 6)"

lemma miscounted_ok: "pass_ok miscounted"
  unfolding miscounted_def by (rule build_pass_ok) code_simp

lemma miscounted_arith:
  "all_live miscounted (\<lambda>i. n_kind (node_at miscounted i) = NK_Add \<or> n_kind (node_at miscounted i) = NK_Mul \<longrightarrow> node_is_pure (node_at miscounted i))"
  by code_simp

lemma miscounted_facts:
  "length (g_nodes miscounted) = 13" "g_size miscounted = 13" "users_snapshot miscounted 5 = [6, 7]" "users_snapshot miscounted 6 = [10]"
  "map (\<lambda>i. n_kind (node_at miscounted i)) [0..<13] = [NK_Start, NK_Constant, NK_Constant, NK_Constant, NK_Constant, NK_Loop,
     NK_Phi, NK_Phi, NK_Add, NK_Add, NK_Mul, NK_Add, NK_Return]"
  by code_simp+

lemma miscounted_kind:
  assumes "i < 13"
  shows "n_kind (node_at miscounted i) = [NK_Start, NK_Constant, NK_Constant, NK_Constant, NK_Constant, NK_Loop,
     NK_Phi, NK_Phi, NK_Add, NK_Add, NK_Mul, NK_Add, NK_Return] ! i"
  using assms by (subst miscounted_facts(5) [symmetric]) simp

lemma miscounted_kindD:
  assumes "j < 13"
  shows "n_kind (node_at miscounted j) = NK_Loop \<longleftrightarrow> j = 5" "n_kind (node_at miscounted j) = NK_Phi \<longleftrightarrow> j = 6 \<or> j = 7"
    "n_kind (node_at miscounted j) = NK_Mul \<longleftrightarrow> j = 10"
  using assms by (auto simp: miscounted_kind nth_Cons' split: if_splits)

lemma miscounted_scev:
  "map_option se_step (recurrence miscounted 6) = Some 3" "map_option se_step (recurrence miscounted 7) = Some 1"
  "ivs_factor miscounted 6 10 = Some 3" "has_live_user miscounted 10" "list_all (live_at miscounted) [0..<13]"
  by code_simp+

lemma miscounted_nodes:
  "map (\<lambda>i. n_inputs (node_at miscounted i)) [5, 6, 7, 8, 9, 10, 11, 12] = [[0, 0], [5, 1, 8], [5, 1, 9], [7, 2], [7, 4], [6, 3], [10, 1], [0, 0, 11]]"
  "map (\<lambda>i. n_payload (node_at miscounted i)) [1, 2, 3, 4, 11] = [0, 3, 2, 1, 0]"
  by code_simp+

lemma miscounted_analysis:
  obtains m k where "scev_analysis h miscounted = Some (m, k)" "se_kind (scev_of h m 6) = SK_AddRec" "se_step (scev_of h m 6) = 3"
    "\<And>j. j \<notin> {6, 7, 8, 9} \<Longrightarrow> se_kind (scev_of h m j) \<noteq> SK_AddRec"
proof -
  let ?g = miscounted
  obtain e6 e7 where e: "recurrence ?g 6 = Some e6" "se_step e6 = 3" "recurrence ?g 7 = Some e7" using miscounted_scev by auto
  have b: "n_inputs (node_at ?g 6) ! 2 = 8" "n_inputs (node_at ?g 7) ! 2 = 9" using miscounted_nodes by simp_all
  have kd: "\<And>j. j \<in> {0..<13} - {5} \<Longrightarrow> n_kind (node_at ?g j) \<noteq> NK_Loop" "n_kind (node_at ?g 5) = NK_Loop"
    by (auto simp: miscounted_kindD)
  have skip: "scev_loops h ?g ls r = Some r" if "\<forall>l \<in> set ls. n_kind (node_at ?g l) \<noteq> NK_Loop" for ls r
    using that by (induction ls) auto
  have app: "scev_loops h ?g (xs @ ys) r = scev_loops h ?g ys r" if "\<forall>l \<in> set xs. n_kind (node_at ?g l) \<noteq> NK_Loop" for xs ys r
    using that by (induction xs) auto
  have split: "[0..<g_size ?g] = [0..<5] @ 5 # [6..<13]" by (simp add: miscounted_facts(2) upt_rec)
  have dead: "\<not> node_is_dead (node_at ?g 5)" using miscounted_scev(5) by (simp add: list_all_iff live_at_def)
  have "scev_loops h ?g [0..<g_size ?g] (st_new, 0) = scev_users h ?g [6, 7] (st_new, 0)"
    unfolding split using kd by (subst app) (auto simp: dead miscounted_facts(3) skip bind_eq_Some_conv split: bind_splits)
  have put: "\<exists>b m'. st_insert h i e m = Some (b, m') \<and> st_ok h m' \<and> st_get h m' = (st_get h m)(i \<mapsto> e)" if "st_ok h m" for i e and m :: scev_map
    using sw.put_ok [OF that, of i e] by fastforce
  obtain b1 m1 where m1: "st_insert h 6 e6 st_new = Some (b1, m1)" "st_ok h m1" "st_get h m1 = (st_get h st_new)(6 \<mapsto> e6)"
    using put [OF sw.inv_empty] by blast
  obtain b2 m2 where m2: "st_insert h 8 e6 m1 = Some (b2, m2)" "st_ok h m2" "st_get h m2 = (st_get h m1)(8 \<mapsto> e6)"
    using put [OF m1(2)] by blast
  obtain b3 m3 where m3: "st_insert h 7 e7 m2 = Some (b3, m3)" "st_ok h m3" "st_get h m3 = (st_get h m2)(7 \<mapsto> e7)"
    using put [OF m2(2)] by blast
  obtain b4 m4 where m4: "st_insert h 9 e7 m3 = Some (b4, m4)" "st_get h m4 = (st_get h m3)(9 \<mapsto> e7)"
    using put [OF m3(2)] by blast
  have get: "st_get h m4 = [6 \<mapsto> e6, 8 \<mapsto> e6, 7 \<mapsto> e7, 9 \<mapsto> e7]" by (auto simp: m1(3) m2(3) m3(3) m4(2) sw.get_empty fun_eq_iff)
  have "scev_users h ?g [6, 7] (st_new, 0) = Some (m4, 0 + 1 + 1)" by (simp add: e b m1(1) m2(1) m3(1) m4(1))
  moreover have "se_kind e6 = SK_AddRec" by (rule recurrence_step [OF e(1)])
  ultimately show thesis using \<open>scev_loops h ?g [0..<g_size ?g] (st_new, 0) = _\<close>
    by (intro that [of m4 "0 + 1 + 1"]) (auto simp: scev_analysis_def scev_of_def get e(2) scev_unknown_def)
qed

lemma miscounted_run:
  obtains g' where "ivs_run h miscounted = Some (g', 1)" "list_all (live_at g') [11, 13, 14, 15, 16]"
    "map (\<lambda>i. (n_kind (node_at g' i), n_payload (node_at g' i), n_inputs (node_at g' i))) [11, 13, 14, 15, 16] =
      [(NK_Add, 0, [14, 1]), (NK_Constant, 0, []), (NK_Phi, 0, [5, 13, 16]), (NK_Constant, 6, []), (NK_Add, 0, [14, 15])]"
proof -
  let ?g = miscounted
  note f = miscounted_facts
  have wf: "graph_wf ?g" by (rule pass_okD [OF miscounted_ok])
  obtain m k where m: "scev_analysis h ?g = Some (m, k)" "se_kind (scev_of h m 6) = SK_AddRec" "se_step (scev_of h m 6) = 3"
    "\<And>j. j \<notin> {6, 7, 8, 9} \<Longrightarrow> se_kind (scev_of h m j) \<noteq> SK_AddRec" by (rule miscounted_analysis) blast
  have live: "live_at ?g i" if "i < 13" for i using miscounted_scev(5) that by (simp add: list_all_iff)
  have kd: "n_kind (node_at ?g 1) = NK_Constant" "n_kind (node_at ?g 6) = NK_Phi" "n_kind (node_at ?g 10) = NK_Mul" "n_kind (node_at ?g 11) = NK_Add"
    "n_kind (node_at ?g 5) = NK_Loop"
    by (simp_all add: miscounted_kind)
  have in6: "n_inputs (node_at ?g 6) = [5, 1, 8]" "n_inputs (node_at ?g 11) = [10, 1]" and
    pay: "n_payload (node_at ?g 1) = 0" "n_payload (node_at ?g 3) = 2" and pay11: "n_payload (node_at ?g 11) = 0" using miscounted_nodes by simp_all
  have lc: "live_constant ?g (n_inputs (node_at ?g 6) ! 1)" using live [of 1] kd(1) f(2) by (simp add: in6 live_constant_def live_at_def kInvalidNodeId_def)
  have sm: "length (g_nodes ?g) + 4 < kInvalidNodeId" "5 < length (g_nodes ?g)" by (simp_all add: f(1) kInvalidNodeId_def)
  obtain g5 where g5: "graph_wf g5" "ivs_derive 5 6 3 10 3 ?g = Some (set_dead 10 (replace_uses 10 (length (g_nodes ?g) + 1) g5))"
    "g_nodes g5 = g_nodes ?g @ derived_nodes 5 (n_type (node_at ?g 6)) (n_payload (node_at ?g (n_inputs (node_at ?g 6) ! 1)) * n_payload (node_at ?g 3))
      (3 * n_payload (node_at ?g 3)) (length (g_nodes ?g))"
    by (rule ivs_derive_eq [OF wf sm lc])
  have nodes: "g_nodes g5 = g_nodes ?g @ derived_nodes 5 (n_type (node_at ?g 6)) 0 6 13" using g5(3) by (simp add: in6 f(1) pay [simplified])
  have len: "length (g_nodes g5) = 17" by (simp add: nodes derived_nodes_def f(1))
  have old: "node_at g5 j = node_at ?g j" if "j < 13" for j using that by (simp add: nodes nth_append f(1))
  have new: "node_at g5 j = derived_nodes 5 (n_type (node_at ?g 6)) 0 6 13 ! (j - 13)" if "13 \<le> j" for j using that by (simp add: nodes nth_append f(1))
  let ?g' = "set_dead 10 (replace_uses 10 14 g5)"
  have "10 < length (g_nodes g5)" "id_ok g5 14" by (simp_all add: len id_ok_def)
  note r = redirect_nodes [OF g5(1) this]
  have sz: "g_size ?g' = 17" using wf_g_size [OF r(1)] r(2) len by simp
  have at: "node_at ?g' j = subst_inputs 10 14 (node_at g5 j)" if "j < 17" "j \<noteq> 10" for j using r(3) [of j] len that by simp
  have kind: "n_kind (node_at ?g' j) = n_kind (node_at g5 j)" if "j < 17" for j using r(3) [of j] len that by simp
  have kind': "n_kind (node_at ?g' j) = (if j < 13 then n_kind (node_at ?g j) else [NK_Constant, NK_Phi, NK_Constant, NK_Add] ! (j - 13))" if "j < 17" for j
    using kind [OF that] old [of j] new [of j] that by (auto simp: derived_nodes_def nth_Cons' split: if_splits)
  have dv: "ivs_derive 5 6 3 10 3 ?g = Some ?g'" using g5(2) by (simp add: f(1))
  have none: "ivs_factor ?g' 7 u = None" for u
  proof (rule ccontr)
    assume "ivs_factor ?g' 7 u \<noteq> None"
    then have u: "u < 17" "n_kind (node_at ?g' u) = NK_Mul" "\<not> node_is_dead (node_at ?g' u)"
      using sz by (auto simp: ivs_factor_def Let_def split: if_splits)
    then have "u = 10" using kind' [of u] by (auto simp: miscounted_kindD nth_Cons' split: if_splits)
    with u r(4) [of 10] r(2) len show False by (simp add: live_at_def)
  qed
  have dead: "\<not> node_is_dead (node_at ?g i)" if "i < 13" for i using live [OF that] by (simp add: live_at_def)
  have "ivs_phis h m 5 0 (?g, 0) = ivs_phis h m 5 6 (?g, 0)"
    by (rule ivs_phis_skip) (auto simp: f(2) miscounted_kindD)
  also have "\<dots> = ivs_phis h m 5 7 (?g', 1)"
    using miscounted_scev(3,4) by (subst ivs_phis.simps) (simp add: Let_def f(2,4) dead kd in6 m(2,3) dv kIVSMaxInductionVarsPerLoop_def)
  also have "\<dots> = ivs_phis h m 5 8 (?g', 1)"
    by (subst ivs_phis.simps) (simp add: Let_def sz none ivs_muls_none kIVSMaxInductionVarsPerLoop_def)
  also have "\<dots> = ivs_phis h m 5 17 (?g', 1)"
  proof (rule ivs_phis_skip)
    show "\<forall>j. 8 \<le> j \<longrightarrow> j < 17 \<longrightarrow> n_kind (node_at ?g' j) \<noteq> NK_Phi \<or> se_kind (scev_of h m j) \<noteq> SK_AddRec"
    proof (intro allI impI)
      fix j :: nat
      assume j: "8 \<le> j" "j < 17"
      show "n_kind (node_at ?g' j) \<noteq> NK_Phi \<or> se_kind (scev_of h m j) \<noteq> SK_AddRec"
        using j kind' [of j] m(4) [of j] by (cases "j < 13") (auto simp: miscounted_kindD)
    qed
  qed (simp_all add: sz)
  also have "\<dots> = Some (False, ?g', 1)" by (subst ivs_phis.simps) (simp add: sz)
  finally have phis: "ivs_phis h m 5 0 (?g, 0) = Some (False, ?g', 1)" .
  have "ivs_loops h m 0 (?g, 0) = ivs_loops h m 5 (?g, 0)"
    by (rule ivs_loops_skip) (auto simp: f(2) miscounted_kindD)
  also have "\<dots> = ivs_loops h m 6 (?g', 1)" by (subst ivs_loops.simps) (simp add: f(2) dead kd phis)
  also have "\<dots> = ivs_loops h m 17 (?g', 1)"
  proof (rule ivs_loops_skip)
    show "\<forall>j. 6 \<le> j \<longrightarrow> j < 17 \<longrightarrow> n_kind (node_at ?g' j) \<noteq> NK_Loop"
      using kind' by (auto simp: miscounted_kindD nth_Cons' split: if_splits)
  qed (simp_all add: sz)
  also have "\<dots> = Some (?g', 1)" by (subst ivs_loops.simps) (simp add: sz)
  finally have "ivs_run h ?g = Some (?g', 1)" by (simp add: ivs_run_def m(1))
  moreover have "live_at ?g' j" if "j \<in> {11, 13, 14, 15, 16}" for j
  proof -
    have "live_at g5 j" using that dead [of 11] old [of 11] new [of j] by (auto simp: live_at_def len derived_nodes_def flags_has_def)
    then show ?thesis using r(4) [of j] that by auto
  qed
  moreover have "map (\<lambda>i. (n_kind (node_at ?g' i), n_payload (node_at ?g' i), n_inputs (node_at ?g' i))) [11, 13, 14, 15, 16] =
      [(NK_Add, 0, [14, 1]), (NK_Constant, 0, []), (NK_Phi, 0, [5, 13, 16]), (NK_Constant, 6, []), (NK_Add, 0, [14, 15])]"
    using pay11 by (simp add: at old new derived_nodes_def in6 kd)
  ultimately show thesis by (intro that [of ?g']) (simp_all add: list_all_iff)
qed

text \<open>
  C33. The analysis never asks that the addition adds to the phi: \<open>acc = i + 3\<close> in a loop that counts
  \<open>i\<close> is taken for \<open>acc = acc + 3\<close>, and the product \<open>acc * 2\<close> becomes a variable that grows by 6: on a
  graph that verifies, the pass does not keep the values of the nodes.
\<close>

theorem ivs_miscounts:
  "pass_ok miscounted \<and> arith_pure miscounted \<and> (\<exists>g'. ivs_run h miscounted = Some (g', 1) \<and>
     \<not> simulates F (\<lambda>t r. if t = 0 then (0, 0) else (t - 1, 1)) miscounted g')"
proof -
  let ?g = miscounted and ?sel = "\<lambda>t r. if t = (0 :: nat) then (0, 0) else (t - 1, 1 :: nat)"
  obtain g' where g': "ivs_run h ?g = Some (g', 1)" "list_all (live_at g') [11, 13, 14, 15, 16]"
    "map (\<lambda>i. (n_kind (node_at g' i), n_payload (node_at g' i), n_inputs (node_at g' i))) [11, 13, 14, 15, 16] =
      [(NK_Add, 0, [14, 1]), (NK_Constant, 0, []), (NK_Phi, 0, [5, 13, 16]), (NK_Constant, 6, []), (NK_Add, 0, [14, 15])]"
    by (rule miscounted_run)
  let ?acc = "\<lambda>t. if t = (0 :: nat) then 0 else of_nat (t - 1) + 3 :: i64"
  let ?ret = "\<lambda>t. apply_kind F NK_Return (n_type (node_at ?g 12)) (n_payload (node_at ?g 12)) [VInt 0, VInt 0, VInt (?acc t * 2)]"
  let ?v = "\<lambda>t j. [VInt 0, VInt 0, VInt 3, VInt 2, VInt 1, VInt 0, VInt (?acc t), VInt (of_nat t), VInt (of_nat t + 3), VInt (of_nat t + 1),
     VInt (?acc t * 2), VInt (?acc t * 2), ?ret t] ! j"
  have ex: "exec F ?sel ?g ?v" unfolding exec_def
  proof (intro allI impI)
    fix t j
    assume "live_at ?g j"
    then have j: "j < 13" by (simp add: live_at_def miscounted_facts(1))
    then have "j = 0 \<or> j = 1 \<or> j = 2 \<or> j = 3 \<or> j = 4 \<or> j = 5 \<or> j = 6 \<or> j = 7 \<or> j = 8 \<or> j = 9 \<or> j = 10 \<or> j = 11 \<or> j = 12"
      by presburger
    then show "node_ok F ?sel ?v t (node_at ?g j) (?v t j)"
      using miscounted_nodes [simplified]
      by (elim disjE) (simp_all add: node_ok_def free_kinds_def miscounted_kind apply_kind_def binop_sem_def nth_Cons')
  qed
  have "\<not> simulates F ?sel ?g g'"
  proof
    assume "simulates F ?sel ?g g'"
    with ex obtain v' where v': "exec F ?sel g' v'" "\<And>t j. j < 13 \<Longrightarrow> v' t j = ?v t j" unfolding simulates_def miscounted_facts(1) by blast
    have ok: "node_ok F ?sel v' t (node_at g' j) (v' t j)" if "j \<in> {11, 13, 14, 15, 16}" for t j
      using v'(1) g'(2) that unfolding exec_def by auto
    have c: "v' t 13 = VInt 0" "v' t 15 = VInt 6" for t using ok [of 13 t] ok [of 15 t] g'(3) by (simp_all add: node_ok_def free_kinds_def)
    have a: "v' t 16 = apply_kind F NK_Add (n_type (node_at g' 16)) 0 [v' t 14, v' t 15]" "v' t 11 = apply_kind F NK_Add (n_type (node_at g' 11)) 0 [v' t 14, v' t 1]" for t
      using ok [of 16 t] ok [of 11 t] g'(3) by (simp_all add: node_ok_def free_kinds_def)
    have p: "v' t 14 = (if t = 0 then v' 0 13 else v' (t - 1) 16)" for t
      using ok [of 14 t] g'(3) by (cases "t = 0") (simp_all add: node_ok_def free_kinds_def)
    have "v' 0 14 = VInt 0" "v' 0 16 = VInt 6" using p [of 0] a(1) [of 0] c by (simp_all add: apply_kind_def binop_sem_def)
    then have "v' 1 14 = VInt 6" "v' 1 16 = VInt 12" using p [of 1] a(1) [of 1] c by (simp_all add: apply_kind_def binop_sem_def)
    then have "v' 2 14 = VInt 12" using p [of 2] by simp
    then have "v' 2 11 = VInt 12" using a(2) [of 2] v'(2) [of 1 2] by (simp add: apply_kind_def binop_sem_def)
    then show False using v'(2) [of 11 2] by simp
  qed
  with g'(1) miscounted_ok show ?thesis using miscounted_arith by (auto simp: arith_pure_def all_live_iff)
qed

end
