(* ===== verification/Tokens.thy ===== *)
theory Tokens
  imports Prelude
begin

section \<open>Tokens, source spans and diagnostics\<close>

text \<open>
  \<open>TokenKind\<close> and \<open>Token\<close> of \<open>frontend/Lexer.hpp\<close>, the keyword table of \<open>Lexer.cpp\<close>, and
  \<open>Span\<close>, \<open>Error\<close> and \<open>DiagnosticSink\<close> of \<open>support/Diagnostics.hpp\<close>. Source text is a list
  of bytes (\<open>char\<close>); a \<open>string_view\<close> into the source is the string it views. The sink is the
  list of what was reported; its text buffer and its stream are not modelled.
\<close>

datatype token_kind =
    T_Eof | T_Ident | T_IntLit | T_FloatLit | T_StrLit | T_TrueKw | T_FalseKw
  | T_LetKw | T_VarKw | T_FnKw | T_ReturnKw | T_IfKw | T_ElseKw | T_MatchKw
  | T_StructKw | T_EnumKw | T_AllocKw | T_StackKw | T_ForKw | T_InKw | T_PubKw | T_MutKw
  | T_I8Kw | T_I16Kw | T_I32Kw | T_I64Kw | T_U8Kw | T_U16Kw | T_U32Kw | T_U64Kw
  | T_F32Kw | T_F64Kw | T_BoolKw | T_StrKw
  | T_Plus | T_Minus | T_Star | T_Slash | T_Percent | T_Amp | T_Pipe | T_Caret | T_Tilde | T_Bang
  | T_Shl | T_Shr | T_EqEq | T_BangEq | T_LtEq | T_GtEq | T_Lt | T_Gt | T_AndAnd | T_OrOr
  | T_Eq | T_PlusEq | T_MinusEq | T_StarEq | T_SlashEq | T_Arrow | T_FatArrow
  | T_LParen | T_RParen | T_LBrace | T_RBrace | T_LBracket | T_RBracket
  | T_Comma | T_Semicolon | T_Colon | T_DoubleColon | T_Dot | T_DotDot | T_At | T_Question
  | T_RefMut | T_Ref

record token =
  t_kind :: token_kind
  t_file :: symbol_id
  t_line :: u32
  t_col :: u32
  t_len :: u32
  t_text_id :: symbol_id
  t_text :: string

definition default_token :: token where
  "default_token = \<lparr>t_kind = T_Eof, t_file = kInvalidSymbolId, t_line = 0, t_col = 0, t_len = 0,
     t_text_id = kInvalidSymbolId, t_text = ''''\<rparr>"

text \<open>The keyword table, in its order, and the linear search over it.\<close>

definition kKeywords :: "(string \<times> token_kind) list" where
  "kKeywords = [(''let'', T_LetKw), (''var'', T_VarKw), (''fn'', T_FnKw), (''return'', T_ReturnKw),
     (''if'', T_IfKw), (''else'', T_ElseKw), (''match'', T_MatchKw), (''struct'', T_StructKw),
     (''enum'', T_EnumKw), (''alloc'', T_AllocKw), (''stack'', T_StackKw), (''for'', T_ForKw),
     (''in'', T_InKw), (''pub'', T_PubKw), (''mut'', T_MutKw), (''true'', T_TrueKw), (''false'', T_FalseKw),
     (''i8'', T_I8Kw), (''i16'', T_I16Kw), (''i32'', T_I32Kw), (''i64'', T_I64Kw), (''u8'', T_U8Kw),
     (''u16'', T_U16Kw), (''u32'', T_U32Kw), (''u64'', T_U64Kw), (''f32'', T_F32Kw), (''f64'', T_F64Kw),
     (''bool'', T_BoolKw), (''str'', T_StrKw)]"

fun find_keyword :: "string \<Rightarrow> (string \<times> token_kind) list \<Rightarrow> token_kind" where
  "find_keyword s [] = T_Ident"
| "find_keyword s ((text, kind) # kws) = (if s = text then kind else find_keyword s kws)"

definition match_keyword :: "string \<Rightarrow> token_kind" where
  "match_keyword s = find_keyword s kKeywords"

subsection \<open>Spans and errors\<close>

record span =
  sp_file :: symbol_id
  sp_line :: u32
  sp_col :: u32
  sp_len :: u32

definition no_span :: span where
  "no_span = \<lparr>sp_file = kInvalidSymbolId, sp_line = 0, sp_col = 0, sp_len = 0\<rparr>"

definition span_valid :: "span \<Rightarrow> bool" where
  "span_valid s \<longleftrightarrow> sp_file s \<noteq> kInvalidSymbolId"

datatype severity = Sev_Note | Sev_Warning | Sev_Error | Sev_Fatal

datatype diag_category = Cat_Lex | Cat_Parse | Cat_Type | Cat_Effect | Cat_IR | Cat_Verify
  | Cat_Backend | Cat_Pass | Cat_Internal

record diag =
  dg_severity :: severity
  dg_category :: diag_category
  dg_span :: span
  dg_message :: u32
  dg_payload :: i64

definition parse_error :: "u32 \<Rightarrow> span \<Rightarrow> diag" where
  "parse_error msg sp = \<lparr>dg_severity = Sev_Error, dg_category = Cat_Parse, dg_span = sp, dg_message = msg, dg_payload = 0\<rparr>"

definition type_error :: "u32 \<Rightarrow> span \<Rightarrow> diag" where
  "type_error msg sp = \<lparr>dg_severity = Sev_Error, dg_category = Cat_Type, dg_span = sp, dg_message = msg, dg_payload = 0\<rparr>"

type_synonym sink = "diag list"

definition severe :: "diag \<Rightarrow> bool" where
  "severe e \<longleftrightarrow> dg_severity e = Sev_Error \<or> dg_severity e = Sev_Fatal"

definition report :: "diag \<Rightarrow> sink \<Rightarrow> sink" where
  "report e s = s @ [e]"

definition error_count :: "sink \<Rightarrow> u32" where
  "error_count s = of_nat (length (filter severe s))"

definition has_errors :: "sink \<Rightarrow> bool" where
  "has_errors s \<longleftrightarrow> error_count s > 0"

lemma parse_error_severe [simp]: "severe (parse_error m sp)"
  by (simp add: severe_def parse_error_def)

lemma type_error_severe [simp]: "severe (type_error m sp)"
  by (simp add: severe_def type_error_def)

lemma has_errors_iff: "length s < 2 ^ 32 \<Longrightarrow> has_errors s \<longleftrightarrow> (\<exists>e \<in> set s. severe e)"
proof -
  assume "length s < 2 ^ 32"
  then have l: "length (filter severe s) < 2 ^ 32" using length_filter_le [of severe s] by linarith
  have "unat (of_nat (length (filter severe s)) :: u32) = length (filter severe s)"
    using l by (simp add: unat_of_nat)
  then have "(of_nat (length (filter severe s)) :: u32) = 0 \<longleftrightarrow> length (filter severe s) = 0"
    by (metis unat_eq_zero)
  then show ?thesis by (simp add: has_errors_def error_count_def filter_empty_conv word_neq_0_conv [symmetric])
qed

end
