(* ===== verification/Symbols.thy ===== *)
theory Symbols
  imports SwissTables
begin

section \<open>The symbol table\<close>

text \<open>
  \<open>support/StringIntern.hpp\<close> and \<open>StringIntern.cpp\<close>: interned strings in the order they were
  first seen, and a \<open>SwissTable\<close> from the string to its index. \<open>std::hash\<close> on strings is the
  parameter \<open>hash\<close>. \<open>None\<close> is a probe that leaves the table (it never happens on a table
  from which nothing is erased).
\<close>

record symtab =
  sy_entries :: "string list"
  sy_map :: "(string, symbol_id) swiss"

definition symtab_empty :: symtab where
  "symtab_empty = \<lparr>sy_entries = [], sy_map = st_new\<rparr>"

definition sym_find :: "(string \<Rightarrow> 64 word) \<Rightarrow> symtab \<Rightarrow> string \<Rightarrow> symbol_id" where
  "sym_find hash t s = (case st_get hash (sy_map t) s of Some p \<Rightarrow> p | None \<Rightarrow> kInvalidSymbolId)"

definition intern :: "(string \<Rightarrow> 64 word) \<Rightarrow> string \<Rightarrow> symtab \<Rightarrow> (symbol_id \<times> symtab) option" where
  "intern hash s t =
     (let i = sym_find hash t s in
      if i \<noteq> kInvalidSymbolId then Some (i, t)
      else (let new_id = u32 (length (sy_entries t)) in
            map_option (\<lambda>(_, m). (new_id, \<lparr>sy_entries = sy_entries t @ [s], sy_map = m\<rparr>))
              (st_insert hash s new_id (sy_map t))))"

definition symtab_new :: "(string \<Rightarrow> 64 word) \<Rightarrow> symtab option" where
  "symtab_new hash = map_option snd (intern hash '''' symtab_empty)"

definition sym_at :: "symtab \<Rightarrow> symbol_id \<Rightarrow> string" where
  "sym_at t i = (if i \<ge> length (sy_entries t) then '''' else sy_entries t ! i)"

definition sym_size :: "symtab \<Rightarrow> nat" where
  "sym_size t = length (sy_entries t)"

subsection \<open>Ids and strings correspond\<close>

definition sym_ok :: "(string \<Rightarrow> 64 word) \<Rightarrow> symtab \<Rightarrow> bool" where
  "sym_ok hash t \<longleftrightarrow> st_ok hash (sy_map t) \<and> length (sy_entries t) < kInvalidSymbolId
     \<and> (\<forall>s i. st_get hash (sy_map t) s = Some i \<longleftrightarrow> i < length (sy_entries t) \<and> sy_entries t ! i = s)"

lemma sym_empty_ok: "sym_ok hash symtab_empty"
  by (simp add: sym_ok_def symtab_empty_def sw.inv_empty sw.get_empty kInvalidSymbolId_def)

text \<open>\<open>sym_le t u\<close>: the table \<open>u\<close> has the strings of \<open>t\<close> under the same ids.\<close>

definition sym_le :: "symtab \<Rightarrow> symtab \<Rightarrow> bool" where
  "sym_le t u \<longleftrightarrow> (\<exists>xs. sy_entries u = sy_entries t @ xs)"

lemma sym_le_refl [simp]: "sym_le t t"
  by (simp add: sym_le_def)

lemma sym_le_trans: "sym_le t u \<Longrightarrow> sym_le u v \<Longrightarrow> sym_le t v"
  by (auto simp: sym_le_def)

lemma sym_le_at: "sym_le t u \<Longrightarrow> i < length (sy_entries t) \<Longrightarrow> i < length (sy_entries u) \<and> sym_at u i = sym_at t i"
  by (auto simp: sym_le_def sym_at_def nth_append)

lemma sym_find_known:
  "sym_ok hash t \<Longrightarrow> i < length (sy_entries t) \<Longrightarrow> sym_find hash t (sym_at t i) = i"
proof -
  assume "sym_ok hash t" "i < length (sy_entries t)"
  then have "st_get hash (sy_map t) (sym_at t i) = Some i" by (simp add: sym_ok_def sym_at_def)
  then show ?thesis by (simp add: sym_find_def)
qed

lemma intern_known:
  "sym_ok hash t \<Longrightarrow> i < length (sy_entries t) \<Longrightarrow> intern hash (sym_at t i) t = Some (i, t)"
  by (auto simp: intern_def Let_def sym_find_known) (simp add: sym_ok_def)

lemma intern_total:
  assumes "st_ok hash (sy_map t)"
  shows "\<exists>i t'. intern hash s t = Some (i, t') \<and> st_ok hash (sy_map t')"
proof (cases "sym_find hash t s = kInvalidSymbolId")
  case True
  from sw.put_ok [OF assms, of s "u32 (length (sy_entries t))"] obtain b m where
    "st_insert hash s (u32 (length (sy_entries t))) (sy_map t) = Some (b, m)" "st_ok hash m" by auto
  with True show ?thesis by (simp add: intern_def Let_def)
qed (use assms in \<open>simp add: intern_def Let_def\<close>)

lemma intern_ok:
  assumes ok: "sym_ok hash t" and len: "length (sy_entries t) + 1 < kInvalidSymbolId"
  shows "\<exists>i t'. intern hash s t = Some (i, t') \<and> sym_ok hash t' \<and> sym_le t t' \<and> i < length (sy_entries t')
    \<and> sym_at t' i = s \<and> length (sy_entries t') \<le> length (sy_entries t) + 1"
proof (cases "st_get hash (sy_map t) s")
  case (Some i)
  then have i: "i < length (sy_entries t)" "sym_at t i = s" using ok by (simp_all add: sym_ok_def sym_at_def)
  with intern_known [OF ok i(1)] ok show ?thesis by auto
next
  case None
  let ?n = "length (sy_entries t)"
  have n: "u32 ?n = ?n" using len by (simp add: kInvalidSymbolId_def)
  have "st_ok hash (sy_map t)" using ok by (simp add: sym_ok_def)
  from sw.put_ok [OF this, of s ?n] obtain b m where
    m: "st_insert hash s ?n (sy_map t) = Some (b, m)" "st_ok hash m" "st_get hash m = (st_get hash (sy_map t))(s \<mapsto> ?n)" by auto
  let ?t = "\<lparr>sy_entries = sy_entries t @ [s], sy_map = m\<rparr>"
  have fresh: "sy_entries t ! i \<noteq> s" if "i < ?n" for i
    using that None ok unfolding sym_ok_def by (metis option.distinct(1))
  have "intern hash s t = Some (?n, ?t)" using None m(1) n by (simp add: intern_def sym_find_def Let_def)
  moreover have "sym_ok hash ?t"
    using ok m(2) len fresh unfolding sym_ok_def by (auto simp: m(3) nth_append less_Suc_eq)
  ultimately show ?thesis by (auto simp: sym_le_def sym_at_def)
qed

fun intern_run :: "(string \<Rightarrow> 64 word) \<Rightarrow> string list \<Rightarrow> symtab \<Rightarrow> (symbol_id list \<times> symtab) option" where
  "intern_run hash [] t = Some ([], t)"
| "intern_run hash (s # ss) t =
     (case intern hash s t of None \<Rightarrow> None
      | Some (i, t') \<Rightarrow> map_option (\<lambda>(ids, t''). (i # ids, t'')) (intern_run hash ss t'))"

lemma intern_run_ok:
  assumes "sym_ok hash t" "length (sy_entries t) + length ss + 1 < kInvalidSymbolId"
  shows "\<exists>ids t'. intern_run hash ss t = Some (ids, t') \<and> sym_ok hash t' \<and> sym_le t t'
    \<and> map (sym_at t') ids = ss \<and> (\<forall>i \<in> set ids. i < length (sy_entries t'))"
  using assms
proof (induction ss arbitrary: t)
  case (Cons s ss)
  have "length (sy_entries t) + 1 < kInvalidSymbolId" using Cons.prems(2) by simp
  from intern_ok [OF Cons.prems(1) this, of s] obtain i t1 where
    i: "intern hash s t = Some (i, t1)" "sym_ok hash t1" "sym_le t t1" "i < length (sy_entries t1)" "sym_at t1 i = s"
      "length (sy_entries t1) \<le> length (sy_entries t) + 1" by blast
  with Cons.IH [of t1] Cons.prems(2) obtain ids t' where
    r: "intern_run hash ss t1 = Some (ids, t')" "sym_ok hash t'" "sym_le t1 t'" "map (sym_at t') ids = ss"
      "\<forall>i \<in> set ids. i < length (sy_entries t')" by fastforce
  with i sym_le_at [OF r(3) i(4)] sym_le_trans [OF i(3) r(3)] show ?case by auto
qed auto



end
