(* ===== verification/Doubles.thy ===== *)
theory Doubles
  imports Prelude
begin

section \<open>Non-negative doubles\<close>

text \<open>
  What the parser needs of C++'s \<open>double\<close>: addition, multiplication and division of
  non-negative IEEE 754 numbers, each the exact rational result rounded to nearest, ties to
  even, and the bit pattern of the result. A finite number is a fraction.
\<close>

datatype dbl = DFin nat nat | DInf

fun bit_len :: "nat \<Rightarrow> nat" where
  "bit_len n = (if n = 0 then 0 else Suc (bit_len (n div 2)))"

declare bit_len.simps [simp del]

definition pow2_le :: "int \<Rightarrow> nat \<Rightarrow> nat \<Rightarrow> bool" where
  "pow2_le k n d \<longleftrightarrow> (if k \<ge> 0 then 2 ^ nat k * d \<le> n else d \<le> n * 2 ^ nat (- k))"

definition floor_log2 :: "nat \<Rightarrow> nat \<Rightarrow> int" where
  "floor_log2 n d = (let k = int (bit_len n) - int (bit_len d) in if pow2_le k n d then k else k - 1)"

text \<open>The exponent of the last place, and the fraction as a multiple of it.\<close>

definition ulp_exp :: "nat \<Rightarrow> nat \<Rightarrow> int" where
  "ulp_exp n d = max (floor_log2 n d - 52) (- 1074)"

definition scale2 :: "int \<Rightarrow> nat \<Rightarrow> nat \<Rightarrow> nat \<times> nat" where
  "scale2 u n d = (if u \<ge> 0 then (n, d * 2 ^ nat u) else (n * 2 ^ nat (- u), d))"

definition round_even :: "nat \<Rightarrow> nat \<Rightarrow> nat" where
  "round_even n d =
     (let q = n div d; r = n mod d
      in if 2 * r < d \<or> (2 * r = d \<and> even q) then q else q + 1)"

definition d_round :: "nat \<Rightarrow> nat \<Rightarrow> dbl" where
  "d_round n d =
     (if n = 0 then DFin 0 1
      else let u = ulp_exp n d; (a, b) = scale2 u n d; m = round_even a b
           in if u \<ge> 0 then (if bit_len m + nat u > 1024 then DInf else DFin (m * 2 ^ nat u) 1)
              else DFin m (2 ^ nat (- u)))"

definition d_of_nat :: "nat \<Rightarrow> dbl" where
  "d_of_nat n = d_round n 1"

fun d_add :: "dbl \<Rightarrow> dbl \<Rightarrow> dbl" where
  "d_add (DFin a b) (DFin c d) = d_round (a * d + c * b) (b * d)"
| "d_add _ _ = DInf"

fun d_mul :: "dbl \<Rightarrow> dbl \<Rightarrow> dbl" where
  "d_mul (DFin a b) (DFin c d) = d_round (a * c) (b * d)"
| "d_mul _ _ = DInf"

fun d_div :: "dbl \<Rightarrow> dbl \<Rightarrow> dbl" where
  "d_div (DFin a b) (DFin c d) = d_round (a * d) (b * c)"
| "d_div (DFin a b) DInf = DFin 0 1"
| "d_div DInf _ = DInf"

fun d_bits :: "dbl \<Rightarrow> i64" where
  "d_bits DInf = 0x7FF0000000000000"
| "d_bits (DFin n d) =
     (if n = 0 then 0
      else let l = floor_log2 n d; (a, b) = scale2 (ulp_exp n d) n d; m = a div b
           in if l < - 1022 then of_nat m else of_nat (nat (l + 1023) * 2 ^ 52 + (m - 2 ^ 52)))"

end
