(* ===== verification/Ast.thy ===== *)
theory Ast
  imports Tokens
begin

section \<open>The syntax tree\<close>

text \<open>
  \<open>frontend/AST.hpp\<close>: one datatype for the statement and expression classes, one for the
  patterns, records and a datatype for the declarations. A pointer the parser may leave
  null is an \<open>option\<close>; those it always sets are not. The \<open>span\<close> every node carries is not
  part of the trees: nothing in the frontend ever assigns it, so it is always \<open>Span{}\<close>
  (\<open>no_span\<close>).
\<close>

datatype pat =
    IdentPat symbol_id
  | PathPat "symbol_id list" "pat option"
  | MemberPat symbol_id "pat option"

datatype ast =
    LetStmt symbol_id "ast option" "ast option" bool
  | ExprStmt ast
  | ReturnStmt "ast option"
  | IfStmt ast ast "ast option"
  | ForStmt symbol_id ast ast
  | MatchStmt ast "(pat \<times> ast) list"
  | Block "ast list"
  | AssignExpr token_kind ast ast
  | BinaryExpr token_kind ast ast
  | UnaryExpr token_kind ast
  | CallExpr ast "ast list"
  | FieldExpr ast symbol_id
  | IndexExpr ast ast
  | Ident symbol_id
  | IntLit i64
  | FloatLit i64
  | StrLit symbol_id
  | BoolLit bool
  | PathExpr "symbol_id list"
  | RangeExpr ast ast

record fn_param =
  fp_name :: symbol_id
  fp_type :: ast
  fp_mutable :: bool

record fn_decl =
  fd_name :: symbol_id
  fd_params :: "fn_param list"
  fd_ret :: "ast option"
  fd_body :: ast
  fd_pub :: bool

datatype item =
    FnItem fn_decl
  | StructItem symbol_id "(symbol_id \<times> ast) list"
  | EnumItem symbol_id "(symbol_id \<times> ast list) list"

type_synonym ast_module = "item list"

text \<open>\<open>static_cast<const ASTBlock&>\<close> of a function body: the parser only makes blocks there.\<close>

definition block_stmts :: "ast \<Rightarrow> ast list" where
  "block_stmts b = (case b of Block ss \<Rightarrow> ss | _ \<Rightarrow> [])"

end
