(* ===== verification/Lexing.thy ===== *)
theory Lexing
  imports Tokens
begin

section \<open>The lexer\<close>

text \<open>
  \<open>frontend/src/Lexer.cpp\<close>. The lexer's state is its position, line and column in the source
  (\<open>src\<close>, an argument); each routine is a function from state to state, the inner \<open>while\<close>
  loops are recursions whose measure is what is left of the source. The \<open>std\<close> character
  classes are those of the C locale. The \<open>switch\<close> over operators is the table of its
  two-character cases and the table of its one-character cases.
\<close>

record lexer =
  lx_pos :: nat
  lx_line :: nat
  lx_col :: nat

definition lexer_init :: lexer where
  "lexer_init = \<lparr>lx_pos = 0, lx_line = 1, lx_col = 1\<rparr>"

definition in_range :: "char \<Rightarrow> char \<Rightarrow> char \<Rightarrow> bool" where
  "in_range a b c \<longleftrightarrow> (of_char a :: nat) \<le> of_char c \<and> (of_char c :: nat) \<le> of_char b"

definition is_digit :: "char \<Rightarrow> bool" where
  "is_digit c \<longleftrightarrow> in_range CHR ''0'' CHR ''9'' c"

definition is_alpha :: "char \<Rightarrow> bool" where
  "is_alpha c \<longleftrightarrow> in_range CHR ''a'' CHR ''z'' c \<or> in_range CHR ''A'' CHR ''Z'' c"

definition is_xdigit :: "char \<Rightarrow> bool" where
  "is_xdigit c \<longleftrightarrow> is_digit c \<or> in_range CHR ''a'' CHR ''f'' c \<or> in_range CHR ''A'' CHR ''F'' c"

definition ident_char :: "char \<Rightarrow> bool" where
  "ident_char c \<longleftrightarrow> is_alpha c \<or> is_digit c \<or> c = CHR ''_''"

definition is_space :: "char \<Rightarrow> bool" where
  "is_space c \<longleftrightarrow> c = CHR '' '' \<or> c = CHR 0x09 \<or> c = CHR 0x0D \<or> c = CHR 0x0A"

definition peek_char :: "string \<Rightarrow> lexer \<Rightarrow> nat \<Rightarrow> char" where
  "peek_char src st off = (if lx_pos st + off < length src then src ! (lx_pos st + off) else CHR 0x00)"

definition advance1 :: "string \<Rightarrow> lexer \<Rightarrow> lexer" where
  "advance1 src st =
     (if lx_pos st < length src then
        (if src ! lx_pos st = CHR 0x0A
         then \<lparr>lx_pos = lx_pos st + 1, lx_line = lx_line st + 1, lx_col = 1\<rparr>
         else \<lparr>lx_pos = lx_pos st + 1, lx_line = lx_line st, lx_col = lx_col st + 1\<rparr>)
      else st)"

fun advance :: "nat \<Rightarrow> string \<Rightarrow> lexer \<Rightarrow> lexer" where
  "advance 0 src st = st"
| "advance (Suc n) src st = advance n src (advance1 src st)"

definition at_end :: "string \<Rightarrow> lexer \<Rightarrow> bool" where
  "at_end src st \<longleftrightarrow> lx_pos st \<ge> length src"

lemma advance1_pos [simp]: "lx_pos (advance1 src st) = (if at_end src st then lx_pos st else lx_pos st + 1)"
  by (simp add: advance1_def at_end_def)

lemma advance_pos: "lx_pos (advance n src st) = (if at_end src st then lx_pos st else min (lx_pos st + n) (length src))"
  by (induction n arbitrary: st) (auto simp: at_end_def)

text \<open>\<open>while (pos_ < src_.size() && P(src_[pos_])) advance();\<close>\<close>

function advance_while :: "(char \<Rightarrow> bool) \<Rightarrow> string \<Rightarrow> lexer \<Rightarrow> lexer" where
  "advance_while P src st =
     (if \<not> at_end src st \<and> P (src ! lx_pos st) then advance_while P src (advance1 src st) else st)"
  by auto
termination by (relation "measure (\<lambda>(P, src, st). length src - lx_pos st)") (auto simp: at_end_def)

declare advance_while.simps [simp del]

text \<open>The inner loop of a block comment.\<close>

function skip_block :: "string \<Rightarrow> lexer \<Rightarrow> lexer" where
  "skip_block src st =
     (if lx_pos st + 1 < length src \<and> \<not> (src ! lx_pos st = CHR ''*'' \<and> src ! (lx_pos st + 1) = CHR ''/'')
      then skip_block src (advance1 src st) else st)"
  by auto
termination by (relation "measure (\<lambda>(src, st). length src - lx_pos st)") (auto simp: at_end_def)

declare skip_block.simps [simp del]

definition skip_comment :: "string \<Rightarrow> lexer \<Rightarrow> lexer" where
  "skip_comment src st =
     (let st1 = skip_block src (advance 2 src st)
      in if lx_pos st1 + 1 < length src then advance 2 src st1 else st1)"

lemma advance_while_pos_le: "lx_pos st \<le> lx_pos (advance_while P src st)"
proof (induction P src st rule: advance_while.induct)
  case (1 P src st)
  then show ?case by (subst advance_while.simps) (auto split: if_splits)
qed

lemma skip_block_pos_le: "lx_pos st \<le> lx_pos (skip_block src st)"
proof (induction src st rule: skip_block.induct)
  case (1 src st)
  then show ?case by (subst skip_block.simps) (auto split: if_splits)
qed

lemma advance_pos_le: "lx_pos st \<le> lx_pos (advance n src st)"
  by (auto simp: advance_pos at_end_def)

lemma skip_comment_pos: "\<not> at_end src st \<Longrightarrow> lx_pos st < lx_pos (skip_comment src st)"
proof -
  assume "\<not> at_end src st"
  then have "lx_pos st < lx_pos (advance 2 src st)" by (auto simp: advance_pos at_end_def)
  moreover have "lx_pos (advance 2 src st) \<le> lx_pos (skip_comment src st)"
    unfolding skip_comment_def Let_def using skip_block_pos_le [of "advance 2 src st" src]
    by (auto intro: order_trans advance_pos_le)
  ultimately show ?thesis by linarith
qed

definition starts2 :: "char \<Rightarrow> char \<Rightarrow> string \<Rightarrow> lexer \<Rightarrow> bool" where
  "starts2 a b src st \<longleftrightarrow> \<not> at_end src st \<and> src ! lx_pos st = a
     \<and> lx_pos st + 1 < length src \<and> src ! (lx_pos st + 1) = b"

function skip_ws_and_comments :: "string \<Rightarrow> lexer \<Rightarrow> lexer" where
  "skip_ws_and_comments src st =
     (if at_end src st then st
      else if is_space (src ! lx_pos st) then skip_ws_and_comments src (advance1 src st)
      else if starts2 CHR ''/'' CHR ''/'' src st
        then skip_ws_and_comments src (advance_while (\<lambda>c. c \<noteq> CHR 0x0A) src st)
      else if starts2 CHR ''/'' CHR ''*'' src st then skip_ws_and_comments src (skip_comment src st)
      else st)"
  by auto
termination
proof (relation "measure (\<lambda>(src, st). length src - lx_pos st)")
  fix src st
  assume a: "\<not> at_end src st" "starts2 CHR ''/'' CHR ''/'' src st"
  then have "src ! lx_pos st \<noteq> CHR 0x0A" by (simp add: starts2_def)
  then have "lx_pos (advance_while (\<lambda>c. c \<noteq> CHR 0x0A) src st) \<ge> lx_pos st + 1"
    using a advance_while_pos_le [of "advance1 src st" "\<lambda>c. c \<noteq> CHR 0x0A" src]
    by (subst advance_while.simps) simp
  with a show "((src, advance_while (\<lambda>c. c \<noteq> CHR 0x0A) src st), (src, st)) \<in> measure (\<lambda>(src, st). length src - lx_pos st)"
    by (simp add: at_end_def)
next
  fix src st
  assume "\<not> at_end src st"
  with skip_comment_pos [OF this] show "((src, skip_comment src st), (src, st)) \<in> measure (\<lambda>(src, st). length src - lx_pos st)"
    by (simp add: at_end_def)
qed (auto simp: at_end_def)

declare skip_ws_and_comments.simps [simp del]

subsection \<open>Tokens\<close>

definition slice :: "string \<Rightarrow> nat \<Rightarrow> nat \<Rightarrow> string" where
  "slice src a b = take (b - a) (drop a src)"

text \<open>\<open>make_token(k, start, start_line, start_col)\<close>, from the state the token started in.\<close>

definition make_token :: "string \<Rightarrow> symbol_id \<Rightarrow> token_kind \<Rightarrow> lexer \<Rightarrow> lexer \<Rightarrow> token" where
  "make_token src file k start st =
     default_token\<lparr>t_kind := k, t_file := file, t_line := of_nat (lx_line start), t_col := of_nat (lx_col start),
       t_len := of_nat (lx_pos st - lx_pos start), t_text := slice src (lx_pos start) (lx_pos st)\<rparr>"

definition lex_ident_or_kw :: "string \<Rightarrow> symbol_id \<Rightarrow> lexer \<Rightarrow> token \<times> lexer" where
  "lex_ident_or_kw src file st =
     (let st1 = advance_while ident_char src st
      in (make_token src file (match_keyword (slice src (lx_pos st) (lx_pos st1))) st st1, st1))"

definition cur_is :: "(char \<Rightarrow> bool) \<Rightarrow> string \<Rightarrow> lexer \<Rightarrow> bool" where
  "cur_is P src st \<longleftrightarrow> \<not> at_end src st \<and> P (src ! lx_pos st)"

text \<open>The fraction and the exponent of a decimal number.\<close>

definition lex_fraction :: "string \<Rightarrow> lexer \<Rightarrow> bool \<times> lexer" where
  "lex_fraction src st =
     (if cur_is (\<lambda>c. c = CHR ''.'') src st \<and> lx_pos st + 1 < length src \<and> is_digit (src ! (lx_pos st + 1))
      then (True, advance_while is_digit src (advance1 src st)) else (False, st))"

definition lex_exponent :: "string \<Rightarrow> lexer \<Rightarrow> bool \<times> lexer" where
  "lex_exponent src st =
     (if cur_is (\<lambda>c. c = CHR ''e'' \<or> c = CHR ''E'') src st
      then (let st1 = advance1 src st;
                st2 = (if cur_is (\<lambda>c. c = CHR ''+'' \<or> c = CHR ''-'') src st1 then advance1 src st1 else st1)
            in (True, advance_while is_digit src st2))
      else (False, st))"

definition lex_number :: "string \<Rightarrow> symbol_id \<Rightarrow> lexer \<Rightarrow> token \<times> lexer" where
  "lex_number src file st =
     (if starts2 CHR ''0'' CHR ''x'' src st \<or> starts2 CHR ''0'' CHR ''X'' src st
      then (let st1 = advance_while is_xdigit src (advance 2 src st) in (make_token src file T_IntLit st st1, st1))
      else (let st1 = advance_while is_digit src st; (frac, st2) = lex_fraction src st1;
                (expo, st3) = lex_exponent src st2
            in (make_token src file (if frac \<or> expo then T_FloatLit else T_IntLit) st st3, st3)))"

text \<open>The loop inside a string literal: an escape takes two characters.\<close>

function skip_string :: "string \<Rightarrow> lexer \<Rightarrow> lexer" where
  "skip_string src st =
     (if at_end src st \<or> src ! lx_pos st = CHR 0x22 then st
      else if src ! lx_pos st = CHR 0x5C \<and> lx_pos st + 1 < length src
        then skip_string src (advance 2 src st)
      else skip_string src (advance1 src st))"
  by auto
termination by (relation "measure (\<lambda>(src, st). length src - lx_pos st)") (auto simp: at_end_def advance_pos)

declare skip_string.simps [simp del]

datatype lex_message = Unterminated_string | Unexpected_character

record lex_error =
  le_line :: u32
  le_col :: u32
  le_msg :: lex_message

definition lex_fail :: "lexer \<Rightarrow> lex_message \<Rightarrow> lex_error + 'a" where
  "lex_fail st msg = Inl \<lparr>le_line = of_nat (lx_line st), le_col = of_nat (lx_col st), le_msg = msg\<rparr>"

definition lex_string_lit :: "string \<Rightarrow> symbol_id \<Rightarrow> lexer \<Rightarrow> lex_error + token \<times> lexer" where
  "lex_string_lit src file st =
     (let st1 = skip_string src (advance1 src st)
      in if at_end src st1 then lex_fail st Unterminated_string
         else let st2 = advance1 src st1 in Inr (make_token src file T_StrLit st st2, st2))"

definition op2_table :: "((char \<times> char) \<times> token_kind) list" where
  "op2_table = [((CHR ''+'', CHR ''=''), T_PlusEq), ((CHR ''-'', CHR ''>''), T_Arrow), ((CHR ''-'', CHR ''=''), T_MinusEq),
     ((CHR ''*'', CHR ''=''), T_StarEq), ((CHR ''!'', CHR ''=''), T_BangEq), ((CHR ''='', CHR ''=''), T_EqEq),
     ((CHR ''='', CHR ''>''), T_FatArrow), ((CHR ''<'', CHR ''<''), T_Shl), ((CHR ''<'', CHR ''=''), T_LtEq),
     ((CHR ''>'', CHR ''>''), T_Shr), ((CHR ''>'', CHR ''=''), T_GtEq), ((CHR ''&'', CHR ''&''), T_AndAnd),
     ((CHR ''|'', CHR ''|''), T_OrOr), ((CHR '':'', CHR '':''), T_DoubleColon), ((CHR ''.'', CHR ''.''), T_DotDot)]"

definition op1_table :: "(char \<times> token_kind) list" where
  "op1_table = [(CHR ''+'', T_Plus), (CHR ''-'', T_Minus), (CHR ''*'', T_Star), (CHR ''/'', T_Slash),
     (CHR ''%'', T_Percent), (CHR ''~'', T_Tilde), (CHR ''!'', T_Bang), (CHR ''='', T_Eq), (CHR ''<'', T_Lt),
     (CHR ''>'', T_Gt), (CHR ''&'', T_Amp), (CHR ''|'', T_Pipe), (CHR ''^'', T_Caret), (CHR ''('', T_LParen),
     (CHR '')'', T_RParen), (CHR ''{'', T_LBrace), (CHR ''}'', T_RBrace), (CHR ''['', T_LBracket),
     (CHR '']'', T_RBracket), (CHR '','', T_Comma), (CHR '';'', T_Semicolon), (CHR '':'', T_Colon),
     (CHR ''.'', T_Dot), (CHR ''@'', T_At), (CHR ''?'', T_Question)]"

definition lex_operator :: "string \<Rightarrow> symbol_id \<Rightarrow> lexer \<Rightarrow> lex_error + token \<times> lexer" where
  "lex_operator src file st =
     (case map_of op2_table (src ! lx_pos st, peek_char src st 1) of
        Some k \<Rightarrow> (let st1 = advance 2 src st in Inr (make_token src file k st st1, st1))
      | None \<Rightarrow> (case map_of op1_table (src ! lx_pos st) of
          Some k \<Rightarrow> (let st1 = advance1 src st in Inr (make_token src file k st st1, st1))
        | None \<Rightarrow> lex_fail st Unexpected_character))"

text \<open>One turn of the loop of \<open>tokenize\<close>, after the blanks, away from the end of the source.\<close>

definition lex_token :: "string \<Rightarrow> symbol_id \<Rightarrow> lexer \<Rightarrow> lex_error + token \<times> lexer" where
  "lex_token src file st =
     (let c = src ! lx_pos st in
      if is_alpha c \<or> c = CHR ''_'' then Inr (lex_ident_or_kw src file st)
      else if is_digit c then Inr (lex_number src file st)
      else if c = CHR 0x22 then lex_string_lit src file st
      else lex_operator src file st)"

definition eof_token :: "lexer \<Rightarrow> token" where
  "eof_token st = default_token\<lparr>t_line := of_nat (lx_line st), t_col := of_nat (lx_col st)\<rparr>"

subsection \<open>What is left of the source\<close>

definition rest :: "string \<Rightarrow> lexer \<Rightarrow> string" where
  "rest src st = drop (lx_pos st) src"

named_theorems rest_simps \<open>how a lexer routine changes what is left of the source\<close>

lemma at_end_rest: "at_end src st \<longleftrightarrow> rest src st = []"
  by (simp add: at_end_def rest_def)

lemma rest_cur: "\<not> at_end src st \<Longrightarrow> rest src st = src ! lx_pos st # rest src (advance1 src st)"
  by (simp add: rest_def at_end_def Cons_nth_drop_Suc)

lemma cur_rest: "rest src st = c # s \<Longrightarrow> src ! lx_pos st = c"
  by (metis at_end_rest list.distinct(1) list.inject rest_cur)

lemma rest_advance1 [rest_simps]: "rest src (advance1 src st) = tl (rest src st)"
  by (cases "at_end src st") (auto simp: rest_cur at_end_rest, simp add: rest_def at_end_def)

lemma rest_advance [rest_simps]: "rest src (advance n src st) = drop n (rest src st)"
  by (induction n arbitrary: st) (simp_all add: rest_advance1 drop_Suc)

lemma peek_rest: "peek_char src st n = (if n < length (rest src st) then rest src st ! n else CHR 0x00)"
  by (simp add: peek_char_def rest_def add.commute less_diff_conv)

lemma starts2_rest: "starts2 a b src st \<longleftrightarrow> (\<exists>s. rest src st = a # b # s)"
proof
  assume "starts2 a b src st"
  then have s: "\<not> at_end src st" "src ! lx_pos st = a" "lx_pos st + 1 < length src" "src ! (lx_pos st + 1) = b"
    by (auto simp: starts2_def)
  then have "\<not> at_end src (advance1 src st)" by (simp add: at_end_def)
  from rest_cur [OF s(1)] rest_cur [OF this] s show "\<exists>s. rest src st = a # b # s" by auto
next
  assume "\<exists>s. rest src st = a # b # s"
  then obtain s where r: "drop (lx_pos st) src = a # b # s" by (auto simp: rest_def)
  then have l: "length src - lx_pos st = Suc (Suc (length s))" by (metis length_drop length_Cons)
  moreover have "src ! lx_pos st = a" "src ! (lx_pos st + 1) = b"
    using r calculation by (metis add.right_neutral nth_Cons_0 nth_drop less_imp_le zero_less_Suc zero_less_diff,
      metis One_nat_def nth_Cons_0 nth_Cons_Suc nth_drop less_imp_le zero_less_Suc zero_less_diff)
  moreover have "lx_pos st + 1 < length src" using l by linarith
  ultimately show "starts2 a b src st" by (simp add: starts2_def at_end_def)
qed

lemma cur_is_rest: "cur_is P src st \<longleftrightarrow> (\<exists>c s. rest src st = c # s \<and> P c)"
  unfolding cur_is_def by (cases "rest src st") (auto simp: at_end_rest cur_rest)

lemma rest_advance_while [rest_simps]: "rest src (advance_while P src st) = dropWhile P (rest src st)"
proof (induction P src st rule: advance_while.induct)
  case (1 P src st)
  show ?case
  proof (cases "rest src st")
    case (Cons c s)
    with 1 show ?thesis by (subst advance_while.simps) (simp add: at_end_rest cur_rest rest_simps)
  qed (subst advance_while.simps, simp add: at_end_rest)
qed

lemma slice_rest:
  assumes "rest src st = t @ rest src st1" "lx_pos st1 \<le> length src"
  shows "slice src (lx_pos st) (lx_pos st1) = t"
proof -
  have "length src - lx_pos st = length t + (length src - lx_pos st1)"
    using arg_cong [OF assms(1), of length] by (simp add: rest_def)
  then have "lx_pos st1 - lx_pos st = length t" using assms(2) by simp
  then show ?thesis using assms(1) by (simp add: slice_def rest_def)
qed

subsection \<open>Positions stay inside the source\<close>

definition in_src :: "string \<Rightarrow> lexer \<Rightarrow> bool" where
  "in_src src st \<longleftrightarrow> lx_pos st \<le> length src"

text \<open>What \<open>advance()\<close> preserves, every routine preserves.\<close>

definition adv_closed :: "string \<Rightarrow> (lexer \<Rightarrow> bool) \<Rightarrow> bool" where
  "adv_closed src P \<longleftrightarrow> (\<forall>st. P st \<longrightarrow> P (advance1 src st))"

lemma closed_advance: "adv_closed src P \<Longrightarrow> P st \<Longrightarrow> P (advance n src st)"
  by (induction n arbitrary: st) (simp_all add: adv_closed_def)

lemma closed_advance_while: "adv_closed src P \<Longrightarrow> P st \<Longrightarrow> P (advance_while Q src st)"
proof (induction Q src st rule: advance_while.induct)
  case (1 Q src st)
  then show ?case by (subst advance_while.simps) (simp add: adv_closed_def)
qed

lemma closed_skip_block: "adv_closed src P \<Longrightarrow> P st \<Longrightarrow> P (skip_block src st)"
proof (induction src st rule: skip_block.induct)
  case (1 src st)
  then show ?case by (subst skip_block.simps) (simp add: adv_closed_def)
qed

lemma closed_skip_comment: "adv_closed src P \<Longrightarrow> P st \<Longrightarrow> P (skip_comment src st)"
  by (simp add: skip_comment_def Let_def closed_advance closed_skip_block)

lemma closed_skip_ws: "adv_closed src P \<Longrightarrow> P st \<Longrightarrow> P (skip_ws_and_comments src st)"
proof (induction src st rule: skip_ws_and_comments.induct)
  case (1 src st)
  note c = 1(4,5) closed_advance_while [OF 1(4,5)] closed_skip_comment [OF 1(4,5)]
  from c(1,2) have "P (advance1 src st)" by (simp add: adv_closed_def)
  with 1 c show ?case by (subst skip_ws_and_comments.simps) (simp only: split: if_split, blast)
qed

lemma closed_skip_string: "adv_closed src P \<Longrightarrow> P st \<Longrightarrow> P (skip_string src st)"
proof (induction src st rule: skip_string.induct)
  case (1 src st)
  from 1(3,4) have "P (advance1 src st)" by (simp add: adv_closed_def)
  with 1 closed_advance [OF 1(3,4), of 2] show ?case by (subst skip_string.simps) (simp only: split: if_split, blast)
qed

lemma closed_advance1: "adv_closed src P \<Longrightarrow> P st \<Longrightarrow> P (advance1 src st)"
  by (simp add: adv_closed_def)

lemmas closed_routines = closed_advance1 closed_advance closed_advance_while closed_skip_block closed_skip_comment
  closed_skip_ws closed_skip_string

lemma in_src_closed: "adv_closed src (in_src src)"
  by (simp add: adv_closed_def in_src_def at_end_def)

lemmas in_src_advance1 = closed_advance1 [OF in_src_closed]
lemmas in_src_advance = closed_advance [OF in_src_closed]
lemmas in_src_intros = closed_routines [OF in_src_closed]

text \<open>The line and column of a position.\<close>

definition line_at :: "string \<Rightarrow> nat \<Rightarrow> nat" where
  "line_at src off = 1 + count_list (take off src) (CHR 0x0A)"

definition col_at :: "string \<Rightarrow> nat \<Rightarrow> nat" where
  "col_at src off = 1 + length (takeWhile (\<lambda>c. c \<noteq> CHR 0x0A) (rev (take off src)))"

definition located :: "string \<Rightarrow> lexer \<Rightarrow> bool" where
  "located src st \<longleftrightarrow> in_src src st \<and> lx_line st = line_at src (lx_pos st) \<and> lx_col st = col_at src (lx_pos st)"

lemma located_closed: "adv_closed src (located src)"
  by (auto simp: adv_closed_def located_def in_src_def advance1_def line_at_def col_at_def take_Suc_conv_app_nth)

lemma located_init: "located src lexer_init"
  by (simp add: located_def in_src_def lexer_init_def line_at_def col_at_def)

subsection \<open>Blanks and comments\<close>

text \<open>Text that does not contain the two characters that close a comment.\<close>

fun no_close :: "string \<Rightarrow> bool" where
  "no_close (a # b # s) \<longleftrightarrow> \<not> (a = CHR ''*'' \<and> b = CHR ''/'') \<and> no_close (b # s)"
| "no_close _ \<longleftrightarrow> True"

text \<open>
  \<open>gap s r\<close>: skipping blanks and comments from \<open>s\<close> leaves \<open>r\<close>. A comment that is never
  closed ends before the last character of the source, which stays.
\<close>

inductive gap :: "string \<Rightarrow> string \<Rightarrow> bool" where
  gap_done: "gap r r"
| gap_space: "is_space c \<Longrightarrow> gap s r \<Longrightarrow> gap (c # s) r"
| gap_line: "CHR 0x0A \<notin> set l \<Longrightarrow> s = [] \<or> hd s = CHR 0x0A \<Longrightarrow> gap s r \<Longrightarrow> gap (''//'' @ l @ s) r"
| gap_block: "no_close (w @ ''*'') \<Longrightarrow> gap s r \<Longrightarrow> gap (''/*'' @ w @ ''*/'' @ s) r"
| gap_open: "no_close (w @ c) \<Longrightarrow> length c \<le> 1 \<Longrightarrow> c = [] \<longrightarrow> w = [] \<Longrightarrow> gap c r \<Longrightarrow> gap (''/*'' @ w @ c) r"

fun to_close :: "string \<Rightarrow> string" where
  "to_close (a # b # s) = (if a = CHR ''*'' \<and> b = CHR ''/'' then a # b # s else to_close (b # s))"
| "to_close s = s"

lemma rest_skip_block [rest_simps]: "rest src (skip_block src st) = to_close (rest src st)"
proof (induction src st rule: skip_block.induct)
  case (1 src st)
  show ?case
  proof (cases "\<exists>a b s. rest src st = a # b # s")
    case True
    then obtain a b s where r: "rest src st = a # b # s" by blast
    then have "starts2 a b src st" by (simp add: starts2_rest)
    then have "lx_pos st + 1 < length src" "src ! lx_pos st = a" "src ! (lx_pos st + 1) = b"
      by (auto simp: starts2_def)
    with 1 r show ?thesis by (subst skip_block.simps) (simp add: rest_advance1)
  next
    case False
    then have "\<not> lx_pos st + 1 < length src"
      by (metis Cons_nth_drop_Suc Suc_eq_plus1 Suc_lessD rest_def)
    moreover have "to_close (rest src st) = rest src st" using False by (cases "rest src st" rule: to_close.cases) auto
    ultimately show ?thesis by (subst skip_block.simps) simp
  qed
qed

lemma to_close_split:
  "\<exists>w. s = w @ to_close s \<and>
     ((\<exists>r. to_close s = ''*/'' @ r \<and> no_close (w @ ''*'')) \<or>
      (length (to_close s) \<le> 1 \<and> no_close (w @ to_close s) \<and> (to_close s = [] \<longrightarrow> w = [])))"
proof (induction s rule: to_close.induct)
  case (1 a b s)
  show ?case
  proof (cases "a = CHR ''*'' \<and> b = CHR ''/''")
    case False
    with "1.IH" obtain w where w: "b # s = w @ to_close (b # s)"
      "(\<exists>r. to_close (b # s) = ''*/'' @ r \<and> no_close (w @ ''*'')) \<or>
       (length (to_close (b # s)) \<le> 1 \<and> no_close (w @ to_close (b # s)) \<and> (to_close (b # s) = [] \<longrightarrow> w = []))" by blast
    have e: "to_close (a # b # s) = to_close (b # s)" using False by auto
    have "no_close (a # x) \<longleftrightarrow> no_close x" if "x \<noteq> [] \<longrightarrow> hd x = b" for x
      using that False by (cases x) auto
    moreover have "w = [] \<or> hd w = b" using w(1) by (cases w) auto
    moreover have "w = [] \<Longrightarrow> to_close (b # s) = b # s" using w(1) by simp
    ultimately show ?thesis unfolding e using w False
      by (intro exI [of _ "a # w"]) (cases "w = []", auto)
  qed auto
qed auto

lemma gap_skip: "gap (rest src st) (rest src (skip_ws_and_comments src st))"
proof (induction src st rule: skip_ws_and_comments.induct)
  case (1 src st)
  let ?r = "rest src st" and ?out = "skip_ws_and_comments src st"
  consider "at_end src st" | "\<not> at_end src st" "is_space (src ! lx_pos st)"
    | "\<not> at_end src st" "\<not> is_space (src ! lx_pos st)" "starts2 CHR ''/'' CHR ''/'' src st"
    | "\<not> at_end src st" "\<not> is_space (src ! lx_pos st)" "\<not> starts2 CHR ''/'' CHR ''/'' src st" "starts2 CHR ''/'' CHR ''*'' src st"
    | "\<not> at_end src st" "\<not> is_space (src ! lx_pos st)" "\<not> starts2 CHR ''/'' CHR ''/'' src st" "\<not> starts2 CHR ''/'' CHR ''*'' src st"
    by blast
  then show ?case
  proof cases
    case 1
    then have "?out = st" by (subst skip_ws_and_comments.simps) simp
    then show ?thesis by (simp add: gap_done)
  next
    case 2
    then have "?out = skip_ws_and_comments src (advance1 src st)" by (subst skip_ws_and_comments.simps) simp
    with 2 "1.IH"(1) show ?thesis by (simp add: rest_cur gap_space)
  next
    case 3
    let ?st = "advance_while (\<lambda>c. c \<noteq> CHR 0x0A) src st"
    from 3 have out: "?out = skip_ws_and_comments src ?st" by (subst skip_ws_and_comments.simps) simp
    from 3(3) obtain s where s: "?r = ''//'' @ s" by (auto simp: starts2_rest)
    let ?l = "takeWhile (\<lambda>c. c \<noteq> CHR 0x0A) s"
    have "rest src ?st = dropWhile (\<lambda>c. c \<noteq> CHR 0x0A) s" by (simp add: rest_simps s)
    moreover have "CHR 0x0A \<notin> set ?l" using set_takeWhileD [of "CHR 0x0A" "\<lambda>c. c \<noteq> CHR 0x0A" s] by blast
    moreover have "dropWhile (\<lambda>c. c \<noteq> CHR 0x0A) s = [] \<or> hd (dropWhile (\<lambda>c. c \<noteq> CHR 0x0A) s) = CHR 0x0A"
      using hd_dropWhile [of "\<lambda>c. c \<noteq> CHR 0x0A" s] by (cases "dropWhile (\<lambda>c. c \<noteq> CHR 0x0A) s") auto
    ultimately have "gap (''//'' @ ?l @ dropWhile (\<lambda>c. c \<noteq> CHR 0x0A) s) (rest src ?out)"
      using "1.IH"(2) [OF 3] gap_line unfolding out by metis
    then show ?thesis unfolding s by simp
  next
    case 4
    let ?st = "skip_comment src st"
    from 4 have out: "?out = skip_ws_and_comments src ?st" by (subst skip_ws_and_comments.simps) simp
    from 4(4) obtain s where s: "?r = ''/*'' @ s" by (auto simp: starts2_rest)
    note ih = "1.IH"(3) [OF 4]
    have r: "rest src ?st = (if length (to_close s) > 1 then drop 2 (to_close s) else to_close s)"
    proof -
      let ?b = "skip_block src (advance 2 src st)"
      have b: "rest src ?b = to_close s" by (simp add: rest_simps s)
      have "lx_pos ?b + 1 < length src \<longleftrightarrow> length (to_close s) > 1"
        unfolding b [symmetric] by (auto simp: rest_def)
      then show ?thesis by (simp add: skip_comment_def Let_def rest_simps s)
    qed
    from to_close_split [of s] obtain w where w: "s = w @ to_close s"
      "(\<exists>r. to_close s = ''*/'' @ r \<and> no_close (w @ ''*'')) \<or>
       (length (to_close s) \<le> 1 \<and> no_close (w @ to_close s) \<and> (to_close s = [] \<longrightarrow> w = []))" by blast
    from w(2) show ?thesis
    proof
      assume "\<exists>r. to_close s = ''*/'' @ r \<and> no_close (w @ ''*'')"
      then obtain q where q: "to_close s = ''*/'' @ q" "no_close (w @ ''*'')" by blast
      have "gap (''/*'' @ w @ ''*/'' @ q) (rest src ?out)" using gap_block [OF q(2)] ih unfolding out r q by simp
      then show ?thesis using w(1) unfolding s q by simp
    next
      assume o: "length (to_close s) \<le> 1 \<and> no_close (w @ to_close s) \<and> (to_close s = [] \<longrightarrow> w = [])"
      then have "gap (to_close s) (rest src ?out)" using ih unfolding out r by simp
      with o have "gap (''/*'' @ w @ to_close s) (rest src ?out)" by (intro gap_open) auto
      then show ?thesis using w(1) unfolding s by simp
    qed
  next
    case 5
    then have "?out = st" by (subst skip_ws_and_comments.simps) simp
    then show ?thesis by (simp add: gap_done)
  qed
qed

lemma skip_ws_done: "rest src st = c # s \<Longrightarrow> \<not> is_space c \<Longrightarrow> c \<noteq> CHR ''/'' \<or> s = [] \<or> hd s \<notin> {CHR ''/'', CHR ''*''}
    \<Longrightarrow> skip_ws_and_comments src st = st"
  by (subst skip_ws_and_comments.simps) (auto simp: at_end_rest cur_rest starts2_rest)

lemma skip_ws_space: "rest src st = c # s \<Longrightarrow> is_space c \<Longrightarrow>
    skip_ws_and_comments src st = skip_ws_and_comments src (advance1 src st)"
  by (subst skip_ws_and_comments.simps) (auto simp: at_end_rest cur_rest)

subsection \<open>Spellings\<close>

text \<open>How the tokens of each kind are written.\<close>

fun str_body :: "string \<Rightarrow> bool" where
  "str_body [] \<longleftrightarrow> True"
| "str_body [c] \<longleftrightarrow> c \<noteq> CHR 0x22 \<and> c \<noteq> CHR 0x5C"
| "str_body (c # d # s) \<longleftrightarrow> (if c = CHR 0x5C then str_body s else c \<noteq> CHR 0x22 \<and> str_body (d # s))"

definition digits :: "string \<Rightarrow> bool" where
  "digits s \<longleftrightarrow> s \<noteq> [] \<and> list_all is_digit s"

definition hex_spelling :: "string \<Rightarrow> bool" where
  "hex_spelling s \<longleftrightarrow> (\<exists>x h. s = CHR ''0'' # x # h \<and> (x = CHR ''x'' \<or> x = CHR ''X'') \<and> list_all is_xdigit h)"

definition frac_spelling :: "string \<Rightarrow> bool" where
  "frac_spelling s \<longleftrightarrow> (\<exists>ds. s = CHR ''.'' # ds \<and> digits ds)"

definition exp_spelling :: "string \<Rightarrow> bool" where
  "exp_spelling s \<longleftrightarrow> (\<exists>x sg ds. s = x # sg @ ds \<and> (x = CHR ''e'' \<or> x = CHR ''E'')
     \<and> (sg = [] \<or> sg = [CHR ''+''] \<or> sg = [CHR ''-'']) \<and> list_all is_digit ds)"

definition float_spelling :: "string \<Rightarrow> bool" where
  "float_spelling s \<longleftrightarrow> (\<exists>ds f e. s = ds @ f @ e \<and> digits ds \<and> (f \<noteq> [] \<or> e \<noteq> [])
     \<and> (f = [] \<or> frac_spelling f) \<and> (e = [] \<or> exp_spelling e))"

definition word_spelling :: "string \<Rightarrow> bool" where
  "word_spelling s \<longleftrightarrow> s \<noteq> [] \<and> (is_alpha (hd s) \<or> hd s = CHR ''_'') \<and> list_all ident_char s"

definition op_spelling :: "token_kind \<Rightarrow> string \<Rightarrow> bool" where
  "op_spelling k s \<longleftrightarrow> (\<exists>a b. s = [a, b] \<and> map_of op2_table (a, b) = Some k) \<or> (\<exists>a. s = [a] \<and> map_of op1_table a = Some k)"

definition spells :: "token_kind \<Rightarrow> string \<Rightarrow> bool" where
  "spells k s \<longleftrightarrow>
     (if k = T_IntLit then digits s \<or> hex_spelling s
      else if k = T_FloatLit then float_spelling s
      else if k = T_StrLit then (\<exists>b. s = CHR 0x22 # b @ [CHR 0x22] \<and> str_body b)
      else word_spelling s \<and> match_keyword s = k \<or> op_spelling k s)"

fun to_quote :: "string \<Rightarrow> string" where
  "to_quote [] = []"
| "to_quote (c # s) = (if c = CHR 0x22 then c # s else if c = CHR 0x5C \<and> s \<noteq> [] then to_quote (tl s) else to_quote s)"

lemma rest_skip_string [rest_simps]: "rest src (skip_string src st) = to_quote (rest src st)"
proof (induction src st rule: skip_string.induct)
  case (1 src st)
  show ?case
  proof (cases "rest src st")
    case Nil
    then show ?thesis by (subst skip_string.simps) (simp add: at_end_rest)
  next
    case (Cons c s)
    have at: "\<not> at_end src st" "src ! lx_pos st = c" using Cons by (simp_all add: at_end_rest cur_rest)
    have l: "lx_pos st + 1 < length src \<longleftrightarrow> s \<noteq> []"
      using arg_cong [OF Cons, of length] by (cases s) (auto simp: rest_def)
    show ?thesis
    proof (cases "c = CHR 0x22")
      case True
      with at Cons show ?thesis by (subst skip_string.simps) simp
    next
      case False
      then have e: "skip_string src st = (if c = CHR 0x5C \<and> s \<noteq> [] then skip_string src (advance 2 src st) else skip_string src (advance1 src st))"
        using at l by (subst skip_string.simps) auto
      show ?thesis
      proof (cases "c = CHR 0x5C \<and> s \<noteq> []")
        case True
        with False at l "1.IH"(1) have "rest src (skip_string src (advance 2 src st)) = to_quote (rest src (advance 2 src st))" by simp
        with e True Cons show ?thesis by (simp add: rest_simps drop_Suc numeral_2_eq_2)
      next
        case f: False
        with False at l "1.IH"(2) have "rest src (skip_string src (advance1 src st)) = to_quote (rest src (advance1 src st))" by auto
        with e f Cons False show ?thesis by (auto simp: rest_simps)
      qed
    qed
  qed
qed

lemma to_quote_split: "to_quote s \<noteq> [] \<Longrightarrow> \<exists>b r. to_quote s = CHR 0x22 # r \<and> s = b @ CHR 0x22 # r \<and> str_body b"
proof (induction s rule: to_quote.induct)
  case (2 c s)
  show ?case
  proof (cases "c = CHR 0x22")
    case False
    show ?thesis
    proof (cases "c = CHR 0x5C \<and> s \<noteq> []")
      case True
      then obtain d s' where s: "s = d # s'" by (cases s) auto
      with True False 2 obtain b r where "to_quote s' = CHR 0x22 # r" "s' = b @ CHR 0x22 # r" "str_body b" by auto
      with True s have "to_quote (c # s) = CHR 0x22 # r" "c # s = (c # d # b) @ CHR 0x22 # r" "str_body (c # d # b)" by auto
      then show ?thesis by blast
    next
      case f: False
      with False 2 obtain b r where br: "to_quote s = CHR 0x22 # r" "s = b @ CHR 0x22 # r" "str_body b" by auto
      have "c \<noteq> CHR 0x5C" using f br(2) by auto
      then have "str_body (c # b)" using br(3) False by (cases b) auto
      with f False br have "to_quote (c # s) = CHR 0x22 # r" "c # s = (c # b) @ CHR 0x22 # r" "str_body (c # b)" by auto
      then show ?thesis by blast
    qed
  qed (use str_body.simps(1) in \<open>metis append_Nil to_quote.simps(2)\<close>)
qed simp

lemma to_quote_body: "str_body b \<Longrightarrow> to_quote (b @ CHR 0x22 # r) = CHR 0x22 # r"
  by (induction b rule: str_body.induct) (auto split: if_splits)

subsection \<open>One token\<close>

text \<open>\<open>reads src st w st1\<close>: the routine consumed exactly \<open>w\<close>.\<close>

definition reads :: "string \<Rightarrow> lexer \<Rightarrow> string \<Rightarrow> lexer \<Rightarrow> bool" where
  "reads src st w st1 \<longleftrightarrow> rest src st = w @ rest src st1 \<and> in_src src st1"

lemma reads_refl: "in_src src st \<Longrightarrow> reads src st [] st"
  by (simp add: reads_def)

lemma reads_trans: "reads src st v st1 \<Longrightarrow> reads src st1 w st2 \<Longrightarrow> reads src st (v @ w) st2"
  by (simp add: reads_def)

lemma reads_advance: "in_src src st \<Longrightarrow> rest src st = w @ r \<Longrightarrow> length w = n \<Longrightarrow> reads src st w (advance n src st)"
  by (simp add: reads_def rest_simps in_src_intros)

lemma reads_advance1: "in_src src st \<Longrightarrow> rest src st = c # r \<Longrightarrow> reads src st [c] (advance1 src st)"
  by (simp add: reads_def rest_simps in_src_intros)

lemma reads_advance_while: "in_src src st \<Longrightarrow> reads src st (takeWhile P (rest src st)) (advance_while P src st)"
  by (simp add: reads_def rest_simps in_src_intros)

lemma reads_in_src: "reads src st w st1 \<Longrightarrow> in_src src st1"
  by (simp add: reads_def)

lemma make_token_text: "reads src st w st1 \<Longrightarrow> t_text (make_token src file k st st1) = w"
  by (simp add: make_token_def reads_def in_src_def slice_rest)

lemma make_token_kind [simp]: "t_kind (make_token src file k st st1) = k"
  by (simp add: make_token_def)

lemma slice_reads: "reads src st w st1 \<Longrightarrow> slice src (lx_pos st) (lx_pos st1) = w"
  by (simp add: reads_def in_src_def slice_rest)

lemma list_all_takeWhile: "list_all P (takeWhile P s)"
  by (induction s) auto

lemma takeWhile_all: "list_all P w \<Longrightarrow> r = [] \<or> \<not> P (hd r) \<Longrightarrow> takeWhile P (w @ r) = w"
  by (induction w) (auto, cases r, auto)

lemma dropWhile_all: "list_all P w \<Longrightarrow> r = [] \<or> \<not> P (hd r) \<Longrightarrow> dropWhile P (w @ r) = r"
  by (induction w) (auto, cases r, auto)

lemma lex_fraction_sound:
  assumes "in_src src st" "lex_fraction src st = (b, st1)"
  shows "\<exists>f. reads src st f st1 \<and> (b \<longleftrightarrow> f \<noteq> []) \<and> (f = [] \<or> frac_spelling f)"
proof (cases "cur_is (\<lambda>c. c = CHR ''.'') src st \<and> lx_pos st + 1 < length src \<and> is_digit (src ! (lx_pos st + 1))")
  case True
  then obtain s where s: "rest src st = CHR ''.'' # s" by (auto simp: cur_is_rest)
  have "\<not> at_end src (advance1 src st)" using True by (auto simp: at_end_def)
  moreover have "lx_pos (advance1 src st) = lx_pos st + 1" using s by (simp add: at_end_rest)
  ultimately obtain d s' where d: "s = d # s'" "is_digit d"
    using True rest_cur [of src "advance1 src st"] s by (cases s) (auto simp: rest_simps)
  let ?st = "advance1 src st"
  have r: "reads src st ([CHR ''.''] @ takeWhile is_digit s) st1"
    using assms True reads_trans [OF reads_advance1 [OF assms(1) s] reads_advance_while [OF in_src_advance1 [OF assms(1)], of is_digit]]
    by (simp add: lex_fraction_def s rest_simps)
  have "frac_spelling ([CHR ''.''] @ takeWhile is_digit s)"
    using d by (simp add: frac_spelling_def digits_def list_all_takeWhile)
  with r show ?thesis using True assms(2) by (intro exI [of _ "[CHR ''.''] @ takeWhile is_digit s"]) (simp add: lex_fraction_def)
next
  case False
  with assms show ?thesis by (intro exI [of _ "[]"]) (auto simp: lex_fraction_def reads_refl)
qed

lemma lex_fraction_reads:
  assumes "in_src src st" "rest src st = f @ r" "f = [] \<or> frac_spelling f" "r = [] \<or> \<not> is_digit (hd r)" "r = [] \<or> hd r \<noteq> CHR ''.''"
  shows "\<exists>st1. lex_fraction src st = (f \<noteq> [], st1) \<and> reads src st f st1 \<and> rest src st1 = r"
proof (cases "f = []")
  case True
  have "\<not> cur_is (\<lambda>c. c = CHR ''.'') src st" using assms(2,5) True by (auto simp: cur_is_rest)
  with True assms show ?thesis by (auto simp: lex_fraction_def reads_refl)
next
  case False
  with assms(3) obtain ds where f: "f = CHR ''.'' # ds" "digits ds" by (auto simp: frac_spelling_def)
  then obtain d ds' where ds: "ds = d # ds'" "is_digit d" by (cases ds) (auto simp: digits_def)
  from assms(2) f ds have r0: "rest src st = CHR ''.'' # d # ds' @ r" by simp
  then have "starts2 CHR ''.'' d src st" by (simp add: starts2_rest)
  then have c: "cur_is (\<lambda>c. c = CHR ''.'') src st \<and> lx_pos st + 1 < length src \<and> is_digit (src ! (lx_pos st + 1))"
    using ds(2) by (auto simp: starts2_def cur_is_def)
  let ?st1 = "advance_while is_digit src (advance1 src st)"
  have "lex_fraction src st = (True, ?st1)" using c by (simp add: lex_fraction_def)
  moreover have "rest src ?st1 = r"
    using assms(4) f(2) dropWhile_all [of is_digit ds r] by (simp add: rest_simps r0 ds digits_def)
  ultimately show ?thesis using False assms by (auto simp: reads_def in_src_intros)
qed

lemma exp_spellingI:
  assumes "x = CHR ''e'' \<or> x = CHR ''E''" "sg = [] \<or> sg = [CHR ''+''] \<or> sg = [CHR ''-'']" "list_all is_digit ds"
  shows "exp_spelling ([x] @ sg @ ds)"
proof -
  have "[x] @ sg @ ds = x # sg @ ds" by simp
  with assms show ?thesis unfolding exp_spelling_def by blast
qed

lemma lex_exponent_sound:
  assumes "in_src src st" "lex_exponent src st = (b, st1)"
  shows "\<exists>f. reads src st f st1 \<and> (b \<longleftrightarrow> f \<noteq> []) \<and> (f = [] \<or> exp_spelling f)"
proof (cases "cur_is (\<lambda>c. c = CHR ''e'' \<or> c = CHR ''E'') src st")
  case True
  then obtain x s where s: "rest src st = x # s" "x = CHR ''e'' \<or> x = CHR ''E''" by (auto simp: cur_is_rest)
  let ?sg = "cur_is (\<lambda>c. c = CHR ''+'' \<or> c = CHR ''-'') src (advance1 src st)"
  let ?st2 = "if ?sg then advance1 src (advance1 src st) else advance1 src st"
  have in1: "in_src src (advance1 src st)" by (rule in_src_advance1 [OF assms(1)])
  obtain sg where sg: "reads src (advance1 src st) sg ?st2" "sg = [] \<or> sg = [CHR ''+''] \<or> sg = [CHR ''-'']"
  proof (cases ?sg)
    case True
    then obtain y z where "rest src (advance1 src st) = y # z" "y = CHR ''+'' \<or> y = CHR ''-''" by (auto simp: cur_is_rest)
    with reads_advance1 [OF in1 this(1)] True that [of "[y]"] show ?thesis by auto
  qed (use in1 that [of "[]"] in \<open>simp add: reads_refl\<close>)
  let ?ds = "takeWhile is_digit (rest src ?st2)"
  have "st1 = advance_while is_digit src ?st2" "b" using True assms(2) by (auto simp: lex_exponent_def Let_def)
  then have "reads src st ([x] @ sg @ ?ds) st1"
    using reads_trans [OF reads_advance1 [OF assms(1) s(1)] reads_trans [OF sg(1) reads_advance_while [OF reads_in_src [OF sg(1)], of is_digit]]]
    by simp
  moreover have "exp_spelling ([x] @ sg @ ?ds)"
    using s(2) sg(2) list_all_takeWhile by (rule exp_spellingI)
  ultimately show ?thesis using \<open>b\<close> by (intro exI [of _ "[x] @ sg @ ?ds"]) simp
next
  case False
  with assms show ?thesis by (intro exI [of _ "[]"]) (auto simp: lex_exponent_def reads_refl)
qed

lemma is_digit_sign [simp]: "\<not> is_digit CHR ''+''" "\<not> is_digit CHR ''-''" "\<not> is_digit CHR ''e''" "\<not> is_digit CHR ''E''"
  "\<not> is_digit CHR ''.''" "\<not> is_digit CHR '' ''" "\<not> is_digit CHR ''x''" "\<not> is_digit CHR ''X''"
  by code_simp+

lemma lex_exponent_reads:
  assumes "in_src src st" "rest src st = f @ CHR '' '' # r" "f = [] \<or> exp_spelling f"
  shows "\<exists>st1. lex_exponent src st = (f \<noteq> [], st1) \<and> reads src st f st1 \<and> rest src st1 = CHR '' '' # r"
proof (cases "f = []")
  case True
  have "\<not> cur_is (\<lambda>c. c = CHR ''e'' \<or> c = CHR ''E'') src st" using assms(2) True by (auto simp: cur_is_rest)
  with True assms show ?thesis by (auto simp: lex_exponent_def reads_refl)
next
  case False
  with assms(3) obtain x sg ds where f: "f = x # sg @ ds" "x = CHR ''e'' \<or> x = CHR ''E''"
    "sg = [] \<or> sg = [CHR ''+''] \<or> sg = [CHR ''-'']" "list_all is_digit ds" by (auto simp: exp_spelling_def)
  let ?st1 = "advance1 src st"
  have r1: "rest src ?st1 = sg @ ds @ CHR '' '' # r" using assms(2) f(1) by (simp add: rest_simps)
  have "hd (ds @ CHR '' '' # r) \<noteq> CHR ''+'' \<and> hd (ds @ CHR '' '' # r) \<noteq> CHR ''-''" using f(4) by (cases ds) auto
  then have c: "cur_is (\<lambda>c. c = CHR ''+'' \<or> c = CHR ''-'') src ?st1 \<longleftrightarrow> sg \<noteq> []"
    using f(3) unfolding cur_is_rest r1 by (cases ds) auto
  let ?st2 = "if sg \<noteq> [] then advance1 src ?st1 else ?st1"
  have r2: "rest src ?st2 = ds @ CHR '' '' # r" using r1 f(3) by (auto simp: rest_simps)
  have "cur_is (\<lambda>c. c = CHR ''e'' \<or> c = CHR ''E'') src st" using assms(2) f by (auto simp: cur_is_rest)
  then have "lex_exponent src st = (True, advance_while is_digit src ?st2)"
    using c by (simp add: lex_exponent_def Let_def)
  moreover have "rest src (advance_while is_digit src ?st2) = CHR '' '' # r"
    unfolding rest_advance_while r2 using f(4) by (intro dropWhile_all) auto
  moreover have "in_src src (advance_while is_digit src ?st2)" using assms(1) by (auto intro: in_src_intros)
  ultimately show ?thesis using False assms(2) by (auto simp: reads_def)
qed

text \<open>Every routine reads a spelling of the kind it returns, and reads all of a spelling that a blank ends.\<close>

definition lexed :: "string \<Rightarrow> symbol_id \<Rightarrow> lexer \<Rightarrow> token \<times> lexer \<Rightarrow> bool" where
  "lexed src file st r \<longleftrightarrow> (case r of (t, st1) \<Rightarrow> \<exists>w k. t = make_token src file k st st1 \<and> reads src st w st1 \<and> w \<noteq> [] \<and> spells k w)"

definition lexes_to :: "string \<Rightarrow> symbol_id \<Rightarrow> lexer \<Rightarrow> token_kind \<Rightarrow> string \<Rightarrow> string \<Rightarrow> token \<times> lexer \<Rightarrow> bool" where
  "lexes_to src file st k w r res \<longleftrightarrow> (case res of (t, st1) \<Rightarrow> t = make_token src file k st st1 \<and> reads src st w st1 \<and> rest src st1 = r)"

lemma find_keyword_cases: "find_keyword s kws = T_Ident \<or> find_keyword s kws \<in> snd ` set kws"
  by (induction s kws rule: find_keyword.induct) auto

lemma match_keyword_kinds: "match_keyword s \<notin> {T_IntLit, T_FloatLit, T_StrLit, T_Eof}"
  using find_keyword_cases [of s kKeywords] by (auto simp: match_keyword_def kKeywords_def)

lemma op1_chars: "map_of op1_table c = Some k \<Longrightarrow>
    \<not> is_alpha c \<and> c \<noteq> CHR ''_'' \<and> \<not> is_digit c \<and> c \<noteq> CHR 0x22 \<and> \<not> is_space c \<and> k \<notin> {T_IntLit, T_FloatLit, T_StrLit, T_Eof}"
proof -
  have "list_all (\<lambda>(c, k). \<not> is_alpha c \<and> c \<noteq> CHR ''_'' \<and> \<not> is_digit c \<and> c \<noteq> CHR 0x22 \<and> \<not> is_space c
      \<and> k \<noteq> T_IntLit \<and> k \<noteq> T_FloatLit \<and> k \<noteq> T_StrLit \<and> k \<noteq> T_Eof) op1_table" by code_simp
  moreover assume "map_of op1_table c = Some k"
  ultimately show ?thesis by (auto simp: list_all_iff dest!: map_of_SomeD)
qed

lemma op2_chars: "map_of op2_table (c, d) = Some k \<Longrightarrow>
    \<not> is_alpha c \<and> c \<noteq> CHR ''_'' \<and> \<not> is_digit c \<and> c \<noteq> CHR 0x22 \<and> \<not> is_space c \<and> c \<noteq> CHR ''/'' \<and> d \<noteq> CHR 0x00
    \<and> d \<noteq> CHR '' '' \<and> k \<notin> {T_IntLit, T_FloatLit, T_StrLit, T_Eof}"
proof -
  have "list_all (\<lambda>((c, d), k). \<not> is_alpha c \<and> c \<noteq> CHR ''_'' \<and> \<not> is_digit c \<and> c \<noteq> CHR 0x22 \<and> \<not> is_space c
      \<and> c \<noteq> CHR ''/'' \<and> d \<noteq> CHR 0x00 \<and> d \<noteq> CHR '' '' \<and> k \<noteq> T_IntLit \<and> k \<noteq> T_FloatLit \<and> k \<noteq> T_StrLit \<and> k \<noteq> T_Eof) op2_table"
    by code_simp
  moreover assume "map_of op2_table (c, d) = Some k"
  ultimately show ?thesis by (auto simp: list_all_iff dest!: map_of_SomeD)
qed

lemma char_classes: "is_alpha c \<Longrightarrow> ident_char c" "is_digit c \<Longrightarrow> \<not> is_alpha c" "is_digit c \<Longrightarrow> c \<noteq> CHR ''_''"
  "is_alpha c \<Longrightarrow> \<not> is_space c" "is_digit c \<Longrightarrow> \<not> is_space c"
  by (auto simp: ident_char_def is_alpha_def is_digit_def in_range_def is_space_def)

lemma ident_sound:
  assumes "in_src src st" "rest src st = c # s" "is_alpha c \<or> c = CHR ''_''"
  shows "lexed src file st (lex_ident_or_kw src file st)"
proof -
  let ?st1 = "advance_while ident_char src st" and ?w = "takeWhile ident_char (rest src st)"
  note r = reads_advance_while [OF assms(1), of ident_char]
  have "?w \<noteq> []" and h: "hd ?w = c" using assms(2,3) by (auto simp: ident_char_def)
  moreover have "word_spelling ?w" using calculation assms(3) by (simp add: word_spelling_def list_all_takeWhile)
  then have "spells (match_keyword ?w) ?w" using match_keyword_kinds [of ?w] by (auto simp: spells_def)
  ultimately show ?thesis using r slice_reads [OF r]
    by (auto simp: lexed_def lex_ident_or_kw_def Let_def)
qed

lemma ident_reads:
  assumes "in_src src st" "rest src st = w @ CHR '' '' # r" "word_spelling w" "match_keyword w = k"
  shows "lexes_to src file st k w (CHR '' '' # r) (lex_ident_or_kw src file st)"
proof -
  let ?st1 = "advance_while ident_char src st"
  have ns: "\<not> ident_char CHR '' ''" by code_simp
  have w: "takeWhile ident_char (rest src st) = w" "dropWhile ident_char (rest src st) = CHR '' '' # r"
    using assms(2,3) ns by (simp_all add: word_spelling_def takeWhile_all dropWhile_all)
  have r: "reads src st w ?st1" using reads_advance_while [OF assms(1), of ident_char] w(1) by simp
  then show ?thesis using slice_reads [OF r] assms(4) w(2)
    by (simp add: lexes_to_def lex_ident_or_kw_def Let_def rest_simps)
qed

lemma number_sound:
  assumes "in_src src st" "rest src st = c # s" "is_digit c"
  shows "lexed src file st (lex_number src file st)"
proof (cases "starts2 CHR ''0'' CHR ''x'' src st \<or> starts2 CHR ''0'' CHR ''X'' src st")
  case True
  then obtain x s' where x: "rest src st = CHR ''0'' # x # s'" "x = CHR ''x'' \<or> x = CHR ''X''" by (auto simp: starts2_rest)
  let ?st1 = "advance_while is_xdigit src (advance 2 src st)"
  have "reads src st [CHR ''0'', x] (advance 2 src st)" using x(1) by (intro reads_advance [OF assms(1)]) auto
  from reads_trans [OF this reads_advance_while [OF in_src_advance [OF assms(1)], where P = is_xdigit]]
  have r: "reads src st ([CHR ''0'', x] @ takeWhile is_xdigit s') ?st1" by (simp add: rest_simps x(1))
  moreover have "hex_spelling ([CHR ''0'', x] @ takeWhile is_xdigit s')"
    using x(2) by (simp add: hex_spelling_def list_all_takeWhile)
  then have "spells T_IntLit ([CHR ''0'', x] @ takeWhile is_xdigit s')" by (simp add: spells_def)
  ultimately show ?thesis using True unfolding lexed_def lex_number_def Let_def by fastforce
next
  case False
  let ?st1 = "advance_while is_digit src st" and ?ds = "takeWhile is_digit (rest src st)"
  note r1 = reads_advance_while [OF assms(1), of is_digit]
  obtain fr st2 where fr: "lex_fraction src ?st1 = (fr, st2)" by force
  obtain ex st3 where ex: "lex_exponent src st2 = (ex, st3)" by force
  from lex_fraction_sound [OF reads_in_src [OF r1] fr] obtain f where
    f: "reads src ?st1 f st2" "fr \<longleftrightarrow> f \<noteq> []" "f = [] \<or> frac_spelling f" by blast
  from lex_exponent_sound [OF reads_in_src [OF f(1)] ex] obtain e where
    e: "reads src st2 e st3" "ex \<longleftrightarrow> e \<noteq> []" "e = [] \<or> exp_spelling e" by blast
  have r: "reads src st (?ds @ f @ e) st3" using reads_trans [OF r1 reads_trans [OF f(1) e(1)]] .
  have ds: "digits ?ds" using assms(2,3) by (simp add: digits_def list_all_takeWhile)
  let ?k = "if fr \<or> ex then T_FloatLit else T_IntLit"
  have "spells ?k (?ds @ f @ e)"
  proof (cases "fr \<or> ex")
    case True
    then have "float_spelling (?ds @ f @ e)" using ds f(2,3) e(2,3) unfolding float_spelling_def by blast
    with True show ?thesis by (auto simp: spells_def)
  next
    case False
    with f(2) e(2) ds show ?thesis by (simp add: spells_def)
  qed
  moreover have "lex_number src file st = (make_token src file ?k st st3, st3)"
    using False fr ex by (simp add: lex_number_def Let_def)
  moreover have "?ds @ f @ e \<noteq> []" using ds by (simp add: digits_def)
  ultimately show ?thesis using r unfolding lexed_def by fastforce
qed

lemma digits_start: "digits ds \<Longrightarrow> \<exists>c s. ds = c # s \<and> is_digit c"
  by (cases ds) (auto simp: digits_def)

lemma decimal_reads:
  assumes "in_src src st" "rest src st = ds @ f @ e @ CHR '' '' # r" "digits ds"
    "f = [] \<or> frac_spelling f" "e = [] \<or> exp_spelling e"
  shows "lexes_to src file st (if f \<noteq> [] \<or> e \<noteq> [] then T_FloatLit else T_IntLit) (ds @ f @ e) (CHR '' '' # r) (lex_number src file st)"
proof -
  let ?st1 = "advance_while is_digit src st" and ?r = "f @ e @ CHR '' '' # r"
  have hd: "hd (f @ e @ CHR '' '' # r) \<in> {CHR ''.'', CHR ''e'', CHR ''E'', CHR '' ''}"
    using assms(4,5) by (auto simp: frac_spelling_def exp_spelling_def)
  then have nd: "\<not> is_digit (hd ?r)" by auto
  have l: "list_all is_digit ds" using assms(3) by (simp add: digits_def)
  have r1: "rest src ?st1 = ?r" "reads src st ds ?st1"
    using reads_advance_while [OF assms(1), of is_digit] dropWhile_all [OF l, of ?r] takeWhile_all [OF l, of ?r] nd
    by (simp_all add: rest_simps assms(2))
  have "hd (e @ CHR '' '' # r) \<in> {CHR ''e'', CHR ''E'', CHR '' ''}" using assms(5) by (auto simp: exp_spelling_def)
  then have "\<not> is_digit (hd (e @ CHR '' '' # r)) \<and> hd (e @ CHR '' '' # r) \<noteq> CHR ''.''" by auto
  with lex_fraction_reads [OF reads_in_src [OF r1(2)] r1(1) assms(4)] obtain st2 where
    f: "lex_fraction src ?st1 = (f \<noteq> [], st2)" "reads src ?st1 f st2" "rest src st2 = e @ CHR '' '' # r" by blast
  from lex_exponent_reads [OF reads_in_src [OF f(2)] f(3) assms(5)] obtain st3 where
    e: "lex_exponent src st2 = (e \<noteq> [], st3)" "reads src st2 e st3" "rest src st3 = CHR '' '' # r" by blast
  obtain c s where ds: "ds = c # s" using digits_start [OF assms(3)] by blast
  have "hd (s @ ?r) \<noteq> CHR ''x'' \<and> hd (s @ ?r) \<noteq> CHR ''X''"
    using hd l ds by (cases s) auto
  then have "\<not> starts2 CHR ''0'' CHR ''x'' src st" "\<not> starts2 CHR ''0'' CHR ''X'' src st"
    unfolding starts2_rest assms(2) ds by (auto simp: append_eq_Cons_conv Cons_eq_append_conv)
  with f(1) e(1) have "lex_number src file st = (make_token src file (if f \<noteq> [] \<or> e \<noteq> [] then T_FloatLit else T_IntLit) st st3, st3)"
    by (simp add: lex_number_def Let_def)
  with reads_trans [OF r1(2) reads_trans [OF f(2) e(2)]] e(3) show ?thesis by (simp add: lexes_to_def)
qed

lemma hex_reads:
  assumes "in_src src st" "rest src st = w @ CHR '' '' # r" "hex_spelling w"
  shows "lexes_to src file st T_IntLit w (CHR '' '' # r) (lex_number src file st)"
proof -
  obtain x h where x: "w = CHR ''0'' # x # h" "x = CHR ''x'' \<or> x = CHR ''X''" "list_all is_xdigit h"
    using assms(3) by (auto simp: hex_spelling_def)
  let ?st1 = "advance_while is_xdigit src (advance 2 src st)"
  have "\<not> is_xdigit CHR '' ''" by code_simp
  then have tw: "takeWhile is_xdigit (h @ CHR '' '' # r) = h" "dropWhile is_xdigit (h @ CHR '' '' # r) = CHR '' '' # r"
    using x(3) by (simp_all add: takeWhile_all dropWhile_all)
  have "reads src st [CHR ''0'', x] (advance 2 src st)" using assms(2) x(1) by (intro reads_advance [OF assms(1)]) auto
  from reads_trans [OF this reads_advance_while [OF in_src_advance [OF assms(1)], where P = is_xdigit]]
  have "reads src st w ?st1" by (simp add: rest_simps assms(2) x(1) tw)
  moreover have "rest src ?st1 = CHR '' '' # r" by (simp add: rest_simps assms(2) x(1) tw)
  moreover have "starts2 CHR ''0'' CHR ''x'' src st \<or> starts2 CHR ''0'' CHR ''X'' src st"
    using x assms(2) by (auto simp: starts2_rest)
  ultimately show ?thesis unfolding lexes_to_def lex_number_def Let_def by auto
qed

lemma string_sound:
  assumes "in_src src st" "rest src st = CHR 0x22 # s" "lex_string_lit src file st = Inr res"
  shows "lexed src file st res"
proof -
  let ?st1 = "skip_string src (advance1 src st)" let ?st2 = "advance1 src ?st1"
  have r1: "rest src ?st1 = to_quote s" by (simp add: rest_simps assms(2))
  have "\<not> at_end src ?st1" and res: "res = (make_token src file T_StrLit st ?st2, ?st2)"
    using assms(3) by (auto simp: lex_string_lit_def Let_def lex_fail_def split: if_splits)
  then have "to_quote s \<noteq> []" by (simp add: at_end_rest r1)
  from to_quote_split [OF this] obtain b r where b: "to_quote s = CHR 0x22 # r" "s = b @ CHR 0x22 # r" "str_body b" by blast
  have "reads src st (CHR 0x22 # b @ [CHR 0x22]) ?st2"
    using b(1) by (simp add: reads_def rest_simps assms(2) in_src_intros assms(1)) (simp add: b(2))
  moreover have "spells T_StrLit (CHR 0x22 # b @ [CHR 0x22])" using b(3) by (simp add: spells_def)
  ultimately show ?thesis unfolding res lexed_def by fastforce
qed

lemma string_reads:
  assumes "in_src src st" "rest src st = CHR 0x22 # b @ CHR 0x22 # r" "str_body b"
  shows "\<exists>res. lex_string_lit src file st = Inr res \<and> lexes_to src file st T_StrLit (CHR 0x22 # b @ [CHR 0x22]) r res"
proof -
  let ?st1 = "skip_string src (advance1 src st)" let ?st2 = "advance1 src ?st1"
  have r1: "rest src ?st1 = CHR 0x22 # r" by (simp add: rest_simps assms(2) to_quote_body [OF assms(3)])
  then have "lex_string_lit src file st = Inr (make_token src file T_StrLit st ?st2, ?st2)"
    by (simp add: lex_string_lit_def Let_def at_end_rest)
  moreover have "reads src st (CHR 0x22 # b @ [CHR 0x22]) ?st2" "rest src ?st2 = r"
    using r1 by (simp_all add: reads_def rest_simps assms(1,2) in_src_intros)
  ultimately show ?thesis by (simp add: lexes_to_def)
qed

lemma operator_sound:
  assumes "in_src src st" "rest src st = c # s" "lex_operator src file st = Inr res"
  shows "lexed src file st res"
proof -
  note c = cur_rest [OF assms(2)]
  show ?thesis
  proof (cases "map_of op2_table (c, peek_char src st 1)")
    case (Some k)
    note o = op2_chars [OF Some]
    then obtain d s' where d: "s = d # s'" "peek_char src st 1 = d"
      using assms(2) by (cases s) (auto simp: peek_rest)
    have "reads src st [c, d] (advance 2 src st)" using assms(2) d by (intro reads_advance [OF assms(1)]) auto
    moreover have "spells k [c, d]" using Some o d by (auto simp: spells_def op_spelling_def)
    ultimately show ?thesis using assms(3) Some c unfolding lexed_def lex_operator_def Let_def by fastforce
  next
    case None
    with assms(3) c obtain k where k: "map_of op1_table c = Some k" "res = (make_token src file k st (advance1 src st), advance1 src st)"
      by (auto simp: lex_operator_def lex_fail_def Let_def split: option.splits)
    moreover have "spells k [c]" using op1_chars [OF k(1)] k(1) by (auto simp: spells_def op_spelling_def)
    ultimately show ?thesis using reads_advance1 [OF assms(1,2)] unfolding lexed_def by fastforce
  qed
qed

lemma operator_reads:
  assumes "in_src src st" "rest src st = w @ CHR '' '' # r" "op_spelling k w"
  shows "\<exists>res. lex_operator src file st = Inr res \<and> lexes_to src file st k w (CHR '' '' # r) res"
proof -
  from assms(3) consider a b where "w = [a, b]" "map_of op2_table (a, b) = Some k"
    | a where "w = [a]" "map_of op1_table a = Some k" by (auto simp: op_spelling_def)
  then show ?thesis
  proof cases
    case 1
    with assms(2) have s: "rest src st = a # b # CHR '' '' # r" by simp
    then have "lex_operator src file st = Inr (make_token src file k st (advance 2 src st), advance 2 src st)"
      using 1(2) by (simp add: lex_operator_def Let_def cur_rest [OF s] peek_rest)
    moreover have "reads src st w (advance 2 src st)" using s 1(1) by (intro reads_advance [OF assms(1)]) auto
    ultimately show ?thesis by (simp add: lexes_to_def rest_simps s numeral_2_eq_2)
  next
    case 2
    with assms(2) have s: "rest src st = a # CHR '' '' # r" by simp
    have "map_of op2_table (a, CHR '' '') = None" using op2_chars [of a "CHR '' ''"] by (cases "map_of op2_table (a, CHR '' '')") auto
    then have "lex_operator src file st = Inr (make_token src file k st (advance1 src st), advance1 src st)"
      using 2(2) by (simp add: lex_operator_def Let_def cur_rest [OF s] peek_rest s)
    with reads_advance1 [OF assms(1) s] 2(1) show ?thesis by (simp add: lexes_to_def rest_simps s)
  qed
qed

lemma lex_token_sound:
  assumes "in_src src st" "\<not> at_end src st" "lex_token src file st = Inr res"
  shows "lexed src file st res"
proof -
  obtain c s where r: "rest src st = c # s" using assms(2) by (cases "rest src st") (auto simp: at_end_rest)
  show ?thesis
    using assms(3) ident_sound [OF assms(1) r] number_sound [OF assms(1) r] operator_sound [OF assms(1) r]
      string_sound [OF assms(1)] r
    by (auto simp: lex_token_def Let_def cur_rest [OF r] split: if_splits)
qed

lemma lex_token_reads:
  assumes "in_src src st" "rest src st = w @ CHR '' '' # r" "spells k w"
  shows "\<exists>res. lex_token src file st = Inr res \<and> lexes_to src file st k w (CHR '' '' # r) res"
proof -
  have num: "\<exists>res. lex_token src file st = Inr res \<and> lexes_to src file st k w (CHR '' '' # r) res"
    if "is_digit c" "w = c # s" "lexes_to src file st k w (CHR '' '' # r) (lex_number src file st)" for c s
  proof -
    have "src ! lx_pos st = c" using assms(2) that(2) cur_rest by simp
    then show ?thesis using that char_classes [of c] by (auto simp: lex_token_def)
  qed
  consider "k = T_IntLit" "digits w" | "k = T_IntLit" "hex_spelling w" | "k = T_FloatLit" "float_spelling w"
    | b where "k = T_StrLit" "w = CHR 0x22 # b @ [CHR 0x22]" "str_body b"
    | "word_spelling w" "match_keyword w = k" | "op_spelling k w"
    using assms(3) by (auto simp: spells_def split: if_splits)
  then show ?thesis
  proof cases
    case 1
    from digits_start [OF 1(2)] obtain c s where "w = c # s" "is_digit c" by blast
    moreover have "lexes_to src file st k w (CHR '' '' # r) (lex_number src file st)"
      using decimal_reads [OF assms(1), of w "[]" "[]" r] assms(2) 1 by simp
    ultimately show ?thesis using num by blast
  next
    case 2
    moreover from 2 obtain s where "w = CHR ''0'' # s" by (auto simp: hex_spelling_def)
    moreover have "is_digit CHR ''0''" by code_simp
    ultimately show ?thesis using num hex_reads [OF assms(1,2) 2(2)] by blast
  next
    case 3
    from 3(2) obtain ds f e where w: "w = ds @ f @ e" "digits ds" "f \<noteq> [] \<or> e \<noteq> []" "f = [] \<or> frac_spelling f" "e = [] \<or> exp_spelling e"
      unfolding float_spelling_def by blast
    from digits_start [OF w(2)] obtain c s where "w = c # s" "is_digit c" using w(1) by auto
    moreover have "lexes_to src file st k w (CHR '' '' # r) (lex_number src file st)"
      using decimal_reads [OF assms(1) _ w(2,4,5), of r] assms(2) w(1,3) 3(1) by simp
    ultimately show ?thesis using num by blast
  next
    case 4
    with assms(2) have r: "rest src st = CHR 0x22 # b @ CHR 0x22 # CHR '' '' # r" by simp
    from string_reads [OF assms(1) this 4(3)] 4 show ?thesis
      by (auto simp: lex_token_def cur_rest [OF r] is_alpha_def is_digit_def in_range_def)
  next
    case 5
    then obtain c s where w: "w = c # s" "is_alpha c \<or> c = CHR ''_''" by (cases w) (auto simp: word_spelling_def)
    have "src ! lx_pos st = c" using assms(2) w(1) cur_rest by simp
    with ident_reads [OF assms(1,2) 5] w(2) show ?thesis by (auto simp: lex_token_def)
  next
    case 6
    then obtain c s where w: "w = c # s" "\<not> is_alpha c" "c \<noteq> CHR ''_''" "\<not> is_digit c" "c \<noteq> CHR 0x22"
      using op1_chars op2_chars by (auto simp: op_spelling_def)
    have "src ! lx_pos st = c" using assms(2) w(1) cur_rest by simp
    with operator_reads [OF assms(1,2) 6] w show ?thesis by (auto simp: lex_token_def)
  qed
qed

subsection \<open>The whole source\<close>

lemma lex_token_progress: "\<not> at_end src st \<Longrightarrow> lex_token src file st = Inr (t, st1) \<Longrightarrow> length src - lx_pos st1 < length src - lx_pos st"
proof -
  assume a: "\<not> at_end src st" "lex_token src file st = Inr (t, st1)"
  then have "in_src src st" by (simp add: in_src_def at_end_def)
  from lex_token_sound [OF this a] obtain w where "rest src st = w @ rest src st1" "w \<noteq> []"
    by (auto simp: lexed_def reads_def)
  then have "length (rest src st1) < length (rest src st)" by simp
  then show ?thesis by (simp add: rest_def)
qed

lemma skip_ws_pos_le: "lx_pos st \<le> lx_pos (skip_ws_and_comments src st)"
proof (induction src st rule: skip_ws_and_comments.induct)
  case (1 src st)
  have "lx_pos st \<le> lx_pos (advance1 src st)" by simp
  note le = this advance_while_pos_le [of st "\<lambda>c. c \<noteq> CHR 0x0A" src] less_imp_le [OF skip_comment_pos [of src st]]
  show ?case
    by (subst skip_ws_and_comments.simps) (simp only: split: if_split, use 1 le in \<open>blast intro: order_trans\<close>)
qed

function lex_loop :: "string \<Rightarrow> symbol_id \<Rightarrow> lexer \<Rightarrow> lex_error + token list" where
  "lex_loop src file st =
     (let st1 = skip_ws_and_comments src st in
      if at_end src st1 then Inr [eof_token st1]
      else case lex_token src file st1 of
             Inl e \<Rightarrow> Inl e
           | Inr (t, st2) \<Rightarrow> (case lex_loop src file st2 of Inl e \<Rightarrow> Inl e | Inr ts \<Rightarrow> Inr (t # ts)))"
  by auto
termination
proof (relation "measure (\<lambda>(src, file, st). length src - lx_pos st)")
  fix src fid st st1 x t st2
  assume a: "st1 = skip_ws_and_comments src st" "\<not> at_end src st1" "lex_token src fid st1 = Inr x" "(t, st2) = x"
  with lex_token_progress [of src st1 fid t st2] skip_ws_pos_le [of st src]
  show "((src, fid, st2), src, fid, st) \<in> measure (\<lambda>(src, file, st). length src - lx_pos st)" by auto
qed auto

declare lex_loop.simps [simp del]

definition tokenize :: "string \<Rightarrow> symbol_id \<Rightarrow> lex_error + token list" where
  "tokenize src file = lex_loop src file lexer_init"

lemma closed_fraction: "adv_closed src P \<Longrightarrow> P st \<Longrightarrow> P (snd (lex_fraction src st))"
  by (simp add: lex_fraction_def closed_routines)

lemma closed_exponent: "adv_closed src P \<Longrightarrow> P st \<Longrightarrow> P (snd (lex_exponent src st))"
  by (simp add: lex_exponent_def Let_def closed_routines)

lemma closed_number: "adv_closed src P \<Longrightarrow> P st \<Longrightarrow> P (snd (lex_number src fid st))"
  by (simp add: lex_number_def Let_def split_beta closed_routines closed_fraction closed_exponent)

lemma closed_token: "adv_closed src P \<Longrightarrow> P st \<Longrightarrow> lex_token src fid st = Inr (t, st1) \<Longrightarrow> P st1"
proof -
  assume a: "adv_closed src P" "P st" and l: "lex_token src fid st = Inr (t, st1)"
  note c = closed_routines [OF a(1)] closed_number [OF a]
  have "P (snd (lex_ident_or_kw src fid st))" using a(2) c by (simp add: lex_ident_or_kw_def Let_def)
  moreover have "P st1" if "lex_string_lit src fid st = Inr (t, st1)"
    using that a(2) c by (auto simp: lex_string_lit_def Let_def lex_fail_def split: if_splits)
  moreover have "P st1" if "lex_operator src fid st = Inr (t, st1)"
    using that a(2) c by (auto simp: lex_operator_def Let_def lex_fail_def split: option.splits)
  ultimately show "P st1" using l c(8) [of fid] by (auto simp: lex_token_def Let_def split: if_splits)
qed

text \<open>How a source splits into blanks and tokens.\<close>

inductive lexes :: "string \<Rightarrow> (token_kind \<times> string) list \<Rightarrow> bool" where
  lexes_end: "gap s [] \<Longrightarrow> lexes s []"
| lexes_token: "gap s (w @ r) \<Longrightarrow> w \<noteq> [] \<Longrightarrow> spells k w \<Longrightarrow> lexes r ts \<Longrightarrow> lexes s ((k, w) # ts)"

definition placed :: "string \<Rightarrow> token \<Rightarrow> bool" where
  "placed src t \<longleftrightarrow> (\<exists>off \<le> length src. take (length (t_text t)) (drop off src) = t_text t
     \<and> t_line t = of_nat (line_at src off) \<and> t_col t = of_nat (col_at src off) \<and> t_len t = of_nat (length (t_text t)))"

definition kind_text :: "token \<Rightarrow> token_kind \<times> string" where
  "kind_text t = (t_kind t, t_text t)"

lemma placed_make_token:
  assumes "located src st" "reads src st w st1"
  shows "placed src (make_token src fid k st st1)"
proof -
  note w = make_token_text [OF assms(2), of fid k]
  have "rest src st = w @ rest src st1" using assms(2) by (simp add: reads_def)
  moreover have "length src - lx_pos st = length w + (length src - lx_pos st1)"
    using arg_cong [OF calculation, of length] by (simp add: rest_def)
  then have "lx_pos st1 - lx_pos st = length w"
    using assms unfolding reads_def located_def in_src_def by linarith
  ultimately show ?thesis unfolding placed_def w using assms(1)
    by (intro exI [of _ "lx_pos st"]) (auto simp: located_def in_src_def rest_def make_token_def)
qed

lemma lex_loop_sound:
  assumes "located src st" "lex_loop src fid st = Inr toks"
  shows "\<exists>ts eof. toks = ts @ [eof] \<and> kind_text eof = (T_Eof, '''') \<and> lexes (rest src st) (map kind_text ts)
    \<and> (\<forall>t \<in> set toks. placed src t)"
  using assms
proof (induction src fid st arbitrary: toks rule: lex_loop.induct)
  case (1 src fid st)
  let ?st1 = "skip_ws_and_comments src st"
  note g = gap_skip [of src st]
  have l1: "located src ?st1" using closed_skip_ws [OF located_closed "1.prems"(1)] .
  then have in1: "in_src src ?st1" by (simp add: located_def)
  show ?case
  proof (cases "at_end src ?st1")
    case True
    then have "toks = [eof_token ?st1]" using "1.prems"(2) by (subst (asm) lex_loop.simps) simp
    moreover have "placed src (eof_token ?st1)" using l1 True
      by (auto simp: placed_def eof_token_def default_token_def located_def at_end_def in_src_def intro!: exI [of _ "lx_pos ?st1"])
    ultimately show ?thesis using g True
      by (intro exI [of _ "[]"]) (auto simp: at_end_rest kind_text_def eof_token_def default_token_def lexes_end)
  next
    case False
    with "1.prems"(2) obtain t st2 ts where t: "lex_token src fid ?st1 = Inr (t, st2)"
      "lex_loop src fid st2 = Inr ts" "toks = t # ts"
      by (subst (asm) lex_loop.simps) (auto split: sum.splits prod.splits)
    from lex_token_sound [OF in1 False t(1)] obtain w k where
      w: "t = make_token src fid k ?st1 st2" "reads src ?st1 w st2" "w \<noteq> []" "spells k w" by (auto simp: lexed_def)
    have "located src st2" using closed_token [OF located_closed l1 t(1)] .
    from "1.IH" [OF refl False t(1) refl this t(2)] obtain ts' eof where
      ih: "ts = ts' @ [eof]" "kind_text eof = (T_Eof, '''')" "lexes (rest src st2) (map kind_text ts')" "\<forall>t \<in> set ts. placed src t"
      by blast
    have kt: "kind_text t = (k, w)" using w(1) make_token_text [OF w(2)] by (simp add: kind_text_def)
    have "lexes (rest src st) (kind_text t # map kind_text ts')"
      unfolding kt using g w(2) by (intro lexes_token [OF _ w(3,4) ih(3)]) (simp add: reads_def)
    moreover have "placed src t" unfolding w(1) by (rule placed_make_token [OF l1 w(2)])
    ultimately show ?thesis using ih t(3) by (intro exI [of _ "t # ts'"]) auto
  qed
qed



subsection \<open>Printing tokens and reading them back\<close>

definition print_tokens :: "(token_kind \<times> string) list \<Rightarrow> string" where
  "print_tokens ws = concat (map (\<lambda>(k, w). w @ '' '') ws)"

lemma spells_start: "spells k w \<Longrightarrow> \<exists>c s. w = c # s \<and> \<not> is_space c \<and> (c = CHR ''/'' \<longrightarrow> s = [])"
proof -
  assume a: "spells k w"
  have dig: "\<exists>c s. w = c # s \<and> \<not> is_space c \<and> (c = CHR ''/'' \<longrightarrow> s = [])" if "w = c # s" "is_digit c" for c s
    using that char_classes(5) by (auto simp: is_digit_def in_range_def)
  from a consider "digits w" | "hex_spelling w" | "float_spelling w" | b where "w = CHR 0x22 # b" | "word_spelling w" | "op_spelling k w"
    by (auto simp: spells_def split: if_splits)
  then show ?thesis
  proof cases
    case 1 then show ?thesis using digits_start dig by blast
  next
    case 2
    moreover have "is_digit CHR ''0''" by code_simp
    ultimately show ?thesis using dig by (auto simp: hex_spelling_def)
  next
    case 3
    then obtain ds x where "w = ds @ x" "digits ds" unfolding float_spelling_def by blast
    with digits_start [OF this(2)] dig show ?thesis by fastforce
  next
    case 4 then show ?thesis by (simp add: is_space_def)
  next
    case 5
    then obtain c s where "w = c # s" "is_alpha c \<or> c = CHR ''_''" by (cases w) (auto simp: word_spelling_def)
    then show ?thesis using char_classes(4) [of c] by (auto simp: is_space_def is_alpha_def in_range_def)
  next
    case 6 then show ?thesis using op1_chars op2_chars by (fastforce simp: op_spelling_def)
  qed
qed

lemma lex_loop_print:
  assumes "\<forall>(k, w) \<in> set ws. spells k w" "in_src src st" "rest src st = print_tokens ws \<or> rest src st = CHR '' '' # print_tokens ws"
  shows "\<exists>toks. lex_loop src fid st = Inr toks \<and> map kind_text toks = ws @ [(T_Eof, '''')]"
  using assms
proof (induction ws arbitrary: st)
  case Nil
  have stop: "skip_ws_and_comments src st' = st'" if "rest src st' = []" for st'
    using that by (subst skip_ws_and_comments.simps) (simp add: at_end_rest)
  have "skip_ws_and_comments src st = (if rest src st = [] then st else advance1 src st)"
    using Nil(3) skip_ws_space [of src st "CHR '' ''" "[]"] stop [of st] stop [of "advance1 src st"]
    by (auto simp: print_tokens_def is_space_def rest_advance1)
  then have "at_end src (skip_ws_and_comments src st)" using Nil(3) by (auto simp: at_end_rest rest_advance1 print_tokens_def)
  then show ?case by (subst lex_loop.simps) (simp add: Let_def kind_text_def eof_token_def default_token_def)
next
  case (Cons p ws)
  obtain k w where p: "p = (k, w)" by force
  then have k: "spells k w" using Cons.prems(1) by auto
  from spells_start [OF k] obtain c s where cs: "w = c # s" "\<not> is_space c" "c = CHR ''/'' \<longrightarrow> s = []" by blast
  have pt: "print_tokens (p # ws) = w @ CHR '' '' # print_tokens ws" by (simp add: p print_tokens_def)
  have stays: "skip_ws_and_comments src st' = st'" if "rest src st' = w @ CHR '' '' # print_tokens ws" for st'
    using that cs by (intro skip_ws_done [where c = c and s = "s @ CHR '' '' # print_tokens ws"]) auto
  let ?st1 = "skip_ws_and_comments src st"
  have r1: "rest src ?st1 = w @ CHR '' '' # print_tokens ws" and in1: "in_src src ?st1"
  proof -
    show "in_src src ?st1" by (rule closed_skip_ws [OF in_src_closed Cons.prems(2)])
    show "rest src ?st1 = w @ CHR '' '' # print_tokens ws"
    proof (cases "rest src st = print_tokens (p # ws)")
      case True
      then show ?thesis using stays pt by simp
    next
      case False
      with Cons.prems(3) have s: "rest src st = CHR '' '' # print_tokens (p # ws)" by blast
      then have "?st1 = skip_ws_and_comments src (advance1 src st)" by (rule skip_ws_space) (simp add: is_space_def)
      then show ?thesis using stays [of "advance1 src st"] s pt by (simp add: rest_advance1)
    qed
  qed
  from lex_token_reads [OF in1 r1 k] obtain t st2 where
    t: "lex_token src fid ?st1 = Inr (t, st2)" "t = make_token src fid k ?st1 st2" "reads src ?st1 w st2"
      "rest src st2 = CHR '' '' # print_tokens ws" by (force simp: lexes_to_def)
  from Cons.IH [OF _ reads_in_src [OF t(3)]] Cons.prems(1) t(4) obtain toks where
    ih: "lex_loop src fid st2 = Inr toks" "map kind_text toks = ws @ [(T_Eof, '''')]" by auto
  have "\<not> at_end src ?st1" using r1 cs(1) by (simp add: at_end_rest)
  with t(1) ih(1) have "lex_loop src fid st = Inr (t # toks)" by (subst lex_loop.simps) (simp add: Let_def)
  moreover have "kind_text t = p" using t(2) make_token_text [OF t(3)] p by (simp add: kind_text_def)
  ultimately show ?case using ih(2) by simp
qed

text \<open>
  C27. Round trip: printing any list of kinds with a spelling of each, separated by
  blanks, and lexing the result gives back exactly those kinds and spellings, then \<open>Eof\<close>.
\<close>

theorem tokenize_print:
  assumes "\<forall>(k, w) \<in> set ws. spells k w"
  shows "\<exists>toks. tokenize (print_tokens ws) fid = Inr toks \<and> map kind_text toks = ws @ [(T_Eof, '''')]"
  unfolding tokenize_def using assms
  by (intro lex_loop_print) (auto simp: in_src_def rest_def lexer_init_def)

theorem tokenize_print_witness:
  "\<exists>toks. tokenize ''let x1 = 0x1F >> 2.5e-1 ; '' 3 = Inr toks
     \<and> map t_kind toks = [T_LetKw, T_Ident, T_Eq, T_IntLit, T_Shr, T_FloatLit, T_Semicolon, T_Eof]"
proof -
  let ?ws = "[(T_LetKw, ''let''), (T_Ident, ''x1''), (T_Eq, ''=''), (T_IntLit, ''0x1F''), (T_Shr, ''>>''),
    (T_FloatLit, ''2.5e-1''), (T_Semicolon, '';'')]"
  have w: "word_spelling ''let'' \<and> match_keyword ''let'' = T_LetKw" "word_spelling ''x1'' \<and> match_keyword ''x1'' = T_Ident"
    by code_simp+
  have o: "map_of op1_table CHR ''='' = Some T_Eq" "map_of op2_table (CHR ''>'', CHR ''>'') = Some T_Shr"
    "map_of op1_table CHR '';'' = Some T_Semicolon" by code_simp+
  have h: "list_all is_xdigit ''1F''" "digits ''2''" "digits ''5''" "list_all is_digit ''1''" by code_simp+
  have "hex_spelling ''0x1F''" using h(1) by (simp add: hex_spelling_def)
  moreover have "float_spelling ''2.5e-1''"
  proof -
    have "frac_spelling ''.5''" using h(3) by (simp add: frac_spelling_def)
    moreover have "exp_spelling ''e-1''" using exp_spellingI [of "CHR ''e''" "''-''" "''1''"] h(4) by simp
    moreover have "''2.5e-1'' = ''2'' @ ''.5'' @ ''e-1''" by simp
    ultimately show ?thesis unfolding float_spelling_def using h(2) by blast
  qed
  ultimately have "\<forall>(k, w) \<in> set ?ws. spells k w" using w o by (auto simp: spells_def op_spelling_def)
  from tokenize_print [OF this, of 3] obtain toks where
    t: "tokenize (print_tokens ?ws) 3 = Inr toks" "map kind_text toks = ?ws @ [(T_Eof, '''')]" by blast
  have "map t_kind toks = map fst (map kind_text toks)" by (simp add: kind_text_def comp_def)
  with t show ?thesis by (auto simp: print_tokens_def)
qed

text \<open>
  A block comment that is never closed is not an error, and does not even reach the
  end of the source: its last character is lexed as a token.
\<close>

theorem unterminated_comment_leaks:
  "map_sum id (map kind_text) (tokenize ''x /* note: y'' 0) = Inr [(T_Ident, ''x''), (T_Ident, ''y''), (T_Eof, '''')]"
  by code_simp

end
