(* ===== verification/Parsing.thy ===== *)
theory Parsing
  imports Ast Symbols Doubles
begin

section \<open>The parser\<close>

text \<open>
  \<open>frontend/Parser.hpp\<close> and \<open>Parser.cpp\<close>. The parser's state is its tokens, the symbol
  table, the sink and the position. A routine returns \<open>Expected<T>\<close>, here an error or a value,
  with the state after it; \<open>None\<close> is a run that does not return (or a probe that leaves the
  symbol table). \<open>pbind\<close> is the pattern \<open>if (!x.has_value()) return std::unexpected(x.error())\<close>.
\<close>

record parser =
  p_toks :: "token list"
  p_syms :: symtab
  p_sink :: sink
  p_pos :: nat

type_synonym 'a pm = "parser \<Rightarrow> ((diag + 'a) \<times> parser) option"

definition pret :: "'a \<Rightarrow> 'a pm" where
  "pret x p = Some (Inr x, p)"

definition pbind :: "'a pm \<Rightarrow> ('a \<Rightarrow> 'b pm) \<Rightarrow> 'b pm" where
  "pbind m f p = (case m p of None \<Rightarrow> None
     | Some (r, p') \<Rightarrow> (case r of Inl e \<Rightarrow> Some (Inl e, p') | Inr x \<Rightarrow> f x p'))"

definition pif :: "(parser \<Rightarrow> bool) \<Rightarrow> 'a pm \<Rightarrow> 'a pm \<Rightarrow> 'a pm" where
  "pif c a b p = (if c p then a p else b p)"

subsection \<open>Tokens\<close>

definition peek :: "parser \<Rightarrow> token" where
  "peek p = p_toks p ! min (p_pos p) (length (p_toks p) - 1)"

definition at :: "token_kind \<Rightarrow> parser \<Rightarrow> bool" where
  "at k p \<longleftrightarrow> t_kind (peek p) = k"

definition skip :: "parser \<Rightarrow> parser" where
  "skip p = p\<lparr>p_pos := p_pos p + 1\<rparr>"

definition consume :: "token_kind \<Rightarrow> bool pm" where
  "consume k p = (if at k p then Some (Inr True, skip p) else Some (Inr False, p))"

definition token_span :: "token \<Rightarrow> span" where
  "token_span t = \<lparr>sp_file = t_file t, sp_line = t_line t, sp_col = t_col t, sp_len = t_len t\<rparr>"

definition make_err :: "token \<Rightarrow> parser \<Rightarrow> diag \<times> parser" where
  "make_err t p = (let e = parse_error 0x100 (token_span t) in (e, p\<lparr>p_sink := report e (p_sink p)\<rparr>))"

definition perr :: "'a pm" where
  "perr p = (case make_err (peek p) p of (e, p') \<Rightarrow> Some (Inl e, p'))"

definition expect :: "token_kind \<Rightarrow> token pm" where
  "expect k p = (if at k p then Some (Inr (p_toks p ! min (p_pos p) (length (p_toks p) - 1)), skip p)
     else (case make_err (peek p) p of (e, p') \<Rightarrow> Some (Inr (peek p'), p')))"

definition next_token :: "token pm" where
  "next_token p = Some (Inr (peek p), skip p)"

definition psym :: "(string \<Rightarrow> 64 word) \<Rightarrow> string \<Rightarrow> symbol_id pm" where
  "psym h s p = (case intern h s (p_syms p) of None \<Rightarrow> None | Some (i, t) \<Rightarrow> Some (Inr i, p\<lparr>p_syms := t\<rparr>))"

text \<open>\<open>if (consume(k)) { auto x = m(); ... }\<close>: an optional part.\<close>

definition popt :: "token_kind \<Rightarrow> 'a pm \<Rightarrow> 'a option pm" where
  "popt k m = pbind (consume k) (\<lambda>b. if b then pbind m (\<lambda>x. pret (Some x)) else pret None)"

definition stops_at :: "token_kind \<Rightarrow> parser \<Rightarrow> bool" where
  "stops_at k p \<longleftrightarrow> at k p \<or> at T_Eof p"

subsection \<open>Operators\<close>

definition is_assign_op :: "token_kind \<Rightarrow> bool" where
  "is_assign_op k \<longleftrightarrow> k \<in> {T_Eq, T_PlusEq, T_MinusEq, T_StarEq, T_SlashEq}"

definition precedence :: "token_kind \<Rightarrow> int" where
  "precedence k =
     (if k \<in> {T_Star, T_Slash, T_Percent} then 13
      else if k \<in> {T_Plus, T_Minus} then 12
      else if k \<in> {T_Shl, T_Shr} then 11
      else if k \<in> {T_Amp, T_Caret, T_Pipe} then 10
      else if k \<in> {T_EqEq, T_BangEq, T_Lt, T_LtEq, T_Gt, T_GtEq} then 9
      else if k = T_AndAnd then 5
      else if k = T_OrOr then 4
      else if is_assign_op k then 2
      else - 1)"

definition binary_op_kind :: "token_kind \<Rightarrow> token_kind" where
  "binary_op_kind k =
     (if k \<in> {T_Plus, T_Minus, T_Star, T_Slash, T_Percent, T_Amp, T_Pipe, T_Caret, T_Shl, T_Shr,
              T_EqEq, T_BangEq, T_Lt, T_LtEq, T_Gt, T_GtEq, T_AndAnd, T_OrOr} \<or> is_assign_op k
      then k else T_Eof)"

definition type_keyword :: "token_kind \<Rightarrow> bool" where
  "type_keyword k \<longleftrightarrow> k \<in> {T_I8Kw, T_I16Kw, T_I32Kw, T_I64Kw, T_U8Kw, T_U16Kw, T_U32Kw, T_U64Kw,
     T_F32Kw, T_F64Kw, T_BoolKw, T_StrKw}"

subsection \<open>Literals\<close>

definition digit_val :: "char \<Rightarrow> nat option" where
  "digit_val c = (let n = (of_char c :: nat) in if 48 \<le> n \<and> n \<le> 57 then Some (n - 48) else None)"

fun parse_int_text :: "i64 \<Rightarrow> string \<Rightarrow> i64" where
  "parse_int_text v [] = v"
| "parse_int_text v (c # s) =
     parse_int_text (case digit_val c of Some d \<Rightarrow> v * 10 + of_nat d | None \<Rightarrow> v) s"

fun parse_float_text :: "dbl \<Rightarrow> dbl \<Rightarrow> bool \<Rightarrow> string \<Rightarrow> dbl" where
  "parse_float_text v divi after_dot [] = v"
| "parse_float_text v divi after_dot (c # s) =
     (if c = CHR ''.'' then parse_float_text v divi True s
      else case digit_val c of
        None \<Rightarrow> parse_float_text v divi after_dot s
      | Some d \<Rightarrow> (if after_dot then (let divi' = d_mul divi (d_of_nat 10)
                                    in parse_float_text (d_add v (d_div (d_of_nat d) divi')) divi' after_dot s)
                  else parse_float_text (d_add (d_mul v (d_of_nat 10)) (d_of_nat d)) divi after_dot s))"

subsection \<open>Paths and patterns\<close>

text \<open>\<open>while (true) { seg = expect(Ident); push(intern(seg)); if (!consume(DoubleColon)) break; }\<close>\<close>

partial_function (option) path_loop :: "(string \<Rightarrow> 64 word) \<Rightarrow> symbol_id list \<Rightarrow> parser \<Rightarrow> ((diag + symbol_id list) \<times> parser) option" where
  "path_loop h segs p =
     (case pbind (expect T_Ident) (\<lambda>seg. pbind (psym h (t_text seg)) (\<lambda>s. pbind (consume T_DoubleColon) (\<lambda>again. pret (s, again)))) p of
        None \<Rightarrow> None
      | Some (r, p') \<Rightarrow> (case r of Inl e \<Rightarrow> Some (Inl e, p')
          | Inr (s, again) \<Rightarrow> if again then path_loop h (segs @ [s]) p' else Some (Inr (segs @ [s]), p')))"

declare path_loop.simps [code]

text \<open>The optional parenthesised part of a pattern, then the pattern; \<open>R\<close> is the recursive call.\<close>

definition sub_pattern :: "pat pm \<Rightarrow> pat option pm" where
  "sub_pattern R = popt T_LParen (pbind R (\<lambda>sub. pbind (expect T_RParen) (\<lambda>_. pret sub)))"

definition pattern_step :: "(string \<Rightarrow> 64 word) \<Rightarrow> pat pm \<Rightarrow> pat pm" where
  "pattern_step h R =
     pif (at T_Dot)
       (pbind next_token (\<lambda>_. pbind (expect T_Ident) (\<lambda>m. pbind (psym h (t_text m)) (\<lambda>s.
          pbind (sub_pattern R) (\<lambda>sub. pret (MemberPat s sub))))))
       (pif (at T_Ident)
         (pbind next_token (\<lambda>t. pbind (consume T_DoubleColon) (\<lambda>path.
            if path then pbind (psym h (t_text t)) (\<lambda>s. pbind (path_loop h [s]) (\<lambda>segs.
                   pbind (sub_pattern R) (\<lambda>sub. pret (PathPat segs sub))))
            else pbind (psym h (t_text t)) (\<lambda>s. pret (IdentPat s)))))
         perr)"

subsection \<open>Recursion\<close>

text \<open>
  The routines call each other through the functional \<open>R\<close>, one argument per routine that is
  on a cycle (the \<open>while\<close> loops of blocks, arguments, match arms, infix and postfix
  operators are calls of their own, with what they have built as argument). The order in
  which a partial function is less defined makes every routine monotone in \<open>R\<close>, which is what
  the definition by a least fixpoint needs.
\<close>

datatype nonterm =
    NExpr int
  | NExprLoop int ast
  | NUnary
  | NPostfix ast
  | NArgs ast "ast list"
  | NStmt
  | NBlock
  | NBlockLoop "ast list"
  | NMatchLoop ast "(pat \<times> ast) list"

type_synonym routines = "nonterm \<Rightarrow> ast pm"

definition pm_le :: "'a pm \<Rightarrow> 'a pm \<Rightarrow> bool" where
  "pm_le m m' \<longleftrightarrow> (\<forall>p. m p = None \<or> m p = m' p)"

named_theorems pm_mono \<open>routines are monotone\<close>

lemma pm_le_refl [pm_mono]: "pm_le m m"
  by (simp add: pm_le_def)

lemma pm_le_bind [pm_mono]: "pm_le m m' \<Longrightarrow> (\<And>x. pm_le (f x) (f' x)) \<Longrightarrow> pm_le (pbind m f) (pbind m' f')"
  unfolding pm_le_def
proof
  fix p
  assume m: "\<forall>p. m p = None \<or> m p = m' p" and f: "\<And>x. \<forall>p. f x p = None \<or> f x p = f' x p"
  show "pbind m f p = None \<or> pbind m f p = pbind m' f' p"
  proof (cases "m p")
    case (Some q)
    with m have "m' p = Some q" by (metis option.distinct(1))
    moreover obtain r p' where "q = (r, p')" by force
    moreover have "f x p' = None \<or> f x p' = f' x p'" for x using f by blast
    ultimately show ?thesis using Some by (cases r) (auto simp: pbind_def)
  qed (simp add: pbind_def)
qed

lemma pm_le_if [pm_mono]: "pm_le a a' \<Longrightarrow> pm_le b b' \<Longrightarrow> pm_le (pif c a b) (pif c a' b')"
  by (simp add: pm_le_def pif_def)

lemma pm_le_ite [pm_mono]: "pm_le a a' \<Longrightarrow> pm_le b b' \<Longrightarrow> pm_le (if c then a else b) (if c then a' else b')"
  by simp

lemma pm_le_opt [pm_mono]: "pm_le m m' \<Longrightarrow> pm_le (popt k m) (popt k m')"
  by (simp add: popt_def pm_mono)

lemma pm_le_monotone:
  fixes R :: "('d \<Rightarrow> 'e option) \<Rightarrow> 'n \<Rightarrow> 'a pm" and S :: "('n \<Rightarrow> 'a pm) \<Rightarrow> 'b pm"
  assumes "\<And>R R'. (\<And>nt. pm_le (R nt) (R' nt)) \<Longrightarrow> pm_le (S R) (S R')"
    and "\<And>nt p. mono_option (\<lambda>f. R f nt p)"
  shows "mono_option (\<lambda>f. S (R f) p)"
proof (rule monotoneI)
  fix f g :: "'d \<Rightarrow> 'e option" assume fg: "fun_ord option_ord f g"
  have "option_ord (R f nt p) (R g nt p)" for nt p
    using assms(2) [of nt p] fg unfolding monotone_def by blast
  then have "pm_le (R f nt) (R g nt)" for nt
    unfolding pm_le_def by (auto simp: flat_ord_def)
  then have "pm_le (S (R f)) (S (R g))" by (rule assms(1))
  then show "option_ord (S (R f) p) (S (R g) p)" by (auto simp: pm_le_def flat_ord_def)
qed

lemma pattern_step_le: "pm_le R R' \<Longrightarrow> pm_le (pattern_step h R) (pattern_step h R')"
  unfolding pattern_step_def sub_pattern_def by (intro pm_mono)

lemma pattern_step_mono [partial_function_mono]:
  assumes "\<And>p. mono_option (\<lambda>f. R f p)"
  shows "mono_option (\<lambda>f. pattern_step h (R f) p)"
  using pm_le_monotone [of "\<lambda>R. pattern_step h (R NUnary)" "\<lambda>f nt. R f"] pattern_step_le assms by blast

partial_function (option) parse_pattern :: "(string \<Rightarrow> 64 word) \<Rightarrow> parser \<Rightarrow> ((diag + pat) \<times> parser) option" where
  "parse_pattern h p = pattern_step h (parse_pattern h) p"

declare parse_pattern.simps [code]

subsection \<open>Statements\<close>

definition parse_block :: "routines \<Rightarrow> ast pm" where
  "parse_block R = pbind (expect T_LBrace) (\<lambda>_. R (NBlockLoop []))"

definition block_loop :: "routines \<Rightarrow> ast list \<Rightarrow> ast pm" where
  "block_loop R stmts =
     pif (stops_at T_RBrace) (pbind (expect T_RBrace) (\<lambda>_. pret (Block stmts)))
       (pbind (R NStmt) (\<lambda>s. R (NBlockLoop (stmts @ [s]))))"

definition parse_let_or_var_stmt :: "(string \<Rightarrow> 64 word) \<Rightarrow> routines \<Rightarrow> bool \<Rightarrow> ast pm" where
  "parse_let_or_var_stmt h R is_var =
     pbind (expect (if is_var then T_VarKw else T_LetKw)) (\<lambda>_.
     pbind (expect T_Ident) (\<lambda>name.
     pbind (psym h (t_text name)) (\<lambda>s.
     pbind (popt T_Colon (R (NExpr 0))) (\<lambda>ty.
     pbind (popt T_Eq (R (NExpr 0))) (\<lambda>e.
     pbind (consume T_Semicolon) (\<lambda>_. pret (LetStmt s ty e is_var)))))))"

definition parse_return_stmt :: "routines \<Rightarrow> ast pm" where
  "parse_return_stmt R =
     pbind (expect T_ReturnKw) (\<lambda>_.
     pbind (pif (\<lambda>p. at T_Semicolon p \<or> at T_RBrace p \<or> at T_Eof p) (pret None) (pbind (R (NExpr 0)) (\<lambda>e. pret (Some e)))) (\<lambda>v.
     pbind (consume T_Semicolon) (\<lambda>_. pret (ReturnStmt v))))"

definition parse_if_stmt :: "routines \<Rightarrow> ast pm" where
  "parse_if_stmt R =
     pbind (expect T_IfKw) (\<lambda>_.
     pbind (R (NExpr 0)) (\<lambda>c.
     pbind (R NBlock) (\<lambda>t.
     pbind (popt T_ElseKw (R NBlock)) (\<lambda>e. pret (IfStmt c t e)))))"

definition parse_for_stmt :: "(string \<Rightarrow> 64 word) \<Rightarrow> routines \<Rightarrow> ast pm" where
  "parse_for_stmt h R =
     pbind (expect T_ForKw) (\<lambda>_.
     pbind (expect T_Ident) (\<lambda>var.
     pbind (expect T_InKw) (\<lambda>_.
     pbind (R (NExpr 0)) (\<lambda>lo.
     pbind (expect T_DotDot) (\<lambda>_.
     pbind (R (NExpr 0)) (\<lambda>hi.
     pbind (R NBlock) (\<lambda>body.
     pbind (psym h (t_text var)) (\<lambda>s. pret (ForStmt s (RangeExpr lo hi) body)))))))))"

definition parse_match_stmt :: "routines \<Rightarrow> ast pm" where
  "parse_match_stmt R =
     pbind (expect T_MatchKw) (\<lambda>_.
     pbind (R (NExpr 0)) (\<lambda>scrut.
     pbind (expect T_LBrace) (\<lambda>_. R (NMatchLoop scrut []))))"

definition match_loop :: "(string \<Rightarrow> 64 word) \<Rightarrow> routines \<Rightarrow> ast \<Rightarrow> (pat \<times> ast) list \<Rightarrow> ast pm" where
  "match_loop h R scrut arms =
     pif (stops_at T_RBrace) (pbind (expect T_RBrace) (\<lambda>_. pret (MatchStmt scrut arms)))
       (pbind (parse_pattern h) (\<lambda>pt.
        pbind (expect T_FatArrow) (\<lambda>_.
        pbind (R (NExpr 0)) (\<lambda>body.
        pbind (consume T_Comma) (\<lambda>_. R (NMatchLoop scrut (arms @ [(pt, body)])))))))"

definition is_assign :: "ast \<Rightarrow> bool" where
  "is_assign e \<longleftrightarrow> (case e of AssignExpr _ _ _ \<Rightarrow> True | _ \<Rightarrow> False)"

definition parse_stmt :: "(string \<Rightarrow> 64 word) \<Rightarrow> routines \<Rightarrow> ast pm" where
  "parse_stmt h R =
     pif (at T_LetKw) (parse_let_or_var_stmt h R False)
     (pif (at T_VarKw) (parse_let_or_var_stmt h R True)
     (pif (at T_ReturnKw) (parse_return_stmt R)
     (pif (at T_IfKw) (parse_if_stmt R)
     (pif (at T_ForKw) (parse_for_stmt h R)
     (pif (at T_MatchKw) (parse_match_stmt R)
     (pif (at T_LBrace) (R NBlock)
       (pbind (R (NExpr 0)) (\<lambda>e.
          if is_assign e then pbind (consume T_Semicolon) (\<lambda>_. pret e)
          else pbind (consume T_Semicolon) (\<lambda>semi. pret (if semi then ExprStmt e else e))))))))))"

subsection \<open>Expressions\<close>

definition parse_expr :: "routines \<Rightarrow> int \<Rightarrow> ast pm" where
  "parse_expr R min_prec = pbind (R NUnary) (\<lambda>lhs. R (NExprLoop min_prec lhs))"

definition expr_loop :: "routines \<Rightarrow> int \<Rightarrow> ast \<Rightarrow> ast pm" where
  "expr_loop R min_prec lhs =
     pif (\<lambda>p. binary_op_kind (t_kind (peek p)) = T_Eof \<or> precedence (binary_op_kind (t_kind (peek p))) < min_prec)
       (pret lhs)
       (pbind next_token (\<lambda>t. let oper = binary_op_kind (t_kind t) in
        if is_assign_op oper
        then pbind (R (NExpr (precedence oper))) (\<lambda>rhs. R (NExprLoop min_prec (AssignExpr oper lhs rhs)))
        else pbind (R (NExpr (precedence oper + 1))) (\<lambda>rhs. R (NExprLoop min_prec (BinaryExpr oper lhs rhs)))))"

definition parse_primary :: "(string \<Rightarrow> 64 word) \<Rightarrow> routines \<Rightarrow> ast pm" where
  "parse_primary h R =
     pif (at T_IntLit) (pbind next_token (\<lambda>t. pret (IntLit (parse_int_text 0 (t_text t)))))
     (pif (at T_FloatLit) (pbind next_token (\<lambda>t. pret (FloatLit (d_bits (parse_float_text (DFin 0 1) (DFin 1 1) False (t_text t))))))
     (pif (at T_StrLit) (pbind next_token (\<lambda>t. pbind (psym h (t_text t)) (\<lambda>s. pret (StrLit s))))
     (pif (at T_TrueKw) (pbind next_token (\<lambda>_. pret (BoolLit True)))
     (pif (at T_FalseKw) (pbind next_token (\<lambda>_. pret (BoolLit False)))
     (pif (at T_Ident) (pbind next_token (\<lambda>t. pbind (consume T_DoubleColon) (\<lambda>path. pbind (psym h (t_text t)) (\<lambda>s.
          if path then pbind (path_loop h [s]) (\<lambda>segs. pret (PathExpr segs)) else pret (Ident s)))))
     (pif (\<lambda>p. type_keyword (t_kind (peek p))) (pbind next_token (\<lambda>t. pbind (psym h (t_text t)) (\<lambda>s. pret (Ident s))))
     (pif (at T_LParen) (pbind next_token (\<lambda>_. pbind (R (NExpr 0)) (\<lambda>e. pbind (expect T_RParen) (\<lambda>_. pret e))))
     (pif (at T_LBrace) (R NBlock) perr))))))))"

definition parse_unary :: "(string \<Rightarrow> 64 word) \<Rightarrow> routines \<Rightarrow> ast pm" where
  "parse_unary h R =
     pif (\<lambda>p. at T_Minus p \<or> at T_Bang p \<or> at T_Tilde p)
       (pbind next_token (\<lambda>t. pbind (R NUnary) (\<lambda>sub. pret (UnaryExpr (t_kind t) sub))))
       (pbind (parse_primary h R) (\<lambda>prim. R (NPostfix prim)))"

definition parse_postfix :: "(string \<Rightarrow> 64 word) \<Rightarrow> routines \<Rightarrow> ast \<Rightarrow> ast pm" where
  "parse_postfix h R base =
     pif (at T_LParen) (pbind next_token (\<lambda>_. pbind (R (NArgs base [])) (\<lambda>call. R (NPostfix call))))
     (pif (at T_Dot) (pbind next_token (\<lambda>_. pbind (expect T_Ident) (\<lambda>field. pbind (psym h (t_text field)) (\<lambda>s.
          R (NPostfix (FieldExpr base s))))))
     (pif (at T_LBracket) (pbind next_token (\<lambda>_. pbind (R (NExpr 0)) (\<lambda>idx. pbind (expect T_RBracket) (\<lambda>_.
          R (NPostfix (IndexExpr base idx))))))
     (pret base)))"

definition args_loop :: "routines \<Rightarrow> ast \<Rightarrow> ast list \<Rightarrow> ast pm" where
  "args_loop R callee args =
     pif (stops_at T_RParen) (pbind (expect T_RParen) (\<lambda>_. pret (CallExpr callee args)))
       (pbind (R (NExpr 0)) (\<lambda>arg. pbind (consume T_Comma) (\<lambda>comma.
          if comma then R (NArgs callee (args @ [arg]))
          else pbind (expect T_RParen) (\<lambda>_. pret (CallExpr callee (args @ [arg]))))))"

definition parse_step :: "(string \<Rightarrow> 64 word) \<Rightarrow> routines \<Rightarrow> routines" where
  "parse_step h R nt =
     (case nt of
        NExpr m \<Rightarrow> parse_expr R m
      | NExprLoop m lhs \<Rightarrow> expr_loop R m lhs
      | NUnary \<Rightarrow> parse_unary h R
      | NPostfix base \<Rightarrow> parse_postfix h R base
      | NArgs callee args \<Rightarrow> args_loop R callee args
      | NStmt \<Rightarrow> parse_stmt h R
      | NBlock \<Rightarrow> parse_block R
      | NBlockLoop stmts \<Rightarrow> block_loop R stmts
      | NMatchLoop scrut arms \<Rightarrow> match_loop h R scrut arms)"

lemmas routine_defs = parse_block_def block_loop_def parse_let_or_var_stmt_def parse_return_stmt_def parse_if_stmt_def
  parse_for_stmt_def parse_match_stmt_def match_loop_def parse_stmt_def parse_expr_def expr_loop_def parse_primary_def
  parse_unary_def parse_postfix_def args_loop_def

lemma parse_step_le: "(\<And>nt. pm_le (R nt) (R' nt)) \<Longrightarrow> pm_le (parse_step h R nt) (parse_step h R' nt)"
  unfolding parse_step_def by (cases nt) (simp_all add: routine_defs Let_def pm_mono)

lemma parse_step_mono [partial_function_mono]:
  "(\<And>nt p. mono_option (\<lambda>f. R f nt p)) \<Longrightarrow> mono_option (\<lambda>f. parse_step h (R f) nt p)"
  by (rule pm_le_monotone [of "\<lambda>R. parse_step h R nt"]) (rule parse_step_le)

partial_function (option) parse :: "(string \<Rightarrow> 64 word) \<Rightarrow> nonterm \<Rightarrow> parser \<Rightarrow> ((diag + ast) \<times> parser) option" where
  "parse h nt p = parse_step h (parse h) nt p"

declare parse.simps [code]

abbreviation parse_type_annotation :: "(string \<Rightarrow> 64 word) \<Rightarrow> ast pm" where
  "parse_type_annotation h \<equiv> parse h (NExpr 0)"

subsection \<open>Declarations\<close>

text \<open>
  The comma-separated lists of the declarations share one loop:
  \<open>while (!at(close) && !at(Eof)) { element; if (!consume(Comma)) break; }\<close>.
\<close>

definition list_step :: "token_kind \<Rightarrow> 'a pm \<Rightarrow> ('a list \<Rightarrow> 'a list pm) \<Rightarrow> 'a list \<Rightarrow> 'a list pm" where
  "list_step close elem R xs =
     pif (stops_at close) (pret xs)
       (pbind elem (\<lambda>x. pbind (consume T_Comma) (\<lambda>comma. if comma then R (xs @ [x]) else pret (xs @ [x]))))"

lemma list_step_le: "(\<And>xs. pm_le (R xs) (R' xs)) \<Longrightarrow> pm_le (list_step close elem R xs) (list_step close elem R' xs)"
  unfolding list_step_def by (intro pm_mono)

lemma list_step_mono [partial_function_mono]:
  "(\<And>xs p. mono_option (\<lambda>f. R f xs p)) \<Longrightarrow> mono_option (\<lambda>f. list_step close elem (R f) xs p)"
  by (rule pm_le_monotone [of "\<lambda>R. list_step close elem R xs"]) (rule list_step_le)

partial_function (option) comma_list :: "token_kind \<Rightarrow> (parser \<Rightarrow> ((diag + 'a) \<times> parser) option) \<Rightarrow> 'a list \<Rightarrow> parser
    \<Rightarrow> ((diag + 'a list) \<times> parser) option" where
  "comma_list close elem xs p = list_step close elem (comma_list close elem) xs p"

declare comma_list.simps [code]

definition parse_param :: "(string \<Rightarrow> 64 word) \<Rightarrow> fn_param pm" where
  "parse_param h =
     pbind (consume T_MutKw) (\<lambda>mu.
     pbind (expect T_Ident) (\<lambda>pname.
     pbind (psym h (t_text pname)) (\<lambda>s.
     pbind (expect T_Colon) (\<lambda>_.
     pbind (parse_type_annotation h) (\<lambda>ty.
       pret \<lparr>fp_name = s, fp_type = ty, fp_mutable = mu\<rparr>)))))"

definition parse_fn_decl :: "(string \<Rightarrow> 64 word) \<Rightarrow> bool \<Rightarrow> item pm" where
  "parse_fn_decl h is_pub =
     pbind (expect T_FnKw) (\<lambda>_.
     pbind (expect T_Ident) (\<lambda>name.
     pbind (psym h (t_text name)) (\<lambda>s.
     pbind (expect T_LParen) (\<lambda>_.
     pbind (comma_list T_RParen (parse_param h) []) (\<lambda>params.
     pbind (expect T_RParen) (\<lambda>_.
     pbind (popt T_Arrow (parse_type_annotation h)) (\<lambda>ret.
     pbind (parse h NBlock) (\<lambda>body.
       pret (FnItem \<lparr>fd_name = s, fd_params = params, fd_ret = ret, fd_body = body, fd_pub = is_pub\<rparr>)))))))))"

definition parse_field :: "(string \<Rightarrow> 64 word) \<Rightarrow> (symbol_id \<times> ast) pm" where
  "parse_field h =
     pbind (expect T_Ident) (\<lambda>field.
     pbind (expect T_Colon) (\<lambda>_.
     pbind (parse_type_annotation h) (\<lambda>ty.
     pbind (psym h (t_text field)) (\<lambda>s. pret (s, ty)))))"

definition parse_struct_decl :: "(string \<Rightarrow> 64 word) \<Rightarrow> item pm" where
  "parse_struct_decl h =
     pbind (expect T_StructKw) (\<lambda>_.
     pbind (expect T_Ident) (\<lambda>name.
     pbind (psym h (t_text name)) (\<lambda>s.
     pbind (expect T_LBrace) (\<lambda>_.
     pbind (comma_list T_RBrace (parse_field h) []) (\<lambda>fields.
     pbind (expect T_RBrace) (\<lambda>_. pret (StructItem s fields)))))))"

definition parse_variant :: "(string \<Rightarrow> 64 word) \<Rightarrow> (symbol_id \<times> ast list) pm" where
  "parse_variant h =
     pbind (expect T_Ident) (\<lambda>v.
     pbind (psym h (t_text v)) (\<lambda>s.
     pbind (popt T_LParen (pbind (comma_list T_RParen (parse_type_annotation h) []) (\<lambda>tys.
              pbind (expect T_RParen) (\<lambda>_. pret tys)))) (\<lambda>payload.
       pret (s, case payload of None \<Rightarrow> [] | Some tys \<Rightarrow> tys))))"

definition parse_enum_decl :: "(string \<Rightarrow> 64 word) \<Rightarrow> item pm" where
  "parse_enum_decl h =
     pbind (expect T_EnumKw) (\<lambda>_.
     pbind (expect T_Ident) (\<lambda>name.
     pbind (psym h (t_text name)) (\<lambda>s.
     pbind (expect T_LBrace) (\<lambda>_.
     pbind (comma_list T_RBrace (parse_variant h) []) (\<lambda>variants.
     pbind (expect T_RBrace) (\<lambda>_. pret (EnumItem s variants)))))))"

definition parse_top_level_item :: "(string \<Rightarrow> 64 word) \<Rightarrow> item pm" where
  "parse_top_level_item h =
     pbind (consume T_PubKw) (\<lambda>is_pub.
     pif (at T_FnKw) (parse_fn_decl h is_pub)
     (if is_pub then perr
      else pif (at T_StructKw) (parse_struct_decl h)
          (pif (at T_EnumKw) (parse_enum_decl h) perr)))"

definition module_step :: "(string \<Rightarrow> 64 word) \<Rightarrow> (item list \<Rightarrow> item list pm) \<Rightarrow> item list \<Rightarrow> item list pm" where
  "module_step h R items =
     pif (at T_Eof) (pret items) (pbind (parse_top_level_item h) (\<lambda>it. R (items @ [it])))"

lemma module_step_le: "(\<And>xs. pm_le (R xs) (R' xs)) \<Longrightarrow> pm_le (module_step h R xs) (module_step h R' xs)"
  unfolding module_step_def by (intro pm_mono)

lemma module_step_mono [partial_function_mono]:
  "(\<And>xs p. mono_option (\<lambda>f. R f xs p)) \<Longrightarrow> mono_option (\<lambda>f. module_step h (R f) xs p)"
  by (rule pm_le_monotone [of "\<lambda>R. module_step h R xs"]) (rule module_step_le)

partial_function (option) module_loop :: "(string \<Rightarrow> 64 word) \<Rightarrow> item list \<Rightarrow> parser \<Rightarrow> ((diag + item list) \<times> parser) option" where
  "module_loop h items p = module_step h (module_loop h) items p"

declare module_loop.simps [code]

definition parse_module :: "(string \<Rightarrow> 64 word) \<Rightarrow> ast_module pm" where
  "parse_module h = module_loop h []"

definition parser_init :: "token list \<Rightarrow> symtab \<Rightarrow> sink \<Rightarrow> parser" where
  "parser_init toks syms sink = \<lparr>p_toks = toks, p_syms = syms, p_sink = sink, p_pos = 0\<rparr>"

subsection \<open>Total correctness of a routine\<close>

text \<open>
  \<open>wpp m Q p\<close>: from \<open>p\<close> the routine returns, and if it returns a value then \<open>Q\<close> holds of the
  value and the state (an error needs nothing more: every caller passes it on).
\<close>

definition wpp :: "'a pm \<Rightarrow> ('a \<Rightarrow> parser \<Rightarrow> bool) \<Rightarrow> parser \<Rightarrow> bool" where
  "wpp m Q p \<longleftrightarrow> (case m p of None \<Rightarrow> False | Some (r, p') \<Rightarrow> (case r of Inl e \<Rightarrow> True | Inr x \<Rightarrow> Q x p'))"

named_theorems wpp_rules \<open>how the combinators return\<close>

lemma wpp_ret_eq [simp]: "wpp (pret x) Q = Q x"
  by (simp add: wpp_def pret_def fun_eq_iff)

lemma wpp_ret [wpp_rules]: "Q x p \<Longrightarrow> wpp (pret x) Q p"
  by simp

lemma wpp_bind_eq [simp]: "wpp (pbind m f) Q = wpp m (\<lambda>x. wpp (f x) Q)"
  by (auto simp: wpp_def pbind_def fun_eq_iff split: option.splits sum.splits)

lemma wpp_if_eq [simp]: "wpp (pif c a b) Q p \<longleftrightarrow> (if c p then wpp a Q p else wpp b Q p)"
  by (simp add: wpp_def pif_def)

lemma wpp_bind [wpp_rules]: "wpp m (\<lambda>x. wpp (f x) Q) p \<Longrightarrow> wpp (pbind m f) Q p"
  by simp

lemma wpp_if [wpp_rules]: "(c p \<Longrightarrow> wpp a Q p) \<Longrightarrow> (\<not> c p \<Longrightarrow> wpp b Q p) \<Longrightarrow> wpp (pif c a b) Q p"
  by simp

lemma wpp_ite [wpp_rules]: "(c \<Longrightarrow> wpp a Q p) \<Longrightarrow> (\<not> c \<Longrightarrow> wpp b Q p) \<Longrightarrow> wpp (if c then a else b) Q p"
  by simp

lemma wpp_weaken: "wpp m Q p \<Longrightarrow> (\<And>x p'. Q x p' \<Longrightarrow> Q' x p') \<Longrightarrow> wpp m Q' p"
  by (auto simp: wpp_def split: option.splits sum.splits)

text \<open>
  What the tokens and the table must be: the last token, and no other, is \<open>Eof\<close>, as the lexer
  makes them; the table satisfies its invariant.
\<close>

definition toks_ok :: "token list \<Rightarrow> bool" where
  "toks_ok ts \<longleftrightarrow> ts \<noteq> [] \<and> (\<forall>i < length ts. t_kind (ts ! i) = T_Eof \<longleftrightarrow> i = length ts - 1)"

definition left :: "parser \<Rightarrow> nat" where
  "left p = length (p_toks p) - 1 - p_pos p"

definition parser_ok :: "(string \<Rightarrow> 64 word) \<Rightarrow> parser \<Rightarrow> bool" where
  "parser_ok h p \<longleftrightarrow> toks_ok (p_toks p) \<and> p_pos p < length (p_toks p) \<and> st_ok h (sy_map (p_syms p))"

lemma peek_ok: "parser_ok h p \<Longrightarrow> peek p = p_toks p ! p_pos p"
proof -
  assume "parser_ok h p"
  then have "min (p_pos p) (length (p_toks p) - 1) = p_pos p" by (auto simp: parser_ok_def)
  then show ?thesis by (simp add: peek_def)
qed

lemma not_eof_left: "parser_ok h p \<Longrightarrow> at T_Eof p \<longleftrightarrow> left p = 0"
  by (auto simp: at_def peek_ok left_def) (auto simp: parser_ok_def toks_ok_def)

lemma at_left: "parser_ok h p \<Longrightarrow> at k p \<Longrightarrow> k \<noteq> T_Eof \<Longrightarrow> 0 < left p"
  using not_eof_left [of h p] by (auto simp: at_def)

text \<open>\<open>moved h n p p'\<close>: from \<open>p\<close> to \<open>p'\<close> at least \<open>n\<close> tokens were read and nothing broke.\<close>

definition moved :: "(string \<Rightarrow> 64 word) \<Rightarrow> nat \<Rightarrow> parser \<Rightarrow> parser \<Rightarrow> bool" where
  "moved h n p p' \<longleftrightarrow> parser_ok h p' \<and> p_toks p' = p_toks p \<and> left p' + n \<le> left p"

lemma moved_refl: "parser_ok h p \<Longrightarrow> moved h 0 p p"
  by (simp add: moved_def)

lemma moved_skip: "parser_ok h p \<Longrightarrow> \<not> at T_Eof p \<Longrightarrow> moved h 1 p (skip p)"
  using not_eof_left [of h p] by (auto simp: moved_def skip_def parser_ok_def left_def)

lemma moved_sink: "parser_ok h p \<Longrightarrow> moved h 0 p (p\<lparr>p_sink := s\<rparr>)"
  by (simp add: moved_def parser_ok_def left_def)

text \<open>
  The rules track how far the state is from the one a routine started in, \<open>p0\<close>.
\<close>

lemma moved_weaken: "moved h n p0 p \<Longrightarrow> k \<le> n \<Longrightarrow> moved h k p0 p"
  by (simp add: moved_def)

lemma moved_trans: "moved h m p0 p \<Longrightarrow> moved h n p p' \<Longrightarrow> moved h (m + n) p0 p'"
  by (simp add: moved_def)

lemma wpp_err [wpp_rules]: "wpp perr Q p"
  by (simp add: wpp_def perr_def make_err_def Let_def)

named_theorems mv \<open>one step of a routine, from a state that is some tokens away from its start\<close>

lemma mv_next [mv]:
  "moved h n p0 p \<Longrightarrow> \<not> at T_Eof p \<Longrightarrow> (\<And>p'. moved h (Suc n) p0 p' \<Longrightarrow> Q (peek p) p') \<Longrightarrow> wpp next_token Q p"
  using moved_trans [OF _ moved_skip, of h n p0 p] by (auto simp: wpp_def next_token_def moved_def)

lemma mv_expect [mv]:
  "moved h n p0 p \<Longrightarrow> k \<noteq> T_Eof \<Longrightarrow> (\<And>t p'. moved h n p0 p' \<Longrightarrow> Q t p') \<Longrightarrow> wpp (expect k) Q p"
  using moved_trans [OF _ moved_skip, of h n p0 p] moved_trans [OF _ moved_sink, of h n p0 p]
  by (auto simp: wpp_def expect_def make_err_def Let_def at_def moved_def)

lemma mv_expect1:
  "moved h n p0 p \<Longrightarrow> at k p \<Longrightarrow> k \<noteq> T_Eof \<Longrightarrow> (\<And>t p'. moved h (Suc n) p0 p' \<Longrightarrow> Q t p') \<Longrightarrow> wpp (expect k) Q p"
  using moved_trans [OF _ moved_skip, of h n p0 p] by (auto simp: wpp_def expect_def at_def moved_def)

lemma mv_consume [mv]:
  "moved h n p0 p \<Longrightarrow> k \<noteq> T_Eof \<Longrightarrow> (\<And>p'. moved h (Suc n) p0 p' \<Longrightarrow> Q True p') \<Longrightarrow>
   (moved h n p0 p \<Longrightarrow> Q False p) \<Longrightarrow> wpp (consume k) Q p"
  using moved_trans [OF _ moved_skip, of h n p0 p] by (auto simp: wpp_def consume_def at_def moved_def)

lemma mv_sym [mv]:
  assumes "moved h n p0 p" "\<And>i p'. moved h n p0 p' \<Longrightarrow> Q i p'"
  shows "wpp (psym h s) Q p"
proof -
  have ok: "parser_ok h p" using assms(1) by (simp add: moved_def)
  then have "st_ok h (sy_map (p_syms p))" by (simp add: parser_ok_def)
  from intern_total [OF this, of s] obtain i t where i: "intern h s (p_syms p) = Some (i, t)" "st_ok h (sy_map t)" by blast
  have "parser_ok h (p\<lparr>p_syms := t\<rparr>)" "left (p\<lparr>p_syms := t\<rparr>) = left p"
    using ok i(2) by (simp_all add: parser_ok_def left_def)
  then have "moved h n p0 (p\<lparr>p_syms := t\<rparr>)" using assms(1) by (simp add: moved_def)
  with i(1) assms(2) show ?thesis by (simp add: wpp_def psym_def)
qed

lemma mv_opt [mv]:
  "moved h n p0 p \<Longrightarrow> k \<noteq> T_Eof \<Longrightarrow> (\<And>p'. moved h (Suc n) p0 p' \<Longrightarrow> wpp m (\<lambda>x. Q (Some x)) p') \<Longrightarrow>
   (moved h n p0 p \<Longrightarrow> Q None p) \<Longrightarrow> wpp (popt k m) Q p"
  unfolding popt_def by (rule wpp_bind, erule mv_consume) simp_all

text \<open>A routine that terminates by its own induction, used inside another.\<close>

definition consumes :: "(string \<Rightarrow> 64 word) \<Rightarrow> nat \<Rightarrow> 'a pm \<Rightarrow> bool" where
  "consumes h k m \<longleftrightarrow> (\<forall>p. parser_ok h p \<longrightarrow> wpp m (\<lambda>_ p'. moved h k p p') p)"

lemma mv_reads:
  assumes "moved h n p0 p" "consumes h k m" "\<And>x p'. moved h (n + k) p0 p' \<Longrightarrow> Q x p'"
  shows "wpp m Q p"
proof -
  have "parser_ok h p" using assms(1) by (simp add: moved_def)
  with assms(2) have "wpp m (\<lambda>_ p'. moved h k p p') p" unfolding consumes_def by blast
  then show ?thesis by (rule wpp_weaken) (use moved_trans [OF assms(1)] assms(3) in blast)
qed

lemma wpp_call: "m p = m' p \<Longrightarrow> wpp m' Q p \<Longrightarrow> wpp m Q p"
  by (simp add: wpp_def)

subsection \<open>The parser returns\<close>

definition path_step :: "(string \<Rightarrow> 64 word) \<Rightarrow> symbol_id list \<Rightarrow> symbol_id list pm" where
  "path_step h segs =
     pbind (expect T_Ident) (\<lambda>seg. pbind (psym h (t_text seg)) (\<lambda>s. pbind (consume T_DoubleColon) (\<lambda>again.
       if again then path_loop h (segs @ [s]) else pret (segs @ [s]))))"

lemma path_loop_step: "path_loop h segs p = path_step h segs p"
  by (subst path_loop.simps) (auto simp: path_step_def pbind_def pret_def split: option.splits sum.splits)

lemma path_loop_reads: "consumes h 0 (path_loop h segs)"
proof -
  have "wpp (path_loop h segs) (\<lambda>_ p'. moved h 0 p p') p" if "parser_ok h p" for p
    using that
  proof (induction "left p" arbitrary: p segs rule: less_induct)
    case less
    note rec = mv_reads
    have ih: "wpp (path_loop h segs') (\<lambda>_ p'. moved h 0 p p') p1" if "moved h (Suc 0) p p1" for segs' p1
    proof -
      have "left p1 < left p" "parser_ok h p1" using that by (auto simp: moved_def)
      from less(1) [OF this] show ?thesis
        by (rule wpp_weaken) (use that in \<open>auto simp: moved_def\<close>)
    qed
    show ?case
      apply (insert moved_refl [OF less(2)])
      apply (rule wpp_call [OF path_loop_step], unfold path_step_def wpp_bind_eq)
      apply (erule mv, simp)
      apply (erule mv)
      apply (erule mv, simp)
       apply (simp add: ih)
      apply (simp add: moved_def)
      done
  qed
  then show ?thesis by (simp add: consumes_def)
qed

lemma sub_pattern_step:
  assumes "moved h (Suc n) p0 p"
    and "\<And>Q p'. moved h (Suc (Suc n)) p0 p' \<Longrightarrow> (\<And>x p'. moved h (Suc (Suc n)) p0 p' \<Longrightarrow> Q x p') \<Longrightarrow> wpp R Q p'"
    and "\<And>x p'. moved h (Suc n) p0 p' \<Longrightarrow> Q x p'"
  shows "wpp (sub_pattern R) Q p"
  unfolding sub_pattern_def wpp_bind_eq
  apply (rule mv_opt [OF assms(1)], simp)
   apply (simp, rule assms(2), assumption, erule mv, simp)
   apply (simp, rule assms(3), erule moved_weaken, simp)
  apply (erule assms(3))
  done

lemma parse_pattern_reads: "consumes h 1 (parse_pattern h)"
proof -
  have "wpp (parse_pattern h) (\<lambda>_ p'. moved h 1 p p') p" if "parser_ok h p" for p
    using that
  proof (induction "left p" arbitrary: p rule: less_induct)
    case less
    have ih: "wpp (parse_pattern h) Q p1" if "moved h (Suc n) p p1" "\<And>x p'. moved h (Suc n) p p' \<Longrightarrow> Q x p'" for Q p1 n
    proof -
      have "left p1 < left p" "parser_ok h p1" using that(1) by (auto simp: moved_def)
      from less(1) [OF this] show ?thesis
        by (rule wpp_weaken) (rule that(2), use that(1) in \<open>simp add: moved_def\<close>)
    qed
    note sub = sub_pattern_step [OF _ ih]
    show ?case
      apply (insert moved_refl [OF less(2)])
      apply (rule wpp_call [OF parse_pattern.simps], unfold pattern_step_def wpp_bind_eq)
      apply (rule wpp_if)
       apply (unfold wpp_bind_eq)
       apply (erule mv, simp add: at_def)
       apply (erule mv, simp)
       apply (erule mv)
       apply (erule sub, assumption, assumption)
       apply (simp add: moved_def)
      apply (rule wpp_if)
       apply (unfold wpp_bind_eq)
       apply (erule mv, simp add: at_def)
       apply (erule mv, simp)
        apply (simp, erule mv)
        apply (erule mv_reads [OF _ path_loop_reads])
        apply (simp, erule sub, assumption, assumption)
        apply (simp add: moved_def)
       apply (simp, erule mv)
       apply (simp add: moved_def)
      apply (rule wpp_err)
      done
  qed
  then show ?thesis by (simp add: consumes_def)
qed

text \<open>
  The measure of a call: the tokens that are left, and among calls at the same token the
  order in which the routines call each other without reading.
\<close>

definition rank :: "nonterm \<Rightarrow> parser \<Rightarrow> nat" where
  "rank nt p = (case nt of NExpr _ \<Rightarrow> 6 | NUnary \<Rightarrow> 5 | NStmt \<Rightarrow> 7 | NBlock \<Rightarrow> (if at T_LBrace p then 4 else 9)
     | NBlockLoop _ \<Rightarrow> 8 | NArgs _ _ \<Rightarrow> 8 | NMatchLoop _ _ \<Rightarrow> 8 | NExprLoop _ _ \<Rightarrow> 0 | NPostfix _ \<Rightarrow> 0)"

definition call_measure :: "nonterm \<Rightarrow> parser \<Rightarrow> nat" where
  "call_measure nt p = 10 * left p + rank nt p"

definition progress :: "nonterm \<Rightarrow> parser \<Rightarrow> nat" where
  "progress nt p = (case nt of NExpr _ \<Rightarrow> 1 | NUnary \<Rightarrow> 1 | NStmt \<Rightarrow> 1 | NBlock \<Rightarrow> (if at T_LBrace p then 1 else 0) | _ \<Rightarrow> 0)"

definition calls :: "(string \<Rightarrow> 64 word) \<Rightarrow> routines \<Rightarrow> parser \<Rightarrow> nat \<Rightarrow> bool" where
  "calls h R p0 M \<longleftrightarrow> (\<forall>nt p. parser_ok h p \<longrightarrow> p_toks p = p_toks p0 \<longrightarrow> call_measure nt p < M
     \<longrightarrow> wpp (R nt) (\<lambda>_ p'. moved h (progress nt p) p p') p)"

lemma rank_le: "rank nt p \<le> 9"
  by (simp add: rank_def split: nonterm.splits)

lemma mv_call:
  assumes "calls h R p0 M" "moved h n p0 p" "call_measure nt p < M" "\<And>x p'. moved h (n + progress nt p) p0 p' \<Longrightarrow> Q x p'"
  shows "wpp (R nt) Q p"
proof -
  have "wpp (R nt) (\<lambda>_ p'. moved h (progress nt p) p p') p" using assms(1,2,3) by (simp add: calls_def moved_def)
  then show ?thesis by (rule wpp_weaken) (use moved_trans [OF assms(2)] assms(4) in blast)
qed

text \<open>A call after at least one token was read, and a call before.\<close>

lemma mv_call1:
  assumes "calls h R p0 (call_measure nt0 p0)" "moved h (Suc n) p0 p" "\<And>x p'. moved h (Suc n) p0 p' \<Longrightarrow> Q x p'"
  shows "wpp (R nt) Q p"
proof (rule mv_call [OF assms(1,2)])
  have "left p + 1 \<le> left p0" using assms(2) by (simp add: moved_def)
  then show "call_measure nt p < call_measure nt0 p0" using rank_le [of nt p] by (simp add: call_measure_def)
qed (use assms(3) moved_weaken in \<open>metis le_add1\<close>)

lemma mv_call0:
  assumes "calls h R p0 (call_measure nt0 p0)" "moved h 0 p0 p" "rank nt p < rank nt0 p0"
    "\<And>x p'. moved h (progress nt p) p0 p' \<Longrightarrow> Q x p'"
  shows "wpp (R nt) Q p"
  by (rule mv_call [OF assms(1,2)]) (use assms in \<open>simp_all add: call_measure_def moved_def\<close>)

lemmas rank_simps = rank_def progress_def

lemma block_returns:
  assumes c: "calls h R p (call_measure NBlock p)" and ok: "parser_ok h p"
  shows "wpp (parse_block R) (\<lambda>_ p'. moved h (progress NBlock p) p p') p"
proof (cases "at T_LBrace p")
  case True
  then show ?thesis
    apply (insert moved_refl [OF ok], unfold parse_block_def wpp_bind_eq)
    apply (erule mv_expect1, assumption, simp)
    apply (erule mv_call1 [OF c])
    apply (simp add: rank_simps)
    done
next
  case False
  then show ?thesis
    apply (insert moved_refl [OF ok], unfold parse_block_def wpp_bind_eq)
    apply (erule mv, simp)
    apply (erule mv_call0 [OF c])
     apply (simp_all add: rank_simps)
    done
qed

lemma block_loop_returns:
  assumes c: "calls h R p (call_measure (NBlockLoop ss) p)" and ok: "parser_ok h p"
  shows "wpp (block_loop R ss) (\<lambda>_ p'. moved h 0 p p') p"
  apply (insert moved_refl [OF ok], unfold block_loop_def)
  apply (rule wpp_if)
   apply (unfold wpp_bind_eq)
   apply (erule mv, simp, simp)
  apply (erule mv_call0 [OF c], simp add: rank_simps)
  apply (simp add: rank_simps)
  apply (erule mv_call1 [OF c], erule moved_weaken, simp)
  done

lemma let_returns:
  assumes c: "calls h R p (call_measure NStmt p)" and ok: "parser_ok h p"
    and "at (if v then T_VarKw else T_LetKw) p"
  shows "wpp (parse_let_or_var_stmt h R v) (\<lambda>_ p'. moved h 1 p p') p"
  apply (insert moved_refl [OF ok], unfold parse_let_or_var_stmt_def wpp_bind_eq)
  apply (erule mv_expect1, rule assms(3), simp)
  by ((erule mv mv_call1 [OF c]; (simp; fail)?) | (simp add: moved_def; fail))+

lemma return_returns:
  assumes c: "calls h R p (call_measure NStmt p)" and ok: "parser_ok h p" and "at T_ReturnKw p"
  shows "wpp (parse_return_stmt R) (\<lambda>_ p'. moved h 1 p p') p"
  apply (insert moved_refl [OF ok], unfold parse_return_stmt_def wpp_bind_eq)
  apply (erule mv_expect1, rule assms(3), simp)
  by ((erule mv mv_call1 [OF c] | rule wpp_if wpp_bind wpp_ret; (simp; fail)?) | (simp add: moved_def; fail))+

lemma if_returns:
  assumes c: "calls h R p (call_measure NStmt p)" and ok: "parser_ok h p" and "at T_IfKw p"
  shows "wpp (parse_if_stmt R) (\<lambda>_ p'. moved h 1 p p') p"
  apply (insert moved_refl [OF ok], unfold parse_if_stmt_def wpp_bind_eq)
  apply (erule mv_expect1, rule assms(3), simp)
  by ((erule mv mv_call1 [OF c]; (simp; fail)?) | (simp add: moved_def; fail))+

lemma for_returns:
  assumes c: "calls h R p (call_measure NStmt p)" and ok: "parser_ok h p" and "at T_ForKw p"
  shows "wpp (parse_for_stmt h R) (\<lambda>_ p'. moved h 1 p p') p"
  apply (insert moved_refl [OF ok], unfold parse_for_stmt_def wpp_bind_eq)
  apply (erule mv_expect1, rule assms(3), simp)
  by ((erule mv mv_call1 [OF c]; (simp; fail)?) | (simp add: moved_def; fail))+

lemma match_returns:
  assumes c: "calls h R p (call_measure NStmt p)" and ok: "parser_ok h p" and "at T_MatchKw p"
  shows "wpp (parse_match_stmt R) (\<lambda>_ p'. moved h 1 p p') p"
  apply (insert moved_refl [OF ok], unfold parse_match_stmt_def wpp_bind_eq)
  apply (erule mv_expect1, rule assms(3), simp)
  by ((erule mv mv_call1 [OF c]; (simp; fail)?) | (simp add: moved_def; fail))+

lemma match_loop_returns:
  assumes c: "calls h R p (call_measure (NMatchLoop s arms) p)" and ok: "parser_ok h p"
  shows "wpp (match_loop h R s arms) (\<lambda>_ p'. moved h 0 p p') p"
  apply (insert moved_refl [OF ok], unfold match_loop_def)
  apply (rule wpp_if)
   apply (unfold wpp_bind_eq)
   apply (erule mv, simp, simp)
  apply (erule mv_reads [OF _ parse_pattern_reads, unfolded Suc_eq_plus1 [symmetric]])
  by ((erule mv mv_call1 [OF c]; (simp; fail)?) | (simp add: moved_def; fail))+

lemma stmt_returns:
  assumes c: "calls h R p (call_measure NStmt p)" and ok: "parser_ok h p"
  shows "wpp (parse_stmt h R) (\<lambda>_ p'. moved h 1 p p') p"
  apply (unfold parse_stmt_def)
  apply (rule wpp_if, rule let_returns [OF c ok], simp)
  apply (rule wpp_if, rule let_returns [OF c ok], simp)
  apply (rule wpp_if, rule return_returns [OF c ok], simp)
  apply (rule wpp_if, rule if_returns [OF c ok], simp)
  apply (rule wpp_if, rule for_returns [OF c ok], simp)
  apply (rule wpp_if, rule match_returns [OF c ok], simp)
  apply (insert moved_refl [OF ok])
  apply (rule wpp_if)
   apply (erule mv_call0 [OF c], simp add: rank_simps)
   apply (simp add: rank_simps)
  apply (unfold wpp_bind_eq)
  apply (erule mv_call0 [OF c], simp add: rank_simps)
  apply (simp add: rank_simps)
  by ((erule mv mv_call1 [OF c] | rule wpp_ite wpp_bind wpp_ret; (simp; fail)?) | (simp add: moved_def; fail))+

lemma expr_returns:
  assumes c: "calls h R p (call_measure (NExpr m) p)" and ok: "parser_ok h p"
  shows "wpp (parse_expr R m) (\<lambda>_ p'. moved h 1 p p') p"
  apply (insert moved_refl [OF ok], unfold parse_expr_def wpp_bind_eq)
  apply (erule mv_call0 [OF c], simp add: rank_simps)
  apply (simp add: rank_simps)
  apply (erule mv_call1 [OF c], simp)
  done

lemma binary_op_eof: "binary_op_kind T_Eof = T_Eof"
  by (simp add: binary_op_kind_def is_assign_op_def)

lemma expr_loop_returns:
  assumes c: "calls h R p (call_measure (NExprLoop m l) p)" and ok: "parser_ok h p"
  shows "wpp (expr_loop R m l) (\<lambda>_ p'. moved h 0 p p') p"
  apply (insert moved_refl [OF ok], unfold expr_loop_def Let_def)
  apply (rule wpp_if, simp)
  apply (unfold wpp_bind_eq)
  apply (erule mv_next, auto simp: at_def binary_op_eof)
   apply (erule mv_call1 [OF c], erule mv_call1 [OF c], erule moved_weaken, simp)
  apply (erule mv_call1 [OF c], erule mv_call1 [OF c], erule moved_weaken, simp)
  done

lemma primary_returns:
  assumes c: "calls h R p (call_measure NUnary p)" and ok: "parser_ok h p"
  shows "wpp (parse_primary h R) (\<lambda>_ p'. moved h 1 p p') p"
proof -
  have kw: "\<not> at T_Eof p" if "type_keyword (t_kind (peek p))" using that by (auto simp: at_def type_keyword_def)
  show ?thesis
    apply (insert moved_refl [OF ok], unfold parse_primary_def)
    apply (rule wpp_if, unfold wpp_bind_eq, erule mv_next, simp add: at_def, simp)
    apply (rule wpp_if, unfold wpp_bind_eq, erule mv_next, simp add: at_def, simp)
    apply (rule wpp_if, unfold wpp_bind_eq, erule mv_next, simp add: at_def, erule mv, simp)
    apply (rule wpp_if, unfold wpp_bind_eq, erule mv_next, simp add: at_def, simp)
    apply (rule wpp_if, unfold wpp_bind_eq, erule mv_next, simp add: at_def, simp)
    apply (rule wpp_if, unfold wpp_bind_eq, erule mv_next, simp add: at_def, erule mv_consume, simp)
      apply (erule mv_sym, simp, erule mv_reads [OF _ path_loop_reads], simp add: moved_def)
     apply (erule mv_sym, simp)
    apply (rule wpp_if, unfold wpp_bind_eq, erule mv_next, erule kw, erule mv, simp)
    apply (rule wpp_if, unfold wpp_bind_eq, erule mv_next, simp add: at_def, erule mv_call1 [OF c], erule mv, simp, simp)
    apply (rule wpp_if, erule mv_call0 [OF c], simp add: rank_simps, simp add: rank_simps)
    apply (rule wpp_err)
    done
qed

lemma unary_returns:
  assumes c: "calls h R p (call_measure NUnary p)" and ok: "parser_ok h p"
  shows "wpp (parse_unary h R) (\<lambda>_ p'. moved h 1 p p') p"
  apply (unfold parse_unary_def)
  apply (rule wpp_if, unfold wpp_bind_eq)
   apply (insert moved_refl [OF ok], erule mv_next, force simp: at_def)
   apply (erule mv_call1 [OF c], simp)
  apply (rule wpp_weaken [OF primary_returns [OF c ok]])
  apply (rule mv_call1 [OF c], simp, simp)
  done

lemma postfix_returns:
  assumes c: "calls h R p (call_measure (NPostfix b) p)" and ok: "parser_ok h p"
  shows "wpp (parse_postfix h R b) (\<lambda>_ p'. moved h 0 p p') p"
  apply (insert moved_refl [OF ok], unfold parse_postfix_def)
  apply (rule wpp_if, unfold wpp_bind_eq, erule mv_next, simp add: at_def)
   apply (erule mv_call1 [OF c], erule mv_call1 [OF c], simp add: moved_def)
  apply (rule wpp_if, unfold wpp_bind_eq, erule mv_next, simp add: at_def, erule mv, simp, erule mv)
   apply (erule mv_call1 [OF c], simp add: moved_def)
  apply (rule wpp_if, unfold wpp_bind_eq, erule mv_next, simp add: at_def, erule mv_call1 [OF c], erule mv, simp)
   apply (erule mv_call1 [OF c], simp add: moved_def)
  apply simp
  done

lemma args_returns:
  assumes c: "calls h R p (call_measure (NArgs f as) p)" and ok: "parser_ok h p"
  shows "wpp (args_loop R f as) (\<lambda>_ p'. moved h 0 p p') p"
  apply (insert moved_refl [OF ok], unfold args_loop_def)
  apply (rule wpp_if, unfold wpp_bind_eq, erule mv, simp, simp)
  apply (erule mv_call0 [OF c], simp add: rank_simps)
  apply (simp add: rank_simps)
  apply (erule mv, simp)
   apply (simp, erule mv_call1 [OF c], simp add: moved_def)
  apply (simp, erule mv, simp, simp add: moved_def)
  done

lemma parse_returns: "parser_ok h p \<Longrightarrow> wpp (parse h nt) (\<lambda>_ p'. moved h (progress nt p) p p') p"
proof (induction "call_measure nt p" arbitrary: nt p rule: less_induct)
  case less
  then have c: "calls h (parse h) p (call_measure nt p)" by (simp add: calls_def)
  note r = block_returns block_loop_returns stmt_returns match_loop_returns expr_returns expr_loop_returns
    unary_returns postfix_returns args_returns
  have "wpp (parse_step h (parse h) nt) (\<lambda>_ p'. moved h (progress nt p) p p') p"
    using r(1) [of h "parse h" p] r(2-9) c less(2)
    by (cases nt) (simp_all add: parse_step_def progress_def)
  then show ?case by (rule wpp_call [OF parse.simps])
qed

lemma parse_reads: "consumes h 1 (parse h (NExpr m))" "consumes h 0 (parse h nt)"
  using parse_returns [of h _ "NExpr m"] wpp_weaken [OF parse_returns [of h _ nt] moved_weaken]
  by (auto simp: consumes_def progress_def)

lemma comma_list_reads:
  assumes "consumes h 0 elem" "close \<noteq> T_Eof"
  shows "consumes h 0 (comma_list close elem xs)"
proof -
  have "wpp (comma_list close elem xs) (\<lambda>_ p'. moved h 0 p p') p" if "parser_ok h p" for p
    using that
  proof (induction "left p" arbitrary: p xs rule: less_induct)
    case less
    have ih: "wpp (comma_list close elem ys) (\<lambda>_ p'. moved h 0 p p') p1" if "moved h (Suc n) p p1" for n ys p1
    proof -
      have "left p1 < left p" "parser_ok h p1" using that by (auto simp: moved_def)
      from less(1) [OF this] show ?thesis
        by (rule wpp_weaken) (use that in \<open>simp add: moved_def\<close>)
    qed
    show ?case
      apply (insert moved_refl [OF less(2)])
      apply (rule wpp_call [OF comma_list.simps], unfold list_step_def)
      apply (rule wpp_if, simp)
      apply (unfold wpp_bind_eq)
      apply (erule mv_reads [OF _ assms(1)])
      apply (erule mv, simp)
       apply (simp, erule ih)
      apply simp
      done
  qed
  then show ?thesis by (simp add: consumes_def)
qed


lemma param_reads: "consumes h 0 (parse_param h)"
  unfolding consumes_def parse_param_def wpp_bind_eq
  apply (intro allI impI, drule moved_refl)
  by ((erule mv mv_reads [OF _ parse_reads(2)]; (simp; fail)?) | (simp add: moved_def; fail))+

lemma field_reads: "consumes h 0 (parse_field h)"
  unfolding consumes_def parse_field_def wpp_bind_eq
  apply (intro allI impI, drule moved_refl)
  by ((erule mv mv_reads [OF _ parse_reads(2)]; (simp; fail)?) | (simp add: moved_def; fail))+

lemma variant_reads: "consumes h 0 (parse_variant h)"
  unfolding consumes_def parse_variant_def wpp_bind_eq
  apply (intro allI impI, drule moved_refl)
  by ((erule mv mv_reads [OF _ comma_list_reads [OF parse_reads(2)]] | rule wpp_bind wpp_ret; (simp; fail)?) | (simp add: moved_def; fail))+

lemmas list_reads = comma_list_reads [OF param_reads] comma_list_reads [OF field_reads] comma_list_reads [OF variant_reads]

lemma fn_reads: "parser_ok h p \<Longrightarrow> at T_FnKw p \<Longrightarrow> wpp (parse_fn_decl h v) (\<lambda>_ p'. moved h 1 p p') p"
  unfolding parse_fn_decl_def wpp_bind_eq
  apply (drule moved_refl, erule mv_expect1, assumption, simp)
  by ((erule mv mv_reads [OF _ parse_reads(2)] mv_reads [OF _ list_reads(1)]; (simp; fail)?) | (simp add: moved_def; fail))+

lemma struct_reads: "parser_ok h p \<Longrightarrow> at T_StructKw p \<Longrightarrow> wpp (parse_struct_decl h) (\<lambda>_ p'. moved h 1 p p') p"
  unfolding parse_struct_decl_def wpp_bind_eq
  apply (drule moved_refl, erule mv_expect1, assumption, simp)
  by ((erule mv mv_reads [OF _ list_reads(2)]; (simp; fail)?) | (simp add: moved_def; fail))+

lemma enum_reads: "parser_ok h p \<Longrightarrow> at T_EnumKw p \<Longrightarrow> wpp (parse_enum_decl h) (\<lambda>_ p'. moved h 1 p p') p"
  unfolding parse_enum_decl_def wpp_bind_eq
  apply (drule moved_refl, erule mv_expect1, assumption, simp)
  by ((erule mv mv_reads [OF _ list_reads(3)]; (simp; fail)?) | (simp add: moved_def; fail))+

lemma item_reads: "consumes h 1 (parse_top_level_item h)"
proof -
  have step: "wpp (pif (at T_FnKw) (parse_fn_decl h b) (if b then perr
        else pif (at T_StructKw) (parse_struct_decl h) (pif (at T_EnumKw) (parse_enum_decl h) perr)))
      (\<lambda>_ p'. moved h 1 p p') p1" if "moved h n p p1" for p p1 n b
  proof -
    have "parser_ok h p1" and w: "\<And>p'. moved h 1 p1 p' \<Longrightarrow> moved h 1 p p'" using that by (auto simp: moved_def)
    from wpp_weaken [OF fn_reads [OF this(1)] w] wpp_weaken [OF struct_reads [OF this(1)] w] wpp_weaken [OF enum_reads [OF this(1)] w]
    show ?thesis by (simp add: wpp_err)
  qed
  show ?thesis
    unfolding consumes_def parse_top_level_item_def wpp_bind_eq
    apply (intro allI impI, drule moved_refl)
    apply (erule mv, simp)
     apply (erule step)+
    done
qed

lemma module_loop_reads: "parser_ok h p \<Longrightarrow> wpp (module_loop h items) (\<lambda>_ p'. moved h 0 p p' \<and> at T_Eof p') p"
proof (induction "left p" arbitrary: p items rule: less_induct)
  case less
  have ih: "wpp (module_loop h its) (\<lambda>_ p'. moved h 0 p p' \<and> at T_Eof p') p1" if "moved h (Suc n) p p1" for n its p1
  proof -
    have "left p1 < left p" "parser_ok h p1" using that by (auto simp: moved_def)
    from less(1) [OF this] show ?thesis
      by (rule wpp_weaken) (use that in \<open>simp add: moved_def\<close>)
  qed
  show ?case
    apply (insert moved_refl [OF less(2)])
    apply (rule wpp_call [OF module_loop.simps], unfold module_step_def)
    apply (rule wpp_if, simp)
    apply (unfold wpp_bind_eq)
    apply (erule mv_reads [OF _ item_reads], simp)
    apply (erule ih)
    done
qed

lemma parser_init_ok: "toks_ok toks \<Longrightarrow> st_ok h (sy_map syms) \<Longrightarrow> parser_ok h (parser_init toks syms sink)"
  by (simp add: parser_ok_def parser_init_def toks_ok_def)

text \<open>
  C10. The parser terminates on every token stream that ends in its only \<open>Eof\<close>, whatever the
  tokens are (no stream sends one of its loops or recursions round for ever), it never
  consumes past the end, and it returns a module only when it has reached \<open>Eof\<close>.
\<close>

theorem parser_terminates:
  assumes "toks_ok toks" "st_ok h (sy_map syms)"
  shows "\<exists>r p'. parse_module h (parser_init toks syms sink) = Some (r, p')
    \<and> (\<forall>m. r = Inr m \<longrightarrow> p_toks p' = toks \<and> p_pos p' = length toks - 1)"
proof -
  let ?p = "parser_init toks syms sink"
  have w: "wpp (module_loop h []) (\<lambda>_ p'. moved h 0 ?p p' \<and> at T_Eof p') ?p"
    by (rule module_loop_reads [OF parser_init_ok [OF assms]])
  then obtain r p' where r: "parse_module h ?p = Some (r, p')" "\<forall>m. r = Inr m \<longrightarrow> moved h 0 ?p p' \<and> at T_Eof p'"
    unfolding wpp_def parse_module_def by (cases "module_loop h [] ?p") (auto split: sum.splits)
  have "p_toks p' = toks \<and> p_pos p' = length toks - 1" if "moved h 0 ?p p'" "at T_Eof p'"
  proof -
    have ok: "parser_ok h p'" "p_toks p' = toks" using that(1) by (auto simp: moved_def parser_init_def)
    then have "left p' = 0" using not_eof_left that(2) by blast
    with ok show ?thesis by (auto simp: left_def parser_ok_def)
  qed
  with r show ?thesis by blast
qed

theorem parser_terminates_witness:
  "\<exists>r p'. parse_module (\<lambda>_. 9) (parser_init [default_token] symtab_empty []) = Some (r, p')
     \<and> (\<forall>m. r = Inr m \<longrightarrow> p_toks p' = [default_token] \<and> p_pos p' = length [default_token] - 1)"
proof (rule parser_terminates)
  show "toks_ok [default_token]" by (simp add: toks_ok_def default_token_def)
  show "st_ok (\<lambda>_. 9) (sy_map symtab_empty)" using sym_empty_ok by (simp add: sym_ok_def)
qed

end
