(* ===== verification/ParsePrint.thy ===== *)
theory ParsePrint
  imports Parsing Lexing
begin

section \<open>Printing expressions and parsing them back\<close>

text \<open>
  A printer for expressions that uses parentheses only where the precedence table of the
  parser asks for them, and the proof that the Pratt parser inverts it. Level 0 to 13 are
  the precedences of the infix operators, 14 is a prefix operator's operand, 15 what a
  postfix operator applies to.
\<close>

fun nat_digits :: "nat \<Rightarrow> string" where
  "nat_digits n = (if n < 10 then [char_of (48 + n)] else nat_digits (n div 10) @ [char_of (48 + n mod 10)])"

declare nat_digits.simps [simp del]

definition op_text :: "token_kind \<Rightarrow> string" where
  "op_text k = (case find (\<lambda>(_, x). x = k) op2_table of Some ((a, b), _) \<Rightarrow> [a, b]
     | None \<Rightarrow> (case find (\<lambda>(_, x). x = k) op1_table of Some (a, _) \<Rightarrow> [a] | None \<Rightarrow> []))"

definition op_tok :: "token_kind \<Rightarrow> token_kind \<times> string" where
  "op_tok k = (k, op_text k)"

fun commas :: "'a list list \<Rightarrow> 'a \<Rightarrow> 'a list" where
  "commas [] c = []"
| "commas [x] c = x"
| "commas (x # y # xs) c = x @ [c] @ commas (y # xs) c"

definition parens :: "(token_kind \<times> string) list \<Rightarrow> (token_kind \<times> string) list" where
  "parens s = [op_tok T_LParen] @ s @ [op_tok T_RParen]"

fun print_expr :: "symtab \<Rightarrow> int \<Rightarrow> ast \<Rightarrow> (token_kind \<times> string) list" where
  "print_expr t lvl (Ident i) = [(T_Ident, sym_at t i)]"
| "print_expr t lvl (IntLit v) = [(T_IntLit, nat_digits (unat v))]"
| "print_expr t lvl (BoolLit b) = [if b then (T_TrueKw, ''true'') else (T_FalseKw, ''false'')]"
| "print_expr t lvl (StrLit i) = [(T_StrLit, sym_at t i)]"
| "print_expr t lvl (PathExpr segs) = commas (map (\<lambda>i. [(T_Ident, sym_at t i)]) segs) (op_tok T_DoubleColon)"
| "print_expr t lvl (CallExpr f as) =
     print_expr t 15 f @ [op_tok T_LParen] @ commas (map (print_expr t 0) as) (op_tok T_Comma) @ [op_tok T_RParen]"
| "print_expr t lvl (FieldExpr b s) = print_expr t 15 b @ [op_tok T_Dot, (T_Ident, sym_at t s)]"
| "print_expr t lvl (IndexExpr b i) = print_expr t 15 b @ [op_tok T_LBracket] @ print_expr t 0 i @ [op_tok T_RBracket]"
| "print_expr t lvl (UnaryExpr k a) =
     (let s = op_tok k # print_expr t 14 a in if lvl \<le> 14 then s else parens s)"
| "print_expr t lvl (BinaryExpr k a b) =
     (let s = print_expr t (precedence k) a @ [op_tok k] @ print_expr t (precedence k + 1) b
      in if lvl \<le> precedence k then s else parens s)"
| "print_expr t lvl (AssignExpr k a b) =
     (let s = print_expr t 3 a @ [op_tok k] @ print_expr t 2 b in if lvl \<le> 2 then s else parens s)"
| "print_expr t lvl _ = []"

text \<open>
  The expressions the printer covers: every form but blocks, floats (whose texts the parser
  rounds) and ranges (which are not expressions of the grammar), over symbols of the table.
\<close>

definition sym_in :: "symtab \<Rightarrow> symbol_id \<Rightarrow> bool" where
  "sym_in t i \<longleftrightarrow> i < length (sy_entries t)"

fun printable :: "symtab \<Rightarrow> ast \<Rightarrow> bool" where
  "printable t (Ident i) \<longleftrightarrow> sym_in t i"
| "printable t (IntLit v) \<longleftrightarrow> True"
| "printable t (BoolLit b) \<longleftrightarrow> True"
| "printable t (StrLit i) \<longleftrightarrow> sym_in t i"
| "printable t (PathExpr segs) \<longleftrightarrow> length segs \<ge> 2 \<and> list_all (sym_in t) segs"
| "printable t (CallExpr f as) \<longleftrightarrow> printable t f \<and> list_all (printable t) as"
| "printable t (FieldExpr b s) \<longleftrightarrow> printable t b \<and> sym_in t s"
| "printable t (IndexExpr b i) \<longleftrightarrow> printable t b \<and> printable t i"
| "printable t (UnaryExpr k a) \<longleftrightarrow> k \<in> {T_Minus, T_Bang, T_Tilde} \<and> printable t a"
| "printable t (BinaryExpr k a b) \<longleftrightarrow> binary_op_kind k = k \<and> k \<noteq> T_Eof \<and> \<not> is_assign_op k \<and> printable t a \<and> printable t b"
| "printable t (AssignExpr k a b) \<longleftrightarrow> is_assign_op k \<and> printable t a \<and> printable t b"
| "printable t _ \<longleftrightarrow> False"

subsection \<open>Decimal literals\<close>

lemma digit_val_char: "d < 10 \<Longrightarrow> digit_val (char_of (48 + d)) = Some d"
  by (simp add: digit_val_def Let_def)

lemma parse_int_append: "parse_int_text v (s @ s') = parse_int_text (parse_int_text v s) s'"
  by (induction s arbitrary: v) simp_all

lemma parse_int_digits: "parse_int_text 0 (nat_digits n) = of_nat n"
proof (induction n rule: nat_digits.induct)
  case (1 n)
  show ?case
  proof (cases "n < 10")
    case True
    then show ?thesis by (subst nat_digits.simps) (simp add: digit_val_char)
  next
    case False
    have "(of_nat (n div 10) * 10 + of_nat (n mod 10) :: i64) = of_nat (n div 10 * 10 + n mod 10)"
      by (simp only: of_nat_add of_nat_mult) simp
    then have "(of_nat (n div 10) * 10 + of_nat (n mod 10) :: i64) = of_nat n" by (simp only: div_mult_mod_eq)
    then show ?thesis using False 1 by (subst nat_digits.simps) (simp add: parse_int_append digit_val_char)
  qed
qed

subsection \<open>What the parser sees\<close>

definition input :: "parser \<Rightarrow> (token_kind \<times> string) list" where
  "input p = map kind_text (drop (p_pos p) (p_toks p))"

definition adv :: "nat \<Rightarrow> parser \<Rightarrow> parser" where
  "adv n p = p\<lparr>p_pos := p_pos p + n\<rparr>"

lemma adv_adv [simp]: "adv m (adv n p) = adv (n + m) p"
  by (simp add: adv_def add.assoc)

lemma adv_0 [simp]: "adv 0 p = p"
  by (simp add: adv_def)

lemma skip_adv [simp]: "skip p = adv (Suc 0) p"
  by (simp add: skip_def adv_def)

lemma p_syms_adv [simp]: "p_syms (adv n p) = p_syms p"
  by (simp add: adv_def)

lemma input_adv: "input (adv n p) = drop n (input p)"
  by (simp add: input_def adv_def drop_map add.commute)

lemma input_adv_append: "input p = xs @ ys \<Longrightarrow> input (adv (length xs) p) = ys"
  by (simp add: input_adv)

lemma peek_input: "input p = x # r \<Longrightarrow> kind_text (peek p) = x"
proof -
  assume a: "input p = x # r"
  then have l: "p_pos p < length (p_toks p)" by (auto simp: input_def) (metis drop_all leI list.distinct(1) list.map(1))
  then have "min (p_pos p) (length (p_toks p) - 1) = p_pos p" by simp
  moreover have "hd (input p) = kind_text (p_toks p ! p_pos p)" using l by (simp add: input_def hd_map hd_drop_conv_nth)
  ultimately show ?thesis using a by (simp add: peek_def)
qed

lemma at_input: "input p = (k, w) # r \<Longrightarrow> at k' p \<longleftrightarrow> k' = k"
  using peek_input [of p "(k, w)" r] by (auto simp: at_def kind_text_def)

lemma peek_kind: "input p = (k, w) # r \<Longrightarrow> t_kind (peek p) = k" "input p = (k, w) # r \<Longrightarrow> t_text (peek p) = w"
  using peek_input [of p "(k, w)" r] by (auto simp: kind_text_def)

lemma run_bind: "m p = Some (Inr x, p') \<Longrightarrow> pbind m f p = f x p'"
  by (simp add: pbind_def)

lemma run_next: "input p = (k, w) # r \<Longrightarrow> next_token p = Some (Inr (peek p), adv (Suc 0) p)"
  by (simp add: next_token_def)

lemma run_expect: "input p = (k, w) # r \<Longrightarrow> expect k p = Some (Inr (peek p), adv (Suc 0) p)"
  by (simp add: expect_def at_input) (simp add: peek_def)

lemma run_consume: "input p = (k, w) # r \<Longrightarrow> consume k' p = Some (Inr (k' = k), if k' = k then adv (Suc 0) p else p)"
  by (simp add: consume_def at_input)

lemma run_sym: "sym_ok h (p_syms p) \<Longrightarrow> sym_in (p_syms p) i \<Longrightarrow> psym h (sym_at (p_syms p) i) p = Some (Inr i, p)"
  using intern_known [of h "p_syms p" i] by (simp add: psym_def sym_in_def)

lemmas bind_next = run_bind [where m = next_token, OF run_next]
lemmas bind_expect = run_bind [where m = "expect k" for k, OF run_expect]
lemmas bind_consume = run_bind [where m = "consume k" for k, OF run_consume]
lemmas bind_parse = run_bind [where m = "parse h nt" for h nt]
lemmas bind_primary = run_bind [where m = "parse_primary h R" for h R]

lemma bind_sym: "sym_ok h (p_syms p) \<Longrightarrow> sym_in (p_syms p) i \<Longrightarrow> s = sym_at (p_syms p) i \<Longrightarrow> pbind (psym h s) f p = f i p"
  by (simp add: run_bind [where m = "psym h (sym_at (p_syms p) i)", OF run_sym])

subsection \<open>Where an expression ends\<close>

definition path_ends :: "(token_kind \<times> string) list \<Rightarrow> bool" where
  "path_ends r \<longleftrightarrow> r \<noteq> [] \<and> fst (hd r) \<noteq> T_DoubleColon"

definition postfix_ends :: "(token_kind \<times> string) list \<Rightarrow> bool" where
  "postfix_ends r \<longleftrightarrow> r \<noteq> [] \<and> fst (hd r) \<notin> {T_LParen, T_Dot, T_LBracket, T_DoubleColon}"

definition infix_ends :: "int \<Rightarrow> (token_kind \<times> string) list \<Rightarrow> bool" where
  "infix_ends lvl r \<longleftrightarrow> postfix_ends r \<and>
     (binary_op_kind (fst (hd r)) = T_Eof \<or>
      precedence (fst (hd r)) \<le> lvl \<and> (is_assign_op (fst (hd r)) \<longrightarrow> 2 < lvl))"

definition expr_ends :: "(token_kind \<times> string) list \<Rightarrow> bool" where
  "expr_ends r \<longleftrightarrow> postfix_ends r \<and> binary_op_kind (fst (hd r)) = T_Eof"

lemma expr_ends_infix: "expr_ends r \<Longrightarrow> infix_ends lvl r"
  by (simp add: expr_ends_def infix_ends_def)

lemma endsD: "infix_ends lvl r \<Longrightarrow> postfix_ends r" "postfix_ends r \<Longrightarrow> path_ends r" "expr_ends r \<Longrightarrow> postfix_ends r"
  by (auto simp: infix_ends_def postfix_ends_def path_ends_def expr_ends_def)

lemma at_hd: "input p = r \<Longrightarrow> r \<noteq> [] \<Longrightarrow> at k p \<longleftrightarrow> fst (hd r) = k"
  by (cases r) (auto simp: at_input)

lemma kind_hd: "input p = r \<Longrightarrow> r \<noteq> [] \<Longrightarrow> t_kind (peek p) = fst (hd r)"
  by (cases r) (auto simp: peek_kind)

lemma loop_stop:
  assumes "input p = r" "r \<noteq> []" "binary_op_kind (fst (hd r)) = T_Eof \<or> precedence (fst (hd r)) < m"
  shows "parse h (NExprLoop m e) p = Some (Inr e, p)"
proof -
  have "binary_op_kind k = k \<or> binary_op_kind k = T_Eof" for k by (simp add: binary_op_kind_def)
  then have "binary_op_kind (t_kind (peek p)) = T_Eof \<or> precedence (binary_op_kind (t_kind (peek p))) < m"
    using assms by (metis kind_hd)
  then show ?thesis by (subst parse.simps) (simp add: parse_step_def expr_loop_def pif_def pret_def)
qed

lemma postfix_stop:
  assumes "input p = r" "postfix_ends r"
  shows "parse h (NPostfix e) p = Some (Inr e, p)"
  using assms by (subst parse.simps) (simp add: parse_step_def parse_postfix_def pif_def pret_def at_hd postfix_ends_def)

lemma unary_primary:
  assumes "input p = (k, w) # r" "k \<notin> {T_Minus, T_Bang, T_Tilde}" "parse_primary h (parse h) p = Some (Inr e, p')"
  shows "parse h NUnary p = parse h (NPostfix e) p'"
  using assms by (subst parse.simps) (auto simp: parse_step_def parse_unary_def pif_def at_input bind_primary)

lemma expr_unary:
  assumes "parse h NUnary p = Some (Inr e, p')"
  shows "parse h (NExpr m) p = parse h (NExprLoop m e) p'"
  by (subst parse.simps) (simp add: parse_step_def parse_expr_def bind_parse [OF assms])

subsection \<open>The three levels\<close>

definition postfix_reparses :: "(string \<Rightarrow> 64 word) \<Rightarrow> symtab \<Rightarrow> ast \<Rightarrow> bool" where
  "postfix_reparses h t e \<longleftrightarrow> (\<forall>p r. p_syms p = t \<longrightarrow> input p = print_expr t 15 e @ r \<longrightarrow> path_ends r \<longrightarrow>
     parse h NUnary p = parse h (NPostfix e) (adv (length (print_expr t 15 e)) p))"

definition unary_reparses :: "(string \<Rightarrow> 64 word) \<Rightarrow> symtab \<Rightarrow> ast \<Rightarrow> bool" where
  "unary_reparses h t e \<longleftrightarrow> (\<forall>p r. p_syms p = t \<longrightarrow> input p = print_expr t 14 e @ r \<longrightarrow> postfix_ends r \<longrightarrow>
     parse h NUnary p = Some (Inr e, adv (length (print_expr t 14 e)) p))"

definition infix_reparses :: "(string \<Rightarrow> 64 word) \<Rightarrow> symtab \<Rightarrow> ast \<Rightarrow> int \<Rightarrow> bool" where
  "infix_reparses h t e lvl \<longleftrightarrow> (\<forall>p r m. p_syms p = t \<longrightarrow> m \<le> lvl \<longrightarrow> input p = print_expr t lvl e @ r \<longrightarrow> infix_ends lvl r \<longrightarrow>
     parse h (NExpr m) p = parse h (NExprLoop m e) (adv (length (print_expr t lvl e)) p))"

definition reparses :: "(string \<Rightarrow> 64 word) \<Rightarrow> symtab \<Rightarrow> ast \<Rightarrow> bool" where
  "reparses h t e \<longleftrightarrow> postfix_reparses h t e \<and> unary_reparses h t e \<and> (\<forall>lvl. lvl \<le> 14 \<longrightarrow> infix_reparses h t e lvl)"

lemma unary_of_postfix:
  assumes "postfix_reparses h t e" "print_expr t 14 e = print_expr t 15 e"
  shows "unary_reparses h t e"
  unfolding unary_reparses_def
proof (intro allI impI)
  fix p r assume p: "p_syms p = t" "input p = print_expr t 14 e @ r" "postfix_ends r"
  with assms endsD(2) [OF p(3)] have "parse h NUnary p = parse h (NPostfix e) (adv (length (print_expr t 15 e)) p)"
    by (simp add: postfix_reparses_def)
  also have "\<dots> = Some (Inr e, adv (length (print_expr t 15 e)) p)"
    using p assms(2) by (intro postfix_stop [where r = r]) (simp_all add: input_adv)
  finally show "parse h NUnary p = Some (Inr e, adv (length (print_expr t 14 e)) p)" using assms(2) by simp
qed

lemma infix_of_unary:
  assumes "unary_reparses h t e" "print_expr t lvl e = print_expr t 14 e"
  shows "infix_reparses h t e lvl"
  unfolding infix_reparses_def
proof (intro allI impI)
  fix p r m assume p: "p_syms p = t" "input p = print_expr t lvl e @ r" "infix_ends lvl r"
  then have "parse h NUnary p = Some (Inr e, adv (length (print_expr t 14 e)) p)"
    using assms endsD(1) by (simp add: unary_reparses_def)
  then show "parse h (NExpr m) p = parse h (NExprLoop m e) (adv (length (print_expr t lvl e)) p)"
    using assms(2) by (simp add: expr_unary)
qed

lemma reparses_postfix:
  "postfix_reparses h t e \<Longrightarrow> (\<And>lvl. lvl \<le> 14 \<Longrightarrow> print_expr t lvl e = print_expr t 15 e) \<Longrightarrow> reparses h t e"
  unfolding reparses_def by (metis infix_of_unary order_refl unary_of_postfix)

lemma full_reparses:
  assumes "infix_reparses h t e 0" "p_syms p = t" "input p = print_expr t 0 e @ r" "expr_ends r"
  shows "parse h (NExpr 0) p = Some (Inr e, adv (length (print_expr t 0 e)) p)"
proof -
  have "parse h (NExpr 0) p = parse h (NExprLoop 0 e) (adv (length (print_expr t 0 e)) p)"
    using assms expr_ends_infix [OF assms(4), of 0] by (simp add: infix_reparses_def)
  also have "\<dots> = Some (Inr e, adv (length (print_expr t 0 e)) p)"
    using assms(3,4) by (intro loop_stop [where r = r]) (auto simp: input_adv expr_ends_def postfix_ends_def)
  finally show ?thesis .
qed

lemma op_ends [simp]: "expr_ends (op_tok T_RParen # r)" "expr_ends (op_tok T_RBracket # r)" "expr_ends (op_tok T_Comma # r)"
  by (simp_all add: expr_ends_def postfix_ends_def op_tok_def binary_op_kind_def is_assign_op_def)

lemma postfix_of_parens:
  assumes "infix_reparses h t e 0" "print_expr t 15 e = parens (print_expr t 0 e)"
  shows "postfix_reparses h t e"
  unfolding postfix_reparses_def
proof (intro allI impI)
  fix p r assume p: "p_syms p = t" "input p = print_expr t 15 e @ r" "path_ends r"
  let ?n = "length (print_expr t 0 e)"
  have i: "input p = (T_LParen, op_text T_LParen) # print_expr t 0 e @ op_tok T_RParen # r"
    using p(2) assms(2) by (simp add: parens_def op_tok_def)
  then have i1: "input (adv (Suc 0) p) = print_expr t 0 e @ op_tok T_RParen # r" by (simp add: input_adv)
  from full_reparses [OF assms(1) _ this] p(1)
  have f: "parse h (NExpr 0) (adv (Suc 0) p) = Some (Inr e, adv (Suc ?n) p)" by simp
  have i2: "input (adv (Suc ?n) p) = (T_RParen, op_text T_RParen) # r"
    using i by (simp add: input_adv op_tok_def)
  have "parse_primary h (parse h) p = Some (Inr e, adv (Suc (Suc ?n)) p)"
    by (simp add: parse_primary_def pif_def at_input [OF i] peek_kind [OF i] type_keyword_def bind_next [OF i]
        bind_parse [OF f] bind_expect [OF i2] pret_def)
  from unary_primary [OF i _ this]
  show "parse h NUnary p = parse h (NPostfix e) (adv (length (print_expr t 15 e)) p)"
    using assms(2) by (simp add: parens_def)
qed

subsection \<open>The forms of expressions\<close>

lemma path_endsE: "path_ends r \<Longrightarrow> (\<And>k w s. r = (k, w) # s \<Longrightarrow> k \<noteq> T_DoubleColon \<Longrightarrow> thesis) \<Longrightarrow> thesis"
  by (cases r) (auto simp: path_ends_def)

lemma primary_simps:
  assumes "input p = (k, w) # r"
  shows "parse_primary h R p =
     (if k = T_IntLit then pret (IntLit (parse_int_text 0 w)) (adv (Suc 0) p)
      else if k = T_FloatLit then pret (FloatLit (d_bits (parse_float_text (DFin 0 1) (DFin 1 1) False w))) (adv (Suc 0) p)
      else if k = T_StrLit then pbind (psym h w) (\<lambda>s. pret (StrLit s)) (adv (Suc 0) p)
      else if k = T_TrueKw then pret (BoolLit True) (adv (Suc 0) p)
      else if k = T_FalseKw then pret (BoolLit False) (adv (Suc 0) p)
      else if k = T_Ident then pbind (consume T_DoubleColon) (\<lambda>path. pbind (psym h w) (\<lambda>s.
          if path then pbind (path_loop h [s]) (\<lambda>segs. pret (PathExpr segs)) else pret (Ident s))) (adv (Suc 0) p)
      else if type_keyword k then pbind (psym h w) (\<lambda>s. pret (Ident s)) (adv (Suc 0) p)
      else if k = T_LParen then pbind (R (NExpr 0)) (\<lambda>e. pbind (expect T_RParen) (\<lambda>_. pret e)) (adv (Suc 0) p)
      else if k = T_LBrace then R NBlock p else perr p)"
  by (simp add: parse_primary_def pif_def at_input [OF assms] bind_next [OF assms] peek_kind [OF assms])

lemma primary_reparses:
  assumes "print_expr t 15 e = [(k, w)]" "k \<notin> {T_Minus, T_Bang, T_Tilde}"
    and "\<And>p r. p_syms p = t \<Longrightarrow> input p = (k, w) # r \<Longrightarrow> path_ends r \<Longrightarrow> parse_primary h (parse h) p = Some (Inr e, adv (Suc 0) p)"
  shows "postfix_reparses h t e"
  unfolding postfix_reparses_def using assms unary_primary [of _ k w] by simp

lemma ident_reparses:
  assumes "sym_ok h t" "sym_in t i"
  shows "reparses h t (Ident i)"
proof (rule reparses_postfix, rule primary_reparses)
  fix p r assume p: "p_syms p = t" "input p = (T_Ident, sym_at t i) # r" "path_ends r"
  from p(3) obtain k w s where r: "r = (k, w) # s" "k \<noteq> T_DoubleColon" by (rule path_endsE)
  then have i1: "input (adv (Suc 0) p) = (k, w) # s" using p(2) by (simp add: input_adv)
  show "parse_primary h (parse h) p = Some (Inr (Ident i), adv (Suc 0) p)"
    using r(2) assms p(1) by (simp add: primary_simps [OF p(2)] bind_consume [OF i1] bind_sym [of h _ i] pret_def)
qed auto

lemma int_reparses: "reparses h t (IntLit v)"
proof (rule reparses_postfix, rule primary_reparses)
  show "parse_primary h (parse h) p = Some (Inr (IntLit v), adv (Suc 0) p)"
    if "input p = (T_IntLit, nat_digits (unat v)) # r" for p r
    by (simp add: primary_simps [OF that] pret_def parse_int_digits)
qed simp_all

lemma bool_reparses: "reparses h t (BoolLit b)"
proof (rule reparses_postfix, rule primary_reparses)
  show "print_expr t 15 (BoolLit b) = [(if b then T_TrueKw else T_FalseKw, if b then ''true'' else ''false'')]" by simp
  show "parse_primary h (parse h) p = Some (Inr (BoolLit b), adv (Suc 0) p)"
    if "input p = (if b then T_TrueKw else T_FalseKw, if b then ''true'' else ''false'') # r" for p r
    using that by (cases b) (simp_all add: primary_simps pret_def)
qed simp_all

lemma string_reparses:
  assumes "sym_ok h t" "sym_in t i"
  shows "reparses h t (StrLit i)"
proof (rule reparses_postfix, rule primary_reparses)
  show "parse_primary h (parse h) p = Some (Inr (StrLit i), adv (Suc 0) p)"
    if "p_syms p = t" "input p = (T_StrLit, sym_at t i) # r" for p r
    using that(1) assms by (simp add: primary_simps [OF that(2)] bind_sym [of h _ i] pret_def)
qed simp_all

lemma path_loop_print:
  assumes "segs \<noteq> []" "list_all (sym_in (p_syms p)) segs" "sym_ok h (p_syms p)" "path_ends r"
    "input p = commas (map (\<lambda>i. [(T_Ident, sym_at (p_syms p) i)]) segs) (op_tok T_DoubleColon) @ r"
  shows "path_loop h acc p = Some (Inr (acc @ segs),
    adv (length (commas (map (\<lambda>i. [(T_Ident, sym_at (p_syms p) i)]) segs) (op_tok T_DoubleColon))) p)"
  using assms
proof (induction segs arbitrary: p acc)
  case (Cons i segs)
  show ?case
  proof (cases segs)
    case Nil
    with Cons.prems(5) have i0: "input p = (T_Ident, sym_at (p_syms p) i) # r" by simp
    from Cons.prems(4) obtain k w s where r: "r = (k, w) # s" "k \<noteq> T_DoubleColon" by (rule path_endsE)
    then have i1: "input (adv (Suc 0) p) = (k, w) # s" using i0 by (simp add: input_adv)
    show ?thesis
      using Cons.prems Nil r(2)
      by (simp add: path_loop_step path_step_def bind_expect [OF i0] bind_sym [of h _ i] bind_consume [OF i1] peek_kind [OF i0] pret_def)
  next
    case (Cons j rest)
    note c = Cons
    let ?id = "\<lambda>i. [(T_Ident, sym_at (p_syms p) i)]"
    let ?t = "commas (map ?id segs) (op_tok T_DoubleColon)"
    have i0: "input p = (T_Ident, sym_at (p_syms p) i) # op_tok T_DoubleColon # ?t @ r"
      using Cons.prems(5) c by simp
    then have i1: "input (adv (Suc 0) p) = (T_DoubleColon, op_text T_DoubleColon) # ?t @ r"
      by (simp add: input_adv op_tok_def)
    have i2: "input (adv (Suc (Suc 0)) p) = ?t @ r" using i0 by (simp add: input_adv)
    have "path_loop h (acc @ [i]) (adv (Suc (Suc 0)) p) = Some (Inr ((acc @ [i]) @ segs), adv (length ?t) (adv (Suc (Suc 0)) p))"
      using Cons.IH [of "adv (Suc (Suc 0)) p" "acc @ [i]"] Cons.prems c i2 by simp
    then show ?thesis
      using Cons.prems c
      by (simp add: path_loop_step [of h acc] path_step_def bind_expect [OF i0] bind_sym [of h _ i] bind_consume [OF i1] peek_kind [OF i0])
  qed
qed simp

lemma path_reparses:
  assumes "sym_ok h t" "printable t (PathExpr segs)"
  shows "reparses h t (PathExpr segs)"
proof (rule reparses_postfix)
  have "2 \<le> length segs" using assms(2) by simp
  then obtain i j rest where segs: "segs = i # j # rest" by (cases segs; cases "tl segs") auto
  let ?t = "commas (map (\<lambda>i. [(T_Ident, sym_at t i)]) (j # rest)) (op_tok T_DoubleColon)"
  have pr: "print_expr t lvl (PathExpr segs) = (T_Ident, sym_at t i) # op_tok T_DoubleColon # ?t" for lvl by (simp add: segs)
  show "postfix_reparses h t (PathExpr segs)"
    unfolding postfix_reparses_def
  proof (intro allI impI)
    fix p r assume p: "p_syms p = t" "input p = print_expr t 15 (PathExpr segs) @ r" "path_ends r"
    have i0: "input p = (T_Ident, sym_at t i) # op_tok T_DoubleColon # ?t @ r" unfolding p(2) pr by simp
    then have i1: "input (adv (Suc 0) p) = (T_DoubleColon, op_text T_DoubleColon) # ?t @ r"
      by (simp add: input_adv op_tok_def)
    have i2: "input (adv (Suc (Suc 0)) p) = ?t @ r" using i0 by (simp add: input_adv)
    have "path_loop h [i] (adv (Suc (Suc 0)) p) = Some (Inr ([i] @ j # rest), adv (length ?t) (adv (Suc (Suc 0)) p))"
      using path_loop_print [of "j # rest" "adv (Suc (Suc 0)) p" h r "[i]"] assms p(1,3) i2 segs by simp
    then have "parse_primary h (parse h) p = Some (Inr (PathExpr segs), adv (length (print_expr t 15 (PathExpr segs))) p)"
      unfolding pr using assms p(1)
      by (simp add: primary_simps [OF i0] bind_consume [OF i1] bind_sym [of h _ i] segs run_bind [where m = "path_loop h [i]"] pret_def)
    from unary_primary [OF i0 _ this] show "parse h NUnary p = parse h (NPostfix (PathExpr segs)) (adv (length (print_expr t 15 (PathExpr segs))) p)"
      by simp
  qed
  show "print_expr t lvl (PathExpr segs) = print_expr t 15 (PathExpr segs)" for lvl by simp
qed

lemma commas_append: "xs \<noteq> [] \<Longrightarrow> commas (x # xs) c = x @ [c] @ commas xs c"
  by (cases xs) simp_all

text \<open>An expression starts with a token that neither closes a list nor ends the source.\<close>

definition starts :: "(token_kind \<times> string) list \<Rightarrow> bool" where
  "starts xs \<longleftrightarrow> xs \<noteq> [] \<and> fst (hd xs) \<notin> {T_RParen, T_RBrace, T_Eof}"

lemma starts_simps [simp]: "starts xs \<Longrightarrow> starts (xs @ ys)" "starts (op_tok k # ys) \<longleftrightarrow> k \<notin> {T_RParen, T_RBrace, T_Eof}"
  "starts ((k, w) # ys) \<longleftrightarrow> k \<notin> {T_RParen, T_RBrace, T_Eof}" "starts (parens xs)"
  by (auto simp: starts_def op_tok_def parens_def)

lemma print_expr_start: "printable t e \<Longrightarrow> starts (print_expr t lvl e)"
proof (induction e arbitrary: lvl)
  case (PathExpr segs)
  then have "2 \<le> length segs" by simp
  then show ?case by (cases segs; cases "tl segs") auto
next
  case (BinaryExpr k a b)
  then show ?case by (simp add: Let_def)
next
  case (AssignExpr k a b)
  then show ?case by (simp add: Let_def)
next
  case (UnaryExpr k a)
  then show ?case by (auto simp: Let_def)
qed simp_all

lemma args_print:
  assumes "\<forall>a \<in> set as. printable (p_syms p) a \<and> infix_reparses h (p_syms p) a 0"
    "input p = commas (map (print_expr (p_syms p) 0) as) (op_tok T_Comma) @ op_tok T_RParen # r"
  shows "parse h (NArgs f acc) p = Some (Inr (CallExpr f (acc @ as)),
    adv (Suc (length (commas (map (print_expr (p_syms p) 0) as) (op_tok T_Comma)))) p)"
  using assms
proof (induction as arbitrary: p acc)
  case Nil
  then have i0: "input p = (T_RParen, op_text T_RParen) # r" by (simp add: op_tok_def)
  show ?case
    by (subst parse.simps) (simp add: parse_step_def args_loop_def pif_def stops_at_def at_input [OF i0] bind_expect [OF i0] pret_def)
next
  case (Cons a as)
  let ?t = "p_syms p"
  let ?n = "length (print_expr ?t 0 a)"
  obtain k w s where st: "print_expr ?t 0 a = (k, w) # s" "k \<notin> {T_RParen, T_RBrace, T_Eof}"
    using print_expr_start [of ?t a 0] Cons.prems(1) by (cases "print_expr ?t 0 a") (auto simp: starts_def)
  have inf: "infix_reparses h ?t a 0" using Cons.prems(1) by simp
  have step: "parse h (NArgs f acc) p = pbind (parse h (NExpr 0)) (\<lambda>arg. pbind (consume T_Comma) (\<lambda>comma.
      if comma then parse h (NArgs f (acc @ [arg])) else pbind (expect T_RParen) (\<lambda>_. pret (CallExpr f (acc @ [arg]))))) p"
  proof -
    have "\<exists>q. input p = (k, w) # q"
      using Cons.prems(2) st(1) by (cases as) (simp_all)
    then obtain q where i0: "input p = (k, w) # q" by blast
    show ?thesis
      using st(2) by (subst parse.simps) (auto simp: parse_step_def args_loop_def pif_def stops_at_def at_input [OF i0])
  qed
  show ?case
  proof (cases "as = []")
    case True
    with Cons.prems(2) have i0: "input p = print_expr ?t 0 a @ op_tok T_RParen # r" by simp
    have f: "parse h (NExpr 0) p = Some (Inr a, adv ?n p)"
      by (rule full_reparses [OF inf refl i0]) simp
    have i1: "input (adv ?n p) = (T_RParen, op_text T_RParen) # r" using i0 by (simp add: input_adv op_tok_def)
    show ?thesis unfolding step bind_parse [OF f]
      by (simp add: bind_consume [OF i1] bind_expect [OF i1] pret_def True)
  next
    case False
    let ?rest = "commas (map (print_expr ?t 0) as) (op_tok T_Comma)"
    have i0: "input p = print_expr ?t 0 a @ op_tok T_Comma # ?rest @ op_tok T_RParen # r"
      using Cons.prems(2) False by (simp add: commas_append)
    have f: "parse h (NExpr 0) p = Some (Inr a, adv ?n p)"
      by (rule full_reparses [OF inf refl i0]) simp
    have i1: "input (adv ?n p) = (T_Comma, op_text T_Comma) # ?rest @ op_tok T_RParen # r"
      using i0 by (simp add: input_adv op_tok_def)
    have i2: "input (adv (Suc ?n) p) = ?rest @ op_tok T_RParen # r" using i0 by (simp add: input_adv)
    have "parse h (NArgs f (acc @ [a])) (adv (Suc ?n) p) = Some (Inr (CallExpr f ((acc @ [a]) @ as)), adv (Suc (length ?rest)) (adv (Suc ?n) p))"
      using Cons.IH [of "adv (Suc ?n) p" "acc @ [a]"] Cons.prems(1) i2 by simp
    then show ?thesis unfolding step bind_parse [OF f]
      using False by (simp add: bind_consume [OF i1] commas_append)
  qed
qed

lemma op_path_ends [simp]: "path_ends (op_tok k # r) \<longleftrightarrow> k \<noteq> T_DoubleColon"
  by (simp add: path_ends_def op_tok_def)

lemma call_reparses:
  assumes "reparses h t f" "\<forall>a \<in> set as. printable t a \<and> reparses h t a"
  shows "reparses h t (CallExpr f as)"
proof (rule reparses_postfix)
  show "postfix_reparses h t (CallExpr f as)"
    unfolding postfix_reparses_def
  proof (intro allI impI)
    fix p r assume p: "p_syms p = t" "input p = print_expr t 15 (CallExpr f as) @ r" "path_ends r"
    let ?n = "length (print_expr t 15 f)" and ?as = "commas (map (print_expr t 0) as) (op_tok T_Comma)"
    have i0: "input p = print_expr t 15 f @ op_tok T_LParen # ?as @ op_tok T_RParen # r" using p(2) by simp
    have f: "parse h NUnary p = parse h (NPostfix f) (adv ?n p)"
      using assms(1) p(1) i0 by (simp add: reparses_def postfix_reparses_def)
    have i1: "input (adv ?n p) = (T_LParen, op_text T_LParen) # ?as @ op_tok T_RParen # r"
      using i0 by (simp add: input_adv op_tok_def)
    have i2: "input (adv (Suc ?n) p) = ?as @ op_tok T_RParen # r" using i0 by (simp add: input_adv)
    have a: "parse h (NArgs f []) (adv (Suc ?n) p) = Some (Inr (CallExpr f as), adv (Suc (length ?as)) (adv (Suc ?n) p))"
      using args_print [of as "adv (Suc ?n) p" h r f "[]"] assms(2) i2 p(1) by (simp add: reparses_def)
    have "parse h (NPostfix f) (adv ?n p) = parse h (NPostfix (CallExpr f as)) (adv (Suc (length ?as)) (adv (Suc ?n) p))"
      by (subst parse.simps) (simp add: parse_step_def parse_postfix_def pif_def at_input [OF i1] bind_next [OF i1] bind_parse [OF a] del: adv_adv, simp add: bind_parse [OF a [unfolded adv_adv]])
    then show "parse h NUnary p = parse h (NPostfix (CallExpr f as)) (adv (length (print_expr t 15 (CallExpr f as))) p)"
      using f by simp
  qed
qed simp

lemma field_reparses:
  assumes "reparses h t b" "sym_ok h t" "sym_in t s"
  shows "reparses h t (FieldExpr b s)"
proof (rule reparses_postfix)
  show "postfix_reparses h t (FieldExpr b s)"
    unfolding postfix_reparses_def
  proof (intro allI impI)
    fix p r assume p: "p_syms p = t" "input p = print_expr t 15 (FieldExpr b s) @ r" "path_ends r"
    let ?n = "length (print_expr t 15 b)"
    have i0: "input p = print_expr t 15 b @ op_tok T_Dot # (T_Ident, sym_at t s) # r" using p(2) by simp
    have f: "parse h NUnary p = parse h (NPostfix b) (adv ?n p)"
      using assms(1) p(1) i0 by (simp add: reparses_def postfix_reparses_def)
    have i1: "input (adv ?n p) = (T_Dot, op_text T_Dot) # (T_Ident, sym_at t s) # r"
      using i0 by (simp add: input_adv op_tok_def)
    have i2: "input (adv (Suc ?n) p) = (T_Ident, sym_at t s) # r" using i0 by (simp add: input_adv)
    have "parse h (NPostfix b) (adv ?n p) = parse h (NPostfix (FieldExpr b s)) (adv (Suc (Suc ?n)) p)"
      using assms(2,3) p(1) by (subst parse.simps)
        (simp add: parse_step_def parse_postfix_def pif_def at_input [OF i1] bind_next [OF i1] bind_expect [OF i2] peek_kind [OF i2] bind_sym [of h _ s])
    then show "parse h NUnary p = parse h (NPostfix (FieldExpr b s)) (adv (length (print_expr t 15 (FieldExpr b s))) p)"
      using f by simp
  qed
qed simp

lemma index_reparses:
  assumes "reparses h t b" "reparses h t i"
  shows "reparses h t (IndexExpr b i)"
proof (rule reparses_postfix)
  show "postfix_reparses h t (IndexExpr b i)"
    unfolding postfix_reparses_def
  proof (intro allI impI)
    fix p r assume p: "p_syms p = t" "input p = print_expr t 15 (IndexExpr b i) @ r" "path_ends r"
    let ?n = "length (print_expr t 15 b)" and ?m = "length (print_expr t 0 i)"
    have i0: "input p = print_expr t 15 b @ op_tok T_LBracket # print_expr t 0 i @ op_tok T_RBracket # r" using p(2) by simp
    have f: "parse h NUnary p = parse h (NPostfix b) (adv ?n p)"
      using assms(1) p(1) i0 by (simp add: reparses_def postfix_reparses_def)
    have i1: "input (adv ?n p) = (T_LBracket, op_text T_LBracket) # print_expr t 0 i @ op_tok T_RBracket # r"
      using i0 by (simp add: input_adv op_tok_def)
    have i2: "input (adv (Suc ?n) p) = print_expr t 0 i @ op_tok T_RBracket # r" using i0 by (simp add: input_adv)
    have e: "parse h (NExpr 0) (adv (Suc ?n) p) = Some (Inr i, adv (Suc ?n + ?m) p)"
      using full_reparses [of h t i "adv (Suc ?n) p" "op_tok T_RBracket # r"] assms(2) p(1) i2 by (simp add: reparses_def)
    have i3: "input (adv (Suc ?n + ?m) p) = (T_RBracket, op_text T_RBracket) # r"
      using i0 by (simp add: input_adv op_tok_def)
    have "parse h (NPostfix b) (adv ?n p) = parse h (NPostfix (IndexExpr b i)) (adv (Suc (Suc ?n + ?m)) p)"
      by (subst parse.simps) (simp add: parse_step_def parse_postfix_def pif_def at_input [OF i1] bind_next [OF i1] bind_parse [OF e] bind_expect [OF i3 [simplified]])
    then show "parse h NUnary p = parse h (NPostfix (IndexExpr b i)) (adv (length (print_expr t 15 (IndexExpr b i))) p)"
      using f by (simp add: algebra_simps)
  qed
qed simp

lemma unary_reparses_op:
  assumes "reparses h t a" "k \<in> {T_Minus, T_Bang, T_Tilde}"
  shows "reparses h t (UnaryExpr k a)"
proof -
  let ?e = "UnaryExpr k a"
  have pr: "print_expr t lvl ?e = op_tok k # print_expr t 14 a" if "lvl \<le> 14" for lvl using that by (simp add: Let_def)
  have u: "unary_reparses h t ?e"
    unfolding unary_reparses_def
  proof (intro allI impI)
    fix p r assume p: "p_syms p = t" "input p = print_expr t 14 ?e @ r" "postfix_ends r"
    let ?n = "length (print_expr t 14 a)"
    have i0: "input p = (k, op_text k) # print_expr t 14 a @ r" using p(2) pr [of 14] by (simp add: op_tok_def)
    then have i1: "input (adv (Suc 0) p) = print_expr t 14 a @ r" by (simp add: input_adv)
    then have e: "parse h NUnary (adv (Suc 0) p) = Some (Inr a, adv (Suc ?n) p)"
      using assms(1) p(1,3) by (simp add: reparses_def unary_reparses_def)
    have "parse h NUnary p = Some (Inr ?e, adv (Suc ?n) p)"
      using assms(2) by (subst parse.simps)
        (auto simp: parse_step_def parse_unary_def pif_def at_input [OF i0] bind_next [OF i0] bind_parse [OF e] peek_kind [OF i0] pret_def)
    then show "parse h NUnary p = Some (Inr ?e, adv (length (print_expr t 14 ?e)) p)" using pr [of 14] by simp
  qed
  have i: "infix_reparses h t ?e lvl" if "lvl \<le> 14" for lvl
    using infix_of_unary [OF u] pr [OF that] pr [of 14] by simp
  have "postfix_reparses h t ?e"
    by (rule postfix_of_parens) (use i [of 0] pr [of 0] in \<open>simp_all add: Let_def\<close>)
  with u i show ?thesis by (simp add: reparses_def)
qed

lemma precedence_bounds: "binary_op_kind k = k \<Longrightarrow> k \<noteq> T_Eof \<Longrightarrow> \<not> is_assign_op k \<Longrightarrow> 4 \<le> precedence k \<and> precedence k \<le> 13"
  by (auto simp: binary_op_kind_def precedence_def split: if_splits)

lemma assign_prec: "is_assign_op k \<Longrightarrow> precedence k = 2 \<and> binary_op_kind k = k \<and> k \<noteq> T_Eof"
  by (auto simp: binary_op_kind_def precedence_def is_assign_op_def)

lemma binary_op_hd: "binary_op_kind k = T_Eof \<or> 4 \<le> precedence k \<or> is_assign_op k"
  by (auto simp: binary_op_kind_def precedence_def)

lemma expr_loop_op:
  assumes i: "input p = op_tok k # s" and k: "binary_op_kind k = k" "k \<noteq> T_Eof" "m \<le> precedence k"
    and rhs: "parse h (NExpr (if is_assign_op k then precedence k else precedence k + 1)) (adv (Suc 0) p) = Some (Inr b, p')"
  shows "parse h (NExprLoop m a) p = parse h (NExprLoop m (if is_assign_op k then AssignExpr k a b else BinaryExpr k a b)) p'"
proof -
  have i0: "input p = (k, op_text k) # s" using i by (simp add: op_tok_def)
  show ?thesis
    using k rhs by (subst parse.simps)
      (auto simp: parse_step_def expr_loop_def pif_def peek_kind [OF i0] bind_next [OF i0] bind_parse split: if_splits)
qed

text \<open>The shape both infix forms share: left operand at level \<open>l\<close>, right operand at level \<open>q\<close>.\<close>

lemma infix_form:
  assumes a: "infix_reparses h t a l" and b: "infix_reparses h t b q"
    and k: "binary_op_kind k = k" "k \<noteq> T_Eof" "q = (if is_assign_op k then precedence k else precedence k + 1)"
      "l = (if is_assign_op k then 3 else precedence k)" "lvl \<le> precedence k"
    and e: "e = (if is_assign_op k then AssignExpr k a b else BinaryExpr k a b)"
    and pr: "print_expr t lvl e = print_expr t l a @ [op_tok k] @ print_expr t q b"
  shows "infix_reparses h t e lvl"
  unfolding infix_reparses_def
proof (intro allI impI)
  fix p r m
  assume p: "p_syms p = t" "m \<le> lvl" "input p = print_expr t lvl e @ r" "infix_ends lvl r"
  have prec: "2 \<le> precedence k" "is_assign_op k \<Longrightarrow> precedence k = 2" "\<not> is_assign_op k \<Longrightarrow> 4 \<le> precedence k"
    using assign_prec [of k] precedence_bounds [OF k(1,2)] by (cases "is_assign_op k"; simp)+
  let ?n = "length (print_expr t l a)" and ?m = "length (print_expr t q b)"
  have i0: "input p = print_expr t l a @ op_tok k # print_expr t q b @ r" using p(3) pr by simp
  have "infix_ends l (op_tok k # print_expr t q b @ r)"
    using k(1,2,4) prec by (auto simp: infix_ends_def postfix_ends_def op_tok_def binary_op_kind_def is_assign_op_def)
  moreover have "m \<le> l" using p(2) k(4,5) prec by (auto split: if_splits)
  ultimately have fa: "parse h (NExpr m) p = parse h (NExprLoop m a) (adv ?n p)"
    using a p(1) i0 by (simp add: infix_reparses_def)
  have i1: "input (adv ?n p) = op_tok k # print_expr t q b @ r" using i0 by (simp add: input_adv)
  have i2: "input (adv (Suc ?n) p) = print_expr t q b @ r" using i0 by (simp add: input_adv)
  have i3: "input (adv (Suc ?n + ?m) p) = r" using i0 by (simp add: input_adv)
  have pf: "r \<noteq> []" "postfix_ends r" using p(4) by (auto simp: infix_ends_def postfix_ends_def)
  have stop: "binary_op_kind (fst (hd r)) = T_Eof \<or> precedence (fst (hd r)) < q"
    using p(4) k(3,5) prec assign_prec [of "fst (hd r)"] binary_op_hd [of "fst (hd r)"]
    by (auto simp: infix_ends_def split: if_splits)
  have qe: "infix_ends q r"
    using p(4) k(3,5) prec assign_prec [of "fst (hd r)"] binary_op_hd [of "fst (hd r)"]
    by (auto simp: infix_ends_def split: if_splits)
  have "parse h (NExpr q) (adv (Suc ?n) p) = parse h (NExprLoop q b) (adv ?m (adv (Suc ?n) p))"
    using b p(1) i2 qe by (simp add: infix_reparses_def del: adv_adv)
  also have "\<dots> = Some (Inr b, adv (Suc ?n + ?m) p)"
    using loop_stop [OF i3 pf(1) stop] by simp
  finally have fb: "parse h (NExpr (if is_assign_op k then precedence k else precedence k + 1)) (adv (Suc 0) (adv ?n p))
      = Some (Inr b, adv (Suc ?n + ?m) p)" unfolding k(3) by simp
  have "m \<le> precedence k" using p(2) k(5) by simp
  from expr_loop_op [OF i1 k(1,2) this fb, of a]
  show "parse h (NExpr m) p = parse h (NExprLoop m e) (adv (length (print_expr t lvl e)) p)"
    unfolding fa e [symmetric] pr by simp
qed

lemma reparses_infix:
  assumes "print_expr t 0 e = s" "\<And>lvl. lvl \<le> n \<Longrightarrow> print_expr t lvl e = s \<and> infix_reparses h t e lvl"
    "\<And>lvl. n < lvl \<Longrightarrow> print_expr t lvl e = parens s" "0 \<le> n" "n < 14"
  shows "reparses h t e"
proof -
  have p: "postfix_reparses h t e"
    using postfix_of_parens [of h t e] assms(2) [of 0] assms(3) [of 15] assms(4,5) by simp
  have u: "unary_reparses h t e" using unary_of_postfix [OF p] assms(3) [of 14] assms(3) [of 15] assms(5) by simp
  have "infix_reparses h t e lvl" if "lvl \<le> 14" for lvl
  proof (cases "lvl \<le> n")
    case False
    then show ?thesis using infix_of_unary [OF u] assms(3) [of lvl] assms(3) [of 14] assms(5) by simp
  qed (use assms(2) in blast)
  with p u show ?thesis by (simp add: reparses_def)
qed

lemma binary_reparses:
  assumes "reparses h t a" "reparses h t b" "binary_op_kind k = k" "k \<noteq> T_Eof" "\<not> is_assign_op k"
  shows "reparses h t (BinaryExpr k a b)"
proof (rule reparses_infix [where n = "precedence k"])
  note pb = precedence_bounds [OF assms(3-5)]
  fix lvl assume l: "lvl \<le> precedence k"
  have "infix_reparses h t a (precedence k)" "infix_reparses h t b (precedence k + 1)"
    using assms(1,2) pb by (simp_all add: reparses_def)
  from infix_form [OF this assms(3,4) _ _ l refl] assms(5) l
  show "print_expr t lvl (BinaryExpr k a b) = print_expr t (precedence k) a @ [op_tok k] @ print_expr t (precedence k + 1) b
      \<and> infix_reparses h t (BinaryExpr k a b) lvl" by (simp add: Let_def)
qed (use precedence_bounds [OF assms(3-5)] in \<open>auto simp: Let_def\<close>)

lemma assign_reparses:
  assumes "reparses h t a" "reparses h t b" "is_assign_op k"
  shows "reparses h t (AssignExpr k a b)"
proof (rule reparses_infix [where n = 2])
  note ap = assign_prec [OF assms(3)]
  fix lvl :: int assume l: "lvl \<le> 2"
  have "infix_reparses h t a 3" "infix_reparses h t b 2" using assms(1,2) by (simp_all add: reparses_def)
  from infix_form [OF this _ _ _ _ _ refl, of k lvl] ap assms(3) l
  show "print_expr t lvl (AssignExpr k a b) = print_expr t 3 a @ [op_tok k] @ print_expr t 2 b
      \<and> infix_reparses h t (AssignExpr k a b) lvl" by (simp add: Let_def)
qed (auto simp: Let_def)

lemma printable_reparses: "sym_ok h t \<Longrightarrow> printable t e \<Longrightarrow> reparses h t e"
proof (induction e)
  case (PathExpr segs)
  then show ?case by (rule path_reparses)
next
  case (CallExpr f as)
  then show ?case by (intro call_reparses) (auto simp: list_all_iff)
qed (simp_all add: ident_reparses int_reparses bool_reparses string_reparses field_reparses index_reparses
    unary_reparses_op binary_reparses assign_reparses)

subsection \<open>Round trips\<close>

text \<open>The printed tokens can be written: every symbol is spelled as its kind.\<close>

fun lexable :: "symtab \<Rightarrow> ast \<Rightarrow> bool" where
  "lexable t (Ident i) \<longleftrightarrow> spells T_Ident (sym_at t i)"
| "lexable t (StrLit i) \<longleftrightarrow> spells T_StrLit (sym_at t i)"
| "lexable t (PathExpr segs) \<longleftrightarrow> list_all (\<lambda>i. spells T_Ident (sym_at t i)) segs"
| "lexable t (CallExpr f as) \<longleftrightarrow> lexable t f \<and> list_all (lexable t) as"
| "lexable t (FieldExpr b s) \<longleftrightarrow> lexable t b \<and> spells T_Ident (sym_at t s)"
| "lexable t (IndexExpr b i) \<longleftrightarrow> lexable t b \<and> lexable t i"
| "lexable t (UnaryExpr k a) \<longleftrightarrow> lexable t a"
| "lexable t (BinaryExpr k a b) \<longleftrightarrow> lexable t a \<and> lexable t b"
| "lexable t (AssignExpr k a b) \<longleftrightarrow> lexable t a \<and> lexable t b"
| "lexable t _ \<longleftrightarrow> True"

definition spelled :: "(token_kind \<times> string) list \<Rightarrow> bool" where
  "spelled ws \<longleftrightarrow> (\<forall>(k, w) \<in> set ws. spells k w)"

lemma spelled_simps [simp]: "spelled []" "spelled (x # ws) \<longleftrightarrow> spells (fst x) (snd x) \<and> spelled ws"
  "spelled (ws @ vs) \<longleftrightarrow> spelled ws \<and> spelled vs"
  by (auto simp: spelled_def)

lemma spelled_commas: "spelled [c] \<Longrightarrow> \<forall>x \<in> set xs. spelled x \<Longrightarrow> spelled (commas xs c)"
  by (induction xs c rule: commas.induct) auto

definition printed_ops :: "token_kind list" where
  "printed_ops = [T_Plus, T_Minus, T_Star, T_Slash, T_Percent, T_Amp, T_Pipe, T_Caret, T_Shl, T_Shr,
     T_EqEq, T_BangEq, T_Lt, T_LtEq, T_Gt, T_GtEq, T_AndAnd, T_OrOr, T_Eq, T_PlusEq, T_MinusEq, T_StarEq, T_SlashEq,
     T_Bang, T_Tilde, T_LParen, T_RParen, T_LBracket, T_RBracket, T_Comma, T_Dot, T_DoubleColon, T_Colon, T_Semicolon]"

text \<open>\<open>/=\<close> has a token kind but no spelling: the lexer never makes it.\<close>

lemma op_spelled:
  assumes "k \<in> set printed_ops" "k \<noteq> T_SlashEq"
  shows "spells k (op_text k)"
proof -
  have "list_all (\<lambda>k. k = T_SlashEq \<or> (case op_text k of [a] \<Rightarrow> map_of op1_table a = Some k
      | [a, b] \<Rightarrow> map_of op2_table (a, b) = Some k | _ \<Rightarrow> False)) printed_ops" by code_simp
  then have "case op_text k of [a] \<Rightarrow> map_of op1_table a = Some k | [a, b] \<Rightarrow> map_of op2_table (a, b) = Some k | _ \<Rightarrow> False"
    using assms by (auto simp: list_all_iff)
  then have "op_spelling k (op_text k)"
    unfolding op_spelling_def by (cases "op_text k" rule: remdups_adj.cases) (auto split: list.splits)
  moreover have "k \<notin> {T_IntLit, T_FloatLit, T_StrLit}" using assms(1) by (auto simp: printed_ops_def)
  ultimately show ?thesis by (auto simp: spells_def)
qed

lemma op_tok_spelled [simp]: "k \<in> set printed_ops \<Longrightarrow> k \<noteq> T_SlashEq \<Longrightarrow> spells (fst (op_tok k)) (snd (op_tok k))"
  by (simp add: op_tok_def op_spelled)

lemma is_digit_char: "d < (10 :: nat) \<Longrightarrow> is_digit (char_of (48 + d))"
  by (simp add: is_digit_def in_range_def)

lemma nat_digits_digits: "digits (nat_digits n)"
proof (induction n rule: nat_digits.induct)
  case (1 n)
  then show ?case by (subst nat_digits.simps) (auto simp: digits_def is_digit_char)
qed

text \<open>No assignment \<open>/=\<close> in the expression.\<close>

fun no_slash_eq :: "ast \<Rightarrow> bool" where
  "no_slash_eq (CallExpr f as) \<longleftrightarrow> no_slash_eq f \<and> list_all no_slash_eq as"
| "no_slash_eq (FieldExpr b s) \<longleftrightarrow> no_slash_eq b"
| "no_slash_eq (IndexExpr b i) \<longleftrightarrow> no_slash_eq b \<and> no_slash_eq i"
| "no_slash_eq (UnaryExpr k a) \<longleftrightarrow> no_slash_eq a"
| "no_slash_eq (BinaryExpr k a b) \<longleftrightarrow> no_slash_eq a \<and> no_slash_eq b"
| "no_slash_eq (AssignExpr k a b) \<longleftrightarrow> k \<noteq> T_SlashEq \<and> no_slash_eq a \<and> no_slash_eq b"
| "no_slash_eq _ \<longleftrightarrow> True"

lemma op_in_printed: "binary_op_kind k = k \<Longrightarrow> k \<noteq> T_Eof \<Longrightarrow> k \<in> set printed_ops" "is_assign_op k \<Longrightarrow> k \<in> set printed_ops"
  by (auto simp: binary_op_kind_def is_assign_op_def printed_ops_def split: if_splits)

lemma parens_spelled [simp]: "spelled (parens s) \<longleftrightarrow> spelled s"
  by (simp add: parens_def printed_ops_def)

lemma print_spelled: "printable t e \<Longrightarrow> lexable t e \<Longrightarrow> no_slash_eq e \<Longrightarrow> spelled (print_expr t lvl e)"
proof (induction e arbitrary: lvl)
  case (PathExpr segs)
  then show ?case by (auto simp: list_all_iff printed_ops_def intro!: spelled_commas)
next
  case (CallExpr f as)
  then show ?case by (auto simp: list_all_iff printed_ops_def intro!: spelled_commas)
next
  case (IntLit v)
  then show ?case by (simp add: spells_def nat_digits_digits)
next
  case (BoolLit b)
  have "word_spelling ''true'' \<and> match_keyword ''true'' = T_TrueKw" "word_spelling ''false'' \<and> match_keyword ''false'' = T_FalseKw"
    by code_simp+
  then show ?case by (simp add: spells_def)
next
  case (BinaryExpr k a b)
  then have "k \<in> set printed_ops" "k \<noteq> T_SlashEq" using op_in_printed(1) by (auto simp: is_assign_op_def)
  with BinaryExpr show ?case by (simp add: Let_def)
next
  case (AssignExpr k a b)
  then show ?case using op_in_printed(2) by (simp add: Let_def)
next
  case (UnaryExpr k a)
  then have "k \<in> set printed_ops" "k \<noteq> T_SlashEq" by (auto simp: printed_ops_def)
  with UnaryExpr show ?case by (simp add: Let_def)
qed (simp_all add: printed_ops_def)

lemma parse_printed:
  assumes "sym_ok h t" "printable t e" "map kind_text toks = print_expr t 0 e @ [(T_Eof, '''')]"
  shows "parse h (NExpr 0) (parser_init toks t sink) = Some (Inr e, adv (length (print_expr t 0 e)) (parser_init toks t sink))"
proof (rule full_reparses)
  show "infix_reparses h t e 0" using printable_reparses [OF assms(1,2)] by (simp add: reparses_def)
  show "expr_ends [(T_Eof, '''')]" by (simp add: expr_ends_def postfix_ends_def binary_op_eof)
qed (simp_all add: parser_init_def input_def assms(3))



subsection \<open>What the parser misreads\<close>

text \<open>
  C35. A type annotation swallows the initialiser: annotations are parsed with the
  expression grammar, in which \<open>=\<close> is an infix operator, so for every name, type name and
  initialiser the statement \<open>let x : T = e\<close> becomes a binding with no initialiser whose
  \<^emph>\<open>type\<close> is the assignment \<open>T = e\<close>.
\<close>

theorem annotated_let_loses_initialiser:
  assumes ok: "sym_ok h (p_syms p)" and syms: "sym_in (p_syms p) x" "sym_in (p_syms p) ty"
    and k: "k = T_Ident \<or> type_keyword k" and e: "printable (p_syms p) e"
    and i: "input p = (T_LetKw, ''let'') # (T_Ident, sym_at (p_syms p) x) # op_tok T_Colon # (k, sym_at (p_syms p) ty)
      # op_tok T_Eq # print_expr (p_syms p) 2 e @ op_tok T_Semicolon # r"
  shows "\<exists>p'. parse h NStmt p = Some (Inr (LetStmt x (Some (AssignExpr T_Eq (Ident ty) e)) None False), p') \<and> input p' = r"
proof -
  let ?t = "p_syms p" and ?n = "length (print_expr (p_syms p) 2 e)"
  let ?r = "op_tok T_Semicolon # r"
  have re: "reparses h ?t e" by (rule printable_reparses [OF ok e])
  have i1: "input (adv (Suc 0) p) = (T_Ident, sym_at ?t x) # op_tok T_Colon # (k, sym_at ?t ty) # op_tok T_Eq # print_expr ?t 2 e @ ?r"
    using i by (simp add: input_adv)
  have i2: "input (adv (Suc (Suc 0)) p) = (T_Colon, op_text T_Colon) # (k, sym_at ?t ty) # op_tok T_Eq # print_expr ?t 2 e @ ?r"
    using i by (simp add: input_adv op_tok_def)
  have i3: "input (adv 3 p) = (k, sym_at ?t ty) # op_tok T_Eq # print_expr ?t 2 e @ ?r" using i by (simp add: input_adv)
  have i4: "input (adv (Suc 3) p) = op_tok T_Eq # print_expr ?t 2 e @ ?r" using i by (simp add: input_adv)
  then have i4': "input (adv (Suc 3) p) = (T_Eq, op_text T_Eq) # print_expr ?t 2 e @ ?r" by (simp add: op_tok_def)
  have i5: "input (adv 5 p) = print_expr ?t 2 e @ ?r" using i by (simp add: input_adv)
  have i6: "input (adv (5 + ?n) p) = (T_Semicolon, op_text T_Semicolon) # r"
    using i5 input_adv [of ?n "adv 5 p"] by (simp add: op_tok_def)
  have kk: "k \<notin> {T_Minus, T_Bang, T_Tilde, T_IntLit, T_FloatLit, T_StrLit, T_TrueKw, T_FalseKw}"
    using k by (auto simp: type_keyword_def)
  have "parse_primary h (parse h) (adv 3 p) = Some (Inr (Ident ty), adv (Suc 3) p)"
    using k kk ok syms(2) by (auto simp: primary_simps [OF i3] bind_consume [OF i4' [simplified]] bind_sym [of h _ ty] pret_def)
  from unary_primary [OF i3 _ this] kk have "parse h NUnary (adv 3 p) = parse h (NPostfix (Ident ty)) (adv (Suc 3) p)" by simp
  also have "\<dots> = Some (Inr (Ident ty), adv (Suc 3) p)"
    by (rule postfix_stop [OF i4]) (simp add: postfix_ends_def op_tok_def)
  finally have "parse h (NExpr 0) (adv 3 p) = parse h (NExprLoop 0 (Ident ty)) (adv (Suc 3) p)" by (rule expr_unary)
  also have "\<dots> = parse h (NExprLoop 0 (AssignExpr T_Eq (Ident ty) e)) (adv (5 + ?n) p)"
  proof -
    have ends: "infix_ends 2 ?r" by (simp add: infix_ends_def postfix_ends_def op_tok_def binary_op_kind_def is_assign_op_def)
    have "parse h (NExpr 2) (adv 5 p) = parse h (NExprLoop 2 e) (adv ?n (adv 5 p))"
      using re i5 ends by (simp add: reparses_def infix_reparses_def del: adv_adv)
    also have "\<dots> = Some (Inr e, adv (5 + ?n) p)"
      using loop_stop [OF i6, of 2] by (simp add: binary_op_kind_def is_assign_op_def)
    finally have "parse h (NExpr (if is_assign_op T_Eq then precedence T_Eq else precedence T_Eq + 1)) (adv (Suc 0) (adv (Suc 3) p)) = Some (Inr e, adv (5 + ?n) p)"
      using assign_prec [of T_Eq] by (simp add: is_assign_op_def)
    from expr_loop_op [OF i4 _ _ _ this, of 0 "Ident ty"] assign_prec [of T_Eq] show ?thesis by (simp add: is_assign_op_def)
  qed
  also have "\<dots> = Some (Inr (AssignExpr T_Eq (Ident ty) e), adv (5 + ?n) p)"
    using loop_stop [OF i6, of 0] by (simp add: binary_op_kind_def is_assign_op_def)
  finally have ty: "parse h (NExpr 0) (adv 3 p) = Some (Inr (AssignExpr T_Eq (Ident ty) e), adv (5 + ?n) p)" .
  have "popt T_Colon (parse h (NExpr 0)) (adv (Suc (Suc 0)) p) = Some (Inr (Some (AssignExpr T_Eq (Ident ty) e)), adv (5 + ?n) p)"
    using ty by (simp add: popt_def bind_consume [OF i2] bind_parse numeral_3_eq_3 pret_def)
  note c = run_bind [where m = "popt T_Colon (parse h (NExpr 0))", OF this]
  have "popt T_Eq (parse h (NExpr 0)) (adv (5 + ?n) p) = Some (Inr None, adv (5 + ?n) p)"
    by (simp add: popt_def bind_consume [OF i6] pret_def)
  note d = run_bind [where m = "popt T_Eq (parse h (NExpr 0))", OF this]
  have "parse_let_or_var_stmt h (parse h) False p = Some (Inr (LetStmt x (Some (AssignExpr T_Eq (Ident ty) e)) None False), adv (Suc (5 + ?n)) p)"
    using ok syms(1)
    by (simp add: parse_let_or_var_stmt_def bind_expect [OF i] bind_expect [OF i1] peek_kind [OF i1] bind_sym [of h _ x] c d bind_consume [OF i6] pret_def)
  then have "parse h NStmt p = Some (Inr (LetStmt x (Some (AssignExpr T_Eq (Ident ty) e)) None False), adv (Suc (5 + ?n)) p)"
    by (subst parse.simps) (simp add: parse_step_def parse_stmt_def pif_def at_input [OF i])
  moreover have "input (adv (Suc (5 + ?n)) p) = r" using i6 input_adv [of "Suc 0" "adv (5 + ?n) p"] by simp
  ultimately show ?thesis by blast
qed

theorem annotated_let_loses_initialiser_witness:
  "\<exists>toks t x ty p'. map kind_text toks = [(T_LetKw, ''let''), (T_Ident, ''x''), (T_Colon, '':''), (T_Ident, ''int''), (T_Eq, ''=''), (T_IntLit, ''1''), (T_Semicolon, '';''), (T_Eof, '''')]
     \<and> parse (\<lambda>_. 9) NStmt (parser_init toks t []) = Some (Inr (LetStmt x (Some (AssignExpr T_Eq (Ident ty) (IntLit 1))) None False), p')
     \<and> input p' = [(T_Eof, '''')]"
proof -
  let ?h = "\<lambda>_ :: string. 9 :: 64 word"
  have "length (sy_entries symtab_empty) + length [''x'', ''int''] + 1 < kInvalidSymbolId"
    by (simp add: symtab_empty_def kInvalidSymbolId_def)
  from intern_run_ok [where hash = ?h, OF sym_empty_ok this] obtain ids t where
    t: "sym_ok ?h t" "map (sym_at t) ids = [''x'', ''int'']" "\<forall>i \<in> set ids. i < length (sy_entries t)" by metis
  from t(2) obtain x ty where ids: "ids = [x, ty]" and s: "sym_at t x = ''x''" "sym_at t ty = ''int''"
    by (auto simp only: map_eq_Cons_conv map_is_Nil_conv)
  have s': "sym_in t x" "sym_in t ty" using t(3) by (simp_all add: ids sym_in_def)
  define toks where "toks = map (\<lambda>(k, s). default_token\<lparr>t_kind := k, t_text := s\<rparr>)
    [(T_LetKw, ''let''), (T_Ident, ''x''), (T_Colon, '':''), (T_Ident, ''int''), (T_Eq, ''=''), (T_IntLit, ''1''), (T_Semicolon, '';''), (T_Eof, '''')]"
  have o: "op_text T_Colon = '':'' \<and> op_text T_Eq = ''='' \<and> op_text T_Semicolon = '';''" by code_simp
  have "nat_digits (unat (1 :: i64)) = ''1''" by code_simp
  then have d: "nat_digits (Suc 0) = ''1''" by simp
  have k: "map kind_text toks = [(T_LetKw, ''let''), (T_Ident, ''x''), (T_Colon, '':''), (T_Ident, ''int''), (T_Eq, ''=''), (T_IntLit, ''1''), (T_Semicolon, '';''), (T_Eof, '''')]"
    by (simp add: toks_def kind_text_def)
  then have i: "input (parser_init toks t []) = (T_LetKw, ''let'') # (T_Ident, sym_at (p_syms (parser_init toks t [])) x) # op_tok T_Colon # (T_Ident, sym_at (p_syms (parser_init toks t [])) ty)
      # op_tok T_Eq # print_expr (p_syms (parser_init toks t [])) 2 (IntLit 1) @ op_tok T_Semicolon # [(T_Eof, '''')]"
    by (simp add: input_def parser_init_def s o d op_tok_def)
  have p: "sym_ok ?h (p_syms (parser_init toks t []))" "sym_in (p_syms (parser_init toks t [])) x" "sym_in (p_syms (parser_init toks t [])) ty"
    "printable (p_syms (parser_init toks t [])) (IntLit 1)" using t(1) s' by (simp_all add: parser_init_def)
  from annotated_let_loses_initialiser [OF p(1-3) disjI1 [OF refl] p(4) i] k show ?thesis by metis
qed

text \<open>
  A hexadecimal literal is read as the decimal number of its decimal digits, an exponent is
  read as further digits, and \<open>/=\<close>, which the parser and the lowering know, is lexed as two tokens.
\<close>

theorem literals_misread:
  "parse_int_text 0 ''0x1F'' = 1
   \<and> parse_float_text (DFin 0 1) (DFin 1 1) False ''1e3'' = parse_float_text (DFin 0 1) (DFin 1 1) False ''13''
   \<and> map_sum id (map t_kind) (tokenize ''x /= 2'' 0) = Inr [T_Ident, T_Slash, T_Eq, T_IntLit, T_Eof]"
proof (intro conjI)
  show "parse_int_text 0 ''0x1F'' = 1" by code_simp
  show "parse_float_text (DFin 0 1) (DFin 1 1) False ''1e3'' = parse_float_text (DFin 0 1) (DFin 1 1) False ''13''"
    by (simp add: digit_val_def Let_def)
  show "map_sum id (map t_kind) (tokenize ''x /= 2'' 0) = Inr [T_Ident, T_Slash, T_Eq, T_IntLit, T_Eof]" by code_simp
qed

end
