(* ===== verification/TypeChecker.thy ===== *)
theory TypeChecker
  imports Ast
begin

section \<open>The type checker\<close>

text \<open>
  \<open>frontend/TypeChecker.cpp\<close>: name resolution, mutability and call arity over the syntax
  tree. The checker's state is the frame of bindings on the current path and the sink of
  diagnostics; it never stops at an error. Every span of the trees is \<open>Span{}\<close>.
\<close>

definition kErrDuplicateFn :: u32 where "kErrDuplicateFn = 0x200"
definition kErrDuplicateParam :: u32 where "kErrDuplicateParam = 0x201"
definition kErrDuplicateBinding :: u32 where "kErrDuplicateBinding = 0x202"
definition kErrUndefinedIdent :: u32 where "kErrUndefinedIdent = 0x203"
definition kErrAssignToImmutable :: u32 where "kErrAssignToImmutable = 0x204"
definition kErrCallArity :: u32 where "kErrCallArity = 0x205"
definition kErrNotLowered :: u32 where "kErrNotLowered = 0x206"

subsection \<open>Frames and signatures\<close>

record binding =
  b_name :: symbol_id
  b_mutable :: bool

type_synonym frame = "binding list"

fun frame_find :: "symbol_id \<Rightarrow> frame \<Rightarrow> binding option" where
  "frame_find name [] = None"
| "frame_find name (b # bs) = (if b_name b = name then Some b else frame_find name bs)"

definition try_bind :: "symbol_id \<Rightarrow> bool \<Rightarrow> frame \<Rightarrow> bool \<times> frame" where
  "try_bind name mut f =
     (if frame_find name f \<noteq> None then (False, f) else (True, f @ [\<lparr>b_name = name, b_mutable = mut\<rparr>]))"

type_synonym fn_sigs = "(symbol_id \<times> u32) list"

definition fn_sigs_find :: "symbol_id \<Rightarrow> fn_sigs \<Rightarrow> u32 option" where
  "fn_sigs_find name sigs = map_of sigs name"

definition tc_report :: "u32 \<Rightarrow> symbol_id \<Rightarrow> sink \<Rightarrow> sink" where
  "tc_report msg name s = report ((type_error msg no_span)\<lparr>dg_payload := of_nat name\<rparr>) s"

fun merge_loop :: "frame \<Rightarrow> frame \<Rightarrow> frame \<Rightarrow> frame" where
  "merge_loop out [] else_frame = out"
| "merge_loop out (b # bs) else_frame =
     (if frame_find (b_name b) out \<noteq> None then merge_loop out bs else_frame
      else if frame_find (b_name b) else_frame \<noteq> None then merge_loop (out @ [b]) bs else_frame
      else merge_loop out bs else_frame)"

definition merge_branch_frames :: "frame \<Rightarrow> frame \<Rightarrow> frame \<Rightarrow> frame" where
  "merge_branch_frames out then_frame else_frame = merge_loop out then_frame else_frame"

fun body_contains_unlowerable :: "ast \<Rightarrow> bool" where
  "body_contains_unlowerable (ReturnStmt v) = True"
| "body_contains_unlowerable (MatchStmt e arms) = True"
| "body_contains_unlowerable (Block ss) = list_ex body_contains_unlowerable ss"
| "body_contains_unlowerable (IfStmt c t e) =
     (body_contains_unlowerable t \<or> (case e of Some b \<Rightarrow> body_contains_unlowerable b | None \<Rightarrow> False))"
| "body_contains_unlowerable (ForStmt v it body) = body_contains_unlowerable body"
| "body_contains_unlowerable _ = False"

definition callee_name :: "ast \<Rightarrow> symbol_id" where
  "callee_name c = (case c of Ident i \<Rightarrow> i
     | PathExpr segs \<Rightarrow> if segs \<noteq> [] then last segs else kInvalidSymbolId
     | _ \<Rightarrow> kInvalidSymbolId)"

definition callee_simple :: "ast \<Rightarrow> bool" where
  "callee_simple c \<longleftrightarrow> (case c of Ident i \<Rightarrow> True | PathExpr segs \<Rightarrow> True | _ \<Rightarrow> False)"

definition check_call :: "fn_sigs \<Rightarrow> ast \<Rightarrow> nat \<Rightarrow> sink \<Rightarrow> sink" where
  "check_call sigs callee n s =
     (let s = (if callee_simple callee then s else tc_report kErrNotLowered 0 s)
      in if callee_name callee \<noteq> kInvalidSymbolId then
           (case fn_sigs_find (callee_name callee) sigs of
              Some arity \<Rightarrow> if unat arity \<noteq> n
                then report ((type_error kErrCallArity no_span)
                       \<lparr>dg_payload := push_bit 32 (of_nat (callee_name callee)) OR of_nat n\<rparr>) s
                else s
            | None \<Rightarrow> s)
         else s)"

definition check_target :: "ast \<Rightarrow> frame \<Rightarrow> sink \<Rightarrow> sink" where
  "check_target target f s =
     (case target of
        Ident name \<Rightarrow> (case frame_find name f of
            None \<Rightarrow> tc_report kErrUndefinedIdent name s
          | Some b \<Rightarrow> if b_mutable b then s else tc_report kErrAssignToImmutable name s)
      | _ \<Rightarrow> tc_report kErrNotLowered 0 s)"

subsection \<open>Statements and expressions\<close>

text \<open>
  \<open>check_stmt\<close> falls through to \<open>check_expr\<close> on the same node, so the recursion is on the
  size of the node and, at equal size, from statement to expression.
\<close>

type_synonym check_state = "frame \<times> sink"

definition bind_or_report :: "symbol_id \<Rightarrow> bool \<Rightarrow> check_state \<Rightarrow> check_state" where
  "bind_or_report name mut st =
     (case st of (f, s) \<Rightarrow> (case try_bind name mut f of (ok, f') \<Rightarrow>
        (f', if ok then s else tc_report kErrDuplicateBinding name s)))"

function (sequential) check_stmt :: "fn_sigs \<Rightarrow> ast \<Rightarrow> check_state \<Rightarrow> check_state"
  and check_expr :: "fn_sigs \<Rightarrow> ast \<Rightarrow> check_state \<Rightarrow> check_state"
  and check_stmts :: "fn_sigs \<Rightarrow> ast list \<Rightarrow> check_state \<Rightarrow> check_state"
  and check_exprs :: "fn_sigs \<Rightarrow> ast list \<Rightarrow> check_state \<Rightarrow> check_state" where
  "check_stmt sg (LetStmt name ty init is_var) st =
     bind_or_report name is_var (case init of Some e \<Rightarrow> check_expr sg e st | None \<Rightarrow> st)"
| "check_stmt sg (Block ss) st = check_stmts sg ss st"
| "check_stmt sg (ExprStmt e) st = check_expr sg e st"
| "check_stmt sg (ReturnStmt v) st = (case v of Some e \<Rightarrow> check_expr sg e st | None \<Rightarrow> st)"
| "check_stmt sg (IfStmt c t e) st =
     (case check_expr sg c st of (f, s) \<Rightarrow>
      case check_stmt sg t (f, s) of (then_frame, s) \<Rightarrow>
      case (case e of Some b \<Rightarrow> check_stmt sg b (f, s) | None \<Rightarrow> (f, s)) of (else_frame, s) \<Rightarrow>
        (merge_branch_frames f then_frame else_frame, s))"
| "check_stmt sg (ForStmt v it body) st =
     (case it of
        RangeExpr lo hi \<Rightarrow>
          (case check_expr sg hi (check_expr sg lo st) of (f, s) \<Rightarrow>
           case bind_or_report v False (f, s) of (body_frame, s) \<Rightarrow>
             if body_contains_unlowerable body then (f, tc_report kErrNotLowered 0 s)
             else (f, snd (check_stmt sg body (body_frame, s))))
      | _ \<Rightarrow> (case st of (f, s) \<Rightarrow> (f, tc_report kErrNotLowered 0 s)))"
| "check_stmt sg (MatchStmt e arms) st = (case st of (f, s) \<Rightarrow> (f, tc_report kErrNotLowered 0 s))"
| "check_stmt sg n st = check_expr sg n st"
| "check_expr sg (Ident name) st =
     (case st of (f, s) \<Rightarrow> (f, if frame_find name f = None then tc_report kErrUndefinedIdent name s else s))"
| "check_expr sg (BinaryExpr k a b) st = check_expr sg b (check_expr sg a st)"
| "check_expr sg (UnaryExpr k a) st = check_expr sg a st"
| "check_expr sg (CallExpr callee args) st =
     (case st of (f, s) \<Rightarrow> check_exprs sg args (f, check_call sg callee (length args) s))"
| "check_expr sg (Block ss) st = check_stmts sg ss st"
| "check_expr sg (RangeExpr lo hi) st = check_expr sg hi (check_expr sg lo st)"
| "check_expr sg (FieldExpr b field) st = (case st of (f, s) \<Rightarrow> (f, tc_report kErrNotLowered 0 s))"
| "check_expr sg (IndexExpr b i) st = (case st of (f, s) \<Rightarrow> (f, tc_report kErrNotLowered 0 s))"
| "check_expr sg (PathExpr segs) st = (case st of (f, s) \<Rightarrow> (f, tc_report kErrNotLowered 0 s))"
| "check_expr sg (AssignExpr k target value) st =
     (case check_expr sg value st of (f, s) \<Rightarrow> (f, check_target target f s))"
| "check_expr sg n st = st"
| "check_stmts sg [] st = st"
| "check_stmts sg (x # xs) st = check_stmts sg xs (check_stmt sg x st)"
| "check_exprs sg [] st = st"
| "check_exprs sg (x # xs) st = check_exprs sg xs (check_expr sg x st)"
  by pat_completeness auto

termination
  by (relation "measure (\<lambda>x. case x of
       Inl (Inl (_, n, _)) \<Rightarrow> 2 * size n + 1 | Inl (Inr (_, n, _)) \<Rightarrow> 2 * size n
     | Inr (Inl (_, ns, _)) \<Rightarrow> 2 * size_list size ns + 1 | Inr (Inr (_, ns, _)) \<Rightarrow> 2 * size_list size ns)")
    auto

text \<open>The statement form of an assignment is the expression form: \<open>check_assign\<close> both times.\<close>

definition check_param :: "fn_param \<Rightarrow> check_state \<Rightarrow> check_state" where
  "check_param p st = (case st of (f, s) \<Rightarrow> (case try_bind (fp_name p) (fp_mutable p) f of (ok, f') \<Rightarrow>
     (f', if ok then s else tc_report kErrDuplicateParam (fp_name p) s)))"

definition check_fn :: "fn_sigs \<Rightarrow> fn_decl \<Rightarrow> sink \<Rightarrow> sink" where
  "check_fn sg fn s = snd (check_stmt sg (fd_body fn) (fold check_param (fd_params fn) ([], s)))"

fun collect_sigs :: "item list \<Rightarrow> fn_sigs \<Rightarrow> sink \<Rightarrow> fn_sigs \<times> sink" where
  "collect_sigs [] sg s = (sg, s)"
| "collect_sigs (FnItem fn # its) sg s =
     (if fn_sigs_find (fd_name fn) sg \<noteq> None
      then collect_sigs its sg (tc_report kErrDuplicateFn (fd_name fn) s)
      else collect_sigs its (sg @ [(fd_name fn, of_nat (length (fd_params fn)))]) s)"
| "collect_sigs (_ # its) sg s = collect_sigs its sg s"

fun check_items :: "fn_sigs \<Rightarrow> item list \<Rightarrow> sink \<Rightarrow> sink" where
  "check_items sg [] s = s"
| "check_items sg (FnItem fn # its) s = check_items sg its (check_fn sg fn s)"
| "check_items sg (_ # its) s = check_items sg its s"

definition check_module :: "ast_module \<Rightarrow> sink \<Rightarrow> (diag + bool) \<times> sink" where
  "check_module m s =
     (case collect_sigs m [] s of (sg, s) \<Rightarrow>
      let s = check_items sg m s
      in (if has_errors s then Inl (type_error 0 no_span) else Inr True, s))"

subsection \<open>The scoping rules\<close>

text \<open>
  What a checked program satisfies, stated as rules: \<open>expr_ok ar E e E'\<close> and \<open>stmt_ok\<close> say
  that a tree uses only visible names, assigns only to mutable ones, binds no name twice on
  one path and calls the functions of the module (of arity \<open>ar\<close>) with the right number of
  arguments, when \<open>E\<close> are the names visible before it, with their mutability; \<open>E'\<close> are those
  visible after it. Names bound in both branches of an \<open>if\<close> stay visible, those of a loop
  body do not. A statement node in expression position, which no parsed tree has, is not
  looked into.
\<close>

type_synonym env = "symbol_id \<Rightarrow> bool option"

definition merge_env :: "env \<Rightarrow> env \<Rightarrow> env \<Rightarrow> env" where
  "merge_env E Et Ee = (\<lambda>x. if E x \<noteq> None then E x else if Ee x \<noteq> None then Et x else None)"

definition is_literal :: "ast \<Rightarrow> bool" where
  "is_literal n \<longleftrightarrow> (case n of IntLit v \<Rightarrow> True | FloatLit v \<Rightarrow> True | StrLit v \<Rightarrow> True | BoolLit v \<Rightarrow> True | _ \<Rightarrow> False)"

definition is_statement :: "ast \<Rightarrow> bool" where
  "is_statement n \<longleftrightarrow> (case n of LetStmt x ty i v \<Rightarrow> True | ExprStmt e \<Rightarrow> True | ReturnStmt v \<Rightarrow> True
     | IfStmt c t e \<Rightarrow> True | ForStmt v i b \<Rightarrow> True | MatchStmt e arms \<Rightarrow> True | _ \<Rightarrow> False)"

definition call_ok :: "(symbol_id \<Rightarrow> nat option) \<Rightarrow> ast \<Rightarrow> nat \<Rightarrow> bool" where
  "call_ok ar callee n \<longleftrightarrow> callee_simple callee
     \<and> (callee_name callee \<noteq> kInvalidSymbolId \<longrightarrow> (\<forall>k. ar (callee_name callee) = Some k \<longrightarrow> k = n))"

inductive expr_ok :: "(symbol_id \<Rightarrow> nat option) \<Rightarrow> env \<Rightarrow> ast \<Rightarrow> env \<Rightarrow> bool"
  and stmt_ok :: "(symbol_id \<Rightarrow> nat option) \<Rightarrow> env \<Rightarrow> ast \<Rightarrow> env \<Rightarrow> bool"
  and exprs_ok :: "(symbol_id \<Rightarrow> nat option) \<Rightarrow> env \<Rightarrow> ast list \<Rightarrow> env \<Rightarrow> bool"
  and stmts_ok :: "(symbol_id \<Rightarrow> nat option) \<Rightarrow> env \<Rightarrow> ast list \<Rightarrow> env \<Rightarrow> bool"
  for ar where
  literal: "is_literal n \<Longrightarrow> expr_ok ar E n E"
| stray: "is_statement n \<Longrightarrow> expr_ok ar E n E"
| ident: "E x \<noteq> None \<Longrightarrow> expr_ok ar E (Ident x) E"
| binary: "expr_ok ar E a E1 \<Longrightarrow> expr_ok ar E1 b E2 \<Longrightarrow> expr_ok ar E (BinaryExpr k a b) E2"
| unary: "expr_ok ar E a E1 \<Longrightarrow> expr_ok ar E (UnaryExpr k a) E1"
| call: "call_ok ar c (length as) \<Longrightarrow> exprs_ok ar E as E1 \<Longrightarrow> expr_ok ar E (CallExpr c as) E1"
| block_expr: "stmts_ok ar E ss E1 \<Longrightarrow> expr_ok ar E (Block ss) E1"
| range: "expr_ok ar E a E1 \<Longrightarrow> expr_ok ar E1 b E2 \<Longrightarrow> expr_ok ar E (RangeExpr a b) E2"
| assign: "expr_ok ar E v E1 \<Longrightarrow> E1 x = Some True \<Longrightarrow> expr_ok ar E (AssignExpr k (Ident x) v) E1"
| let_bare: "E x = None \<Longrightarrow> stmt_ok ar E (LetStmt x ty None mut) (E(x \<mapsto> mut))"
| let_init: "expr_ok ar E e E1 \<Longrightarrow> E1 x = None \<Longrightarrow> stmt_ok ar E (LetStmt x ty (Some e) mut) (E1(x \<mapsto> mut))"
| block: "stmts_ok ar E ss E1 \<Longrightarrow> stmt_ok ar E (Block ss) E1"
| expr_stmt: "expr_ok ar E e E1 \<Longrightarrow> stmt_ok ar E (ExprStmt e) E1"
| return_bare: "stmt_ok ar E (ReturnStmt None) E"
| return: "expr_ok ar E e E1 \<Longrightarrow> stmt_ok ar E (ReturnStmt (Some e)) E1"
| if_then: "expr_ok ar E c E1 \<Longrightarrow> stmt_ok ar E1 t Et \<Longrightarrow> stmt_ok ar E (IfStmt c t None) E1"
| if_else: "expr_ok ar E c E1 \<Longrightarrow> stmt_ok ar E1 t Et \<Longrightarrow> stmt_ok ar E1 e Ee
    \<Longrightarrow> stmt_ok ar E (IfStmt c t (Some e)) (merge_env E1 Et Ee)"
| for_range: "expr_ok ar E lo E1 \<Longrightarrow> expr_ok ar E1 hi E2 \<Longrightarrow> E2 v = None \<Longrightarrow> \<not> body_contains_unlowerable b
    \<Longrightarrow> stmt_ok ar (E2(v \<mapsto> False)) b Eb \<Longrightarrow> stmt_ok ar E (ForStmt v (RangeExpr lo hi) b) E2"
| expr: "\<not> is_statement n \<Longrightarrow> (\<forall>ss. n \<noteq> Block ss) \<Longrightarrow> expr_ok ar E n E1 \<Longrightarrow> stmt_ok ar E n E1"
| no_exprs: "exprs_ok ar E [] E"
| exprs: "expr_ok ar E x E1 \<Longrightarrow> exprs_ok ar E1 xs E2 \<Longrightarrow> exprs_ok ar E (x # xs) E2"
| no_stmts: "stmts_ok ar E [] E"
| stmts: "stmt_ok ar E x E1 \<Longrightarrow> stmts_ok ar E1 xs E2 \<Longrightarrow> stmts_ok ar E (x # xs) E2"

inductive_simps expr_ok_simps [simp]:
  "expr_ok ar E (Ident x) E'" "expr_ok ar E (BinaryExpr k a b) E'" "expr_ok ar E (UnaryExpr k a) E'"
  "expr_ok ar E (CallExpr c as) E'" "expr_ok ar E (Block ss) E'" "expr_ok ar E (RangeExpr a b) E'"
  "expr_ok ar E (AssignExpr k t v) E'" "expr_ok ar E (FieldExpr b fl) E'" "expr_ok ar E (IndexExpr b i) E'"
  "expr_ok ar E (PathExpr segs) E'" "expr_ok ar E (IntLit i) E'" "expr_ok ar E (FloatLit i) E'"
  "expr_ok ar E (StrLit x) E'" "expr_ok ar E (BoolLit t) E'" "expr_ok ar E (LetStmt x ty ini mut) E'"
  "expr_ok ar E (ExprStmt e) E'" "expr_ok ar E (ReturnStmt r) E'" "expr_ok ar E (IfStmt c th el) E'"
  "expr_ok ar E (ForStmt x i b) E'" "expr_ok ar E (MatchStmt e arms) E'"

inductive_simps stmt_ok_simps [simp]:
  "stmt_ok ar E (LetStmt x ty ini mut) E'" "stmt_ok ar E (Block ss) E'" "stmt_ok ar E (ExprStmt e) E'"
  "stmt_ok ar E (ReturnStmt r) E'" "stmt_ok ar E (IfStmt c th el) E'" "stmt_ok ar E (ForStmt x i b) E'"
  "stmt_ok ar E (MatchStmt e arms) E'" "stmt_ok ar E (Ident x) E'" "stmt_ok ar E (BinaryExpr k a b) E'"
  "stmt_ok ar E (UnaryExpr k a) E'" "stmt_ok ar E (CallExpr c as) E'" "stmt_ok ar E (RangeExpr a b) E'"
  "stmt_ok ar E (AssignExpr k t v) E'" "stmt_ok ar E (FieldExpr b fl) E'" "stmt_ok ar E (IndexExpr b i) E'"
  "stmt_ok ar E (PathExpr segs) E'" "stmt_ok ar E (IntLit i) E'" "stmt_ok ar E (FloatLit i) E'"
  "stmt_ok ar E (StrLit x) E'" "stmt_ok ar E (BoolLit t) E'"

inductive_simps oks_simps [simp]:
  "exprs_ok ar E [] E'" "exprs_ok ar E (x # xs) E'" "stmts_ok ar E [] E'" "stmts_ok ar E (x # xs) E'"

subsection \<open>The checker decides the rules\<close>

definition env_of :: "frame \<Rightarrow> env" where
  "env_of f = (\<lambda>x. map_option b_mutable (frame_find x f))"

lemma frame_find_append: "frame_find x (f @ g) = (case frame_find x f of None \<Rightarrow> frame_find x g | Some b \<Rightarrow> Some b)"
  by (induction f) auto

lemma frame_find_name: "frame_find x f = Some b \<Longrightarrow> b_name b = x"
  by (induction f) (auto split: if_splits)

lemma env_of_snoc: "env_of f (b_name b) = None \<Longrightarrow> env_of (f @ [b]) = (env_of f)(b_name b \<mapsto> b_mutable b)"
  by (rule ext) (auto simp: env_of_def frame_find_append split: option.splits)

lemma find_merge_loop:
  "frame_find x (merge_loop out tf ef) = (case frame_find x out of Some b \<Rightarrow> Some b
     | None \<Rightarrow> if frame_find x ef \<noteq> None then frame_find x tf else None)"
proof (induction tf arbitrary: out)
  case (Cons b tf)
  show ?case
    by (cases "frame_find (b_name b) out"; cases "frame_find (b_name b) ef"; cases "b_name b = x")
      (auto simp: Cons.IH frame_find_append split: option.split)
qed (simp split: option.split)

lemma merge_env_of: "env_of (merge_branch_frames out tf ef) = merge_env (env_of out) (env_of tf) (env_of ef)"
  by (rule ext) (simp add: merge_branch_frames_def env_of_def merge_env_def find_merge_loop split: option.split)

text \<open>
  \<open>decides s st' P\<close>: a check that started with sink \<open>s\<close> and ended in \<open>st'\<close> reported nothing
  exactly when \<open>P\<close> holds of the final environment, and of no other.
\<close>

lemma merge_env_same [simp]: "merge_env E Et E = E"
  by (rule ext) (simp add: merge_env_def)

definition decides :: "sink \<Rightarrow> check_state \<Rightarrow> (env \<Rightarrow> bool) \<Rightarrow> bool" where
  "decides s st' P \<longleftrightarrow> (\<exists>f' ms. st' = (f', s @ ms) \<and> list_all severe ms \<and> (\<forall>E'. P E' \<longleftrightarrow> ms = [] \<and> E' = env_of f'))"

lemma decidesE:
  assumes "decides s st' P"
  obtains f' ms where "st' = (f', s @ ms)" "list_all severe ms" "\<And>E'. P E' \<longleftrightarrow> ms = [] \<and> E' = env_of f'"
proof -
  from assms obtain f' ms where "st' = (f', s @ ms)" "list_all severe ms" "\<forall>E'. P E' \<longleftrightarrow> ms = [] \<and> E' = env_of f'"
    unfolding decides_def by blast
  then show thesis using that by blast
qed

lemma decides_same [simp]: "decides (snd st) st (\<lambda>E'. E' = env_of (fst st))"
  by (cases st) (simp add: decides_def)

lemma tc_report_append: "tc_report m x s = s @ [(type_error m no_span)\<lparr>dg_payload := of_nat x\<rparr>]"
  by (simp add: tc_report_def report_def)

lemma severe_payload [simp]: "severe (d\<lparr>dg_payload := p\<rparr>) = severe d"
  by (simp add: severe_def)

lemma decides_report: "decides s (f, tc_report m x s) (\<lambda>E'. False)"
  by (simp add: decides_def tc_report_append)

lemma decides_seq:
  assumes "decides s st1 P" "\<And>f ms. st1 = (f, s @ ms) \<Longrightarrow> decides (s @ ms) st2 (Q (env_of f))"
  shows "decides s st2 (\<lambda>E'. \<exists>E1. P E1 \<and> Q E1 E')"
proof -
  from assms(1) obtain f ms where a: "st1 = (f, s @ ms)" "list_all severe ms" "\<And>E'. P E' \<longleftrightarrow> ms = [] \<and> E' = env_of f"
    by (rule decidesE) blast
  from assms(2) [OF a(1)] obtain f' ms' where b: "st2 = (f', (s @ ms) @ ms')" "list_all severe ms'"
    "\<And>E'. Q (env_of f) E' \<longleftrightarrow> ms' = [] \<and> E' = env_of f'" by (rule decidesE) blast
  show ?thesis unfolding decides_def
    by (rule exI [of _ f'], rule exI [of _ "ms @ ms'"]) (use a b in auto)
qed

lemma decides_then:
  assumes "decides s (f1, s1) P" "decides s1 st2 (Q (env_of f1))"
  shows "decides s st2 (\<lambda>E'. \<exists>E1. P E1 \<and> Q E1 E')"
  using assms(2) by (intro decides_seq [OF assms(1)]) auto

lemma decides_then':
  "decides s st1 P \<Longrightarrow> decides (snd st1) st2 (Q (env_of (fst st1))) \<Longrightarrow> decides s st2 (\<lambda>E'. \<exists>E1. P E1 \<and> Q E1 E')"
  by (cases st1) (simp add: decides_then)

lemma decides_scope: "decides s (f2, s2) P \<Longrightarrow> env_of f4 = E \<Longrightarrow> decides s (f4, s2) (\<lambda>E'. \<exists>Et. P Et \<and> E' = E)"
  by (auto simp: decides_def)

lemma decides_both:
  assumes "decides s (f2, s2) P" "decides s2 (f3, s3) Q" "env_of f4 = g (env_of f2) (env_of f3)"
  shows "decides s (f4, s3) (\<lambda>E'. \<exists>Et. P Et \<and> (\<exists>Ee. Q Ee \<and> E' = g Et Ee))"
proof -
  from assms(1) obtain ms where a: "s2 = s @ ms" "list_all severe ms" "\<And>E'. P E' \<longleftrightarrow> ms = [] \<and> E' = env_of f2"
    by (rule decidesE) blast
  from assms(2) obtain ms' where b: "s3 = s2 @ ms'" "list_all severe ms'" "\<And>E'. Q E' \<longleftrightarrow> ms' = [] \<and> E' = env_of f3"
    by (rule decidesE) blast
  show ?thesis unfolding decides_def
    by (rule exI [of _ f4], rule exI [of _ "ms @ ms'"]) (use a b assms(3) in auto)
qed

lemma decides_cong: "decides s st P \<Longrightarrow> (\<And>E. P E \<longleftrightarrow> Q E) \<Longrightarrow> decides s st Q"
  by (simp add: decides_def)

lemma decides_bind:
  "decides s (bind_or_report x mut (f, s)) (\<lambda>E'. env_of f x = None \<and> E' = (env_of f)(x \<mapsto> mut))"
proof (cases "frame_find x f")
  case None
  then have "env_of f (b_name \<lparr>b_name = x, b_mutable = mut\<rparr>) = None" by (simp add: env_of_def)
  from env_of_snoc [OF this] None show ?thesis
    by (simp add: decides_def bind_or_report_def try_bind_def env_of_def)
next
  case (Some b)
  then show ?thesis by (simp add: decides_def bind_or_report_def try_bind_def env_of_def tc_report_append)
qed

lemma decides_call:
  assumes "\<And>x. map_option unat (fn_sigs_find x sg) = ar x"
  shows "decides s (f, check_call sg c n s) (\<lambda>E'. call_ok ar c n \<and> E' = env_of f)"
proof -
  have "ar (callee_name c) = (case fn_sigs_find (callee_name c) sg of None \<Rightarrow> None | Some k \<Rightarrow> Some (unat k))"
    using assms [of "callee_name c"] by (simp add: map_option_case)
  then show ?thesis
    by (auto simp: decides_def check_call_def call_ok_def tc_report_append report_def Let_def split: option.splits)
qed

lemma decides_target:
  "decides s (f, check_target t f s) (\<lambda>E'. (\<exists>x. t = Ident x \<and> env_of f x = Some True) \<and> E' = env_of f)"
  by (cases t) (auto simp: decides_def check_target_def tc_report_append env_of_def split: option.splits)

lemma stmt_ok_expr: "\<not> is_statement n \<Longrightarrow> (\<forall>ss. n \<noteq> Block ss) \<Longrightarrow> stmt_ok ar E n = expr_ok ar E n"
proof (rule ext)
  fix E'
  assume "\<not> is_statement n" "\<forall>ss. n \<noteq> Block ss"
  then show "stmt_ok ar E n E' = expr_ok ar E n E'"
    by (subst stmt_ok.simps) (auto simp: is_statement_def)
qed

lemma expr_ok_eqs:
  "expr_ok ar E (Ident x) = (\<lambda>E'. E x \<noteq> None \<and> E' = E)"
  "expr_ok ar E (BinaryExpr k a b) = (\<lambda>E'. \<exists>E1. expr_ok ar E a E1 \<and> expr_ok ar E1 b E')"
  "expr_ok ar E (RangeExpr a b) = (\<lambda>E'. \<exists>E1. expr_ok ar E a E1 \<and> expr_ok ar E1 b E')"
  "expr_ok ar E (UnaryExpr k a) = expr_ok ar E a"
  "expr_ok ar E (CallExpr c as) = (\<lambda>E'. \<exists>E1. (call_ok ar c (length as) \<and> E1 = E) \<and> exprs_ok ar E1 as E')"
  "expr_ok ar E (Block ss) = stmts_ok ar E ss"
  "expr_ok ar E (AssignExpr k t v) = (\<lambda>E'. \<exists>E1. expr_ok ar E v E1 \<and> ((\<exists>x. t = Ident x \<and> E1 x = Some True) \<and> E' = E1))"
  "expr_ok ar E (FieldExpr b fl) = (\<lambda>E'. False)" "expr_ok ar E (IndexExpr b i) = (\<lambda>E'. False)"
  "expr_ok ar E (PathExpr segs) = (\<lambda>E'. False)"
  "is_literal n \<Longrightarrow> expr_ok ar E n = (\<lambda>E'. E' = E)" "is_statement n \<Longrightarrow> expr_ok ar E n = (\<lambda>E'. E' = E)"
proof -
  show "is_literal n \<Longrightarrow> expr_ok ar E n = (\<lambda>E'. E' = E)" "is_statement n \<Longrightarrow> expr_ok ar E n = (\<lambda>E'. E' = E)"
    by (rule ext, cases n; auto simp: is_literal_def is_statement_def)+
qed (rule ext, auto simp: is_literal_def is_statement_def)+

lemma stmt_ok_eqs:
  "stmt_ok ar E (LetStmt x ty None mut) = (\<lambda>E'. E x = None \<and> E' = E(x \<mapsto> mut))"
  "stmt_ok ar E (LetStmt x ty (Some e) mut) = (\<lambda>E'. \<exists>E1. expr_ok ar E e E1 \<and> E1 x = None \<and> E' = E1(x \<mapsto> mut))"
  "stmt_ok ar E (Block ss) = stmts_ok ar E ss"
  "stmt_ok ar E (ExprStmt e) = expr_ok ar E e"
  "stmt_ok ar E (ReturnStmt None) = (\<lambda>E'. E' = E)"
  "stmt_ok ar E (ReturnStmt (Some e)) = expr_ok ar E e"
  "stmt_ok ar E (IfStmt c t None) = (\<lambda>E'. \<exists>E1. expr_ok ar E c E1 \<and> (\<exists>Et. stmt_ok ar E1 t Et \<and> E' = E1))"
  "stmt_ok ar E (IfStmt c t (Some e)) = (\<lambda>E'. \<exists>E1. expr_ok ar E c E1
     \<and> (\<exists>Et. stmt_ok ar E1 t Et \<and> (\<exists>Ee. stmt_ok ar E1 e Ee \<and> E' = merge_env E1 Et Ee)))"
  "stmt_ok ar E (ForStmt v (RangeExpr lo hi) b) = (\<lambda>E'. \<exists>E1. expr_ok ar E lo E1 \<and> (\<exists>E2. expr_ok ar E1 hi E2
     \<and> (\<exists>E3. (E2 v = None \<and> E3 = E2(v \<mapsto> False)) \<and> \<not> body_contains_unlowerable b \<and> (\<exists>Eb. stmt_ok ar E3 b Eb \<and> E' = E2))))"
  "(\<forall>lo hi. it \<noteq> RangeExpr lo hi) \<Longrightarrow> stmt_ok ar E (ForStmt v it b) = (\<lambda>E'. False)"
  "stmt_ok ar E (MatchStmt e arms) = (\<lambda>E'. False)"
  "exprs_ok ar E [] = (\<lambda>E'. E' = E)" "exprs_ok ar E (a # as) = (\<lambda>E'. \<exists>E1. expr_ok ar E a E1 \<and> exprs_ok ar E1 as E')"
  "stmts_ok ar E [] = (\<lambda>E'. E' = E)" "stmts_ok ar E (a # as) = (\<lambda>E'. \<exists>E1. stmt_ok ar E a E1 \<and> stmts_ok ar E1 as E')"
  by (rule ext, auto simp: is_literal_def is_statement_def)+

declare expr_ok_simps [simp del] stmt_ok_simps [simp del] oks_simps [simp del]

lemma decides_report': "decides (snd st) (case st of (f, s) \<Rightarrow> (f, tc_report m x s)) (\<lambda>E'. False)"
  by (cases st) (simp add: decides_report)

lemma check_decides:
  assumes ar: "\<And>x. map_option unat (fn_sigs_find x sg) = ar x"
  shows "decides (snd st) (check_stmt sg n st) (stmt_ok ar (env_of (fst st)) n)"
    and "decides (snd st) (check_expr sg n st) (expr_ok ar (env_of (fst st)) n)"
    and "decides (snd st) (check_stmts sg ns st) (stmts_ok ar (env_of (fst st)) ns)"
    and "decides (snd st) (check_exprs sg ns st) (exprs_ok ar (env_of (fst st)) ns)"
  using ar
proof (induction sg n st and sg n st and sg ns st and sg ns st rule: check_stmt_check_expr_check_stmts_check_exprs.induct)
  case (1 sg name ty init is_var st)
  obtain f s where st [simp]: "st = (f, s)" by (cases st)
  show ?case
  proof (cases init)
    case None
    show ?thesis using decides_bind [of s name is_var f] by (simp add: None stmt_ok_eqs)
  next
    case (Some e)
    have "decides s (check_expr sg e st) (expr_ok ar (env_of f) e)" using 1 Some by simp
    from decides_seq [OF this, of "bind_or_report name is_var (check_expr sg e st)"
        "\<lambda>E1 E'. E1 name = None \<and> E' = E1(name \<mapsto> is_var)"] decides_bind
    show ?thesis by (simp add: Some stmt_ok_eqs)
  qed
next
  case (4 sg v st)
  then show ?case by (cases v) (auto simp: stmt_ok_eqs)
next
  case (5 sg c t e st)
  obtain f s where st [simp]: "st = (f, s)" by (cases st)
  obtain f1 s1 where c: "check_expr sg c st = (f1, s1)" by fastforce
  obtain f2 s2 where t: "check_stmt sg t (f1, s1) = (f2, s2)" by fastforce
  have cd: "decides s (f1, s1) (expr_ok ar (env_of f) c)" using 5(1) [OF 5(4)] c by simp
  have td: "decides s1 (f2, s2) (stmt_ok ar (env_of f1) t)" using 5(2) [OF c [symmetric] 5(4)] t by simp
  show ?case
  proof (cases e)
    case None
    have "decides s1 (merge_branch_frames f1 f2 f1, s2) (\<lambda>E'. \<exists>Et. stmt_ok ar (env_of f1) t Et \<and> E' = env_of f1)"
      by (rule decides_scope [OF td]) (simp add: merge_env_of)
    from decides_then [where Q = "\<lambda>E1 E'. \<exists>Et. stmt_ok ar E1 t Et \<and> E' = E1", OF cd this]
    show ?thesis using None c t by (simp add: stmt_ok_eqs)
  next
    case (Some b)
    obtain f3 s3 where e: "check_stmt sg b (f1, s2) = (f3, s3)" by fastforce
    have "decides s2 (f3, s3) (stmt_ok ar (env_of f1) b)"
      using 5(3) [OF c [symmetric] t [symmetric] Some 5(4)] e by simp
    from decides_both [OF td this, where g = "merge_env (env_of f1)", OF merge_env_of]
    have "decides s1 (merge_branch_frames f1 f2 f3, s3)
      (\<lambda>E'. \<exists>Et. stmt_ok ar (env_of f1) t Et \<and> (\<exists>Ee. stmt_ok ar (env_of f1) b Ee \<and> E' = merge_env (env_of f1) Et Ee))" .
    from decides_then [where Q = "\<lambda>E1 E'. \<exists>Et. stmt_ok ar E1 t Et \<and> (\<exists>Ee. stmt_ok ar E1 b Ee \<and> E' = merge_env E1 Et Ee)", OF cd this]
    show ?thesis using Some c t e by (simp add: stmt_ok_eqs)
  qed
next
  case (6 sg v it body st)
  show ?case
  proof (cases "\<exists>lo hi. it = RangeExpr lo hi")
    case False
    then show ?thesis using decides_report' [of st] by (cases it) (simp_all add: stmt_ok_eqs)
  next
    case True
    then obtain lo hi where it: "it = RangeExpr lo hi" by blast
    obtain f s where st [simp]: "st = (f, s)" by (cases st)
    obtain f1 s1 where lo: "check_expr sg lo st = (f1, s1)" by fastforce
    obtain f2 s2 where hi: "check_expr sg hi (f1, s1) = (f2, s2)" by fastforce
    obtain f3 s3 where bi: "bind_or_report v False (f2, s2) = (f3, s3)" by fastforce
    obtain f4 s4 where bo: "check_stmt sg body (f3, s3) = (f4, s4)" by fastforce
    let ?B = "\<lambda>E2 E'. \<exists>E3. (E2 v = None \<and> E3 = E2(v \<mapsto> False)) \<and> \<not> body_contains_unlowerable body \<and> (\<exists>Eb. stmt_ok ar E3 body Eb \<and> E' = E2)"
    have bd: "decides s2 (f3, s3) (\<lambda>E'. env_of f2 v = None \<and> E' = (env_of f2)(v \<mapsto> False))"
      using decides_bind [of s2 v False f2] bi by simp
    have "decides s2 (if body_contains_unlowerable body then (f2, tc_report kErrNotLowered 0 s3) else (f2, s4)) (?B (env_of f2))"
    proof (cases "body_contains_unlowerable body")
      case True
      from decides_then [OF bd decides_report, of f2 kErrNotLowered 0] show ?thesis
        using True by simp
    next
      case False
      have "decides s3 (f4, s4) (stmt_ok ar (env_of f3) body)"
        using 6(3) [OF it _ _ False] hi lo bi bo 6(4) it by simp
      from decides_scope [OF this, of f2] have "decides s3 (f2, s4) (\<lambda>E'. \<exists>Eb. stmt_ok ar (env_of f3) body Eb \<and> E' = env_of f2)" by simp
      from decides_then [where Q = "\<lambda>E3 E'. \<exists>Eb. stmt_ok ar E3 body Eb \<and> E' = env_of f2", OF bd this]
      show ?thesis using False by simp
    qed
    note b = this
    have l: "decides s (f1, s1) (expr_ok ar (env_of f) lo)" using 6(1) [OF it 6(4)] lo by simp
    have h: "decides s1 (f2, s2) (expr_ok ar (env_of f1) hi)" using 6(2) [OF it 6(4)] lo hi by simp
    note r = decides_then [where Q = "\<lambda>E1 E'. \<exists>E2. expr_ok ar E1 hi E2 \<and> ?B E2 E'", OF l decides_then [where Q = ?B, OF h b]]
    have "check_stmt sg (ForStmt v it body) st
        = (if body_contains_unlowerable body then (f2, tc_report kErrNotLowered 0 s3) else (f2, s4))"
      using lo hi bi bo by (simp add: it)
    with r show ?thesis by (simp only: stmt_ok_eqs it st fst_conv snd_conv)
  qed
next
  case (9 sg name st)
  then show ?case
    by (cases st) (auto simp: expr_ok_eqs decides_def env_of_def tc_report_append)
next
  case (10 sg k a b st)
  from decides_then' [where Q = "\<lambda>E. expr_ok ar E b", OF 10(1) [OF 10(3)] 10(2) [OF 10(3)]]
  show ?case by (simp add: expr_ok_eqs)
next
  case (12 sg c as st)
  obtain f s where st [simp]: "st = (f, s)" by (cases st)
  from decides_then [where Q = "\<lambda>E. exprs_ok ar E as", OF decides_call [of sg ar, OF 12(2)]] 12(1) [of f s] 12(2)
  show ?case by (simp add: expr_ok_eqs)
next
  case (14 sg a b st)
  from decides_then' [where Q = "\<lambda>E. expr_ok ar E b", OF 14(1) [OF 14(3)] 14(2) [OF 14(3)]]
  show ?case by (simp add: expr_ok_eqs)
next
  case (18 sg k t v st)
  obtain f s where v: "check_expr sg v st = (f, s)" by fastforce
  with 18 have "decides (snd st) (f, s) (expr_ok ar (env_of (fst st)) v)" by simp
  from decides_then [where Q = "\<lambda>E1 E'. (\<exists>x. t = Ident x \<and> E1 x = Some True) \<and> E' = E1", OF this decides_target] v
  show ?case by (simp add: expr_ok_eqs)
next
  case (21 sg x xs st)
  from decides_then' [where Q = "\<lambda>E. stmts_ok ar E xs", OF 21(1) [OF 21(3)] 21(2) [OF 21(3)]]
  show ?case by (simp add: stmt_ok_eqs)
next
  case (23 sg x xs st)
  from decides_then' [where Q = "\<lambda>E. exprs_ok ar E xs", OF 23(1) [OF 23(3)] 23(2) [OF 23(3)]]
  show ?case by (simp add: stmt_ok_eqs)
qed (simp_all add: stmt_ok_expr stmt_ok_eqs expr_ok_eqs decides_report' is_statement_def is_literal_def)

subsection \<open>Modules\<close>

fun fns_of :: "item list \<Rightarrow> fn_decl list" where
  "fns_of [] = []"
| "fns_of (FnItem fn # its) = fn # fns_of its"
| "fns_of (_ # its) = fns_of its"

definition arities :: "ast_module \<Rightarrow> symbol_id \<Rightarrow> nat option" where
  "arities m = map_of (map (\<lambda>f. (fd_name f, length (fd_params f))) (fns_of m))"

definition params_env :: "fn_param list \<Rightarrow> env \<Rightarrow> env" where
  "params_env ps E = fold (\<lambda>p E. E(fp_name p \<mapsto> fp_mutable p)) ps E"

definition fn_ok :: "(symbol_id \<Rightarrow> nat option) \<Rightarrow> fn_decl \<Rightarrow> bool" where
  "fn_ok ar fn \<longleftrightarrow> distinct (map fp_name (fd_params fn))
     \<and> (\<exists>E'. stmt_ok ar (params_env (fd_params fn) (\<lambda>_. None)) (fd_body fn) E')"

definition module_ok :: "ast_module \<Rightarrow> bool" where
  "module_ok m \<longleftrightarrow> distinct (map fd_name (fns_of m)) \<and> (\<forall>fn \<in> set (fns_of m). fn_ok (arities m) fn)"

lemma decides_params:
  "decides s (fold check_param ps (f, s)) (\<lambda>E'. (distinct (map fp_name ps) \<and> (\<forall>p \<in> set ps. env_of f (fp_name p) = None))
     \<and> E' = params_env ps (env_of f))"
proof (induction ps arbitrary: f s)
  case Nil
  then show ?case by (simp add: decides_def params_env_def)
next
  case (Cons p ps)
  show ?case
  proof (cases "frame_find (fp_name p) f")
    case None
    let ?b = "\<lparr>b_name = fp_name p, b_mutable = fp_mutable p\<rparr>"
    have n: "env_of f (b_name ?b) = None" using None by (simp add: env_of_def)
    have "check_param p (f, s) = (f @ [?b], s)" using None by (simp add: check_param_def try_bind_def)
    moreover have "env_of (f @ [?b]) = (env_of f)(fp_name p \<mapsto> fp_mutable p)" using env_of_snoc [OF n] by simp
    moreover have "(\<forall>q \<in> set ps. ((env_of f)(fp_name p \<mapsto> fp_mutable p)) (fp_name q) = None)
        \<longleftrightarrow> fp_name p \<notin> fp_name ` set ps \<and> (\<forall>q \<in> set ps. env_of f (fp_name q) = None)"
      by (auto simp: image_iff split: if_splits)
    ultimately show ?thesis
      using n Cons.IH [of s "f @ [?b]"] by (simp add: params_env_def del: fun_upd_apply) (erule decides_cong, auto)
  next
    case (Some b)
    then have "check_param p (f, s) = (f, s @ [(type_error kErrDuplicateParam no_span)\<lparr>dg_payload := of_nat (fp_name p)\<rparr>])"
      by (simp add: check_param_def try_bind_def tc_report_append)
    moreover obtain f' ms where "fold check_param ps (f, s @ [(type_error kErrDuplicateParam no_span)\<lparr>dg_payload := of_nat (fp_name p)\<rparr>])
        = (f', (s @ [(type_error kErrDuplicateParam no_span)\<lparr>dg_payload := of_nat (fp_name p)\<rparr>]) @ ms)" "list_all severe ms"
      by (rule decidesE [OF Cons.IH]) blast
    ultimately show ?thesis using Some by (simp add: decides_def env_of_def)
  qed
qed

definition grows :: "sink \<Rightarrow> sink \<Rightarrow> bool \<Rightarrow> bool" where
  "grows s s' ok \<longleftrightarrow> (\<exists>ms. s' = s @ ms \<and> list_all severe ms \<and> (ms = [] \<longleftrightarrow> ok))"

lemma growsE:
  assumes "grows s s' ok"
  obtains ms where "s' = s @ ms" "list_all severe ms" "ms = [] \<longleftrightarrow> ok"
  using assms by (auto simp: grows_def)

lemma grows_trans: "grows s1 s2 a \<Longrightarrow> grows s2 s3 b \<Longrightarrow> grows s1 s3 (a \<and> b)"
  by (fastforce simp: grows_def)

lemma check_fn_grows: "grows s (check_fn sg fn s) (fn_ok (\<lambda>x. map_option unat (fn_sigs_find x sg)) fn)"
proof -
  let ?ar = "\<lambda>x. map_option unat (fn_sigs_find x sg)" and ?ps = "fd_params fn"
  have e: "env_of [] = (\<lambda>_. None)" by (simp add: env_of_def fun_eq_iff)
  have "decides s (check_stmt sg (fd_body fn) (fold check_param ?ps ([], s)))
     (\<lambda>E'. \<exists>E1. ((distinct (map fp_name ?ps) \<and> (\<forall>p \<in> set ?ps. env_of [] (fp_name p) = None)) \<and> E1 = params_env ?ps (env_of []))
        \<and> stmt_ok ?ar E1 (fd_body fn) E')"
    by (rule decides_then' [where Q = "\<lambda>E1. stmt_ok ?ar E1 (fd_body fn)", OF decides_params check_decides(1) [OF refl]])
  then show ?thesis by (rule decidesE) (auto simp: grows_def check_fn_def fn_ok_def e)
qed

lemma collect_sigs_grows:
  obtains ms where "snd (collect_sigs its sg s) = s @ ms" "list_all severe ms"
    "ms = [] \<longleftrightarrow> distinct (map fd_name (fns_of its)) \<and> (\<forall>f \<in> set (fns_of its). fn_sigs_find (fd_name f) sg = None)"
    "ms = [] \<longrightarrow> fst (collect_sigs its sg s) = sg @ map (\<lambda>f. (fd_name f, of_nat (length (fd_params f)))) (fns_of its)"
proof -
  have "\<exists>ms. snd (collect_sigs its sg s) = s @ ms \<and> list_all severe ms
    \<and> (ms = [] \<longleftrightarrow> distinct (map fd_name (fns_of its)) \<and> (\<forall>f \<in> set (fns_of its). fn_sigs_find (fd_name f) sg = None))
    \<and> (ms = [] \<longrightarrow> fst (collect_sigs its sg s) = sg @ map (\<lambda>f. (fd_name f, of_nat (length (fd_params f)))) (fns_of its))"
  proof (induction its sg s rule: collect_sigs.induct)
    case (2 fn its sg s)
    show ?case
    proof (cases "fn_sigs_find (fd_name fn) sg")
      case None
      have "fn_sigs_find x (sg @ [(fd_name fn, v)]) = None \<longleftrightarrow> fn_sigs_find x sg = None \<and> x \<noteq> fd_name fn" for x v
        by (auto simp: fn_sigs_find_def map_of_eq_None_iff)
      moreover have "fd_name fn \<notin> fd_name ` set (fns_of its) \<longleftrightarrow> (\<forall>f \<in> set (fns_of its). fd_name f \<noteq> fd_name fn)"
        by (metis imageE imageI)
      ultimately show ?thesis using 2(2) None by (auto simp: ball_conj_distrib simp del: image_iff)
    next
      case (Some k)
      then show ?thesis using 2(1) by (auto simp: tc_report_append)
    qed
  qed auto
  then show thesis using that by blast
qed

lemma check_items_grows:
  "grows s (check_items sg its s) (\<forall>fn \<in> set (fns_of its). fn_ok (\<lambda>x. map_option unat (fn_sigs_find x sg)) fn)"
proof (induction sg its s rule: check_items.induct)
  case (2 sg fn its s)
  from grows_trans [OF check_fn_grows 2] show ?case by simp
qed (simp_all add: grows_def)

lemma check_module_iff:
  assumes "length (snd (check_module m [])) < 2 ^ 32" "\<forall>fn \<in> set (fns_of m). length (fd_params fn) < 2 ^ 32"
  shows "fst (check_module m []) = Inr True \<longleftrightarrow> module_ok m"
proof -
  obtain sg s1 where c: "collect_sigs m [] [] = (sg, s1)" by fastforce
  obtain ms where ms: "s1 = ms" "list_all severe ms" "ms = [] \<longleftrightarrow> distinct (map fd_name (fns_of m))"
    "ms = [] \<longrightarrow> sg = map (\<lambda>f. (fd_name f, of_nat (length (fd_params f)))) (fns_of m)"
    by (rule collect_sigs_grows [of m "[]" "[]"]) (use c in \<open>auto simp: fn_sigs_find_def\<close>)
  obtain ms' where ms': "check_items sg m s1 = ms @ ms'" "list_all severe ms'"
    "ms' = [] \<longleftrightarrow> (\<forall>fn \<in> set (fns_of m). fn_ok (\<lambda>x. map_option unat (fn_sigs_find x sg)) fn)"
    using check_items_grows [of s1 sg m] ms(1) by (auto simp: grows_def)
  have "has_errors (ms @ ms') \<longleftrightarrow> ms @ ms' \<noteq> []"
  proof -
    have "length (ms @ ms') < 2 ^ 32" using assms(1) c ms'(1) by (simp add: check_module_def Let_def)
    from has_errors_iff [OF this] have "has_errors (ms @ ms') \<longleftrightarrow> (\<exists>e \<in> set (ms @ ms'). severe e)" .
    moreover have "list_all severe l \<Longrightarrow> (\<exists>e \<in> set l. severe e) \<longleftrightarrow> l \<noteq> []" for l by (cases l) auto
    ultimately show ?thesis using ms(2) ms'(2) by (metis list_all_append)
  qed
  moreover have "fst (check_module m []) = Inr True \<longleftrightarrow> \<not> has_errors (ms @ ms')"
    using c ms'(1) by (simp add: check_module_def Let_def)
  moreover have "(\<lambda>x. map_option unat (fn_sigs_find x sg)) = arities m" if "ms = []"
  proof
    fix x
    have u: "unat (of_nat (length (fd_params f)) :: u32) = length (fd_params f)" if "f \<in> set (fns_of m)" for f
      using assms(2) that by (simp add: unat_of_nat)
    have "map_option unat (map_of (map (\<lambda>f. (fd_name f, of_nat (length (fd_params f)) :: u32)) fs) x)
      = map_of (map (\<lambda>f. (fd_name f, length (fd_params f))) fs) x" if "set fs \<subseteq> set (fns_of m)" for fs
      using that by (induction fs) (auto simp: u)
    from this [of "fns_of m"] ms(4) that show "map_option unat (fn_sigs_find x sg) = arities m x"
      by (simp add: fn_sigs_find_def arities_def)
  qed
  ultimately show ?thesis using ms(3) ms'(3) by (auto simp: module_ok_def)
qed

text \<open>
  C8. The checker accepts a module exactly when it obeys the scoping rules: no two functions and
  no two parameters of a function have one name, names are used where they are visible,
  assigned where they are mutable, bound once on a path, and the functions of the module
  are called with as many arguments as they have parameters. (The error count and the
  recorded arities are 32-bit counters.)
\<close>

theorem checker_decides_scoping:
  assumes "length (snd (check_module m [])) < 2 ^ 32" "\<forall>fn \<in> set (fns_of m). length (fd_params fn) < 2 ^ 32"
  shows "fst (check_module m []) = Inr True \<longleftrightarrow> module_ok m"
  using assms by (rule check_module_iff)

text \<open>\<open>fn f(a, mut b) { let x = a; if x { b = x } return f(x, b) }\<close>, accepted; without the call's second argument, rejected.\<close>

definition sample_module :: "ast list \<Rightarrow> ast_module" where
  "sample_module args = [FnItem \<lparr>fd_name = 1,
     fd_params = [\<lparr>fp_name = 2, fp_type = Ident 9, fp_mutable = False\<rparr>, \<lparr>fp_name = 3, fp_type = Ident 9, fp_mutable = True\<rparr>],
     fd_ret = None,
     fd_body = Block [LetStmt 4 None (Some (Ident 2)) False, IfStmt (Ident 4) (Block [AssignExpr T_Eq (Ident 3) (Ident 4)]) None,
       ReturnStmt (Some (CallExpr (Ident 1) args))],
     fd_pub = False\<rparr>]"

theorem checker_decides_scoping_witness:
  "module_ok (sample_module [Ident 4, Ident 3]) \<and> \<not> module_ok (sample_module [Ident 4])"
proof -
  have c: "check_module (sample_module [Ident 4, Ident 3]) [] = (Inr True, [])" by code_simp
  have "length (snd (check_module (sample_module [Ident 4]) [])) < 2 ^ 32"
    "fst (check_module (sample_module [Ident 4]) []) \<noteq> Inr True" by code_simp+
  moreover have "\<forall>fn \<in> set (fns_of (sample_module as)). length (fd_params fn) < 2 ^ 32" for as
    by (simp add: sample_module_def)
  ultimately show ?thesis
    using checker_decides_scoping [of "sample_module [Ident 4, Ident 3]"]
      checker_decides_scoping [of "sample_module [Ident 4]"] c by simp
qed

end
