(* ===== verification/EffectInference.thy ===== *)
theory EffectInference
  imports Ast
begin

section \<open>Effect inference\<close>

text \<open>
  \<open>frontend/EffectInference.cpp\<close>: the effect class of a function from one walk over its
  body. \<open>BodyWalker\<close>, which would tell the \<open>std\<close> namespaces apart, is constructed and
  never called, so it is not part of the model and the symbol table is not read.
\<close>

record effect_accum =
  ea_writes_local :: bool
  ea_writes_through_ref :: bool
  ea_calls_io :: bool
  ea_calls_atomic :: bool
  ea_calls_thread :: bool
  ea_calls_unknown :: bool

definition effect_accum_init :: effect_accum where
  "effect_accum_init = \<lparr>ea_writes_local = False, ea_writes_through_ref = False, ea_calls_io = False,
     ea_calls_atomic = False, ea_calls_thread = False, ea_calls_unknown = False\<rparr>"

datatype inferred_effect = Inf_Pure | Inf_Altered | Inf_Crowded

definition mark_write :: "effect_accum \<Rightarrow> effect_accum" where
  "mark_write acc = acc\<lparr>ea_writes_local := True, ea_writes_through_ref := True\<rparr>"

definition mark_unknown :: "effect_accum \<Rightarrow> effect_accum" where
  "mark_unknown acc = acc\<lparr>ea_calls_unknown := True\<rparr>"

function (sequential) walk_expr :: "ast \<Rightarrow> effect_accum \<Rightarrow> effect_accum"
  and walk_stmt :: "ast \<Rightarrow> effect_accum \<Rightarrow> effect_accum"
  and walk_exprs :: "ast list \<Rightarrow> effect_accum \<Rightarrow> effect_accum"
  and walk_stmts :: "ast list \<Rightarrow> effect_accum \<Rightarrow> effect_accum"
  and walk_arms :: "(pat \<times> ast) list \<Rightarrow> effect_accum \<Rightarrow> effect_accum" where
  "walk_expr (BinaryExpr k a b) acc =
     walk_expr b (walk_expr a (if k \<in> {T_Eq, T_PlusEq, T_MinusEq, T_StarEq} then mark_write acc else acc))"
| "walk_expr (AssignExpr k target value) acc = walk_expr value (walk_expr target (mark_write acc))"
| "walk_expr (UnaryExpr k a) acc = walk_expr a acc"
| "walk_expr (CallExpr c as) acc = walk_exprs as (mark_unknown acc)"
| "walk_expr (FieldExpr b f) acc = walk_expr b acc"
| "walk_expr (IndexExpr b i) acc = walk_expr i (walk_expr b acc)"
| "walk_expr (Ident i) acc = acc"
| "walk_expr (IntLit v) acc = acc"
| "walk_expr (FloatLit v) acc = acc"
| "walk_expr (StrLit v) acc = acc"
| "walk_expr (BoolLit v) acc = acc"
| "walk_expr (PathExpr segs) acc = acc"
| "walk_expr (Block ss) acc = walk_stmts ss acc"
| "walk_expr n acc = mark_unknown acc"
| "walk_stmt (LetStmt x ty init is_var) acc =
     (let acc = (if is_var then acc\<lparr>ea_writes_local := True\<rparr> else acc)
      in case init of Some e \<Rightarrow> walk_expr e acc | None \<Rightarrow> acc)"
| "walk_stmt (ExprStmt e) acc = walk_expr e acc"
| "walk_stmt (ReturnStmt v) acc = (case v of Some e \<Rightarrow> walk_expr e acc | None \<Rightarrow> acc)"
| "walk_stmt (IfStmt c t e) acc =
     (let acc = walk_stmt t (walk_expr c acc) in case e of Some b \<Rightarrow> walk_stmt b acc | None \<Rightarrow> acc)"
| "walk_stmt (ForStmt x it body) acc = walk_stmt body (walk_expr it acc)"
| "walk_stmt (MatchStmt e arms) acc = walk_arms arms (walk_expr e acc)"
| "walk_stmt (Block ss) acc = walk_stmts ss acc"
| "walk_stmt n acc = walk_expr n acc"
| "walk_exprs [] acc = acc"
| "walk_exprs (x # xs) acc = walk_exprs xs (walk_expr x acc)"
| "walk_stmts [] acc = acc"
| "walk_stmts (x # xs) acc = walk_stmts xs (walk_stmt x acc)"
| "walk_arms [] acc = acc"
| "walk_arms ((p, b) # arms) acc = walk_arms arms (walk_expr b acc)"
  by pat_completeness auto

termination
  by (relation "measure (\<lambda>x. case x of
       Inl (Inl (n, _)) \<Rightarrow> 2 * size n | Inl (Inr (n, _)) \<Rightarrow> 2 * size n + 1
     | Inr (Inl (ns, _)) \<Rightarrow> 2 * size_list size ns + 1
     | Inr (Inr (Inl (ns, _))) \<Rightarrow> 2 * size_list size ns + 1
     | Inr (Inr (Inr (arms, _))) \<Rightarrow> 2 * size_list (size_prod (\<lambda>_. 0) size) arms + 1)")
    auto

definition finalize :: "effect_accum \<Rightarrow> inferred_effect" where
  "finalize acc =
     (if ea_calls_io acc \<or> ea_calls_atomic acc \<or> ea_calls_thread acc \<or> ea_calls_unknown acc then Inf_Crowded
      else if ea_writes_local acc \<or> ea_writes_through_ref acc then Inf_Altered else Inf_Pure)"

definition infer_function_effect :: "fn_decl \<Rightarrow> inferred_effect" where
  "infer_function_effect fn =
     (let acc = fold (\<lambda>p acc. if fp_mutable p then acc\<lparr>ea_writes_through_ref := True\<rparr> else acc)
                  (fd_params fn) effect_accum_init
      in finalize (walk_stmts (block_stmts (fd_body fn)) acc))"

subsection \<open>What the walk decides\<close>

text \<open>
  \<open>parts (s, n)\<close> are the children the walk goes on to from a node \<open>n\<close> met as a statement
  (\<open>s\<close>) or as an expression. A call or an unexpected node crowds the function, an assignment or
  a \<open>var\<close> writes.
\<close>

fun parts :: "bool \<times> ast \<Rightarrow> (bool \<times> ast) list" where
  "parts (s, BinaryExpr k a b) = [(False, a), (False, b)]"
| "parts (s, AssignExpr k t v) = [(False, t), (False, v)]"
| "parts (s, UnaryExpr k a) = [(False, a)]"
| "parts (s, CallExpr c as) = map (Pair False) as"
| "parts (s, FieldExpr b f) = [(False, b)]"
| "parts (s, IndexExpr b i) = [(False, b), (False, i)]"
| "parts (s, Block ss) = map (Pair True) ss"
| "parts (True, LetStmt x ty init v) = (case init of Some e \<Rightarrow> [(False, e)] | None \<Rightarrow> [])"
| "parts (True, ExprStmt e) = [(False, e)]"
| "parts (True, ReturnStmt v) = (case v of Some e \<Rightarrow> [(False, e)] | None \<Rightarrow> [])"
| "parts (True, IfStmt c t e) = [(False, c), (True, t)] @ (case e of Some b \<Rightarrow> [(True, b)] | None \<Rightarrow> [])"
| "parts (True, ForStmt x it b) = [(False, it), (True, b)]"
| "parts (True, MatchStmt e arms) = (False, e) # map (\<lambda>(p, b). (False, b)) arms"
| "parts _ = []"

definition visited :: "(bool \<times> ast) set \<Rightarrow> (bool \<times> ast) set" where
  "visited S = {m. \<exists>n \<in> S. (n, m) \<in> {(n, m). m \<in> set (parts n)}\<^sup>*}"

fun crowds :: "bool \<times> ast \<Rightarrow> bool" where
  "crowds (s, CallExpr c as) \<longleftrightarrow> True"
| "crowds (s, RangeExpr a b) \<longleftrightarrow> True"
| "crowds (False, LetStmt x ty init v) \<longleftrightarrow> True"
| "crowds (False, ExprStmt e) \<longleftrightarrow> True"
| "crowds (False, ReturnStmt v) \<longleftrightarrow> True"
| "crowds (False, IfStmt c t e) \<longleftrightarrow> True"
| "crowds (False, ForStmt x it b) \<longleftrightarrow> True"
| "crowds (False, MatchStmt e arms) \<longleftrightarrow> True"
| "crowds _ \<longleftrightarrow> False"

fun writes_ref :: "bool \<times> ast \<Rightarrow> bool" where
  "writes_ref (s, AssignExpr k t v) \<longleftrightarrow> True"
| "writes_ref (s, BinaryExpr k a b) \<longleftrightarrow> k \<in> {T_Eq, T_PlusEq, T_MinusEq, T_StarEq}"
| "writes_ref _ \<longleftrightarrow> False"

fun writes_var :: "bool \<times> ast \<Rightarrow> bool" where
  "writes_var (True, LetStmt x ty init v) \<longleftrightarrow> v"
| "writes_var n \<longleftrightarrow> writes_ref n"

lemma visited_insert: "visited (insert n S) = visited {n} \<union> visited S"
  by (auto simp: visited_def)

lemma visited_empty [simp]: "visited {} = {}"
  by (simp add: visited_def)

lemma visited_unfold: "visited {n} = insert n (visited (set (parts n)))"
proof -
  have "(n, m) \<in> {(n, m). m \<in> set (parts n)}\<^sup>* \<longleftrightarrow> m = n \<or> (\<exists>k \<in> set (parts n). (k, m) \<in> {(n, m). m \<in> set (parts n)}\<^sup>*)" for m
    by (auto elim: converse_rtranclE intro: converse_rtrancl_into_rtrancl)
  then show ?thesis by (auto simp: visited_def)
qed

text \<open>How the accumulator changes: by the marks of one node, and by a walk over some nodes.\<close>

definition marks :: "bool \<Rightarrow> bool \<Rightarrow> bool \<Rightarrow> effect_accum \<Rightarrow> effect_accum \<Rightarrow> bool" where
  "marks var ref unknown acc acc' \<longleftrightarrow>
     (ea_writes_local acc' \<longleftrightarrow> ea_writes_local acc \<or> var)
   \<and> (ea_writes_through_ref acc' \<longleftrightarrow> ea_writes_through_ref acc \<or> ref)
   \<and> (ea_calls_unknown acc' \<longleftrightarrow> ea_calls_unknown acc \<or> unknown)
   \<and> ea_calls_io acc' = ea_calls_io acc \<and> ea_calls_atomic acc' = ea_calls_atomic acc
   \<and> ea_calls_thread acc' = ea_calls_thread acc"

definition after_walk :: "(bool \<times> ast) set \<Rightarrow> effect_accum \<Rightarrow> effect_accum \<Rightarrow> bool" where
  "after_walk S = marks (\<exists>m \<in> visited S. writes_var m) (\<exists>m \<in> visited S. writes_ref m) (\<exists>m \<in> visited S. crowds m)"

lemma marks_simps [simp]:
  "marks False False False acc acc" "marks True True False acc (mark_write acc)" "marks False False True acc (mark_unknown acc)"
  "marks True False False acc (acc\<lparr>ea_writes_local := True\<rparr>)"
  by (simp_all add: marks_def mark_write_def mark_unknown_def)

lemma after_walk_parts:
  assumes "marks (writes_var n) (writes_ref n) (crowds n) acc acc1" "after_walk (set (parts n)) acc1 acc'"
  shows "after_walk {n} acc acc'"
  using assms by (simp add: after_walk_def marks_def visited_unfold [of n] disj_assoc)

lemma after_walk_same:
  "\<not> writes_var n \<Longrightarrow> \<not> writes_ref n \<Longrightarrow> \<not> crowds n \<Longrightarrow> after_walk (set (parts n)) acc acc' \<Longrightarrow> after_walk {n} acc acc'"
  by (rule after_walk_parts) simp_all

lemma after_walk_crowds:
  "\<not> writes_var n \<Longrightarrow> \<not> writes_ref n \<Longrightarrow> crowds n \<Longrightarrow> after_walk (set (parts n)) (mark_unknown acc) acc' \<Longrightarrow> after_walk {n} acc acc'"
  by (rule after_walk_parts) simp_all

lemma after_walk_as_expr:
  assumes "after_walk {(False, n)} acc acc'" "parts (True, n) = parts (False, n)"
    "writes_var (True, n) = writes_var (False, n)" "writes_ref (True, n) = writes_ref (False, n)" "crowds (True, n) = crowds (False, n)"
  shows "after_walk {(True, n)} acc acc'"
  using assms by (simp add: after_walk_def visited_unfold [of "(True, n)"] visited_unfold [of "(False, n)"])

lemma after_walk_none [simp]: "after_walk {} acc acc"
  by (simp add: after_walk_def)

lemma after_walk_insert: "after_walk {n} acc acc1 \<Longrightarrow> after_walk S acc1 acc2 \<Longrightarrow> after_walk (insert n S) acc acc2"
  by (simp add: after_walk_def marks_def visited_insert [of n S] bex_Un disj_assoc)

lemma walk_after:
  "after_walk {(False, n)} acc (walk_expr n acc)"
  "after_walk {(True, n)} acc (walk_stmt n acc)"
  "after_walk (Pair False ` set ns) acc (walk_exprs ns acc)"
  "after_walk (Pair True ` set ns) acc (walk_stmts ns acc)"
  "after_walk ((\<lambda>(p, b). (False, b)) ` set arms) acc (walk_arms arms acc)"
proof (induction n acc and n acc and ns acc and ns acc and arms acc rule: walk_expr_walk_stmt_walk_exprs_walk_stmts_walk_arms.induct)
  case (1 k a b acc)
  show ?case using after_walk_insert [OF 1]
    by (intro after_walk_parts [where ?acc1.0 = "if k \<in> {T_Eq, T_PlusEq, T_MinusEq, T_StarEq} then mark_write acc else acc"])
      (auto split: if_splits)
next
  case (2 k t v acc)
  show ?case using after_walk_insert [OF 2] by (intro after_walk_parts [where ?acc1.0 = "mark_write acc"]) auto
next
  case (15 x ty init v acc)
  then show ?case
    by (intro after_walk_parts [where ?acc1.0 = "if v then acc\<lparr>ea_writes_local := True\<rparr> else acc"])
      (auto split: option.splits)
next
  case (18 c t e acc)
  show ?case
  proof (cases e)
    case None
    with after_walk_insert [OF 18(1,2)] show ?thesis by (intro after_walk_parts [where ?acc1.0 = acc]) auto
  next
    case (Some b)
    with after_walk_insert [OF 18(1) after_walk_insert [OF 18(2) 18(3)]] show ?thesis
      by (intro after_walk_parts [where ?acc1.0 = acc]) auto
  qed
next
  case (6 b i acc)
  with after_walk_insert [OF 6] show ?case by (intro after_walk_same) auto
next
  case (19 x it b acc)
  with after_walk_insert [OF 19] show ?case by (intro after_walk_same) auto
next
  case (20 e arms acc)
  with after_walk_insert [OF 20] show ?case by (intro after_walk_same) auto
qed (auto intro: after_walk_insert after_walk_same after_walk_crowds after_walk_as_expr split: option.splits)

text \<open>
  C28. The inferred effect is the one the syntax demands: \<open>Crowded\<close> exactly when the walk meets
  a call (of whatever function), a \<open>for\<close> range or another node it does not expect; otherwise
  \<open>Altered\<close> exactly when a parameter is mutable, a \<open>var\<close> is declared or something is assigned;
  otherwise \<open>Pure\<close>.
\<close>

theorem infer_effect_exact:
  "infer_function_effect fn =
     (let seen = visited (Pair True ` set (block_stmts (fd_body fn)))
      in if \<exists>m \<in> seen. crowds m then Inf_Crowded
         else if (\<exists>p \<in> set (fd_params fn). fp_mutable p) \<or> (\<exists>m \<in> seen. writes_var m) then Inf_Altered else Inf_Pure)"
proof -
  let ?f = "\<lambda>p acc. if fp_mutable p then acc\<lparr>ea_writes_through_ref := True\<rparr> else acc"
  have p: "marks False (\<exists>p \<in> set ps. fp_mutable p) False acc (fold ?f ps acc)" for ps acc
    by (induction ps arbitrary: acc) (auto simp: marks_def)
  have w: "writes_ref m \<Longrightarrow> writes_var m" for m by (cases m rule: writes_ref.cases) auto
  define acc1 where "acc1 = fold ?f (fd_params fn) effect_accum_init"
  define acc2 where "acc2 = walk_stmts (block_stmts (fd_body fn)) acc1"
  define seen where "seen = visited (Pair True ` set (block_stmts (fd_body fn)))"
  have "marks False (\<exists>p \<in> set (fd_params fn). fp_mutable p) False effect_accum_init acc1"
    unfolding acc1_def by (rule p)
  moreover have "marks (\<exists>m \<in> seen. writes_var m) (\<exists>m \<in> seen. writes_ref m) (\<exists>m \<in> seen. crowds m) acc1 acc2"
    using walk_after(4) [of "block_stmts (fd_body fn)" acc1] unfolding after_walk_def acc2_def seen_def .
  moreover have "(\<exists>m \<in> seen. writes_ref m) \<Longrightarrow> (\<exists>m \<in> seen. writes_var m)" using w by blast
  moreover have "infer_function_effect fn = finalize acc2"
    by (simp add: infer_function_effect_def acc2_def acc1_def)
  ultimately show ?thesis
    unfolding seen_def [symmetric] Let_def by (simp add: finalize_def marks_def effect_accum_init_def) blast
qed

end
