(* ===== verification/Lowering.thy ===== *)
theory Lowering
  imports TypeChecker HashCons
begin

section \<open>Lowering to the graph\<close>

text \<open>
  \<open>frontend/Lowering.hpp\<close> and \<open>Lowering.cpp\<close>: the syntax tree of a function becomes nodes
  of the graph. The state is the class: the graph with its hash-consing table, the current
  control and effect node, and the tables from names to nodes (\<open>h\<close> is the hash of their
  keys). A routine is a function from the state; \<open>None\<close> is a run that leaves the model (a
  table that does not return, an input index out of range), \<open>Inl\<close> an error.
\<close>

type_synonym name_table = "(symbol_id, node_id) swiss"

record lowerer =
  lw_hc :: hash_cons
  lw_ctrl :: node_id
  lw_eff :: node_id
  lw_bindings :: name_table
  lw_params :: name_table

definition lowerer_init :: "graph \<Rightarrow> lowerer" where
  "lowerer_init g = \<lparr>lw_hc = hc_new g, lw_ctrl = kInvalidNodeId, lw_eff = kInvalidNodeId,
     lw_bindings = st_new, lw_params = st_new\<rparr>"

definition reset_function_state :: "lowerer \<Rightarrow> lowerer" where
  "reset_function_state s = s\<lparr>lw_ctrl := kInvalidNodeId, lw_eff := kInvalidNodeId,
     lw_bindings := st_clear (lw_bindings s), lw_params := st_clear (lw_params s)\<rparr>"

type_synonym 'a lm = "lowerer \<Rightarrow> ((diag + 'a) \<times> lowerer) option"

definition lret :: "'a \<Rightarrow> 'a lm" where
  "lret x s = Some (Inr x, s)"

definition lbind :: "'a lm \<Rightarrow> ('a \<Rightarrow> 'b lm) \<Rightarrow> 'b lm" where
  "lbind m f s = (case m s of None \<Rightarrow> None
     | Some (r, s') \<Rightarrow> (case r of Inl e \<Rightarrow> Some (Inl e, s') | Inr x \<Rightarrow> f x s'))"

definition lerr :: "'a lm" where
  "lerr s = Some (Inl (type_error 0 no_span), s)"

definition lget :: "(lowerer \<Rightarrow> 'a) \<Rightarrow> 'a lm" where
  "lget f s = Some (Inr (f s), s)"

definition lmod :: "(lowerer \<Rightarrow> lowerer) \<Rightarrow> unit lm" where
  "lmod f s = Some (Inr (), f s)"

abbreviation lw_graph :: "lowerer \<Rightarrow> graph" where
  "lw_graph s \<equiv> hc_graph (lw_hc s)"

definition set_graph :: "graph \<Rightarrow> lowerer \<Rightarrow> lowerer" where
  "set_graph g s = s\<lparr>lw_hc := (lw_hc s)\<lparr>hc_graph := g\<rparr>\<rparr>"

definition set_flow :: "node_id \<Rightarrow> node_id \<Rightarrow> lowerer \<Rightarrow> lowerer" where
  "set_flow c e s = s\<lparr>lw_ctrl := c, lw_eff := e\<rparr>"

text \<open>Calls of the graph, of the hash-consing table and of the table of bindings.\<close>

definition build :: "(graph \<Rightarrow> 'a \<times> graph) \<Rightarrow> 'a lm" where
  "build f s = (case f (lw_graph s) of (x, g) \<Rightarrow> Some (Inr x, set_graph g s))"

definition edit :: "(graph \<Rightarrow> graph option) \<Rightarrow> unit lm" where
  "edit f s = map_option (\<lambda>g. (Inr (), set_graph g s)) (f (lw_graph s))"

definition cons_node :: "node_kind \<Rightarrow> node_id list \<Rightarrow> node_id lm" where
  "cons_node k ins s = map_option (\<lambda>(i, hc). (Inr i, s\<lparr>lw_hc := hc\<rparr>)) (lookup_or_insert k ins kInvalidTypeId 0 (lw_hc s))"

definition bind_name :: "(symbol_id \<Rightarrow> 64 word) \<Rightarrow> symbol_id \<Rightarrow> node_id \<Rightarrow> unit lm" where
  "bind_name h x i s = map_option (\<lambda>(_, t). (Inr (), s\<lparr>lw_bindings := t\<rparr>)) (st_insert h x i (lw_bindings s))"

definition lookup :: "(symbol_id \<Rightarrow> 64 word) \<Rightarrow> symbol_id \<Rightarrow> lowerer \<Rightarrow> node_id option" where
  "lookup h x s = st_get h (lw_bindings s) x"

definition make_constant_u64 :: "64 word \<Rightarrow> type_id \<Rightarrow> graph \<Rightarrow> node_id \<times> graph" where
  "make_constant_u64 v ty = make_node NK_Constant [] ty v"

text \<open>The value is the bit pattern of the double, as in \<open>FloatLit\<close>.\<close>

definition make_constant_f64 :: "i64 \<Rightarrow> type_id \<Rightarrow> graph \<Rightarrow> node_id \<times> graph" where
  "make_constant_f64 v ty = make_node NK_Constant [] ty v"

subsection \<open>Operators, snapshots and accumulators\<close>

definition binop_to_node_kind :: "token_kind \<Rightarrow> node_kind" where
  "binop_to_node_kind k = (case k of
     T_Plus \<Rightarrow> NK_Add | T_Minus \<Rightarrow> NK_Sub | T_Star \<Rightarrow> NK_Mul | T_Slash \<Rightarrow> NK_Div | T_Percent \<Rightarrow> NK_Mod
   | T_Amp \<Rightarrow> NK_And | T_Pipe \<Rightarrow> NK_Or | T_Caret \<Rightarrow> NK_Xor | T_Shl \<Rightarrow> NK_Shl | T_Shr \<Rightarrow> NK_Shr
   | T_EqEq \<Rightarrow> NK_CmpEq | T_BangEq \<Rightarrow> NK_CmpNe | T_Lt \<Rightarrow> NK_CmpLt | T_LtEq \<Rightarrow> NK_CmpLe
   | T_Gt \<Rightarrow> NK_CmpGt | T_GtEq \<Rightarrow> NK_CmpGe | T_AndAnd \<Rightarrow> NK_And | T_OrOr \<Rightarrow> NK_Or | _ \<Rightarrow> NK_Add)"

definition compound_kind :: "token_kind \<Rightarrow> node_kind" where
  "compound_kind k = (if k = T_PlusEq then NK_Add else if k = T_MinusEq then NK_Sub
     else if k = T_StarEq then NK_Mul else if k = T_SlashEq then NK_Div else binop_to_node_kind k)"

definition unop_to_node_kind :: "token_kind \<Rightarrow> node_kind" where
  "unop_to_node_kind k = (if k = T_Minus then NK_Neg else if k = T_Tilde then NK_BitNot else NK_Not)"

type_synonym snapshot = "(symbol_id \<times> node_id) list"

definition snapshot :: "name_table \<Rightarrow> snapshot" where
  "snapshot t = map the (st_for_each t)"

fun insert_all :: "(symbol_id \<Rightarrow> 64 word) \<Rightarrow> snapshot \<Rightarrow> unit lm" where
  "insert_all h [] = lret ()"
| "insert_all h ((x, i) # xs) = lbind (bind_name h x i) (\<lambda>_. insert_all h xs)"

definition restore :: "(symbol_id \<Rightarrow> 64 word) \<Rightarrow> snapshot \<Rightarrow> unit lm" where
  "restore h xs = lbind (lmod (\<lambda>s. s\<lparr>lw_bindings := st_clear (lw_bindings s)\<rparr>)) (\<lambda>_. insert_all h xs)"

fun snapshot_find :: "symbol_id \<Rightarrow> snapshot \<Rightarrow> node_id option" where
  "snapshot_find x [] = None"
| "snapshot_find x ((y, i) # xs) = (if y = x then Some i else snapshot_find x xs)"

fun merge_bindings :: "(symbol_id \<Rightarrow> 64 word) \<Rightarrow> node_id \<Rightarrow> snapshot \<Rightarrow> snapshot \<Rightarrow> unit lm" where
  "merge_bindings h merge [] after_else = lret ()"
| "merge_bindings h merge ((x, then_val) # xs) after_else =
     (case snapshot_find x after_else of
        Some else_val \<Rightarrow>
          if else_val \<noteq> then_val then
            lbind (build (make_phi merge [then_val, else_val] kInvalidTypeId)) (\<lambda>phi.
            lbind (bind_name h x phi) (\<lambda>_. merge_bindings h merge xs after_else))
          else lbind (bind_name h x then_val) (\<lambda>_. merge_bindings h merge xs after_else)
      | None \<Rightarrow> lbind (bind_name h x then_val) (\<lambda>_. merge_bindings h merge xs after_else))"

text \<open>
  The names a loop body assigns that are bound outside it. The stack of \<open>SmallVector\<close> has
  its top at the end; here the top is the head, so what a node pushes goes on reversed.
\<close>

definition acc_pushes :: "ast \<Rightarrow> ast list" where
  "acc_pushes n = (case n of
     AssignExpr k t v \<Rightarrow> [v]
   | LetStmt x ty init m \<Rightarrow> (case init of Some e \<Rightarrow> [e] | None \<Rightarrow> [])
   | ExprStmt e \<Rightarrow> [e]
   | ReturnStmt v \<Rightarrow> (case v of Some e \<Rightarrow> [e] | None \<Rightarrow> [])
   | IfStmt c t e \<Rightarrow> [c, t] @ (case e of Some b \<Rightarrow> [b] | None \<Rightarrow> [])
   | ForStmt x it b \<Rightarrow> [b]
   | Block ss \<Rightarrow> ss
   | BinaryExpr k a b \<Rightarrow> [a, b]
   | UnaryExpr k a \<Rightarrow> [a]
   | CallExpr c as \<Rightarrow> as
   | _ \<Rightarrow> [])"

definition acc_name :: "(symbol_id \<Rightarrow> bool) \<Rightarrow> ast \<Rightarrow> symbol_id list \<Rightarrow> symbol_id list" where
  "acc_name outer n out = (case n of
     AssignExpr k (Ident x) v \<Rightarrow> if outer x \<and> x \<notin> set out then out @ [x] else out
   | _ \<Rightarrow> out)"

lemma size_acc_pushes: "(\<Sum>m\<leftarrow>acc_pushes n. 2 * size m + 1) \<le> 2 * size n"
proof -
  have "(\<Sum>m\<leftarrow>ns. 2 * size m + 1) \<le> 2 * size_list size ns" for ns :: "ast list" by (induction ns) auto
  then have "(\<Sum>m\<leftarrow>ns. 2 * size m + 1) \<le> Suc (Suc (2 * size_list size ns + k))" for ns :: "ast list" and k
    by (rule le_trans) simp
  from this [where k = 0] this show ?thesis
    by (cases n) (auto simp: acc_pushes_def split: option.splits)
qed

function collect_loop_accumulators :: "(symbol_id \<Rightarrow> bool) \<Rightarrow> ast list \<Rightarrow> symbol_id list \<Rightarrow> symbol_id list" where
  "collect_loop_accumulators outer [] out = out"
| "collect_loop_accumulators outer (n # stack) out =
     collect_loop_accumulators outer (rev (acc_pushes n) @ stack) (acc_name outer n out)"
  by pat_completeness auto

termination
  by (relation "measure (\<lambda>(_, st, _). \<Sum>m\<leftarrow>st. 2 * size m + 1)")
    (use size_acc_pushes in \<open>auto simp: rev_map [symmetric] less_Suc_eq_le\<close>)

subsection \<open>Statements and expressions\<close>

text \<open>
  The routines recurse on the tree alone: their value is a function of the state.
  \<open>accumulator_phis\<close> makes the header phis of a loop and binds the accumulators to them;
  \<open>back_edges\<close> completes them. A statement routine returns \<open>true\<close>, except that an error below
  an expression statement without semicolon is returned as \<open>false\<close>, which every caller
  takes for success (\<open>swallow\<close>).
\<close>

definition swallow :: "'a lm \<Rightarrow> bool lm" where
  "swallow m s = (case m s of None \<Rightarrow> None | Some (r, s') \<Rightarrow> Some (Inr (case r of Inl e \<Rightarrow> False | Inr x \<Rightarrow> True), s'))"

definition value_or_zero :: "node_id option \<Rightarrow> node_id lm" where
  "value_or_zero v = (case v of Some i \<Rightarrow> lret i | None \<Rightarrow> build (make_constant_i64 0 kInvalidTypeId))"

fun accumulator_phis :: "(symbol_id \<Rightarrow> 64 word) \<Rightarrow> node_id \<Rightarrow> symbol_id list \<Rightarrow> (symbol_id \<times> node_id) list lm" where
  "accumulator_phis h loop [] = lret []"
| "accumulator_phis h loop (x # xs) =
     lbind (lget (lookup h x)) (\<lambda>v.
     lbind (value_or_zero v) (\<lambda>entry_val.
     lbind (build (make_phi loop [entry_val, kInvalidNodeId] kInvalidTypeId)) (\<lambda>phi.
     lbind (bind_name h x phi) (\<lambda>_.
     lbind (accumulator_phis h loop xs) (\<lambda>phis. lret ((x, phi) # phis))))))"

fun back_edges :: "(symbol_id \<Rightarrow> 64 word) \<Rightarrow> (symbol_id \<times> node_id) list \<Rightarrow> unit lm" where
  "back_edges h [] = lret ()"
| "back_edges h ((x, phi) # phis) =
     lbind (lget (lookup h x)) (\<lambda>v.
     lbind (value_or_zero v) (\<lambda>back_val.
     lbind (edit (set_input phi 2 back_val)) (\<lambda>_. back_edges h phis)))"

definition assign_name :: "(symbol_id \<Rightarrow> 64 word) \<Rightarrow> (token_kind \<Rightarrow> node_kind) \<Rightarrow> token_kind \<Rightarrow> ast \<Rightarrow> node_id \<Rightarrow> node_id lm" where
  "assign_name h kind_of k target val =
     (case target of
        Ident x \<Rightarrow>
          if k = T_Eq then lbind (bind_name h x val) (\<lambda>_. lret val)
          else lbind (lget (lookup h x)) (\<lambda>cur.
               lbind (value_or_zero cur) (\<lambda>lhs.
               lbind (cons_node (kind_of k) [lhs, val]) (\<lambda>folded.
               lbind (bind_name h x folded) (\<lambda>_. lret folded))))
      | _ \<Rightarrow> lret val)"

definition lower_call :: "ast \<Rightarrow> node_id list \<Rightarrow> node_id lm" where
  "lower_call callee args =
     lbind (lget (\<lambda>s. (lw_ctrl s, lw_eff s))) (\<lambda>(c, e).
     lbind (build (make_call c e (callee_name callee) args kInvalidTypeId Altered)) (\<lambda>call.
     lbind (lmod (\<lambda>s. if n_effect (node_at (lw_graph s) call) \<noteq> Pure then s\<lparr>lw_eff := call\<rparr> else s)) (\<lambda>_.
       build (make_proj call 0 kInvalidTypeId))))"

definition lower_return :: "node_id \<Rightarrow> bool lm" where
  "lower_return val =
     lbind (lget (\<lambda>s. (lw_ctrl s, lw_eff s))) (\<lambda>(c, e).
     lbind (build (make_return c e val)) (\<lambda>_.
     lbind (lmod (set_flow kInvalidNodeId kInvalidNodeId)) (\<lambda>_. lret True)))"

text \<open>
  An \<open>if\<close>: the node and its projections, the then-branch, the else-branch from the same
  names (\<open>lower_else\<close>), the merge of the two (\<open>join_branches\<close>).
\<close>

definition join_branches :: "(symbol_id \<Rightarrow> 64 word) \<Rightarrow> node_id \<Rightarrow> node_id \<Rightarrow> snapshot \<Rightarrow> bool lm" where
  "join_branches h ctrl_then eff_then after_then =
     lbind (lget (\<lambda>s. (lw_ctrl s, lw_eff s, snapshot (lw_bindings s)))) (\<lambda>(ctrl_else, eff_else, after_else).
     lbind (build (make_region [ctrl_then, ctrl_else])) (\<lambda>merge.
     lbind (lmod (set_flow merge (if eff_then \<noteq> kInvalidNodeId then eff_then else eff_else))) (\<lambda>_.
     lbind (merge_bindings h merge after_then after_else) (\<lambda>_. lret True))))"

definition lower_else :: "(symbol_id \<Rightarrow> 64 word) \<Rightarrow> bool lm \<Rightarrow> node_id \<Rightarrow> node_id \<Rightarrow> snapshot \<Rightarrow> bool lm" where
  "lower_else h else_lm false_proj saved_eff before_then =
     lbind (lget (\<lambda>s. (lw_ctrl s, lw_eff s, snapshot (lw_bindings s)))) (\<lambda>(ctrl_then, eff_then, after_then).
     lbind (lmod (set_flow false_proj saved_eff)) (\<lambda>_.
     lbind (restore h before_then) (\<lambda>_.
     lbind else_lm (\<lambda>_. join_branches h ctrl_then eff_then after_then))))"

definition lower_if :: "(symbol_id \<Rightarrow> 64 word) \<Rightarrow> node_id \<Rightarrow> bool lm \<Rightarrow> bool lm \<Rightarrow> bool lm" where
  "lower_if h cond then_lm else_lm =
     lbind (lget (\<lambda>s. (lw_ctrl s, lw_eff s))) (\<lambda>(ctrl, saved_eff).
     lbind (build (make_if ctrl cond)) (\<lambda>if_node.
     lbind (build (make_proj if_node 0 kInvalidTypeId)) (\<lambda>true_proj.
     lbind (build (make_proj if_node 1 kInvalidTypeId)) (\<lambda>false_proj.
     lbind (lmod (set_flow true_proj saved_eff)) (\<lambda>_.
     lbind (lget (\<lambda>s. snapshot (lw_bindings s))) (\<lambda>before_then.
     lbind then_lm (\<lambda>_. lower_else h else_lm false_proj saved_eff before_then)))))))"

text \<open>
  A \<open>for\<close>: the header with its phis and the exit test (\<open>lower_for\<close>), the body with the back
  edges (\<open>close_loop\<close>), the state behind the loop (\<open>leave_loop\<close>).
\<close>

definition leave_loop :: "(symbol_id \<Rightarrow> 64 word) \<Rightarrow> node_id \<Rightarrow> node_id \<Rightarrow> snapshot \<Rightarrow> (symbol_id \<times> node_id) list \<Rightarrow> bool lm" where
  "leave_loop h fproj entry_eff pre_loop acc_phis =
     lbind (lget lw_eff) (\<lambda>body_eff.
     lbind (build (make_phi fproj [entry_eff, body_eff] kInvalidTypeId)) (\<lambda>eff_phi.
     lbind (lmod (set_flow fproj eff_phi)) (\<lambda>_.
     lbind (restore h pre_loop) (\<lambda>_.
     lbind (insert_all h acc_phis) (\<lambda>_. lret True)))))"

definition close_loop :: "(symbol_id \<Rightarrow> 64 word) \<Rightarrow> node_id \<Rightarrow> node_id \<Rightarrow> (symbol_id \<times> node_id) list \<Rightarrow> unit lm" where
  "close_loop h loop phi_i acc_phis =
     lbind (lget lw_ctrl) (\<lambda>body_ctrl.
     if body_ctrl = kInvalidNodeId then lerr else
     lbind (build (make_constant_i64 1 kInvalidTypeId)) (\<lambda>one.
     lbind (cons_node NK_Add [phi_i, one]) (\<lambda>next_i.
     lbind (edit (set_input phi_i 2 next_i)) (\<lambda>_.
     lbind (back_edges h acc_phis) (\<lambda>_.
     lbind (lget lw_ctrl) (\<lambda>ctrl. edit (set_input loop 0 ctrl)))))))"

definition lower_for :: "(symbol_id \<Rightarrow> 64 word) \<Rightarrow> symbol_id \<Rightarrow> ast \<Rightarrow> node_id \<Rightarrow> node_id \<Rightarrow> bool lm \<Rightarrow> bool lm" where
  "lower_for h var body lo hi body_lm =
     lbind (lget (\<lambda>s. snapshot (lw_bindings s))) (\<lambda>pre_loop.
     lbind (lget (\<lambda>s. (lw_ctrl s, lw_eff s))) (\<lambda>(entry, entry_eff).
     lbind (build (make_loop entry entry)) (\<lambda>loop.
     lbind (build (make_phi loop [lo, kInvalidNodeId] kInvalidTypeId)) (\<lambda>phi_i.
     lbind (lget (\<lambda>s. collect_loop_accumulators (\<lambda>x. lookup h x s \<noteq> None) [body] [])) (\<lambda>acc_names.
     lbind (accumulator_phis h loop acc_names) (\<lambda>acc_phis.
     lbind (bind_name h var phi_i) (\<lambda>_.
     lbind (build (make_cmp NK_CmpLt phi_i hi)) (\<lambda>cmp.
     lbind (build (make_if loop cmp)) (\<lambda>ifn.
     lbind (build (make_proj ifn 0 kInvalidTypeId)) (\<lambda>tproj.
     lbind (build (make_proj ifn 1 kInvalidTypeId)) (\<lambda>fproj.
     lbind (lmod (\<lambda>s. s\<lparr>lw_ctrl := tproj\<rparr>)) (\<lambda>_.
     lbind body_lm (\<lambda>_.
     lbind (close_loop h loop phi_i acc_phis) (\<lambda>_. leave_loop h fproj entry_eff pre_loop acc_phis))))))))))))))"

function (sequential) lower_stmt :: "(symbol_id \<Rightarrow> 64 word) \<Rightarrow> ast \<Rightarrow> bool lm"
  and lower_expr :: "(symbol_id \<Rightarrow> 64 word) \<Rightarrow> ast \<Rightarrow> node_id lm"
  and lower_stmts :: "(symbol_id \<Rightarrow> 64 word) \<Rightarrow> ast list \<Rightarrow> bool lm"
  and lower_args :: "(symbol_id \<Rightarrow> 64 word) \<Rightarrow> ast list \<Rightarrow> node_id list lm"
  and lower_block :: "(symbol_id \<Rightarrow> 64 word) \<Rightarrow> ast list \<Rightarrow> node_id \<Rightarrow> node_id lm" where
  "lower_stmt h (LetStmt x ty init is_var) =
     lbind (case init of Some e \<Rightarrow> lower_expr h e | None \<Rightarrow> build (make_constant_i64 0 kInvalidTypeId)) (\<lambda>i.
     lbind (bind_name h x i) (\<lambda>_. lret True))"
| "lower_stmt h (ExprStmt e) = lbind (lower_expr h e) (\<lambda>_. lret True)"
| "lower_stmt h (ReturnStmt v) =
     lbind (case v of Some e \<Rightarrow> lower_expr h e | None \<Rightarrow> build (make_constant_i64 0 kInvalidTypeId)) lower_return"
| "lower_stmt h (IfStmt c t e) =
     lbind (lower_expr h c) (\<lambda>cond.
       lower_if h cond (lower_stmt h t) (case e of Some b \<Rightarrow> lower_stmt h b | None \<Rightarrow> lret True))"
| "lower_stmt h (Block ss) = lower_stmts h ss"
| "lower_stmt h (ForStmt x (RangeExpr lo hi) body) =
     lbind (lower_expr h lo) (\<lambda>l. lbind (lower_expr h hi) (\<lambda>r. lower_for h x body l r (lower_stmt h body)))"
| "lower_stmt h (ForStmt x it body) = lerr"
| "lower_stmt h (AssignExpr k target value) =
     lbind (lower_expr h value) (\<lambda>val. lbind (assign_name h compound_kind k target val) (\<lambda>_. lret True))"
| "lower_stmt h n = swallow (lower_expr h n)"
| "lower_expr h (IntLit v) = build (make_constant_i64 v kInvalidTypeId)"
| "lower_expr h (FloatLit v) = build (make_constant_f64 v kInvalidTypeId)"
| "lower_expr h (BoolLit b) = build (make_constant_u64 (if b then 1 else 0) kInvalidTypeId)"
| "lower_expr h (StrLit x) = build (make_node NK_Constant [] kInvalidTypeId (payload_of_sym x))"
| "lower_expr h (Ident x) =
     lbind (lget (lookup h x)) (\<lambda>v. case v of Some i \<Rightarrow> lret i
       | None \<Rightarrow> build (make_node NK_Parameter [] kInvalidTypeId (payload_of_sym x)))"
| "lower_expr h (BinaryExpr k a b) =
     lbind (lower_expr h a) (\<lambda>l. lbind (lower_expr h b) (\<lambda>r. cons_node (binop_to_node_kind k) [l, r]))"
| "lower_expr h (UnaryExpr k a) = lbind (lower_expr h a) (\<lambda>x. cons_node (unop_to_node_kind k) [x])"
| "lower_expr h (CallExpr callee as) = lbind (lower_args h as) (lower_call callee)"
| "lower_expr h (AssignExpr k target value) =
     lbind (lower_expr h value) (assign_name h binop_to_node_kind k target)"
| "lower_expr h (Block ss) = lower_block h ss kInvalidNodeId"
| "lower_expr h n = build (make_constant_i64 0 kInvalidTypeId)"
| "lower_stmts h [] = lret True"
| "lower_stmts h (x # xs) = lbind (lower_stmt h x) (\<lambda>_. lower_stmts h xs)"
| "lower_args h [] = lret []"
| "lower_args h (x # xs) = lbind (lower_expr h x) (\<lambda>i. lbind (lower_args h xs) (\<lambda>is. lret (i # is)))"
| "lower_block h [] last_id = lret last_id"
| "lower_block h (ExprStmt e # xs) last_id = lbind (lower_expr h e) (\<lambda>i. lower_block h xs i)"
| "lower_block h (x # xs) last_id = lbind (lower_stmt h x) (\<lambda>_. lower_block h xs last_id)"
  by pat_completeness auto

termination
  by (relation "measure (\<lambda>x. case x of
       Inl (Inl (_, n)) \<Rightarrow> 2 * size n + 1 | Inl (Inr (_, n)) \<Rightarrow> 2 * size n
     | Inr (Inl (_, ns)) \<Rightarrow> 2 * size_list size ns + 1
     | Inr (Inr (Inl (_, ns))) \<Rightarrow> 2 * size_list size ns + 1
     | Inr (Inr (Inr (_, ns, _))) \<Rightarrow> 2 * size_list size ns + 1)")
    auto

subsection \<open>Functions and modules\<close>

fun lower_params :: "(symbol_id \<Rightarrow> 64 word) \<Rightarrow> fn_param list \<Rightarrow> unit lm" where
  "lower_params h [] = lret ()"
| "lower_params h (p # ps) =
     lbind (build (make_node NK_Parameter [] kInvalidTypeId (payload_of_sym (fp_name p)))) (\<lambda>i.
     lbind (\<lambda>s. map_option (\<lambda>(_, t). (Inr (), s\<lparr>lw_params := t\<rparr>)) (st_insert h (fp_name p) i (lw_params s))) (\<lambda>_.
     lbind (bind_name h (fp_name p) i) (\<lambda>_. lower_params h ps)))"

definition finish_fn :: "bool lm" where
  "finish_fn =
     lbind (lget (\<lambda>s. (lw_ctrl s, lw_eff s))) (\<lambda>(c, e).
     if c \<noteq> kInvalidNodeId \<and> e \<noteq> kInvalidNodeId then
       lbind (build (make_constant_i64 0 kInvalidTypeId)) (\<lambda>zero. lbind (build (make_return c e zero)) (\<lambda>_. lret True))
     else lret True)"

definition lower_fn :: "(symbol_id \<Rightarrow> 64 word) \<Rightarrow> fn_decl \<Rightarrow> bool lm" where
  "lower_fn h fn =
     lbind (lmod reset_function_state) (\<lambda>_.
     lbind (build (make_proj kStartNodeId 0 kInvalidTypeId)) (\<lambda>c.
     lbind (build (make_proj kStartNodeId 1 kInvalidTypeId)) (\<lambda>e.
     lbind (lmod (set_flow c e)) (\<lambda>_.
     lbind (lower_params h (fd_params fn)) (\<lambda>_.
     lbind (lower_stmts h (block_stmts (fd_body fn))) (\<lambda>_. finish_fn))))))"

fun lower_module :: "(symbol_id \<Rightarrow> 64 word) \<Rightarrow> ast_module \<Rightarrow> bool lm" where
  "lower_module h [] = lret True"
| "lower_module h (FnItem fn # its) = lbind (lower_fn h fn) (\<lambda>_. lower_module h its)"
| "lower_module h (_ # its) = lower_module h its"

end
