(* ===== verification/LowerFacts.thy ===== *)
theory LowerFacts
  imports Lowering
begin

section \<open>What lowering keeps\<close>

subsection \<open>Runs\<close>

text \<open>
  \<open>grows m\<close>: the graph only gets longer. \<open>wl m Q s\<close>: a run of \<open>m\<close> from \<open>s\<close> that stays within
  the 32-bit node ids ends in a value, never in an error, and \<open>Q\<close> holds of the value and the state.
\<close>

abbreviation lw_len :: "lowerer \<Rightarrow> nat" where
  "lw_len s \<equiv> length (g_nodes (lw_graph s))"

definition grows_lm :: "'a lm \<Rightarrow> bool" where
  "grows_lm m \<longleftrightarrow> (\<forall>s r s'. m s = Some (r, s') \<longrightarrow> lw_len s \<le> lw_len s')"

definition wl :: "'a lm \<Rightarrow> ('a \<Rightarrow> lowerer \<Rightarrow> bool) \<Rightarrow> lowerer \<Rightarrow> bool" where
  "wl m Q s \<longleftrightarrow> (\<forall>r s'. m s = Some (r, s') \<longrightarrow> lw_len s' < kInvalidNodeId \<longrightarrow> (\<exists>x. r = Inr x \<and> Q x s'))"

lemma grows_lm_simps:
  "grows_lm (lret x)" "grows_lm (lget f)" "grows_lm lerr"
  by (simp_all add: grows_lm_def lret_def lget_def lerr_def)

lemma grows_lm_lmod: "(\<And>s. lw_len s \<le> lw_len (f s)) \<Longrightarrow> grows_lm (lmod f)"
  by (simp add: grows_lm_def lmod_def)

lemma grows_lm_bind: "grows_lm m \<Longrightarrow> (\<And>x. grows_lm (f x)) \<Longrightarrow> grows_lm (lbind m f)"
  unfolding grows_lm_def lbind_def by (fastforce split: option.splits sum.splits)

lemma set_graph_simps [simp]:
  "lw_graph (set_graph g s) = g" "lw_ctrl (set_graph g s) = lw_ctrl s" "lw_eff (set_graph g s) = lw_eff s"
  "lw_bindings (set_graph g s) = lw_bindings s" "lw_params (set_graph g s) = lw_params s"
  "hc_table (lw_hc (set_graph g s)) = hc_table (lw_hc s)" "lookup h x (set_graph g s) = lookup h x s"
  by (simp_all add: set_graph_def lookup_def)

lemma set_flow_simps [simp]:
  "lw_hc (set_flow c e s) = lw_hc s" "lw_ctrl (set_flow c e s) = c" "lw_eff (set_flow c e s) = e"
  "lw_bindings (set_flow c e s) = lw_bindings s" "lw_params (set_flow c e s) = lw_params s" "lookup h x (set_flow c e s) = lookup h x s"
  by (simp_all add: set_flow_def lookup_def)

text \<open>The makers of nodes all append one node.\<close>

definition maker :: "(graph \<Rightarrow> node_id \<times> graph) \<Rightarrow> node \<Rightarrow> bool" where
  "maker f n \<longleftrightarrow> (\<forall>g. f g = add_node n g)"

abbreviation plain_node :: "node_kind \<Rightarrow> i64 \<Rightarrow> node_id list \<Rightarrow> node" where
  "plain_node k p ins \<equiv> \<lparr>n_kind = k, n_effect = effect_class_of k, n_flags = 0, n_type = kInvalidTypeId, n_payload = p, n_inputs = ins\<rparr>"

lemma maker_simps:
  "maker (make_node k ins kInvalidTypeId p) (plain_node k p ins)"
  "maker (make_constant_i64 v kInvalidTypeId) (plain_node NK_Constant v [])"
  "maker (make_constant_u64 v kInvalidTypeId) (plain_node NK_Constant v [])"
  "maker (make_constant_f64 v kInvalidTypeId) (plain_node NK_Constant v [])"
  "maker (make_proj i w kInvalidTypeId) (plain_node NK_Proj (of_nat (u32 w)) [i])"
  "maker (make_if c d) (plain_node NK_If 0 [c, d])"
  "maker (make_cmp k a b) (plain_node k 0 [a, b])"
  "maker (make_region ps) (plain_node NK_Region 0 ps)"
  "maker (make_loop a b) (plain_node NK_Loop 0 [b, a])"
  "maker (make_phi r vs kInvalidTypeId) (plain_node NK_Phi 0 (r # vs))"
  "maker (make_return c e x) (plain_node NK_Return 0 [c, e, x])"
  "maker (make_call c e f as kInvalidTypeId Altered) (plain_node NK_CallAltered (payload_of_sym f) (c # e # as))"
  by (simp_all add: maker_def make_node_def make_constant_i64_def make_constant_u64_def make_constant_f64_def make_proj_def
    make_if_def make_cmp_def make_region_def make_loop_def make_phi_def make_return_def make_call_def call_kind_def)

lemma grows_build: "maker f n \<Longrightarrow> grows_lm (build f)"
  by (auto simp: grows_lm_def build_def maker_def split: prod.splits) (metis add_node_nodes length_append le_add1 snd_conv)

lemma grows_edit: "grows_lm (edit (set_input n i j))"
  by (auto simp: grows_lm_def edit_def set_input_def Let_def split: if_splits)

lemma grows_cons: "grows_lm (cons_node k ins)"
  unfolding grows_lm_def cons_node_def lookup_or_insert_def
  by (auto simp: Let_def make_node_def split: option.splits prod.splits) (metis add_node_nodes length_append le_add1 snd_conv)

lemma grows_bind_name: "grows_lm (bind_name h x i)"
  by (auto simp: grows_lm_def bind_name_def)

lemmas grows_rules = grows_lm_simps grows_lm_lmod grows_lm_bind grows_edit grows_cons grows_bind_name
  maker_simps [THEN grows_build]

lemma grows_value_or_zero: "grows_lm (value_or_zero v)"
  by (cases v) (simp_all add: value_or_zero_def grows_rules)

lemma grows_insert_all: "grows_lm (insert_all h xs)"
  by (induction h xs rule: insert_all.induct) (auto intro!: grows_rules)

lemma grows_restore: "grows_lm (restore h xs)"
  unfolding restore_def by (intro grows_rules grows_insert_all) simp

lemma grows_merge: "grows_lm (merge_bindings h m xs ys)"
  by (induction h m xs ys rule: merge_bindings.induct) (auto intro!: grows_rules split: option.splits)

lemma grows_accs: "grows_lm (accumulator_phis h l xs)"
  by (induction h l xs rule: accumulator_phis.induct) (auto intro!: grows_rules grows_value_or_zero)

lemma grows_back: "grows_lm (back_edges h xs)"
  by (induction h xs rule: back_edges.induct) (auto intro!: grows_rules grows_value_or_zero)

lemma grows_swallow: "grows_lm m \<Longrightarrow> grows_lm (swallow m)"
  by (auto simp: grows_lm_def swallow_def split: option.splits)

lemma grows_assign: "grows_lm (assign_name h f k t v)"
  by (cases t) (auto simp: assign_name_def intro!: grows_rules grows_value_or_zero)

lemmas grows_more = grows_rules grows_value_or_zero grows_insert_all grows_restore grows_merge grows_accs grows_back grows_swallow
  grows_assign

lemma grows_split: "(\<And>a b. grows_lm (f a b)) \<Longrightarrow> grows_lm (case x of (a, b) \<Rightarrow> f a b)"
  by (cases x) simp

lemma grows_cond: "grows_lm a \<Longrightarrow> grows_lm b \<Longrightarrow> grows_lm (if c then a else b)"
  by simp

lemmas grows_all = grows_more grows_split grows_cond

lemma grows_return: "grows_lm (lower_return v)"
  unfolding lower_return_def by (intro grows_all) simp

lemma grows_call: "grows_lm (lower_call c as)"
  unfolding lower_call_def by (intro grows_all) simp

lemma grows_join: "grows_lm (join_branches h c e xs)"
  unfolding join_branches_def by (intro grows_all) simp

lemma grows_else: "grows_lm m \<Longrightarrow> grows_lm (lower_else h m c e xs)"
  unfolding lower_else_def by (intro grows_all grows_join) simp

lemma grows_if: "grows_lm m1 \<Longrightarrow> grows_lm m2 \<Longrightarrow> grows_lm (lower_if h c m1 m2)"
  unfolding lower_if_def by (intro grows_all grows_else) simp

lemma grows_leave: "grows_lm (leave_loop h c e xs ys)"
  unfolding leave_loop_def by (intro grows_all) simp

lemma grows_close: "grows_lm (close_loop h l i xs)"
  unfolding close_loop_def by (intro grows_all)

lemma grows_for: "grows_lm m \<Longrightarrow> grows_lm (lower_for h x b lo hi m)"
  unfolding lower_for_def by (intro grows_all grows_close grows_leave) simp

lemma grows_lower:
  "grows_lm (lower_stmt h n)" "grows_lm (lower_expr h n)" "grows_lm (lower_stmts h ns)"
  "grows_lm (lower_args h ns)" "grows_lm (lower_block h ns l)"
proof (induction h n and h n and h ns and h ns and h ns l rule: lower_stmt_lower_expr_lower_stmts_lower_args_lower_block.induct)
qed (auto intro!: grows_all grows_return grows_call grows_if grows_for split: option.splits)

lemma grows_params: "grows_lm (lower_params h ps)"
proof (induction h ps rule: lower_params.induct)
  case (2 h p ps)
  have "grows_lm (\<lambda>s. map_option (\<lambda>(_, t). (Inr (), s\<lparr>lw_params := t\<rparr>)) (st_insert h (fp_name p) i (lw_params s)))" for i
    by (auto simp: grows_lm_def)
  with 2 show ?case by (auto intro!: grows_all)
qed (simp add: grows_rules)

lemma grows_finish: "grows_lm finish_fn"
  unfolding finish_fn_def by (intro grows_all)

subsection \<open>Rules for runs\<close>

lemma wlI: "(\<And>r s'. m s = Some (r, s') \<Longrightarrow> lw_len s' < kInvalidNodeId \<Longrightarrow> \<exists>x. r = Inr x \<and> Q x s') \<Longrightarrow> wl m Q s"
  by (simp add: wl_def)

lemma wl_bind:
  assumes "\<And>x. grows_lm (f x)" "wl m (\<lambda>x. wl (f x) Q) s"
  shows "wl (lbind m f) Q s"
proof (rule wlI)
  fix r s' assume r: "lbind m f s = Some (r, s')" and l: "lw_len s' < kInvalidNodeId"
  then obtain r1 s1 where m: "m s = Some (r1, s1)" by (auto simp: lbind_def split: option.splits)
  show "\<exists>x. r = Inr x \<and> Q x s'"
  proof (cases r1)
    case (Inl e)
    with r m l assms(2) show ?thesis by (auto simp: lbind_def wl_def)
  next
    case (Inr x)
    with r m have f: "f x s1 = Some (r, s')" by (simp add: lbind_def)
    with assms(1) [of x] have "lw_len s1 \<le> lw_len s'" by (auto simp: grows_lm_def)
    with l m Inr assms(2) have "wl (f x) Q s1" by (auto simp: wl_def)
    with f l show ?thesis by (auto simp: wl_def)
  qed
qed

lemma wl_mono: "wl m Q s \<Longrightarrow> (\<And>x s'. Q x s' \<Longrightarrow> R x s') \<Longrightarrow> wl m R s"
  unfolding wl_def by blast

lemma wl_conj: "wl m Q s \<Longrightarrow> wl m R s \<Longrightarrow> wl m (\<lambda>x s'. Q x s' \<and> R x s') s"
  unfolding wl_def by fastforce

lemma wl_simps [simp]:
  "wl (lret x) Q s \<longleftrightarrow> (lw_len s < kInvalidNodeId \<longrightarrow> Q x s)"
  "wl (lget f) P s \<longleftrightarrow> (lw_len s < kInvalidNodeId \<longrightarrow> P (f s) s)"
  "wl (lmod g) R s \<longleftrightarrow> (lw_len (g s) < kInvalidNodeId \<longrightarrow> R () (g s))"
  by (auto simp: wl_def lret_def lget_def lmod_def)

lemma wl_state [simp]:
  "wl (lbind (lret x) f1) Q s = wl (f1 x) Q s"
  "wl (lbind (lget f) f2) Q s = wl (f2 (f s)) Q s"
  "wl (lbind (lmod g) f3) Q s = wl (f3 ()) Q (g s)"
  by (simp_all add: wl_def lbind_def lret_def lget_def lmod_def)

text \<open>
  The same with the growth of the rest as the last premise, which \<open>grows_all\<close> discharges.
\<close>

lemma wl_bindE: "wl m (\<lambda>x. wl (f x) Q) s \<Longrightarrow> (\<And>x. grows_lm (f x)) \<Longrightarrow> wl (lbind m f) Q s"
  by (rule wl_bind)

lemma wl_swallow: "wl m (\<lambda>x. Q True) s \<Longrightarrow> wl (swallow m) Q s"
  unfolding wl_def swallow_def by (fastforce split: option.splits)

lemma wl_build:
  assumes "maker f n" "lw_len s < kInvalidNodeId \<Longrightarrow> Suc (lw_len s) < kInvalidNodeId \<Longrightarrow> Q (lw_len s) (set_graph (snd (add_node n (lw_graph s))) s)"
  shows "wl (build f) Q s"
proof (rule wlI)
  fix r s' assume "build f s = Some (r, s')" "lw_len s' < kInvalidNodeId"
  with assms(1) have b: "r = Inr (fst (add_node n (lw_graph s)))" "s' = set_graph (snd (add_node n (lw_graph s))) s"
    by (auto simp: build_def maker_def split: prod.splits)
  with \<open>lw_len s' < kInvalidNodeId\<close> have l: "Suc (lw_len s) < kInvalidNodeId" by simp
  then have "fst (add_node n (lw_graph s)) = lw_len s" by (simp add: add_node_def Let_def kInvalidNodeId_def)
  with b l assms(2) show "\<exists>x. r = Inr x \<and> Q x s'" by simp
qed

lemmas wl_makers = maker_simps [THEN wl_build]

subsection \<open>The invariant\<close>

text \<open>
  \<open>linv L h s\<close>: the tables and the graph are consistent, what they name exists, and no node
  is flagged. With \<open>L\<close> (functions without loops and calls) moreover every node is pure, every
  phi hangs off a merge, and a node only has older nodes as inputs (\<open>ordered\<close>; the input of a
  merge behind a \<open>return\<close> is the invalid id).
\<close>

definition cons_kinds :: "node_kind set" where
  "cons_kinds = {NK_Add, NK_Sub, NK_Mul, NK_Div, NK_Mod, NK_And, NK_Or, NK_Xor, NK_Shl, NK_Shr,
     NK_CmpEq, NK_CmpNe, NK_CmpLt, NK_CmpLe, NK_CmpGt, NK_CmpGe, NK_Not, NK_Neg, NK_BitNot}"

definition cons_arity :: "node_kind \<Rightarrow> nat" where
  "cons_arity k = (if k \<in> {NK_Not, NK_Neg, NK_BitNot} then 1 else 2)"

definition cons_ok :: "node \<Rightarrow> bool" where
  "cons_ok n \<longleftrightarrow> n_kind n \<in> cons_kinds \<and> length (n_inputs n) = cons_arity (n_kind n) \<and> kInvalidNodeId \<notin> set (n_inputs n)"

definition names :: "(symbol_id \<Rightarrow> 64 word) \<Rightarrow> lowerer \<Rightarrow> symbol_id set" where
  "names h s = {x. lookup h x s \<noteq> None}"

definition merge_kind :: "node_kind \<Rightarrow> bool" where
  "merge_kind k \<longleftrightarrow> k = NK_Region \<or> k = NK_Loop"

definition value_node :: "lowerer \<Rightarrow> node_id \<Rightarrow> bool" where
  "value_node s i \<longleftrightarrow> i < lw_len s \<and> \<not> merge_kind (n_kind (node_at (lw_graph s) i))"

definition ordered :: "graph \<Rightarrow> bool" where
  "ordered g \<longleftrightarrow> (\<forall>i < length (g_nodes g). \<forall>j \<in> set (n_inputs (node_at g i)). j < i \<or> j = kInvalidNodeId)"

definition linv :: "bool \<Rightarrow> (symbol_id \<Rightarrow> 64 word) \<Rightarrow> lowerer \<Rightarrow> bool" where
  "linv L h s \<longleftrightarrow>
     st_ok gvn_key_hash (hc_table (lw_hc s)) \<and> st_ok h (lw_bindings s) \<and> st_ok h (lw_params s)
   \<and> graph_wf (lw_graph s)
   \<and> (\<forall>k i. st_get gvn_key_hash (hc_table (lw_hc s)) k = Some i \<longrightarrow>
        i < lw_len s \<and> node_key (node_at (lw_graph s) i) = k \<and> cons_ok (node_at (lw_graph s) i))
   \<and> (\<forall>x i. lookup h x s = Some i \<longrightarrow> value_node s i)
   \<and> id_ok (lw_graph s) (lw_ctrl s) \<and> id_ok (lw_graph s) (lw_eff s)
   \<and> (\<forall>n \<in> set (g_nodes (lw_graph s)). n_flags n = 0)
   \<and> (L \<longrightarrow> (\<forall>n \<in> set (g_nodes (lw_graph s)). node_is_pure n) \<and> phis_ok (lw_graph s) \<and> ordered (lw_graph s))"

definition pars :: "lowerer \<Rightarrow> node list" where
  "pars s = filter (\<lambda>n. n_kind n = NK_Parameter) (g_nodes (lw_graph s))"

text \<open>\<open>lstep\<close>: what every step keeps of the graph and of the names.\<close>

definition lstep :: "(symbol_id \<Rightarrow> 64 word) \<Rightarrow> lowerer \<Rightarrow> lowerer \<Rightarrow> bool" where
  "lstep h s s' \<longleftrightarrow> lw_len s \<le> lw_len s' \<and> pars s' = pars s
     \<and> (\<forall>i < lw_len s. n_kind (node_at (lw_graph s') i) = n_kind (node_at (lw_graph s) i))"

lemma lstep_refl [simp]: "lstep h s s"
  by (simp add: lstep_def)

lemma lstep_trans: "lstep h s1 s2 \<Longrightarrow> lstep h s2 s3 \<Longrightarrow> lstep h s1 s3"
  by (auto simp: lstep_def)

lemma value_node_step: "value_node s i \<Longrightarrow> lstep h s s' \<Longrightarrow> value_node s' i"
  by (auto simp: value_node_def lstep_def)

lemma is_merge_kind: "is_merge g r \<longleftrightarrow> r < length (g_nodes g) \<and> merge_kind (n_kind (node_at g r))"
  by (auto simp: is_merge_def merge_kind_def)

lemma no_flags: "n_flags n = 0 \<Longrightarrow> \<not> node_has n b"
  by (simp add: flags_has_def)

lemma linv_live: "linv L h s \<Longrightarrow> live_at (lw_graph s) i \<longleftrightarrow> i < lw_len s"
  unfolding linv_def live_at_def using no_flags nth_mem by metis

subsection \<open>Appending a node\<close>

definition append_node :: "node \<Rightarrow> lowerer \<Rightarrow> lowerer" where
  "append_node n s = set_graph (snd (add_node n (lw_graph s))) s"

lemma append_node_simps [simp]:
  "g_nodes (lw_graph (append_node n s)) = g_nodes (lw_graph s) @ [n]"
  "lw_ctrl (append_node n s) = lw_ctrl s" "lw_eff (append_node n s) = lw_eff s"
  "lw_bindings (append_node n s) = lw_bindings s" "lw_params (append_node n s) = lw_params s"
  "hc_table (lw_hc (append_node n s)) = hc_table (lw_hc s)" "lookup h x (append_node n s) = lookup h x s"
  "names h (append_node n s) = names h s"
  by (simp_all add: append_node_def names_def)

definition new_ok :: "bool \<Rightarrow> lowerer \<Rightarrow> node \<Rightarrow> bool" where
  "new_ok L s n \<longleftrightarrow> n_flags n = 0 \<and> n_kind n \<noteq> NK_Parameter \<and> (\<forall>i \<in> set (n_inputs n). id_ok (lw_graph s) i)
     \<and> (L \<longrightarrow> node_is_pure n \<and> (n_kind n = NK_Phi \<longrightarrow> (case n_inputs n of [] \<Rightarrow> False
          | r # vals \<Rightarrow> is_merge (lw_graph s) r \<and> vals \<noteq> [] \<and> (\<forall>x \<in> set vals. value_node s x))))"

lemma append_node_step: "n_kind n \<noteq> NK_Parameter \<Longrightarrow> lstep h s (append_node n s)"
  by (simp add: lstep_def pars_def nth_append)

lemma phi_shape_append:
  assumes "graph_wf g" "phi_shape g i" "i < length (g_nodes g)"
  shows "phi_shape (snd (add_node n g)) i"
  using assms by (auto simp: phi_shape_def is_merge_kind nth_append split: list.splits)

lemma append_node_linv_graph:
  assumes wf: "graph_wf (lw_graph s)" and len: "Suc (lw_len s) < kInvalidNodeId"
    and ids: "\<forall>i \<in> set (n_inputs n). id_ok (lw_graph s) i"
  shows "graph_wf (lw_graph (append_node n s))"
  using add_node_wf [OF wf _ ids] len by (simp add: append_node_def)

lemma append_node_linv:
  assumes inv: "linv L h s" and len: "Suc (lw_len s) < kInvalidNodeId" and n: "n_flags n = 0" "\<forall>i \<in> set (n_inputs n). id_ok (lw_graph s) i"
    and L: "L \<Longrightarrow> node_is_pure n \<and> (n_kind n = NK_Phi \<longrightarrow> (case n_inputs n of [] \<Rightarrow> False
          | r # vals \<Rightarrow> is_merge (lw_graph s) r \<and> vals \<noteq> [] \<and> (\<forall>x \<in> set vals. value_node s x)))"
  shows "linv L h (append_node n s)"
proof -
  let ?s = "append_node n s" and ?g = "lw_graph s"
  have wf: "graph_wf ?g" using inv by (simp add: linv_def)
  have vn: "value_node ?s i" if "value_node s i" for i using that by (auto simp: value_node_def nth_append)
  have "phis_ok (lw_graph ?s)" if l: L
  proof -
    have "phis_ok ?g" using inv l by (simp add: linv_def)
    have sh: "phi_shape (lw_graph ?s) i" if i: "i < lw_len s" "n_kind (node_at ?g i) = NK_Phi" for i
    proof -
      have "live_at ?g i" using linv_live [OF inv] i by simp
      then have "phi_shape ?g i" using \<open>phis_ok ?g\<close> i(2) by (auto simp: phis_ok_def)
      from phi_shape_append [OF wf this i(1)] show ?thesis by (simp add: append_node_def)
    qed
    have "phi_shape (lw_graph ?s) (lw_len s)" if k: "n_kind n = NK_Phi"
    proof (cases "n_inputs n")
      case Nil
      with L [OF l] k show ?thesis by simp
    next
      case (Cons r vals)
      with L [OF l] k have "is_merge ?g r" "vals \<noteq> []" "\<forall>x \<in> set vals. value_node s x" by simp_all
      with Cons show ?thesis by (auto simp: phi_shape_def is_merge_kind value_node_def nth_append)
    qed
    with sh show ?thesis by (auto simp: phis_ok_def live_at_def nth_append less_Suc_eq)
  qed
  moreover have "ordered (lw_graph ?s)" if L
    using inv that n(2) by (auto simp: linv_def ordered_def id_ok_def nth_append less_Suc_eq)
  moreover have "graph_wf (lw_graph ?s)" by (rule append_node_linv_graph [OF wf len n(2)])
  moreover have "\<forall>k i. st_get gvn_key_hash (hc_table (lw_hc ?s)) k = Some i \<longrightarrow>
        i < lw_len ?s \<and> node_key (node_at (lw_graph ?s) i) = k \<and> cons_ok (node_at (lw_graph ?s) i)"
  proof (intro allI impI)
    fix k i assume "st_get gvn_key_hash (hc_table (lw_hc ?s)) k = Some i"
    then have "i < lw_len s \<and> node_key (node_at ?g i) = k \<and> cons_ok (node_at ?g i)" using inv by (simp add: linv_def)
    then show "i < lw_len ?s \<and> node_key (node_at (lw_graph ?s) i) = k \<and> cons_ok (node_at (lw_graph ?s) i)"
      by (simp add: nth_append)
  qed
  ultimately show ?thesis
    using inv n L vn unfolding linv_def by (auto simp: id_ok_def)
qed

definition same_flow :: "lowerer \<Rightarrow> lowerer \<Rightarrow> bool" where
  "same_flow s s' \<longleftrightarrow> lw_ctrl s' = lw_ctrl s \<and> lw_eff s' = lw_eff s"

lemma wl_new:
  assumes m: "maker f n" and inv: "linv L h s" and n: "new_ok L s n"
    and Q: "\<And>s'. s' = append_node n s \<Longrightarrow> linv L h s' \<Longrightarrow> lstep h s s' \<Longrightarrow> Suc (lw_len s) < kInvalidNodeId \<Longrightarrow> Q (lw_len s) s'"
  shows "wl (build f) Q s"
proof (rule wl_build [OF m])
  assume l: "Suc (lw_len s) < kInvalidNodeId"
  have "linv L h (append_node n s)" using n by (intro append_node_linv [OF inv l]) (auto simp: new_ok_def)
  moreover have "lstep h s (append_node n s)" using n by (intro append_node_step) (simp add: new_ok_def)
  ultimately show "Q (lw_len s) (set_graph (snd (add_node n (lw_graph s))) s)"
    using Q l by (simp add: append_node_def)
qed

lemmas wl_news = maker_simps [THEN wl_new]

lemma lookup_or_insert_cases:
  assumes "lookup_or_insert k ins ty p hc = Some (i, hc')"
  obtains (old) "st_get gvn_key_hash (hc_table hc) (hc_key k ins ty p) = Some i" "hc' = hc"
  | (new) b t where "st_get gvn_key_hash (hc_table hc) (hc_key k ins ty p) = None" "i = fst (make_node k ins ty p (hc_graph hc))"
      "st_insert gvn_key_hash (hc_key k ins ty p) i (hc_table hc) = Some (b, t)"
      "hc' = \<lparr>hc_graph = snd (make_node k ins ty p (hc_graph hc)), hc_table = t\<rparr>"
  using assms that by (auto simp: lookup_or_insert_def Let_def split_beta split: option.splits)

lemma cons_kinds_facts:
  "k \<in> cons_kinds \<Longrightarrow> effect_class_of k = Pure \<and> k \<noteq> NK_Parameter \<and> k \<noteq> NK_Phi \<and> k \<noteq> NK_Loop \<and> \<not> merge_kind k
     \<and> k \<noteq> NK_Constant \<and> k \<notin> set free_kinds"
  by (auto simp: cons_kinds_def merge_kind_def free_kinds_def)

lemma st_put:
  assumes "st_ok h t" "st_insert h k v t = Some (b, t')"
  shows "st_ok h t'" "st_get h t' = (st_get h t)(k \<mapsto> v)"
  using sw.put_ok [OF assms(1), of k v] assms(2) by auto

text \<open>What a hash-consed request gives: a node of the requested key, new or not.\<close>

definition consed :: "node_kind \<Rightarrow> node_id list \<Rightarrow> lowerer \<Rightarrow> node_id \<Rightarrow> lowerer \<Rightarrow> bool" where
  "consed k ins s i s' \<longleftrightarrow> (s' = s \<or> g_nodes (lw_graph s') = g_nodes (lw_graph s) @ [plain_node k 0 ins])
     \<and> i < lw_len s' \<and> node_key (node_at (lw_graph s') i) = hc_key k ins kInvalidTypeId 0
     \<and> cons_ok (node_at (lw_graph s') i) \<and> same_flow s s' \<and> lw_bindings s' = lw_bindings s"

lemma wl_cons:
  assumes inv: "linv L h s" and k: "k \<in> cons_kinds" "length ins = cons_arity k" and ids: "\<forall>i \<in> set ins. i < lw_len s"
    and Q: "\<And>i s'. linv L h s' \<Longrightarrow> lstep h s s' \<Longrightarrow> consed k ins s i s' \<Longrightarrow> value_node s' i \<Longrightarrow> Q i s'"
  shows "wl (cons_node k ins) Q s"
proof (rule wlI)
  fix r s' assume r: "cons_node k ins s = Some (r, s')" and l: "lw_len s' < kInvalidNodeId"
  let ?key = "hc_key k ins kInvalidTypeId 0" and ?n = "plain_node k 0 ins"
  from r obtain i hc where li: "lookup_or_insert k ins kInvalidTypeId 0 (lw_hc s) = Some (i, hc)"
    and rs: "r = Inr i" "s' = s\<lparr>lw_hc := hc\<rparr>" by (auto simp: cons_node_def)
  note kf = cons_kinds_facts [OF k(1)]
  from li show "\<exists>x. r = Inr x \<and> Q x s'"
  proof (cases rule: lookup_or_insert_cases)
    case old
    then have s: "s' = s" using rs by simp
    have i: "i < lw_len s \<and> node_key (node_at (lw_graph s) i) = ?key \<and> cons_ok (node_at (lw_graph s) i)"
      using inv old(1) by (simp add: linv_def)
    then have "value_node s i" using cons_kinds_facts by (auto simp: value_node_def cons_ok_def)
    with i inv have "Q i s" by (intro Q) (simp_all add: consed_def same_flow_def)
    with rs s show ?thesis by simp
  next
    case (new b t)
    have g: "hc_graph hc = snd (add_node ?n (lw_graph s))" using new by (simp add: make_node_def)
    have l': "Suc (lw_len s) < kInvalidNodeId" using l rs g by simp
    have nv: "kInvalidNodeId \<notin> set ins" using ids l' by auto
    have i: "i = lw_len s" using new(2) l' by (simp add: make_node_def add_node_def Let_def kInvalidNodeId_def)
    have a: "linv L h (append_node ?n s)"
      using ids kf by (intro append_node_linv [OF inv l']) (auto simp: node_is_pure_def id_ok_def)
    have tab: "hc_table hc = t" "st_ok gvn_key_hash t" "st_get gvn_key_hash t = (st_get gvn_key_hash (hc_table (lw_hc s)))(?key \<mapsto> i)"
      using new inv st_put [of gvn_key_hash "hc_table (lw_hc s)" ?key i b t] by (simp_all add: linv_def)
    have nodes: "g_nodes (lw_graph s') = g_nodes (lw_graph s) @ [?n]" using rs g by simp
    have "node_key ?n = ?key" by (simp add: node_key_def)
    then have entries: "st_get gvn_key_hash (hc_table (lw_hc s')) k' = Some j \<Longrightarrow>
        j < lw_len s' \<and> node_key (node_at (lw_graph s') j) = k' \<and> cons_ok (node_at (lw_graph s') j)" for k' j
    proof (cases "k' = ?key")
      case False
      assume "st_get gvn_key_hash (hc_table (lw_hc s')) k' = Some j"
      with False have "st_get gvn_key_hash (hc_table (lw_hc s)) k' = Some j" using rs tab by simp
      with inv have "j < lw_len s \<and> node_key (node_at (lw_graph s) j) = k' \<and> cons_ok (node_at (lw_graph s) j)" by (simp add: linv_def)
      then show ?thesis by (simp add: nodes nth_append)
    next
      case True
      assume "st_get gvn_key_hash (hc_table (lw_hc s')) k' = Some j"
      with True have "j = i" using rs tab by simp
      with True k i nv \<open>node_key ?n = ?key\<close> show ?thesis by (simp add: nodes cons_ok_def)
    qed
    have inv': "linv L h s'"
      using a entries rs tab g unfolding linv_def value_node_def by (simp add: append_node_def lookup_def)
    moreover have "lstep h s s'" using kf by (simp add: lstep_def pars_def nodes nth_append)
    moreover have c: "consed k ins s i s'"
    proof -
      have "same_flow s s'" "lw_bindings s' = lw_bindings s" using rs by (simp_all add: same_flow_def)
      then show ?thesis using i k nv by (simp add: consed_def nodes cons_ok_def node_key_def)
    qed
    moreover have "value_node s' i" using i kf by (simp add: value_node_def nodes)
    ultimately show ?thesis using Q rs by blast
  qed
qed

lemma wl_bind_name:
  assumes inv: "linv L h s" and i: "value_node s i"
    and Q: "\<And>s'. linv L h s' \<Longrightarrow> lstep h s s' \<Longrightarrow> lw_hc s' = lw_hc s \<Longrightarrow> same_flow s s'
      \<Longrightarrow> (\<And>y. lookup h y s' = (if y = x then Some i else lookup h y s)) \<Longrightarrow> Q () s'"
  shows "wl (bind_name h x i) Q s"
proof (rule wlI)
  fix r s' assume "bind_name h x i s = Some (r, s')"
  then obtain b t where t: "st_insert h x i (lw_bindings s) = Some (b, t)" "r = Inr ()" "s' = s\<lparr>lw_bindings := t\<rparr>"
    by (auto simp: bind_name_def)
  have ok: "st_ok h t" "st_get h t = (st_get h (lw_bindings s))(x \<mapsto> i)"
    using st_put [OF _ t(1)] inv by (simp_all add: linv_def)
  have lk: "lookup h y s' = (if y = x then Some i else lookup h y s)" for y using ok t by (simp add: lookup_def)
  have "linv L h s'" using inv ok lk i t by (auto simp: linv_def value_node_def)
  with lk t show "\<exists>x. r = Inr x \<and> Q x s'" by (auto intro!: Q simp: lstep_def pars_def same_flow_def)
qed

lemma set_input_kinds:
  assumes "set_input n j x g = Some g'"
  shows "length (g_nodes g') = length (g_nodes g)"
    and "i < length (g_nodes g) \<Longrightarrow> n_kind (node_at g' i) = n_kind (node_at g i) \<and> n_flags (node_at g' i) = n_flags (node_at g i)
      \<and> (i \<noteq> n \<longrightarrow> node_at g' i = node_at g i)"
proof -
  let ?f = "\<lambda>nd. nd\<lparr>n_inputs := (n_inputs nd)[j := x]\<rparr>"
  have g: "g_nodes g' = g_nodes g \<or> g_nodes g' = g_nodes (update_node n ?f g)"
    using assms by (auto simp: set_input_def Let_def split: if_splits)
  then show "length (g_nodes g') = length (g_nodes g)" by (metis update_node_simps(1))
  assume i: "i < length (g_nodes g)"
  have "node_at g' i = node_at g i \<or> node_at g' i = node_at (update_node n ?f g) i" using g by metis
  then have "node_at g' i = node_at g i \<or> (i = n \<and> node_at g' i = ?f (node_at g n))"
    unfolding node_at_update [OF i] by (cases "i = n") simp_all
  then show "n_kind (node_at g' i) = n_kind (node_at g i) \<and> n_flags (node_at g' i) = n_flags (node_at g i)
      \<and> (i \<noteq> n \<longrightarrow> node_at g' i = node_at g i)" by (elim disjE conjE) simp_all
qed

lemma filter_kinds_eq:
  assumes "length xs = length ys" "\<And>i. i < length xs \<Longrightarrow> n_kind (xs ! i) = n_kind (ys ! i) \<and> (n_kind (xs ! i) = k \<longrightarrow> xs ! i = ys ! i)"
  shows "filter (\<lambda>n. n_kind n = k) xs = filter (\<lambda>n. n_kind n = k) ys"
proof -
  have "list_all2 (\<lambda>x y. n_kind x = n_kind y \<and> (n_kind x = k \<longrightarrow> x = y)) xs ys"
    unfolding list_all2_conv_all_nth using assms by blast
  then show ?thesis
  proof (induction xs ys rule: list_all2_induct)
    case (Cons x xs y ys)
    then show ?case by (cases "n_kind x = k") simp_all
  qed simp
qed

lemma wl_set_input:
  assumes inv: "linv False h s" and n: "n < lw_len s" "n_kind (node_at (lw_graph s) n) \<in> {NK_Phi, NK_Loop}" and x: "id_ok (lw_graph s) x"
    and Q: "\<And>s'. linv False h s' \<Longrightarrow> lstep h s s' \<Longrightarrow> same_flow s s' \<Longrightarrow> (\<And>y. lookup h y s' = lookup h y s) \<Longrightarrow> Q () s'"
  shows "wl (edit (set_input n j x)) Q s"
proof (rule wlI)
  fix r s' assume "edit (set_input n j x) s = Some (r, s')"
  then obtain g where g: "set_input n j x (lw_graph s) = Some g" "r = Inr ()" "s' = set_graph g s" by (auto simp: edit_def)
  note sk = set_input_kinds [OF g(1)]
  have wf: "graph_wf g" using set_input_wf [OF _ n(1) x g(1)] inv by (simp add: linv_def)
  have tab: "i < lw_len s \<and> node_key (node_at g i) = k \<and> cons_ok (node_at g i)"
    if "st_get gvn_key_hash (hc_table (lw_hc s)) k = Some i" for k i
  proof -
    have i: "i < lw_len s \<and> node_key (node_at (lw_graph s) i) = k \<and> cons_ok (node_at (lw_graph s) i)"
      using inv that by (simp add: linv_def)
    then have "i \<noteq> n" using n(2) cons_kinds_facts by (auto simp: cons_ok_def)
    with i sk(2) show ?thesis by simp
  qed
  have "\<forall>m \<in> set (g_nodes g). n_flags m = 0"
    using inv sk unfolding linv_def by (metis in_set_conv_nth)
  then have "linv False h s'"
    using inv wf tab sk unfolding linv_def value_node_def g(3) by (auto simp: id_ok_def)
  moreover have "pars s' = pars s" unfolding pars_def g(3)
  proof (rule filter_kinds_eq)
    fix i assume "i < length (g_nodes (lw_graph (set_graph g s)))"
    then show "n_kind (node_at (lw_graph (set_graph g s)) i) = n_kind (node_at (lw_graph s) i)
      \<and> (n_kind (node_at (lw_graph (set_graph g s)) i) = NK_Parameter \<longrightarrow> node_at (lw_graph (set_graph g s)) i = node_at (lw_graph s) i)"
      using sk(1) sk(2) [of i] n(2) by (cases "i = n") auto
  qed (simp add: sk(1))
  then have "lstep h s s'" using sk g(3) by (simp add: lstep_def)
  ultimately show "\<exists>x. r = Inr x \<and> Q x s'" using g by (auto intro!: Q simp: same_flow_def)
qed

subsection \<open>Snapshots\<close>

lemma snapshot_spec:
  assumes "st_ok h t"
  shows "distinct (map fst (snapshot t))" "map_of (snapshot t) = st_get h t"
proof -
  have inv: "st_inv h t" using assms by (simp add: st_ok_def)
  note fe = st_for_each_spec [OF inv]
  have some: "st_for_each t = map Some (snapshot t)"
    unfolding snapshot_def map_map by (rule sym, rule map_idI) (use fe(1) in auto)
  have mem: "(k, v) \<in> set (snapshot t) \<longleftrightarrow> st_get h t k = Some v" for k v
  proof -
    have "(k, v) \<in> set (snapshot t) \<longleftrightarrow> Some (k, v) \<in> set (st_for_each t)" unfolding some by auto
    then show ?thesis using fe(1) st_get_abs [OF inv] by auto
  qed
  have "distinct (snapshot t)" using fe(2) unfolding some by (simp add: distinct_map)
  then show d: "distinct (map fst (snapshot t))"
    by (auto simp: distinct_map inj_on_def mem)
  show "map_of (snapshot t) = st_get h t"
  proof
    fix k show "map_of (snapshot t) k = st_get h t k"
      using mem map_of_eq_Some_iff [OF d] by (metis not_None_eq)
  qed
qed

lemma snapshot_all: "st_ok h t \<Longrightarrow> (\<And>x i. st_get h t x = Some i \<Longrightarrow> P i) \<Longrightarrow> \<forall>(x, i) \<in> set (snapshot t). P i"
  using snapshot_spec [of h t] map_of_eq_Some_iff [of "snapshot t"] by fastforce

lemma snapshot_find_map: "snapshot_find x xs = map_of xs x"
  by (induction xs) auto

lemma wl_insert_all:
  assumes "linv L h s" "\<forall>(x, i) \<in> set xs. value_node s i"
    and "\<And>s'. linv L h s' \<Longrightarrow> lstep h s s' \<Longrightarrow> lw_hc s' = lw_hc s \<Longrightarrow> same_flow s s'
      \<Longrightarrow> (\<And>y. lookup h y s' = (case map_of (rev xs) y of None \<Rightarrow> lookup h y s | Some i \<Rightarrow> Some i)) \<Longrightarrow> Q () s'"
  shows "wl (insert_all h xs) Q s"
  using assms
proof (induction h xs arbitrary: s rule: insert_all.induct)
  case (2 h x i xs)
  show ?case unfolding insert_all.simps
  proof (rule wl_bind [OF grows_insert_all], rule wl_bind_name [OF 2(2)])
    show "value_node s i" using 2(3) by simp
    fix s1 assume s1: "linv L h s1" "lstep h s s1" "lw_hc s1 = lw_hc s" "same_flow s s1"
      "\<And>y. lookup h y s1 = (if y = x then Some i else lookup h y s)"
    show "wl (insert_all h xs) Q s1"
    proof (rule 2(1) [OF s1(1)])
      show "\<forall>(x, i) \<in> set xs. value_node s1 i" using 2(3) s1(2) value_node_step by fastforce
      fix s' assume s': "linv L h s'" "lstep h s1 s'" "lw_hc s' = lw_hc s1" "same_flow s1 s'"
        "\<And>y. lookup h y s' = (case map_of (rev xs) y of None \<Rightarrow> lookup h y s1 | Some i \<Rightarrow> Some i)"
      show "Q () s'"
        by (rule 2(4)) (use s1 s' lstep_trans in \<open>auto simp: same_flow_def map_add_def split: option.splits\<close>)
    qed
  qed
qed (auto simp: same_flow_def)

lemma wl_restore:
  assumes inv: "linv L h s" and t: "st_ok h t" "\<And>x i. st_get h t x = Some i \<Longrightarrow> value_node s i"
    and Q: "\<And>s'. linv L h s' \<Longrightarrow> lstep h s s' \<Longrightarrow> lw_hc s' = lw_hc s \<Longrightarrow> same_flow s s' \<Longrightarrow> (\<And>y. lookup h y s' = st_get h t y) \<Longrightarrow> Q () s'"
  shows "wl (restore h (snapshot t)) Q s"
  unfolding restore_def
proof (rule wl_bind [OF grows_insert_all], simp only: wl_simps, rule impI)
  let ?s = "s\<lparr>lw_bindings := st_clear (lw_bindings s)\<rparr>"
  have c: "st_ok h (st_clear (lw_bindings s))" "st_abs (st_clear (lw_bindings s)) = Map.empty"
    using st_clear_spec [of h "lw_bindings s"] inv by (simp_all add: linv_def st_ok_def)
  then have lk: "lookup h y ?s = None" for y using st_get_abs [of h "st_clear (lw_bindings s)"] by (simp add: lookup_def st_ok_def)
  have i: "linv L h ?s" using inv c lk unfolding linv_def by (simp add: value_node_def)
  note sp = snapshot_spec [OF t(1)]
  show "wl (insert_all h (snapshot t)) Q ?s"
  proof (rule wl_insert_all [OF i])
    show "\<forall>(x, i) \<in> set (snapshot t). value_node ?s i"
      using t(2) sp map_of_eq_Some_iff [OF sp(1)] by (auto simp: value_node_def)
    have "map_of (rev (snapshot t)) = map_of (snapshot t)"
      by (rule map_of_inject_set [THEN iffD2]) (simp_all add: sp(1) rev_map [symmetric])
    then have r: "map_of (rev (snapshot t)) = st_get h t" using sp(2) by simp
    fix s' assume "linv L h s'" "lstep h ?s s'" "lw_hc s' = lw_hc ?s" "same_flow ?s s'"
      "\<And>y. lookup h y s' = (case map_of (rev (snapshot t)) y of None \<Rightarrow> lookup h y ?s | Some i \<Rightarrow> Some i)"
    then show "Q () s'" using lk by (intro Q) (auto simp: r lstep_def same_flow_def pars_def split: option.splits)
  qed
qed

subsection \<open>The merge of two branches\<close>

definition appends :: "lowerer \<Rightarrow> lowerer \<Rightarrow> bool" where
  "appends s s' \<longleftrightarrow> (\<exists>new. g_nodes (lw_graph s') = g_nodes (lw_graph s) @ new)"

lemma appends_refl [simp]: "appends s s"
  by (simp add: appends_def)

lemma appends_trans: "appends s1 s2 \<Longrightarrow> appends s2 s3 \<Longrightarrow> appends s1 s3"
  by (auto simp: appends_def)

lemma appends_node: "appends s s' \<Longrightarrow> i < lw_len s \<Longrightarrow> node_at (lw_graph s') i = node_at (lw_graph s) i \<and> i < lw_len s'"
  by (auto simp: appends_def nth_append)

lemma appends_append_node [simp]: "appends s (append_node n s)"
  by (simp add: appends_def)

lemma appends_same_hc: "lw_hc s' = lw_hc s \<Longrightarrow> appends s s'"
  by (simp add: appends_def)

text \<open>\<open>joined\<close>: what a name of the then-branch is bound to after the merge.\<close>

definition joined :: "node_id \<Rightarrow> node_id \<Rightarrow> node_id option \<Rightarrow> lowerer \<Rightarrow> node_id \<Rightarrow> bool" where
  "joined m t e s i \<longleftrightarrow> (if e \<noteq> None \<and> e \<noteq> Some t then i < lw_len s \<and> node_at (lw_graph s) i = plain_node NK_Phi 0 [m, t, the e] else i = t)"

lemma joined_appends: "joined m t e s i \<Longrightarrow> appends s s' \<Longrightarrow> joined m t e s' i"
  using appends_node [of s s' i] by (auto simp: joined_def split: if_splits)

lemma value_node_id_ok: "value_node s i \<Longrightarrow> id_ok (lw_graph s) i"
  by (simp add: value_node_def id_ok_def)

definition merged_into :: "(symbol_id \<Rightarrow> 64 word) \<Rightarrow> node_id \<Rightarrow> snapshot \<Rightarrow> snapshot \<Rightarrow> lowerer \<Rightarrow> lowerer \<Rightarrow> bool" where
  "merged_into h m xs ys s s' \<longleftrightarrow> (\<forall>y. case map_of xs y of None \<Rightarrow> lookup h y s' = lookup h y s
     | Some t \<Rightarrow> (\<exists>i. lookup h y s' = Some i \<and> joined m t (map_of ys y) s' i))"

lemma merged_lookup: "merged_into h m xs ys s s' \<Longrightarrow> lookup h y s' \<noteq> None \<longleftrightarrow> map_of xs y \<noteq> None \<or> lookup h y s \<noteq> None"
  unfolding merged_into_def by (drule spec [of _ y]) (auto split: option.splits)

lemma wl_merge:
  assumes "linv L h s" "is_merge (lw_graph s) m" "distinct (map fst xs)"
    and "\<forall>(x, i) \<in> set xs. value_node s i" "\<forall>(x, i) \<in> set ys. value_node s i"
    and "\<And>s'. linv L h s' \<Longrightarrow> lstep h s s' \<Longrightarrow> same_flow s s' \<Longrightarrow> appends s s' \<Longrightarrow> merged_into h m xs ys s s' \<Longrightarrow> Q () s'"
  shows "wl (merge_bindings h m xs ys) Q s"
  using assms
proof (induction h m xs ys arbitrary: s rule: merge_bindings.induct)
  case (1 h m ys)
  then show ?case by (auto simp: same_flow_def merged_into_def)
next
  case (2 h m x t xs ys)
  have IH: "wl (merge_bindings h m xs ys) Q s2"
    if j: "joined m t (map_of ys x) s1 i" and s1: "lstep h s s1" "same_flow s s1" "appends s s1" "\<And>y. lookup h y s1 = lookup h y s"
      and s2: "linv L h s2" "lstep h s1 s2" "lw_hc s2 = lw_hc s1" "same_flow s1 s2"
        "\<And>y. lookup h y s2 = (if y = x then Some i else lookup h y s1)" for s1 s2 i
  proof -
    have st: "lstep h s s2" "appends s s2" using s1 s2 lstep_trans appends_trans appends_same_hc by blast+
    have IH': "linv L h s2 \<Longrightarrow> is_merge (lw_graph s2) m \<Longrightarrow> distinct (map fst xs) \<Longrightarrow> \<forall>(x, i) \<in> set xs. value_node s2 i
        \<Longrightarrow> \<forall>(x, i) \<in> set ys. value_node s2 i
        \<Longrightarrow> (\<And>s'. linv L h s' \<Longrightarrow> lstep h s2 s' \<Longrightarrow> same_flow s2 s' \<Longrightarrow> appends s2 s' \<Longrightarrow> merged_into h m xs ys s2 s' \<Longrightarrow> Q () s')
        \<Longrightarrow> wl (merge_bindings h m xs ys) Q s2"
      using "2.IH" by (cases "snapshot_find x ys"; cases "the (snapshot_find x ys) \<noteq> t") auto
    show ?thesis
    proof (rule IH' [OF s2(1)])
      show "is_merge (lw_graph s2) m" using 2(5) st(2) appends_node [of s s2 m] by (auto simp: is_merge_kind)
      show "distinct (map fst xs)" using 2(6) by simp
      show "\<forall>(x, i) \<in> set xs. value_node s2 i" "\<forall>(x, i) \<in> set ys. value_node s2 i"
        using 2(7,8) st(1) value_node_step by fastforce+
      fix s' assume s': "linv L h s'" "lstep h s2 s'" "same_flow s2 s'" "appends s2 s'" "merged_into h m xs ys s2 s'"
      have x: "map_of xs x = None" using 2(6) by (simp add: map_of_eq_None_iff)
      have "merged_into h m ((x, t) # xs) ys s s'" unfolding merged_into_def
      proof
        fix y
        have m: "case map_of xs y of None \<Rightarrow> lookup h y s' = lookup h y s2
          | Some t \<Rightarrow> (\<exists>i. lookup h y s' = Some i \<and> joined m t (map_of ys y) s' i)" using s'(5) by (simp add: merged_into_def)
        have "appends s1 s'" using s2(3) s'(4) by (auto simp: appends_def)
        from joined_appends [OF j this] m x s2(5) s1(4)
        show "case map_of ((x, t) # xs) y of None \<Rightarrow> lookup h y s' = lookup h y s
          | Some t \<Rightarrow> (\<exists>i. lookup h y s' = Some i \<and> joined m t (map_of ys y) s' i)"
          by (auto split: option.splits)
      qed
      with s' st s1 s2 show "Q () s'"
        by (intro 2(9)) (auto simp: same_flow_def elim: lstep_trans appends_trans)
    qed
  qed
  have t: "value_node s t" using 2(7) by simp
  have same: "wl (lbind (bind_name h x t) (\<lambda>_. merge_bindings h m xs ys)) Q s" if "map_of ys x = None \<or> map_of ys x = Some t"
  proof (rule wl_bind [OF grows_merge], rule wl_bind_name [OF 2(4) t])
    fix s2 assume "linv L h s2" "lstep h s s2" "lw_hc s2 = lw_hc s" "same_flow s s2" "\<And>y. lookup h y s2 = (if y = x then Some t else lookup h y s)"
    with that show "wl (merge_bindings h m xs ys) Q s2"
      by (intro IH [of s t s2]) (auto simp: joined_def same_flow_def)
  qed
  show ?case
  proof (cases "map_of ys x")
    case None
    with same show ?thesis by (simp add: snapshot_find_map)
  next
    case (Some e)
    show ?thesis
    proof (cases "e = t")
      case True
      with same Some show ?thesis by (simp add: snapshot_find_map)
    next
      case False
      have e: "value_node s e" using 2(8) map_of_SomeD [OF Some] by auto
      let ?n = "plain_node NK_Phi 0 [m, t, e]"
      have ok: "new_ok L s ?n" using 2(5) t e value_node_id_ok by (auto simp: new_ok_def node_is_pure_def id_ok_def is_merge_kind)
      have "wl (lbind (build (make_phi m [t, e] kInvalidTypeId)) (\<lambda>phi. lbind (bind_name h x phi) (\<lambda>_. merge_bindings h m xs ys))) Q s"
      proof (rule wl_bind, intro grows_all, rule wl_news(10) [OF 2(4)])
        show "new_ok L s (plain_node NK_Phi 0 (m # [t, e]))" using ok by simp
        fix s1 assume s1: "s1 = append_node (plain_node NK_Phi 0 (m # [t, e])) s" "linv L h s1" "lstep h s s1"
        have v: "value_node s1 (lw_len s)" by (simp add: s1(1) value_node_def merge_kind_def)
        show "wl (lbind (bind_name h x (lw_len s)) (\<lambda>_. merge_bindings h m xs ys)) Q s1"
        proof (rule wl_bind [OF grows_merge], rule wl_bind_name [OF s1(2) v])
          fix s2 assume "linv L h s2" "lstep h s1 s2" "lw_hc s2 = lw_hc s1" "same_flow s1 s2"
            "\<And>y. lookup h y s2 = (if y = x then Some (lw_len s) else lookup h y s1)"
          with s1 Some False show "wl (merge_bindings h m xs ys) Q s2"
            by (intro IH [of s1 "lw_len s" s2]) (auto simp: joined_def same_flow_def)
        qed
      qed
      with Some False show ?thesis by (simp add: snapshot_find_map)
    qed
  qed
qed

subsection \<open>Expressions keep the invariant\<close>

text \<open>
  The trees the theorems are about: no block in expression position, no range or statement
  node where an expression is expected; with \<open>L\<close> no call and no loop either.
\<close>

fun plain_expr :: "bool \<Rightarrow> ast \<Rightarrow> bool" where
  "plain_expr L (Ident x) \<longleftrightarrow> True"
| "plain_expr L (IntLit v) \<longleftrightarrow> True"
| "plain_expr L (FloatLit v) \<longleftrightarrow> True"
| "plain_expr L (StrLit x) \<longleftrightarrow> True"
| "plain_expr L (BoolLit b) \<longleftrightarrow> True"
| "plain_expr L (BinaryExpr k a b) \<longleftrightarrow> plain_expr L a \<and> plain_expr L b"
| "plain_expr L (UnaryExpr k a) \<longleftrightarrow> plain_expr L a"
| "plain_expr L (CallExpr c as) \<longleftrightarrow> \<not> L \<and> list_all (plain_expr L) as"
| "plain_expr L (AssignExpr k t v) \<longleftrightarrow> plain_expr L v"
| "plain_expr L _ \<longleftrightarrow> False"

fun plain_stmt :: "bool \<Rightarrow> ast \<Rightarrow> bool" where
  "plain_stmt L (LetStmt x ty init m) \<longleftrightarrow> (case init of Some e \<Rightarrow> plain_expr L e | None \<Rightarrow> True)"
| "plain_stmt L (ExprStmt e) \<longleftrightarrow> plain_expr L e"
| "plain_stmt L (ReturnStmt v) \<longleftrightarrow> (case v of Some e \<Rightarrow> plain_expr L e | None \<Rightarrow> True)"
| "plain_stmt L (IfStmt c t e) \<longleftrightarrow> plain_expr L c \<and> plain_stmt L t \<and> (case e of Some b \<Rightarrow> plain_stmt L b | None \<Rightarrow> True)"
| "plain_stmt L (ForStmt x it b) \<longleftrightarrow> \<not> L \<and> (case it of RangeExpr lo hi \<Rightarrow> plain_expr L lo \<and> plain_expr L hi | _ \<Rightarrow> False) \<and> plain_stmt L b"
| "plain_stmt L (Block ss) \<longleftrightarrow> list_all (plain_stmt L) ss"
| "plain_stmt L n \<longleftrightarrow> plain_expr L n"

lemma plain_expr_env: "plain_expr L n \<Longrightarrow> expr_ok ar E n E' \<Longrightarrow> E' = E"
proof (induction L n arbitrary: E E' rule: plain_expr.induct)
  case (8 L c as)
  have "exprs_ok ar E1 as E2 \<Longrightarrow> (\<And>a. a \<in> set as \<Longrightarrow> a \<in> set bs) \<Longrightarrow> (\<And>a E E'. a \<in> set bs \<Longrightarrow> expr_ok ar E a E' \<Longrightarrow> E' = E) \<Longrightarrow> E2 = E1"
    for E1 E2 as bs by (induction as arbitrary: E1) (fastforce simp: stmt_ok_eqs)+
  from this [of _ as _ as] 8 show ?case by (auto simp: expr_ok_eqs list_all_iff)
qed (auto simp: expr_ok_eqs is_literal_def)

definition epost :: "bool \<Rightarrow> (symbol_id \<Rightarrow> 64 word) \<Rightarrow> lowerer \<Rightarrow> node_id \<Rightarrow> lowerer \<Rightarrow> bool" where
  "epost L h s i s' \<longleftrightarrow> linv L h s' \<and> lstep h s s' \<and> lw_ctrl s' = lw_ctrl s \<and> value_node s' i \<and> names h s \<subseteq> names h s'"

lemma epost_trans: "epost L h s1 i s2 \<Longrightarrow> epost L h s2 j s3 \<Longrightarrow> epost L h s1 j s3"
  by (auto simp: epost_def intro: lstep_trans)

lemma epost_value: "value_node s i \<Longrightarrow> epost L h s j s' \<Longrightarrow> value_node s' i"
  by (auto simp: epost_def intro: value_node_step)

lemma wl_const:
  assumes "maker f (plain_node NK_Constant v [])" "linv L h s" "\<And>s'. epost L h s (lw_len s) s' \<Longrightarrow> Q (lw_len s) s'"
  shows "wl (build f) Q s"
  by (rule wl_new [OF assms(1,2)])
    (use assms(3) in \<open>auto simp: new_ok_def node_is_pure_def epost_def value_node_def merge_kind_def\<close>)

lemma wl_value_or_zero:
  assumes "linv L h s" "\<And>i. v = Some i \<Longrightarrow> value_node s i" "\<And>i s'. epost L h s i s' \<Longrightarrow> Q i s'"
  shows "wl (value_or_zero v) Q s"
proof (cases v)
  case None
  then show ?thesis using assms(1,3) by (auto simp: value_or_zero_def intro!: wl_const [OF maker_simps(2)])
next
  case (Some i)
  with assms show ?thesis by (auto simp: value_or_zero_def epost_def)
qed

lemma names_upd: "(\<And>y. lookup h y s' = (if y = x then Some i else lookup h y s)) \<Longrightarrow> names h s' = insert x (names h s)"
  by (auto simp: names_def)

lemma consed_same: "consed k ins s i s' \<Longrightarrow> lw_ctrl s' = lw_ctrl s \<and> names h s' = names h s \<and> lookup h x s' = lookup h x s"
  by (auto simp: consed_def same_flow_def names_def lookup_def)

lemma wl_cons_epost:
  assumes "linv L h s" "k \<in> cons_kinds" "length ins = cons_arity k" "\<forall>i \<in> set ins. value_node s i" "\<And>i s'. epost L h s i s' \<Longrightarrow> Q i s'"
  shows "wl (cons_node k ins) Q s"
proof (rule wl_cons [OF assms(1-3)])
  show "\<forall>i \<in> set ins. i < lw_len s" using assms(4) by (auto simp: value_node_def)
  fix i s' assume "linv L h s'" "lstep h s s'" "consed k ins s i s'" "value_node s' i"
  then show "Q i s'" using consed_same [of k ins s i s' h] by (intro assms(5)) (simp add: epost_def)
qed

lemma binop_kinds: "binop_to_node_kind k \<in> cons_kinds" "cons_arity (binop_to_node_kind k) = 2"
  by (cases k; simp add: binop_to_node_kind_def cons_kinds_def cons_arity_def)+

lemma compound_kinds: "compound_kind k \<in> cons_kinds" "cons_arity (compound_kind k) = 2"
  using binop_kinds [of k] by (auto simp: compound_kind_def cons_kinds_def cons_arity_def)

lemma unop_kinds': "unop_to_node_kind k \<in> cons_kinds" "cons_arity (unop_to_node_kind k) = 1"
  by (auto simp: unop_to_node_kind_def cons_kinds_def cons_arity_def)

lemma wl_assign:
  assumes inv: "linv L h s" and v: "value_node s v" and k: "\<And>k. f k \<in> cons_kinds \<and> cons_arity (f k) = 2"
    and Q: "\<And>i s'. epost L h s i s' \<Longrightarrow> Q i s'"
  shows "wl (assign_name h f k t v) Q s"
proof (cases "\<exists>x. t = Ident x")
  case False
  then have "assign_name h f k t v = lret v" by (cases t) (simp_all add: assign_name_def)
  then show ?thesis using inv v by (auto simp: epost_def intro!: Q)
next
  case True
  then obtain x where t: "t = Ident x" by blast
  have bind: "wl (lbind (bind_name h x i) (\<lambda>_. lret j)) Q s1" if s1: "epost L h s i s1" "value_node s1 j" for i j s1
  proof (rule wl_bind, rule grows_lm_simps, rule wl_bind_name)
    show "linv L h s1" "value_node s1 i" using s1 by (auto simp: epost_def)
    fix s2 assume "linv L h s2" "lstep h s1 s2" "same_flow s1 s2" "\<And>y. lookup h y s2 = (if y = x then Some i else lookup h y s1)"
    then have "epost L h s1 j s2" using s1(2) names_upd [of h s2 x i s1] by (auto simp: epost_def same_flow_def intro: value_node_step)
    with s1(1) show "wl (lret j) Q s2" by (simp add: Q epost_trans)
  qed
  show ?thesis
  proof (cases "k = T_Eq")
    case True
    with t bind [of v s v] inv v show ?thesis by (simp add: assign_name_def epost_def)
  next
    case False
    have "wl (lbind (value_or_zero (lookup h x s)) (\<lambda>lhs. lbind (cons_node (f k) [lhs, v]) (\<lambda>folded. lbind (bind_name h x folded) (\<lambda>_. lret folded)))) Q s"
    proof (rule wl_bind, intro grows_all, rule wl_value_or_zero [OF inv])
      show "lookup h x s = Some i \<Longrightarrow> value_node s i" for i using inv by (simp add: linv_def)
      fix i s1 assume s1: "epost L h s i s1"
      show "wl (lbind (cons_node (f k) [i, v]) (\<lambda>folded. lbind (bind_name h x folded) (\<lambda>_. lret folded))) Q s1"
      proof (rule wl_bind, intro grows_all, rule wl_cons_epost)
        show "linv L h s1" "f k \<in> cons_kinds" "length [i, v] = cons_arity (f k)" using s1 k by (auto simp: epost_def)
        have "value_node s1 i" using s1 by (simp add: epost_def)
        with epost_value [OF v s1] show "\<forall>i \<in> set [i, v]. value_node s1 i" by simp
        fix j s2 assume "epost L h s1 j s2"
        with s1 show "wl (lbind (bind_name h x j) (\<lambda>_. lret j)) Q s2" by (intro bind) (auto simp: epost_def intro: lstep_trans)
      qed
    qed
    then show ?thesis using t False by (simp add: assign_name_def)
  qed
qed

lemma wl_call:
  assumes inv: "linv False h s" and as: "\<forall>i \<in> set as. value_node s i" and Q: "\<And>i s'. epost False h s i s' \<Longrightarrow> Q i s'"
  shows "wl (lower_call c as) Q s"
proof -
  let ?n = "plain_node NK_CallAltered (payload_of_sym (callee_name c)) (lw_ctrl s # lw_eff s # as)"
  have "wl (lbind (build (make_call (lw_ctrl s) (lw_eff s) (callee_name c) as kInvalidTypeId Altered)) (\<lambda>call.
     lbind (lmod (\<lambda>s. if n_effect (node_at (lw_graph s) call) \<noteq> Pure then s\<lparr>lw_eff := call\<rparr> else s)) (\<lambda>_.
       build (make_proj call 0 kInvalidTypeId)))) Q s"
  proof (rule wl_bind, intro grows_all, simp, rule wl_news(12) [OF inv])
    show "new_ok False s ?n" using inv as value_node_id_ok by (auto simp: new_ok_def linv_def)
    fix s1 assume s1: "s1 = append_node ?n s" "linv False h s1" "lstep h s s1"
    let ?s2 = "s1\<lparr>lw_eff := lw_len s\<rparr>"
    have s2: "linv False h ?s2" "lstep h s ?s2"
      using s1 by (auto simp: linv_def id_ok_def value_node_def lookup_def lstep_def pars_def)
    have "wl (build (make_proj (lw_len s) 0 kInvalidTypeId)) Q ?s2"
    proof (rule wl_news(5) [OF s2(1)])
      show "new_ok False ?s2 (plain_node NK_Proj (of_nat (u32 0)) [lw_len s])" by (simp add: new_ok_def s1(1) id_ok_def)
      fix s3 assume s3: "s3 = append_node (plain_node NK_Proj (of_nat (u32 0)) [lw_len s]) ?s2" "linv False h s3" "lstep h ?s2 s3"
      have "epost False h s (lw_len ?s2) s3"
        unfolding epost_def using s3(2) lstep_trans [OF s2(2) s3(3)]
        by (simp add: s3(1) s1(1) value_node_def merge_kind_def names_def lookup_def nth_append)
      then show "Q (lw_len ?s2) s3" by (rule Q)
    qed
    then show "wl (lbind (lmod (\<lambda>s'. if n_effect (node_at (lw_graph s') (lw_len s)) \<noteq> Pure then s'\<lparr>lw_eff := lw_len s\<rparr> else s')) (\<lambda>_.
       build (make_proj (lw_len s) 0 kInvalidTypeId))) Q s1"
      by (simp add: s1(1))
  qed
  then show ?thesis by (simp add: lower_call_def)
qed

text \<open>A list of values, as the arguments of a call are.\<close>

definition apost :: "bool \<Rightarrow> (symbol_id \<Rightarrow> 64 word) \<Rightarrow> lowerer \<Rightarrow> node_id list \<Rightarrow> lowerer \<Rightarrow> bool" where
  "apost L h s is s' \<longleftrightarrow> linv L h s' \<and> lstep h s s' \<and> lw_ctrl s' = lw_ctrl s \<and> (\<forall>i \<in> set is. value_node s' i) \<and> names h s \<subseteq> names h s'"

lemma apost_cons: "epost L h s i s1 \<Longrightarrow> apost L h s1 is s2 \<Longrightarrow> apost L h s (i # is) s2"
  by (auto simp: epost_def apost_def intro: lstep_trans value_node_step)

lemma wl_args:
  assumes "linv L h s" "\<And>a s Q. a \<in> set as \<Longrightarrow> linv L h s \<Longrightarrow> X \<subseteq> names h s \<Longrightarrow> (\<And>i s'. epost L h s i s' \<Longrightarrow> Q i s') \<Longrightarrow> wl (lower_expr h a) Q s"
    "X \<subseteq> names h s" "\<And>is s'. apost L h s is s' \<Longrightarrow> Q is s'"
  shows "wl (lower_args h as) Q s"
  using assms
proof (induction as arbitrary: s Q)
  case Nil
  then show ?case by (simp add: apost_def)
next
  case (Cons a as)
  show ?case unfolding lower_args.simps
  proof (rule wl_bind, intro grows_all grows_lower, rule Cons.prems(2))
    fix i s1 assume s1: "epost L h s i s1"
    then have l1: "linv L h s1" "X \<subseteq> names h s1" using Cons.prems(3) by (auto simp: epost_def)
    show "wl (lbind (lower_args h as) (\<lambda>is. lret (i # is))) Q s1"
    proof (rule wl_bind, intro grows_all, rule Cons.IH [OF l1(1) _ l1(2)])
      fix "is" s2 assume "apost L h s1 is s2"
      with s1 show "wl (lret (i # is)) Q s2" by (simp add: Cons.prems(4) apost_cons)
    qed (use Cons.prems(2) in \<open>auto\<close>)
  qed (use Cons.prems in auto)
qed

lemma wl_expr:
  assumes "plain_expr L n" "expr_ok ar E n E'" "linv L h s" "dom E \<subseteq> names h s" "\<And>i s'. epost L h s i s' \<Longrightarrow> Q i s'"
  shows "wl (lower_expr h n) Q s"
  using assms
proof (induction L n arbitrary: E E' s Q rule: plain_expr.induct)
  case (1 L x)
  then have "lookup h x s \<noteq> None" by (auto simp: expr_ok_eqs names_def)
  then obtain i where i: "lookup h x s = Some i" by blast
  then have "value_node s i" using 1(3) by (simp add: linv_def)
  with 1(3) have "epost L h s i s" by (simp add: epost_def)
  with 1(5) i show ?case by simp
next
  case (6 L k a b)
  then obtain E1 where a: "plain_expr L a" "expr_ok ar E a E1" and b: "plain_expr L b" "expr_ok ar E1 b E'" by (auto simp: expr_ok_eqs)
  then have "E1 = E" by (auto dest: plain_expr_env)
  show ?case unfolding lower_expr.simps
  proof (rule wl_bind, intro grows_all grows_lower, rule "6.IH"(1) [OF a 6(5,6)])
    fix i s1 assume s1: "epost L h s i s1"
    show "wl (lbind (lower_expr h b) (\<lambda>r. cons_node (binop_to_node_kind k) [i, r])) Q s1"
    proof (rule wl_bind, intro grows_all, rule "6.IH"(2) [OF b])
      show "linv L h s1" "dom E1 \<subseteq> names h s1" using s1 6(6) \<open>E1 = E\<close> by (auto simp: epost_def)
      fix j s2 assume s2: "epost L h s1 j s2"
      show "wl (cons_node (binop_to_node_kind k) [i, j]) Q s2"
      proof (rule wl_cons_epost)
        show "linv L h s2" "\<forall>i \<in> set [i, j]. value_node s2 i"
          using s2 epost_value [OF _ s2, of i] s1 by (simp_all add: epost_def)
        fix l s3 assume "epost L h s2 l s3"
        with s1 s2 show "Q l s3" by (intro "6.prems"(5)) (blast intro: epost_trans)
      qed (simp_all add: binop_kinds)
    qed
  qed
next
  case (7 L k a)
  show ?case unfolding lower_expr.simps
  proof (rule wl_bind, intro grows_all, rule "7.IH" [OF _ _ 7(4,5)])
    show "plain_expr L a" "expr_ok ar E a E'" using 7 by (simp_all add: expr_ok_eqs)
    fix i s1 assume s1: "epost L h s i s1"
    show "wl (cons_node (unop_to_node_kind k) [i]) Q s1"
    proof (rule wl_cons_epost)
      show "linv L h s1" "\<forall>i \<in> set [i]. value_node s1 i" using s1 by (simp_all add: epost_def)
      fix l s3 assume "epost L h s1 l s3"
      with s1 show "Q l s3" by (intro "7.prems"(5)) (blast intro: epost_trans)
    qed (simp_all add: unop_kinds')
  qed
next
  case (8 L c as)
  then have L: "\<not> L" and as: "\<forall>a \<in> set as. plain_expr L a" by (auto simp: list_all_iff)
  from 8(3) obtain "exprs_ok ar E as E'" by (auto simp: expr_ok_eqs)
  then have each: "\<exists>E1. expr_ok ar E a E1" if "a \<in> set as" for a
    using that as
  proof (induction as arbitrary: E)
    case (Cons b bs)
    then obtain E1 where E1: "expr_ok ar E b E1" "exprs_ok ar E1 bs E'" by (auto simp: expr_ok_eqs stmt_ok_eqs)
    with Cons.prems plain_expr_env have "E1 = E" by auto
    with E1 Cons show ?case by auto
  qed simp
  show ?case unfolding lower_expr.simps
  proof (rule wl_bind, rule grows_call, rule wl_args [where X = "dom E", OF 8(4) _ 8(5)])
    fix a s Q assume a: "a \<in> set as" "linv L h s" "dom E \<subseteq> names h s" "\<And>i s'. epost L h s i s' \<Longrightarrow> Q i s'"
    with each as show "wl (lower_expr h a) Q s" using "8.IH" by blast
  next
    fix "is" s1 assume s1: "apost L h s is s1"
    show "wl (lower_call c is) Q s1"
    proof (rule wl_call)
      show "linv False h s1" "\<forall>i \<in> set is. value_node s1 i" using s1 L by (simp_all add: apost_def)
      fix i s2 assume "epost False h s1 i s2"
      then have "epost L h s i s2" using s1 L by (auto simp: epost_def apost_def intro: lstep_trans)
      then show "Q i s2" by (rule 8(6))
    qed
  qed
next
  case (9 L k t v)
  then have v: "plain_expr L v" "expr_ok ar E v E'" by (auto simp: expr_ok_eqs)
  show ?case unfolding lower_expr.simps
  proof (rule wl_bind, rule grows_assign, rule "9.IH" [OF v 9(4,5)])
    fix i s1 assume s1: "epost L h s i s1"
    show "wl (assign_name h binop_to_node_kind k t i) Q s1"
    proof (rule wl_assign)
      show "linv L h s1" "value_node s1 i" using s1 by (simp_all add: epost_def)
      fix l s3 assume "epost L h s1 l s3"
      with s1 show "Q l s3" by (intro "9.prems"(5)) (blast intro: epost_trans)
    qed (simp add: binop_kinds)
  qed
qed (auto intro!: wl_const [OF maker_simps(1)] wl_const [OF maker_simps(2)] wl_const [OF maker_simps(3)] wl_const [OF maker_simps(4)])

subsection \<open>Statements\<close>

lemma linv_flow: "linv L h s \<Longrightarrow> id_ok (lw_graph s) c \<Longrightarrow> id_ok (lw_graph s) e \<Longrightarrow> linv L h (set_flow c e s)"
  by (simp add: linv_def value_node_def)

lemma lstep_flow [simp]: "lstep h s (set_flow c e s') \<longleftrightarrow> lstep h s s'" "lstep h (set_flow c e s) s' \<longleftrightarrow> lstep h s s'"
  by (simp_all add: lstep_def pars_def)

lemma flow_simps [simp]:
  "names h (set_flow c e s) = names h s" "value_node (set_flow c e s) i = value_node s i"
  "appends (set_flow c e s) s' = appends s s'" "appends s (set_flow c e s') = appends s s'"
  by (simp_all add: names_def value_node_def appends_def)

lemma id_ok_invalid [simp]: "id_ok g kInvalidNodeId"
  by (simp add: id_ok_def)

lemma id_ok_step: "id_ok (lw_graph s) i \<Longrightarrow> lstep h s s' \<Longrightarrow> id_ok (lw_graph s') i"
  by (auto simp: id_ok_def lstep_def)

lemma linv_ids: "linv L h s \<Longrightarrow> id_ok (lw_graph s) (lw_ctrl s) \<and> id_ok (lw_graph s) (lw_eff s)"
  by (simp add: linv_def)

text \<open>\<open>return\<close> leaves no control behind.\<close>

lemma wl_return:
  assumes inv: "linv L h s" and v: "value_node s v"
    and Q: "\<And>s1. s1 = append_node (plain_node NK_Return 0 [lw_ctrl s, lw_eff s, v]) s \<Longrightarrow> linv L h s1 \<Longrightarrow> lstep h s s1
      \<Longrightarrow> linv L h (set_flow kInvalidNodeId kInvalidNodeId s1) \<Longrightarrow> Q True (set_flow kInvalidNodeId kInvalidNodeId s1)"
  shows "wl (lower_return v) Q s"
  unfolding lower_return_def wl_state prod.case
proof (rule wl_bindE, rule wl_news(11) [OF inv])
  show "new_ok L s (plain_node NK_Return 0 [lw_ctrl s, lw_eff s, v])"
    using inv v value_node_id_ok by (auto simp: new_ok_def linv_def node_is_pure_def)
  fix s1 assume "s1 = append_node (plain_node NK_Return 0 [lw_ctrl s, lw_eff s, v]) s" "linv L h s1" "lstep h s s1"
  then show "wl (lbind (lmod (set_flow kInvalidNodeId kInvalidNodeId)) (\<lambda>_. lret True)) Q s1" by (simp add: Q linv_flow)
qed (intro grows_all, simp)

text \<open>\<open>opened c s s3\<close>: the state in which the then-branch is lowered.\<close>

definition opened :: "node_id \<Rightarrow> lowerer \<Rightarrow> lowerer \<Rightarrow> bool" where
  "opened c s s3 \<longleftrightarrow> (let n = lw_len s in
     g_nodes (lw_graph s3) = g_nodes (lw_graph s) @ [plain_node NK_If 0 [lw_ctrl s, c], plain_node NK_Proj 0 [n], plain_node NK_Proj 1 [n]]
   \<and> lw_ctrl s3 = n + 1 \<and> lw_eff s3 = lw_eff s \<and> lw_bindings s3 = lw_bindings s \<and> n + 3 < kInvalidNodeId)"

lemma u32_01 [simp]: "u32 0 = 0" "u32 (Suc 0) = 1"
  by (simp_all add: u32_def)

lemma wl_if_start:
  assumes inv: "linv L h s" and c: "value_node s c" and g: "grows_lm m1" "grows_lm m2"
    and Q: "\<And>s3. opened c s s3 \<Longrightarrow> linv L h s3 \<Longrightarrow> lstep h s s3 \<Longrightarrow>
      wl m1 (\<lambda>_. wl (lower_else h m2 (lw_len s + 2) (lw_eff s) (snapshot (lw_bindings s))) Q) s3"
  shows "wl (lower_if h c m1 m2) Q s"
  unfolding lower_if_def wl_state prod.case
proof (rule wl_bindE)
  note g' = grows_all grows_else g
  show "wl (build (make_if (lw_ctrl s) c)) (\<lambda>i. wl (lbind (build (make_proj i 0 kInvalidTypeId)) (\<lambda>t.
      lbind (build (make_proj i 1 kInvalidTypeId)) (\<lambda>f.
      lbind (lmod (set_flow t (lw_eff s))) (\<lambda>_.
      lbind (lget (\<lambda>s. snapshot (lw_bindings s))) (\<lambda>before.
      lbind m1 (\<lambda>_. lower_else h m2 f (lw_eff s) before)))))) Q) s"
  proof (rule wl_news(6) [OF inv])
    show "new_ok L s (plain_node NK_If 0 [lw_ctrl s, c])"
      using inv c value_node_id_ok by (auto simp: new_ok_def linv_def node_is_pure_def)
    fix s1 assume s1: "s1 = append_node (plain_node NK_If 0 [lw_ctrl s, c]) s" "linv L h s1" "lstep h s s1" "Suc (lw_len s) < kInvalidNodeId"
    have new: "new_ok L s2 (plain_node NK_Proj (of_nat (u32 w)) [lw_len s])" if "lw_len s < lw_len s2" for s2 w
      using that by (simp add: new_ok_def id_ok_def node_is_pure_def)
    show "wl (lbind (build (make_proj (lw_len s) 0 kInvalidTypeId)) (\<lambda>t.
      lbind (build (make_proj (lw_len s) 1 kInvalidTypeId)) (\<lambda>f.
      lbind (lmod (set_flow t (lw_eff s))) (\<lambda>_.
      lbind (lget (\<lambda>s. snapshot (lw_bindings s))) (\<lambda>before.
      lbind m1 (\<lambda>_. lower_else h m2 f (lw_eff s) before)))))) Q s1"
      apply (rule wl_bindE)
       apply (rule wl_news(5) [OF s1(2) new])
        apply (simp add: s1(1))
      subgoal premises p for s2
        apply (rule wl_bindE)
         apply (rule wl_news(5) [OF p(2) new])
          apply (simp add: p(1) s1(1))
        subgoal premises q for s3
        proof -
          let ?s = "set_flow (lw_len s1) (lw_eff s) s3"
          have e: "id_ok (lw_graph s) (lw_eff s)" using inv by (simp add: linv_def)
          have st: "lstep h s ?s" using s1(3) p(3) q(3) by (simp add: lstep_trans)
          have "opened c s ?s" using s1(1,4) p(1,4) q(1,4) by (simp add: opened_def)
          moreover have "linv L h ?s" using q(2) id_ok_step [OF e st] p(1) q(1)
            by (intro linv_flow) (simp_all add: id_ok_def)
          ultimately have "wl m1 (\<lambda>_. wl (lower_else h m2 (lw_len s + 2) (lw_eff s) (snapshot (lw_bindings s))) Q) ?s"
            using st by (rule Q)
          then have "wl (lbind m1 (\<lambda>_. lower_else h m2 (lw_len s2) (lw_eff s) (snapshot (lw_bindings ?s)))) Q ?s"
            using p(1) q(1) s1(1) by (intro wl_bindE grows_else g(2)) simp
          then show ?thesis by simp
        qed
        by (intro g') simp
      by (intro g') simp
  qed
qed (intro grows_all grows_else g, simp)

lemma wl_else_start:
  assumes inv: "linv L h s" and t: "st_ok h t" "\<And>x i. st_get h t x = Some i \<Longrightarrow> value_node s i"
    and ids: "id_ok (lw_graph s) fp" "id_ok (lw_graph s) e" and g: "grows_lm m2"
    and Q: "\<And>s1. linv L h s1 \<Longrightarrow> lstep h s s1 \<Longrightarrow> lw_hc s1 = lw_hc s \<Longrightarrow> lw_ctrl s1 = fp \<Longrightarrow> lw_eff s1 = e \<Longrightarrow>
      (\<And>y. lookup h y s1 = st_get h t y) \<Longrightarrow>
      wl m2 (\<lambda>_. wl (join_branches h (lw_ctrl s) (lw_eff s) (snapshot (lw_bindings s))) Q) s1"
  shows "wl (lower_else h m2 fp e (snapshot t)) Q s"
  unfolding lower_else_def wl_state prod.case
proof (rule wl_bindE, rule wl_restore [OF linv_flow [OF inv ids] t(1)])
  show "st_get h t x = Some i \<Longrightarrow> value_node (set_flow fp e s) i" for x i using t(2) by simp
  fix s1 assume "linv L h s1" "lstep h (set_flow fp e s) s1" "lw_hc s1 = lw_hc (set_flow fp e s)"
    "same_flow (set_flow fp e s) s1" "\<And>y. lookup h y s1 = st_get h t y"
  then have "wl m2 (\<lambda>_. wl (join_branches h (lw_ctrl s) (lw_eff s) (snapshot (lw_bindings s))) Q) s1"
    by (intro Q) (simp_all add: same_flow_def)
  then show "wl (lbind m2 (\<lambda>_. join_branches h (lw_ctrl s) (lw_eff s) (snapshot (lw_bindings s)))) Q s1"
    by (rule wl_bindE) (rule grows_join)
qed (intro grows_all grows_join g)

lemma wl_join:
  assumes inv: "linv L h s" and t: "st_ok h t" "\<And>x i. st_get h t x = Some i \<Longrightarrow> value_node s i"
    and ids: "id_ok (lw_graph s) c" "id_ok (lw_graph s) e"
    and Q: "\<And>s1 s'. s1 = set_flow (lw_len s) (if e \<noteq> kInvalidNodeId then e else lw_eff s) (append_node (plain_node NK_Region 0 [c, lw_ctrl s]) s)
      \<Longrightarrow> linv L h s' \<Longrightarrow> lstep h s s' \<Longrightarrow> same_flow s1 s' \<Longrightarrow> appends s1 s' \<Longrightarrow> lw_len s < kInvalidNodeId
      \<Longrightarrow> merged_into h (lw_len s) (snapshot t) (snapshot (lw_bindings s)) s1 s' \<Longrightarrow> Q True s'"
  shows "wl (join_branches h c e (snapshot t)) Q s"
  unfolding join_branches_def wl_state prod.case
proof (rule wl_bindE, rule wl_news(8) [OF inv])
  let ?r = "plain_node NK_Region 0 [c, lw_ctrl s]"
  show "new_ok L s ?r" using ids linv_ids [OF inv] by (auto simp: new_ok_def node_is_pure_def)
  fix s1 assume s1: "s1 = append_node ?r s" "linv L h s1" "lstep h s s1" "Suc (lw_len s) < kInvalidNodeId"
  let ?s = "set_flow (lw_len s) (if e \<noteq> kInvalidNodeId then e else lw_eff s) s1"
  have i: "linv L h ?s" using ids linv_ids [OF inv] id_ok_step [OF _ s1(3)] s1(1) by (intro linv_flow [OF s1(2)]) (auto simp: id_ok_def)
  have b: "st_ok h (lw_bindings s)" "\<And>x i. st_get h (lw_bindings s) x = Some i \<Longrightarrow> value_node s i"
    using inv by (simp_all add: linv_def lookup_def)
  note sp = snapshot_spec [OF t(1)] snapshot_spec [OF b(1)]
  have "wl (merge_bindings h (lw_len s) (snapshot t) (snapshot (lw_bindings s))) (\<lambda>_. wl (lret True) Q) ?s"
  proof (rule wl_merge [OF i _ sp(1)])
    show "is_merge (lw_graph ?s) (lw_len s)" by (simp add: s1(1) is_merge_kind merge_kind_def)
    have "value_node ?s i" if "value_node s i" for i using value_node_step [OF that s1(3)] by simp
    then show "\<forall>(x, i) \<in> set (snapshot t). value_node ?s i" "\<forall>(x, i) \<in> set (snapshot (lw_bindings s)). value_node ?s i"
      using t(2) b(2) by (intro snapshot_all [OF t(1)] snapshot_all [OF b(1)]; blast)+
    fix s' assume s': "linv L h s'" "lstep h ?s s'" "same_flow ?s s'" "appends ?s s'"
      "merged_into h (lw_len s) (snapshot t) (snapshot (lw_bindings s)) ?s s'"
    then have "lstep h s s'" using s1(3) lstep_trans by simp
    with s' s1(1,4) show "wl (lret True) Q s'" by (simp add: Q)
  qed
  then show "wl (lbind (lmod (set_flow (lw_len s) (if e \<noteq> kInvalidNodeId then e else lw_eff s))) (\<lambda>_.
      lbind (merge_bindings h (lw_len s) (snapshot t) (snapshot (lw_bindings s))) (\<lambda>_. lret True))) Q s1"
    unfolding wl_state by (rule wl_bindE) (intro grows_all)
qed (intro grows_all, simp)

subsection \<open>Loops\<close>

text \<open>
  \<open>fpost\<close>: what the steps of a loop that do not touch the control keep. The phis of a loop
  header are complete only when the loop is closed, so the invariant is the weak one.
\<close>

definition fpost :: "(symbol_id \<Rightarrow> 64 word) \<Rightarrow> lowerer \<Rightarrow> lowerer \<Rightarrow> bool" where
  "fpost h s s' \<longleftrightarrow> linv False h s' \<and> lstep h s s' \<and> names h s \<subseteq> names h s' \<and> lw_ctrl s' = lw_ctrl s"

lemma fpost_trans: "fpost h s1 s2 \<Longrightarrow> fpost h s2 s3 \<Longrightarrow> fpost h s1 s3"
  by (auto simp: fpost_def intro: lstep_trans)

lemma fpost_epost: "epost False h s i s' \<longleftrightarrow> fpost h s s' \<and> value_node s' i"
  by (auto simp: epost_def fpost_def)

definition phi_at :: "lowerer \<Rightarrow> node_id \<Rightarrow> bool" where
  "phi_at s i \<longleftrightarrow> i < lw_len s \<and> n_kind (node_at (lw_graph s) i) = NK_Phi"

lemma phi_at_step: "phi_at s i \<Longrightarrow> lstep h s s' \<Longrightarrow> phi_at s' i"
  by (auto simp: phi_at_def lstep_def)

lemma phi_at_value: "phi_at s i \<Longrightarrow> value_node s i"
  by (simp add: phi_at_def value_node_def merge_kind_def)

lemma wl_node:
  assumes "maker f n" "linv False h s" "n_flags n = 0" "n_kind n \<noteq> NK_Parameter" "\<forall>i \<in> set (n_inputs n). id_ok (lw_graph s) i"
    and Q: "\<And>s'. fpost h s s' \<Longrightarrow> lw_len s < lw_len s' \<Longrightarrow> node_at (lw_graph s') (lw_len s) = n \<Longrightarrow> lw_len s < kInvalidNodeId \<Longrightarrow> Q (lw_len s) s'"
  shows "wl (build f) Q s"
proof (rule wl_new [OF assms(1,2)])
  show "new_ok False s n" using assms(3-5) by (simp add: new_ok_def)
  fix s' assume "s' = append_node n s" "linv False h s'" "lstep h s s'" "Suc (lw_len s) < kInvalidNodeId"
  then show "Q (lw_len s) s'" by (intro Q) (simp_all add: fpost_def)
qed

lemmas wl_nodes = maker_simps [THEN wl_node]

lemma wl_bound:
  assumes "linv False h s" "value_node s i" "\<And>s'. fpost h s s' \<Longrightarrow> x \<in> names h s' \<Longrightarrow> Q () s'"
  shows "wl (bind_name h x i) Q s"
proof (rule wl_bind_name [OF assms(1,2)])
  fix s' assume "linv False h s'" "lstep h s s'" "same_flow s s'" "\<And>y. lookup h y s' = (if y = x then Some i else lookup h y s)"
  then have "fpost h s s'" "x \<in> names h s'" using names_upd [of h s' x i s] by (simp_all add: fpost_def same_flow_def subset_insertI)
  then show "Q () s'" by (rule assms(3))
qed

lemma wl_accs:
  assumes "linv False h s" "l < lw_len s"
    "\<And>ps s'. fpost h s s' \<Longrightarrow> \<forall>(x, p) \<in> set ps. phi_at s' p \<Longrightarrow> Q ps s'"
  shows "wl (accumulator_phis h l xs) Q s"
  using assms
proof (induction xs arbitrary: s Q)
  case Nil
  then show ?case by (simp add: fpost_def)
next
  case (Cons x xs)
  have "wl (value_or_zero (lookup h x s)) (\<lambda>v. wl (lbind (build (make_phi l [v, kInvalidNodeId] kInvalidTypeId)) (\<lambda>phi.
      lbind (bind_name h x phi) (\<lambda>_. lbind (accumulator_phis h l xs) (\<lambda>phis. lret ((x, phi) # phis))))) Q) s"
  proof (rule wl_value_or_zero [OF Cons.prems(1)])
    show "lookup h x s = Some i \<Longrightarrow> value_node s i" for i using Cons.prems(1) by (simp add: linv_def)
    fix v s1 assume s1: "epost False h s v s1"
    show "wl (lbind (build (make_phi l [v, kInvalidNodeId] kInvalidTypeId)) (\<lambda>phi.
      lbind (bind_name h x phi) (\<lambda>_. lbind (accumulator_phis h l xs) (\<lambda>phis. lret ((x, phi) # phis))))) Q s1"
      apply (rule wl_bindE)
       apply (rule wl_nodes(10) [where h = h])
      using s1 Cons.prems(2) apply (auto simp: epost_def value_node_def id_ok_def lstep_def) [4]
      subgoal premises p for s2
        apply (rule wl_bindE)
         apply (rule wl_bound [where h = h])
        using p(1-3) apply (simp_all add: fpost_def value_node_def merge_kind_def) [2]
        subgoal premises q for s3
        proof -
          have f: "fpost h s s3" using s1 by (intro fpost_trans [OF fpost_trans [OF _ p(1)] q(1)]) (simp add: fpost_epost)
          have ph: "phi_at s3 (lw_len s1)" using p(2,3) q(1) by (rule_tac phi_at_step [of s2 _ h]) (simp_all add: phi_at_def fpost_def)
          show ?thesis
          proof (rule wl_bindE, rule Cons.IH)
            show "linv False h s3" "l < lw_len s3" using f Cons.prems(2) by (auto simp: fpost_def lstep_def)
            fix ps :: "(symbol_id \<times> node_id) list" and s4 assume s4: "fpost h s3 s4" "\<forall>(x, p) \<in> set ps. phi_at s4 p"
            have "phi_at s4 (lw_len s1)" using ph s4(1) phi_at_step by (auto simp: fpost_def)
            with s4 f show "wl (lret ((x, lw_len s1) # ps)) Q s4"
              by (simp add: Cons.prems(3) [OF fpost_trans])
          qed (intro grows_all)
        qed
        by (intro grows_all)
      by (intro grows_all)
  qed
  then show ?case unfolding accumulator_phis.simps wl_state by (rule wl_bindE) (intro grows_all)
qed

lemma wl_back:
  assumes "linv False h s" "\<forall>(x, p) \<in> set ps. phi_at s p" "\<And>s'. fpost h s s' \<Longrightarrow> Q () s'"
  shows "wl (back_edges h ps) Q s"
  using assms
proof (induction h ps arbitrary: s rule: back_edges.induct)
  case (1 h)
  then show ?case by (simp add: fpost_def)
next
  case (2 h x phi phis)
  have "wl (value_or_zero (lookup h x s)) (\<lambda>v. wl (lbind (edit (set_input phi 2 v)) (\<lambda>_. back_edges h phis)) Q) s"
  proof (rule wl_value_or_zero [OF 2(2)])
    show "lookup h x s = Some i \<Longrightarrow> value_node s i" for i using 2(2) by (simp add: linv_def)
    fix v s1 assume s1: "epost False h s v s1"
    have p: "\<forall>(x, p) \<in> set ((x, phi) # phis). phi_at s1 p" using 2(3) s1 phi_at_step by (fastforce simp: epost_def)
    show "wl (lbind (edit (set_input phi 2 v)) (\<lambda>_. back_edges h phis)) Q s1"
    proof (rule wl_bindE, rule wl_set_input)
      show "linv False h s1" "phi < lw_len s1" "n_kind (node_at (lw_graph s1) phi) \<in> {NK_Phi, NK_Loop}" "id_ok (lw_graph s1) v"
        using s1 p value_node_id_ok by (auto simp: epost_def phi_at_def)
      fix s2 assume s2: "linv False h s2" "lstep h s1 s2" "same_flow s1 s2" "\<And>y. lookup h y s2 = lookup h y s1"
      then have "fpost h s1 s2" by (simp add: fpost_def same_flow_def names_def)
      then have f: "fpost h s s2" using s1 by (auto simp: fpost_epost intro: fpost_trans)
      show "wl (back_edges h phis) Q s2"
      proof (rule 2(1) [OF s2(1)])
        show "\<forall>(x, p) \<in> set phis. phi_at s2 p" using p s2(2) phi_at_step by fastforce
      qed (use f 2(4) fpost_trans in blast)
    qed (rule grows_back)
  qed
  then show ?case unfolding back_edges.simps wl_state by (rule wl_bindE) (intro grows_all)
qed

lemma wl_close:
  assumes inv: "linv False h s" and c: "lw_ctrl s \<noteq> kInvalidNodeId" and l: "l < lw_len s" "n_kind (node_at (lw_graph s) l) = NK_Loop"
    and p: "phi_at s p" "\<forall>(x, p) \<in> set ps. phi_at s p" and Q: "\<And>s'. fpost h s s' \<Longrightarrow> Q () s'"
  shows "wl (close_loop h l p ps) Q s"
  unfolding close_loop_def wl_state
proof (simp only: c if_False, rule wl_bindE, rule wl_const [OF maker_simps(2) inv])
  fix s1 assume s1: "epost False h s (lw_len s) s1"
  then have f1: "fpost h s s1" "linv False h s1" "value_node s1 (lw_len s)" by (simp_all add: fpost_epost fpost_def)
  show "wl (lbind (cons_node NK_Add [p, lw_len s]) (\<lambda>next_i. lbind (edit (set_input p 2 next_i)) (\<lambda>_.
      lbind (back_edges h ps) (\<lambda>_. lbind (lget lw_ctrl) (\<lambda>ctrl. edit (set_input l 0 ctrl)))))) Q s1"
  proof (rule wl_bindE, rule wl_cons_epost [OF f1(2)])
    have p1: "phi_at s1 p" using p(1) f1(1) phi_at_step by (auto simp: fpost_def)
    with f1(3) phi_at_value show "\<forall>i \<in> set [p, lw_len s]. value_node s1 i" by simp
    fix i s2 assume "epost False h s1 i s2"
    then have f2: "fpost h s1 s2" "linv False h s2" "value_node s2 i" by (simp_all add: fpost_epost fpost_def)
    have p2: "phi_at s2 p" using p1 f2(1) phi_at_step by (auto simp: fpost_def)
    show "wl (lbind (edit (set_input p 2 i)) (\<lambda>_.
      lbind (back_edges h ps) (\<lambda>_. lbind (lget lw_ctrl) (\<lambda>ctrl. edit (set_input l 0 ctrl))))) Q s2"
    proof (rule wl_bindE, rule wl_set_input [OF f2(2)])
      show "p < lw_len s2" "n_kind (node_at (lw_graph s2) p) \<in> {NK_Phi, NK_Loop}" "id_ok (lw_graph s2) i"
        using p2 value_node_id_ok [OF f2(3)] by (simp_all add: phi_at_def)
      fix s3 assume "linv False h s3" "lstep h s2 s3" "same_flow s2 s3" "\<And>y. lookup h y s3 = lookup h y s2"
      then have "fpost h s2 s3" by (simp add: fpost_def same_flow_def names_def)
      with f1 f2 have f3: "fpost h s s3" "linv False h s3" by (auto simp: fpost_def intro: fpost_trans lstep_trans)
      show "wl (lbind (back_edges h ps) (\<lambda>_. lbind (lget lw_ctrl) (\<lambda>ctrl. edit (set_input l 0 ctrl)))) Q s3"
      proof (rule wl_bindE, rule wl_back [OF f3(2)])
        show "\<forall>(x, p) \<in> set ps. phi_at s3 p" using p(2) f3(1) phi_at_step by (fastforce simp: fpost_def)
        fix s4 assume "fpost h s3 s4"
        with f3 have f4: "fpost h s s4" "linv False h s4" by (auto simp: fpost_def intro: fpost_trans lstep_trans)
        show "wl (lbind (lget lw_ctrl) (\<lambda>ctrl. edit (set_input l 0 ctrl))) Q s4"
          unfolding wl_state
        proof (rule wl_set_input [OF f4(2)])
          show "l < lw_len s4" "n_kind (node_at (lw_graph s4) l) \<in> {NK_Phi, NK_Loop}"
            using l f4(1) by (auto simp: fpost_def lstep_def)
          show "id_ok (lw_graph s4) (lw_ctrl s4)" using linv_ids [OF f4(2)] by simp
          fix s5 assume "linv False h s5" "lstep h s4 s5" "same_flow s4 s5" "\<And>y. lookup h y s5 = lookup h y s4"
          then have "fpost h s4 s5" by (simp add: fpost_def same_flow_def names_def)
          with f4 show "Q () s5" by (intro Q) (rule fpost_trans)
        qed
      qed (intro grows_all)
    qed (intro grows_all)
  qed (intro grows_all | simp add: cons_kinds_def cons_arity_def)+
qed (intro grows_all)

lemma map_of_rev_mem: "map_of (rev xs) y = Some i \<Longrightarrow> (y, i) \<in> set xs"
  by (drule map_of_SomeD) simp

lemma wl_leave:
  assumes inv: "linv False h s" and t: "st_ok h t" "\<And>x i. st_get h t x = Some i \<Longrightarrow> value_node s i"
    and ids: "f < lw_len s" "f < kInvalidNodeId" "id_ok (lw_graph s) e" and ps: "\<forall>(x, p) \<in> set ps. value_node s p"
    and Q: "\<And>s'. linv False h s' \<Longrightarrow> lstep h s s' \<Longrightarrow> {x. st_get h t x \<noteq> None} \<subseteq> names h s' \<Longrightarrow> lw_ctrl s' = f \<Longrightarrow> Q True s'"
  shows "wl (leave_loop h f e (snapshot t) ps) Q s"
  unfolding leave_loop_def wl_state
proof (rule wl_bindE, rule wl_nodes(10) [OF inv])
  show "\<forall>i \<in> set (n_inputs (plain_node NK_Phi 0 [f, e, lw_eff s])). id_ok (lw_graph s) i"
    using ids linv_ids [OF inv] by (auto simp: id_ok_def)
  fix s1 assume "fpost h s s1" and l: "lw_len s < lw_len s1"
  then have s1: "linv False h s1" "lstep h s s1" by (simp_all add: fpost_def)
  let ?s = "set_flow f (lw_len s) s1"
  have i: "linv False h ?s" using ids(1) l by (intro linv_flow [OF s1(1)]) (simp_all add: id_ok_def)
  have st: "lstep h s ?s" using s1(2) by simp
  have "wl (lbind (restore h (snapshot t)) (\<lambda>_. lbind (insert_all h ps) (\<lambda>_. lret True))) Q ?s"
  proof (rule wl_bindE, rule wl_restore [OF i t(1)])
    show "st_get h t x = Some j \<Longrightarrow> value_node ?s j" for x j by (rule value_node_step [OF t(2) st])
    fix s2 assume s2: "linv False h s2" "lstep h ?s s2" "same_flow ?s s2" "\<And>y. lookup h y s2 = st_get h t y"
    have st2: "lstep h s s2" using st s2(2) by (rule lstep_trans)
    show "wl (lbind (insert_all h ps) (\<lambda>_. lret True)) Q s2"
    proof (rule wl_bindE, rule wl_insert_all [OF s2(1)])
      show "\<forall>(x, p) \<in> set ps. value_node s2 p" using ps st2 value_node_step by fastforce
      fix s3 assume s3: "linv False h s3" "lstep h s2 s3" "same_flow s2 s3"
        "\<And>y. lookup h y s3 = (case map_of (rev ps) y of None \<Rightarrow> lookup h y s2 | Some i \<Rightarrow> Some i)"
      have "lstep h s s3" using st2 s3(2) by (rule lstep_trans)
      moreover have "{x. st_get h t x \<noteq> None} \<subseteq> names h s3" using s3(4) s2(4) by (auto simp: names_def split: option.splits)
      moreover have "lw_ctrl s3 = f" using s2(3) s3(3) by (simp add: same_flow_def)
      ultimately show "wl (lret True) Q s3" using s3(1) by (simp add: Q)
    qed (intro grows_all)
  qed (intro grows_all)
  then show "wl (lbind (lmod (set_flow f (lw_len s))) (\<lambda>_. lbind (restore h (snapshot t)) (\<lambda>_. lbind (insert_all h ps) (\<lambda>_. lret True)))) Q s1"
    by simp
qed (simp | intro grows_all)+

definition spost :: "bool \<Rightarrow> (symbol_id \<Rightarrow> 64 word) \<Rightarrow> bool \<Rightarrow> env \<Rightarrow> lowerer \<Rightarrow> lowerer \<Rightarrow> bool" where
  "spost L h keep E s s' \<longleftrightarrow> linv L h s' \<and> lstep h s s' \<and> names h s \<subseteq> names h s' \<and> dom E \<subseteq> names h s'
     \<and> (keep \<longrightarrow> lw_ctrl s \<noteq> kInvalidNodeId \<longrightarrow> lw_ctrl s' \<noteq> kInvalidNodeId)"

lemma phi_at_new: "lw_len s < lw_len s' \<Longrightarrow> node_at (lw_graph s') (lw_len s) = plain_node NK_Phi 0 ins \<Longrightarrow> phi_at s' (lw_len s)"
  by (simp add: phi_at_def)

lemma kept: "fpost h s s' \<Longrightarrow> phi_at s i \<Longrightarrow> phi_at s' i" "fpost h s s' \<Longrightarrow> value_node s i \<Longrightarrow> value_node s' i"
  "fpost h s s' \<Longrightarrow> \<forall>(x, p) \<in> set ps. phi_at s p \<Longrightarrow> \<forall>(x, p) \<in> set ps. phi_at s' p"
  "fpost h s s' \<Longrightarrow> id_ok (lw_graph s) i \<Longrightarrow> id_ok (lw_graph s') i"
  "fpost h s s' \<Longrightarrow> i < lw_len s \<Longrightarrow> i < lw_len s' \<and> n_kind (node_at (lw_graph s') i) = n_kind (node_at (lw_graph s) i)"
  using phi_at_step value_node_step id_ok_step by (fastforce simp: fpost_def lstep_def)+

text \<open>The body runs in a state with the loop variable bound and a valid control.\<close>

lemma wl_for:
  assumes inv: "linv False h s" and v: "value_node s lo" "value_node s hi" and g: "grows_lm m"
    and m: "\<And>s R. linv False h s \<Longrightarrow> X \<subseteq> names h s \<Longrightarrow> (\<And>b s'. spost False h True E s s' \<Longrightarrow> R b s') \<Longrightarrow> wl m R s"
    and X: "X \<subseteq> insert x (names h s)"
    and Q: "\<And>b s'. spost False h k Map.empty s s' \<Longrightarrow> Q b s'"
  shows "wl (lower_for h x body lo hi m) Q s"
proof -
  let ?t = "lw_bindings s" and ?e = "lw_ctrl s" and ?ee = "lw_eff s"
  note gs = grows_all grows_close grows_leave g
  have t: "st_ok h ?t" "\<And>y i. st_get h ?t y = Some i \<Longrightarrow> value_node s i" "{y. st_get h ?t y \<noteq> None} = names h s"
    using inv by (simp_all add: linv_def lookup_def names_def)
  note ids = linv_ids [OF inv]
  text \<open>Behind the exit test.\<close>
  have body: "wl (lbind m (\<lambda>_. lbind (close_loop h l p ps) (\<lambda>_. leave_loop h f ?ee (snapshot ?t) ps))) Q s1"
    if s1: "linv False h s1" "lstep h s s1" "X \<subseteq> names h s1" "lw_ctrl s1 \<noteq> kInvalidNodeId"
      and l: "l < lw_len s1" "n_kind (node_at (lw_graph s1) l) = NK_Loop" and p: "phi_at s1 p" "\<forall>(x, p) \<in> set ps. phi_at s1 p"
      and f: "f < lw_len s1" "f < kInvalidNodeId" for l p ps f s1
  proof (rule wl_bindE, rule m [OF s1(1,3)])
    fix b s2 assume s2: "spost False h True E s1 s2"
    then have i2: "linv False h s2" "lstep h s1 s2" "lstep h s s2" "lw_ctrl s2 \<noteq> kInvalidNodeId"
      using s1 lstep_trans by (auto simp: spost_def)
    have ps2: "\<forall>(x, p) \<in> set ps. phi_at s2 p" "phi_at s2 p" using p i2(2) phi_at_step by fastforce+
    show "wl (lbind (close_loop h l p ps) (\<lambda>_. leave_loop h f ?ee (snapshot ?t) ps)) Q s2"
    proof (rule wl_bindE, rule wl_close [OF i2(1,4) _ _ ps2(2,1)])
      show "l < lw_len s2" "n_kind (node_at (lw_graph s2) l) = NK_Loop" using l i2(2) by (auto simp: lstep_def)
      fix s3 assume s3: "fpost h s2 s3"
      then have i3: "linv False h s3" "lstep h s s3" using i2(3) lstep_trans by (auto simp: fpost_def)
      show "wl (leave_loop h f ?ee (snapshot ?t) ps) Q s3"
      proof (rule wl_leave [OF i3(1) t(1)])
        show "st_get h ?t y = Some i \<Longrightarrow> value_node s3 i" for y i by (rule value_node_step [OF t(2) i3(2)])
        show "f < lw_len s3" "f < kInvalidNodeId" using f i2(2) s3 by (auto simp: lstep_def fpost_def)
        show "id_ok (lw_graph s3) ?ee" using ids i3(2) id_ok_step by blast
        show "\<forall>(x, p) \<in> set ps. value_node s3 p" using kept(3) [OF s3 ps2(1)] phi_at_value by fast
        fix s4 assume s4: "linv False h s4" "lstep h s3 s4" "{y. st_get h ?t y \<noteq> None} \<subseteq> names h s4" "lw_ctrl s4 = f"
        with i3(2) f(2) t(3) show "Q True s4" by (intro Q) (auto simp: spost_def intro: lstep_trans)
      qed
    qed (rule grows_leave)
  qed (intro gs)
  text \<open>The exit test.\<close>
  have test: "wl (lbind (build (make_cmp NK_CmpLt p hi)) (\<lambda>cmp. lbind (build (make_if l cmp)) (\<lambda>ifn.
      lbind (build (make_proj ifn 0 kInvalidTypeId)) (\<lambda>tproj. lbind (build (make_proj ifn 1 kInvalidTypeId)) (\<lambda>fproj.
      lbind (lmod (\<lambda>s. s\<lparr>lw_ctrl := tproj\<rparr>)) (\<lambda>_.
      lbind m (\<lambda>_. lbind (close_loop h l p ps) (\<lambda>_. leave_loop h fproj ?ee (snapshot ?t) ps)))))))) Q s1"
    if s1: "fpost h s s1" "X \<subseteq> names h s1"
      and l: "l < lw_len s1" "n_kind (node_at (lw_graph s1) l) = NK_Loop" and p: "phi_at s1 p" "\<forall>(x, p) \<in> set ps. phi_at s1 p"
    for l p ps s1
    apply (rule wl_bindE)
     apply (rule wl_nodes(7) [where h = h])
    using s1(1) p(1) kept(2) [OF s1(1) v(2)] apply (auto simp: fpost_def phi_at_def value_node_def id_ok_def) [4]
    subgoal premises a for s2
      apply (rule wl_bindE)
       apply (rule wl_nodes(6) [where h = h])
      using a l apply (auto simp: fpost_def lstep_def id_ok_def) [4]
      subgoal premises b for s3
        apply (rule wl_bindE)
         apply (rule wl_nodes(5) [where h = h])
        using b apply (auto simp: fpost_def id_ok_def) [4]
        subgoal premises c for s4
          apply (rule wl_bindE)
           apply (rule wl_nodes(5) [where h = h])
          using b c apply (auto simp: fpost_def lstep_def id_ok_def) [4]
          subgoal premises d for s5
          proof -
            have f: "fpost h s1 s5" by (intro fpost_trans [OF a(1)] fpost_trans [OF b(1)] fpost_trans [OF c(1) d(1)])
            let ?s = "s5\<lparr>lw_ctrl := lw_len s3\<rparr>"
            have eq: "?s = set_flow (lw_len s3) (lw_eff s5) s5" by (simp add: set_flow_def)
            have i: "linv False h s5" using f by (simp add: fpost_def)
            have "wl (lbind m (\<lambda>_. lbind (close_loop h l p ps) (\<lambda>_. leave_loop h (lw_len s4) ?ee (snapshot ?t) ps))) Q ?s"
              unfolding eq
            proof (rule body)
              show "linv False h (set_flow (lw_len s3) (lw_eff s5) s5)"
                using linv_ids [OF i] c(2) d(2) by (intro linv_flow [OF i]) (auto simp: id_ok_def)
              show "lstep h s (set_flow (lw_len s3) (lw_eff s5) s5)" using s1(1) f by (auto simp: fpost_def intro: lstep_trans)
              show "X \<subseteq> names h (set_flow (lw_len s3) (lw_eff s5) s5)" using s1(2) f by (auto simp: fpost_def)
              show "l < lw_len (set_flow (lw_len s3) (lw_eff s5) s5)"
                "n_kind (node_at (lw_graph (set_flow (lw_len s3) (lw_eff s5) s5)) l) = NK_Loop"
                using kept(5) [OF f l(1)] l(2) by simp_all
              show "phi_at (set_flow (lw_len s3) (lw_eff s5) s5) p" "\<forall>(x, p) \<in> set ps. phi_at (set_flow (lw_len s3) (lw_eff s5) s5) p"
                using kept(1) [OF f p(1)] kept(3) [OF f p(2)] by (simp_all add: phi_at_def)
            qed (use c(4) d(2,4) in simp_all)
            then show ?thesis by simp
          qed
          by (intro gs) simp
        by (intro gs) simp
      by (intro gs) simp
    by (intro gs) simp
  show ?thesis
    unfolding lower_for_def wl_state prod.case
    apply (rule wl_bindE)
     apply (rule wl_nodes(9) [OF inv])
    using ids apply auto [3]
    subgoal premises a for s1
      apply (rule wl_bindE)
       apply (rule wl_nodes(10) [where h = h])
      using a kept(2) [OF a(1) v(1)] apply (auto simp: fpost_def id_ok_def value_node_def) [4]
      subgoal premises b for s2
        unfolding wl_state
        apply (rule wl_bindE)
         apply (rule wl_accs [where h = h])
        using a b apply (auto simp: fpost_def lstep_def value_node_def) [2]
        subgoal premises c for ps s3
          apply (rule wl_bindE)
           apply (rule wl_bound [where h = h])
          using c(1) apply (simp add: fpost_def)
          using kept(1) [OF c(1) phi_at_new [OF b(2,3)]] apply (rule phi_at_value)
          subgoal premises d for s4
          proof (rule test)
            have f: "fpost h s1 s4" by (intro fpost_trans [OF b(1)] fpost_trans [OF c(1) d(1)])
            show s4: "fpost h s s4" by (rule fpost_trans [OF a(1) f])
            then show "X \<subseteq> names h s4" using X d(2) by (auto simp: fpost_def)
            have "lw_len s < lw_len s1 \<and> n_kind (node_at (lw_graph s1) (lw_len s)) = NK_Loop" using a by simp
            then show "lw_len s < lw_len s4" "n_kind (node_at (lw_graph s4) (lw_len s)) = NK_Loop" using kept(5) [OF f] by simp_all
            show "phi_at s4 (lw_len s1)" by (intro kept(1) [OF d(1)] kept(1) [OF c(1)] phi_at_new [OF b(2,3)])
            show "\<forall>(x, p) \<in> set ps. phi_at s4 p" by (rule kept(3) [OF d(1) c(2)])
          qed
          by (intro gs) simp
        by (intro gs) simp
      by (intro gs) simp
    by (intro gs) simp
qed

lemma epost_spost: "epost L h s i s' \<Longrightarrow> dom E \<subseteq> names h s \<Longrightarrow> spost L h k E s s'"
  by (auto simp: epost_def spost_def)

lemma spost_trans: "epost L h s1 i s2 \<Longrightarrow> spost L h k E s2 s3 \<Longrightarrow> spost L h k E s1 s3"
  by (auto simp: epost_def spost_def intro: lstep_trans)

lemma wl_let:
  assumes "linv L h s" "value_node s i" "dom E \<subseteq> names h s" "\<And>s'. spost L h k (E(x \<mapsto> m)) s s' \<Longrightarrow> Q True s'"
  shows "wl (lbind (bind_name h x i) (\<lambda>_. lret True)) Q s"
proof (rule wl_bindE, rule wl_bind_name [OF assms(1,2)])
  fix s' assume "linv L h s'" "lstep h s s'" "same_flow s s'" "\<And>y. lookup h y s' = (if y = x then Some i else lookup h y s)"
  then have "spost L h k (E(x \<mapsto> m)) s s'"
    using names_upd [of h s' x i s] assms(3) by (auto simp: spost_def same_flow_def)
  then show "wl (lret True) Q s'" by (simp add: assms(4))
qed (intro grows_all)

lemma dom_merge_env: "dom (merge_env E Et Ee) \<subseteq> dom E \<union> dom Et"
  by (auto simp: merge_env_def split: if_splits)

lemma wl_if:
  assumes inv: "linv L h s" and c: "value_node s c" and E: "dom E \<subseteq> names h s" and g: "grows_lm m1" "grows_lm m2"
    and m1: "\<And>s R. linv L h s \<Longrightarrow> dom E \<subseteq> names h s \<Longrightarrow> (\<And>b s'. spost L h k1 Et s s' \<Longrightarrow> R b s') \<Longrightarrow> wl m1 R s"
    and m2: "\<And>s R. linv L h s \<Longrightarrow> dom E \<subseteq> names h s \<Longrightarrow> (\<And>b s'. spost L h k2 Ee s s' \<Longrightarrow> R b s') \<Longrightarrow> wl m2 R s"
    and Q: "\<And>s'. spost L h True (merge_env E Et Ee) s s' \<Longrightarrow> Q True s'"
  shows "wl (lower_if h c m1 m2) Q s"
proof (rule wl_if_start [OF inv c g])
  fix s3 assume o: "opened c s s3" and s3: "linv L h s3" "lstep h s s3"
  have b3: "lw_bindings s3 = lw_bindings s" using o by (simp add: opened_def Let_def)
  then have n3: "names h s3 = names h s" by (simp add: names_def lookup_def)
  have t: "st_ok h (lw_bindings s)" "\<And>x i. st_get h (lw_bindings s) x = Some i \<Longrightarrow> value_node s i"
    using inv by (simp_all add: linv_def lookup_def)
  show "wl m1 (\<lambda>_. wl (lower_else h m2 (lw_len s + 2) (lw_eff s) (snapshot (lw_bindings s))) Q) s3"
  proof (rule m1 [OF s3(1)])
    show "dom E \<subseteq> names h s3" using E n3 by simp
    fix b s4 assume "spost L h k1 Et s3 s4"
    then have s4: "linv L h s4" "lstep h s3 s4" "lstep h s s4" "dom Et \<subseteq> names h s4" "names h s \<subseteq> names h s4"
      using s3(2) n3 lstep_trans by (auto simp: spost_def)
    show "wl (lower_else h m2 (lw_len s + 2) (lw_eff s) (snapshot (lw_bindings s))) Q s4"
    proof (rule wl_else_start [OF s4(1) t(1) _ _ _ g(2)])
      show "st_get h (lw_bindings s) x = Some i \<Longrightarrow> value_node s4 i" for x i by (rule value_node_step [OF t(2) s4(3)])
      show "id_ok (lw_graph s4) (lw_len s + 2)" using o s4(2) by (auto simp: opened_def Let_def id_ok_def lstep_def)
      show "id_ok (lw_graph s4) (lw_eff s)" using linv_ids [OF inv] id_ok_step [OF _ s4(3)] by simp
      fix s5 assume s5: "linv L h s5" "lstep h s4 s5" "\<And>y. lookup h y s5 = st_get h (lw_bindings s) y"
      have n5: "names h s5 = names h s" using s5(3) by (auto simp: names_def lookup_def)
      have t4: "st_ok h (lw_bindings s4)" "\<And>x i. st_get h (lw_bindings s4) x = Some i \<Longrightarrow> value_node s4 i"
        using s4(1) by (simp_all add: linv_def lookup_def)
      show "wl m2 (\<lambda>_. wl (join_branches h (lw_ctrl s4) (lw_eff s4) (snapshot (lw_bindings s4))) Q) s5"
      proof (rule m2 [OF s5(1)])
        show "dom E \<subseteq> names h s5" using E n5 by simp
        fix b s6 assume "spost L h k2 Ee s5 s6"
        then have s6: "linv L h s6" "lstep h s4 s6" "names h s \<subseteq> names h s6" using s5(2) n5 lstep_trans by (auto simp: spost_def)
        show "wl (join_branches h (lw_ctrl s4) (lw_eff s4) (snapshot (lw_bindings s4))) Q s6"
        proof (rule wl_join [OF s6(1) t4(1)])
          show "st_get h (lw_bindings s4) x = Some i \<Longrightarrow> value_node s6 i" for x i by (rule value_node_step [OF t4(2) s6(2)])
          show "id_ok (lw_graph s6) (lw_ctrl s4)" "id_ok (lw_graph s6) (lw_eff s4)"
            using linv_ids [OF s4(1)] id_ok_step [OF _ s6(2)] by simp_all
          fix s7 s8 assume s7: "s7 = set_flow (lw_len s6) (if lw_eff s4 \<noteq> kInvalidNodeId then lw_eff s4 else lw_eff s6)
              (append_node (plain_node NK_Region 0 [lw_ctrl s4, lw_ctrl s6]) s6)"
            and s8: "linv L h s8" "lstep h s6 s8" "same_flow s7 s8" "lw_len s6 < kInvalidNodeId"
              "merged_into h (lw_len s6) (snapshot (lw_bindings s4)) (snapshot (lw_bindings s6)) s7 s8"
          have "lookup h y s4 \<noteq> None \<or> lookup h y s6 \<noteq> None \<Longrightarrow> lookup h y s8 \<noteq> None" for y
            using merged_lookup [OF s8(5), of y] snapshot_spec(2) [OF t4(1)] s7 by (auto simp: lookup_def)
          then have "names h s4 \<union> names h s6 \<subseteq> names h s8" by (auto simp: names_def)
          then have "names h s \<subseteq> names h s8" "dom (merge_env E Et Ee) \<subseteq> names h s8"
            using s4(4) s6(3) E dom_merge_env [of E Et Ee] by blast+
          moreover have "lstep h s s8" using s4(3) s6(2) s8(2) lstep_trans by blast
          moreover have "lw_ctrl s8 \<noteq> kInvalidNodeId" using s8(3,4) s7 by (simp add: same_flow_def)
          ultimately show "Q True s8" using s8(1) by (intro Q) (simp add: spost_def)
        qed
      qed
    qed
  qed
qed

lemma wl_stray:
  assumes "plain_expr L n" "expr_ok ar E n E'" "linv L h s" "dom E \<subseteq> names h s" "\<And>b s'. spost L h k E' s s' \<Longrightarrow> Q b s'"
  shows "wl (swallow (lower_expr h n)) Q s"
proof -
  have "E' = E" using assms(1,2) by (rule plain_expr_env)
  then show ?thesis
    by (intro wl_swallow wl_expr [OF assms(1-4)] assms(5)) (auto intro: epost_spost [OF _ assms(4)])
qed

lemma wl_assign_stmt:
  assumes "plain_expr L v" "expr_ok ar E (AssignExpr k t v) E'" "linv L h s" "dom E \<subseteq> names h s" "\<And>b s'. spost L h p E' s s' \<Longrightarrow> Q b s'"
  shows "wl (lower_stmt h (AssignExpr k t v)) Q s"
proof -
  have "expr_ok ar E v E'" using assms(2) by (auto simp: expr_ok_eqs)
  note v = assms(1) this
  then have E': "E' = E" by (rule plain_expr_env)
  show ?thesis unfolding lower_stmt.simps
  proof (rule wl_bindE, rule wl_expr [OF v assms(3,4)])
    fix i s1 assume s1: "epost L h s i s1"
    then have i: "linv L h s1" "value_node s1 i" by (simp_all add: epost_def)
    show "wl (lbind (assign_name h compound_kind k t i) (\<lambda>_. lret True)) Q s1"
    proof (rule wl_bindE, rule wl_assign [OF i])
      fix j s2 assume "epost L h s1 j s2"
      with s1 have "epost L h s j s2" by (rule epost_trans)
      then show "wl (lret True) Q s2" using epost_spost [OF _ assms(4)] by (simp add: assms(5) E')
    qed (simp_all add: compound_kinds grows_all)
  qed (intro grows_all)
qed

lemma plain_stmt_expr: "\<not> is_statement n \<Longrightarrow> (\<forall>ss. n \<noteq> Block ss) \<Longrightarrow> plain_stmt L n = plain_expr L n"
  by (cases n) (simp_all add: is_statement_def)

lemma wl_other:
  assumes "plain_stmt L n" "\<not> is_statement n" "\<forall>ss. n \<noteq> Block ss" "stmt_ok ar E n E'" "linv L h s" "dom E \<subseteq> names h s"
    "\<And>b s'. spost L h (\<not> body_contains_unlowerable n) E' s s' \<Longrightarrow> Q b s'"
  shows "wl (lower_stmt h n) Q s"
proof -
  have ok: "expr_ok ar E n E'" using assms(2-4) by (simp add: stmt_ok_expr)
  have p: "plain_expr L n" using assms(1) plain_stmt_expr [OF assms(2,3)] by simp
  show ?thesis
  proof (cases "\<exists>k t v. n = AssignExpr k t v")
    case True
    then obtain k t v where n: "n = AssignExpr k t v" by blast
    show ?thesis unfolding n by (rule wl_assign_stmt [OF _ ok [unfolded n] assms(5,6,7)]) (use p n in simp)
  next
    case False
    with assms(2,3) have "lower_stmt h n = swallow (lower_expr h n)" by (cases n) (simp_all add: is_statement_def)
    then show ?thesis using wl_stray [OF p ok assms(5,6,7)] by simp
  qed
qed

lemma wl_stmt:
  assumes "plain_stmt L n" "stmt_ok ar E n E'" "linv L h s" "dom E \<subseteq> names h s"
    "\<And>b s'. spost L h (\<not> body_contains_unlowerable n) E' s s' \<Longrightarrow> Q b s'"
  shows "wl (lower_stmt h n) Q s"
  using assms
proof (induction L n arbitrary: E E' s Q rule: plain_stmt.induct)
  case (1 L x ty ini m)
  show ?case
  proof (cases ini)
    case None
    with 1(2) have E': "E' = E(x \<mapsto> m)" by (auto simp: stmt_ok_eqs)
    show ?thesis unfolding lower_stmt.simps None option.case
    proof (rule wl_bindE, rule wl_const [OF maker_simps(2) 1(3)])
      fix s1 assume s1: "epost L h s (lw_len s) s1"
      then show "wl (lbind (bind_name h x (lw_len s)) (\<lambda>_. lret True)) Q s1"
        using 1(4) by (intro wl_let [where L = L and h = h and s = s1 and E = E and k = True and m = m]) (auto simp: epost_def E' simp del: fun_upd_apply intro!: 1(5) spost_trans [OF s1])
    qed (intro grows_all)
  next
    case (Some e)
    with 1(1,2) obtain E1 where e1: "plain_expr L e" "expr_ok ar E e E1" "E' = E1(x \<mapsto> m)" by (auto simp: stmt_ok_eqs)
    then have "E1 = E" by (blast intro: plain_expr_env)
    with e1 have e: "plain_expr L e" "expr_ok ar E e E" "E' = E(x \<mapsto> m)" by simp_all
    show ?thesis unfolding lower_stmt.simps Some option.case
    proof (rule wl_bindE, rule wl_expr [OF e(1,2) 1(3,4)])
      fix i s1 assume s1: "epost L h s i s1"
      then show "wl (lbind (bind_name h x i) (\<lambda>_. lret True)) Q s1"
        using 1(4) by (intro wl_let [where L = L and h = h and s = s1 and E = E and k = True and m = m]) (auto simp: epost_def e(3) simp del: fun_upd_apply intro!: 1(5) spost_trans [OF s1])
    qed (intro grows_all)
  qed
next
  case (2 L e)
  then have e: "plain_expr L e" "expr_ok ar E e E'" by (simp_all add: stmt_ok_eqs)
  then have "E' = E" by (rule plain_expr_env)
  then show ?case unfolding lower_stmt.simps
    by (intro wl_bindE wl_expr [OF e 2(3,4)]) (auto intro!: grows_all 2(5) epost_spost [OF _ 2(4)])
next
  case (3 L v)
  have E': "E' = E" using 3(1,2) plain_expr_env by (cases v) (auto simp: stmt_ok_eqs)
  have ret: "wl (lower_return i) Q s1" if s1: "epost L h s i s1" for i s1
  proof (rule wl_return)
    show "linv L h s1" "value_node s1 i" using s1 by (simp_all add: epost_def)
    fix s2 assume s2: "s2 = append_node (plain_node NK_Return 0 [lw_ctrl s1, lw_eff s1, i]) s1" "lstep h s1 s2"
      "linv L h (set_flow kInvalidNodeId kInvalidNodeId s2)"
    have "lstep h s s2" using s1 s2(2) lstep_trans by (auto simp: epost_def)
    with s1 s2 3(4) E' show "Q True (set_flow kInvalidNodeId kInvalidNodeId s2)"
      by (intro 3(5)) (auto simp: spost_def epost_def)
  qed
  show ?case
  proof (cases v)
    case None
    show ?thesis unfolding lower_stmt.simps None option.case
      by (intro wl_bindE wl_const [OF maker_simps(2) 3(3)] ret grows_return)
  next
    case (Some e)
    with 3(1,2) have e: "plain_expr L e" "expr_ok ar E e E'" by (auto simp: stmt_ok_eqs)
    show ?thesis unfolding lower_stmt.simps Some option.case
      by (intro wl_bindE wl_expr [OF e 3(3,4)] ret grows_return)
  qed
next
  case (4 L c t e)
  obtain Et Ee where c: "plain_expr L c" "expr_ok ar E c E" and t: "plain_stmt L t" "stmt_ok ar E t Et"
    and e: "case e of Some b \<Rightarrow> plain_stmt L b \<and> stmt_ok ar E b Ee | None \<Rightarrow> Ee = E" and E': "E' = merge_env E Et Ee"
    using "4.prems"(1,2) plain_expr_env by (cases e) (auto simp: stmt_ok_eqs, blast+)
  show ?case unfolding lower_stmt.simps
  proof (rule wl_bindE, rule wl_expr [OF c "4.prems"(3,4)])
    fix i s1 assume s1: "epost L h s i s1"
    have s1': "linv L h s1" "value_node s1 i" "dom E \<subseteq> names h s1" using s1 "4.prems"(4) by (auto simp: epost_def)
    show "wl (lower_if h i (lower_stmt h t) (case e of None \<Rightarrow> lret True | Some b \<Rightarrow> lower_stmt h b)) Q s1"
    proof (rule wl_if [OF s1'])
      show "wl (lower_stmt h t) R s2" if "linv L h s2" "dom E \<subseteq> names h s2"
        "\<And>b s'. spost L h (\<not> body_contains_unlowerable t) Et s2 s' \<Longrightarrow> R b s'" for s2 R
        by (rule "4.IH"(1) [OF t that])
      show "wl (case e of None \<Rightarrow> lret True | Some b \<Rightarrow> lower_stmt h b) R s2" if s2: "linv L h s2" "dom E \<subseteq> names h s2"
        "\<And>b s'. spost L h False Ee s2 s' \<Longrightarrow> R b s'" for s2 R
      proof (cases e)
        case None
        with s2 e show ?thesis by (simp add: spost_def)
      next
        case (Some b)
        with e have "plain_stmt L b" "stmt_ok ar E b Ee" by simp_all
        then have "wl (lower_stmt h b) R s2"
          by (rule "4.IH"(2) [OF Some _ _ s2(1,2)]) (rule s2(3), simp add: spost_def)
        with Some show ?thesis by simp
      qed
      fix s2 assume "spost L h True (merge_env E Et Ee) s1 s2"
      then have "spost L h True E' s s2" using spost_trans [OF s1] E' by simp
      then show "Q True s2" by (intro "4.prems"(5)) (simp add: spost_def)
    qed (auto intro!: grows_lower grows_all split: option.split)
  qed (auto intro!: grows_if grows_lower grows_all split: option.split)
next
  case (5 L x it b)
  obtain lo hi where it: "it = RangeExpr lo hi" using "5.prems"(1) by (cases it) simp_all
  with "5.prems"(2) obtain E1 Eb where ok: "expr_ok ar E lo E1" "expr_ok ar E1 hi E'"
    "\<not> body_contains_unlowerable b" "stmt_ok ar (E'(x \<mapsto> False)) b Eb" by (auto simp: stmt_ok_eqs)
  have "plain_stmt L (ForStmt x (RangeExpr lo hi) b) \<longleftrightarrow> \<not> L \<and> plain_expr L lo \<and> plain_expr L hi \<and> plain_stmt L b" by auto
  with "5.prems"(1) it have L: "\<not> L" and p: "plain_expr L lo" "plain_expr L hi" "plain_stmt L b" by blast+
  have "E1 = E" using p(1) ok(1) by (rule plain_expr_env)
  moreover from this have E': "E' = E" using plain_expr_env [OF p(2) ok(2)] by simp
  ultimately have lo: "plain_expr L lo" "expr_ok ar E lo E" and hi: "plain_expr L hi" "expr_ok ar E hi E"
    and b: "plain_stmt L b" "\<not> body_contains_unlowerable b" "stmt_ok ar (E(x \<mapsto> False)) b Eb" using p ok by simp_all
  show ?case unfolding it lower_stmt.simps
  proof (rule wl_bindE, rule wl_expr [OF lo "5.prems"(3,4)])
    fix l s1 assume s1: "epost L h s l s1"
    have s1': "linv L h s1" "dom E \<subseteq> names h s1" using s1 "5.prems"(4) by (auto simp: epost_def)
    show "wl (lbind (lower_expr h hi) (\<lambda>r. lower_for h x b l r (lower_stmt h b))) Q s1"
    proof (rule wl_bindE, rule wl_expr [OF hi s1'])
      fix r s2 assume s2: "epost L h s1 r s2"
      show "wl (lower_for h x b l r (lower_stmt h b)) Q s2"
      proof (rule wl_for)
        show "linv False h s2" "value_node s2 r" "value_node s2 l"
          using s2 epost_value [OF _ s2, of l] s1 L by (simp_all add: epost_def)
        show "wl (lower_stmt h b) R s3" if "linv False h s3" "dom (E(x \<mapsto> False)) \<subseteq> names h s3"
          "\<And>b s'. spost False h True Eb s3 s' \<Longrightarrow> R b s'" for s3 R
          by (rule "5.IH" [OF b(1,3) _ that(2)]) (use that(1,3) L b(2) in \<open>simp_all del: fun_upd_apply\<close>)
        show "dom (E(x \<mapsto> False)) \<subseteq> insert x (names h s2)" using s1' s2 by (auto simp: epost_def)
        fix c s3 assume s3: "spost False h True Map.empty s2 s3"
        have "lstep h s s3" using s1 s2 s3 lstep_trans unfolding epost_def spost_def by blast
        with s1 s2 s3 L "5.prems"(4) E' show "Q c s3"
          by (intro "5.prems"(5)) (auto simp: spost_def epost_def)
      qed (rule grows_lower)
    qed (intro grows_for grows_lower)
  qed (intro grows_all grows_for grows_lower)
next
  case (6 L ss)
  have "wl (lower_stmts h ss) Q s"
    if "list_all (plain_stmt L) ss" "stmts_ok ar E ss E'" "linv L h s" "dom E \<subseteq> names h s"
      "\<And>b s'. spost L h (\<not> list_ex body_contains_unlowerable ss) E' s s' \<Longrightarrow> Q b s'"
      "\<And>x E E' s Q. x \<in> set ss \<Longrightarrow> plain_stmt L x \<Longrightarrow> stmt_ok ar E x E' \<Longrightarrow> linv L h s \<Longrightarrow> dom E \<subseteq> names h s
        \<Longrightarrow> (\<And>b s'. spost L h (\<not> body_contains_unlowerable x) E' s s' \<Longrightarrow> Q b s') \<Longrightarrow> wl (lower_stmt h x) Q s"
    for E E' ss s and Q :: "bool \<Rightarrow> lowerer \<Rightarrow> bool"
    using that
  proof (induction ss arbitrary: E s Q)
    case Nil
    then show ?case by (simp add: stmt_ok_eqs spost_def)
  next
    case (Cons x xs)
    from Cons.prems(2) obtain E1 where x: "stmt_ok ar E x E1" "stmts_ok ar E1 xs E'" by (auto simp: stmt_ok_eqs)
    show ?case unfolding lower_stmts.simps
    proof (rule wl_bindE, rule Cons.prems(6) [OF _ _ x(1) Cons.prems(3,4)])
      fix b s1 assume s1: "spost L h (\<not> body_contains_unlowerable x) E1 s s1"
      show "wl (lower_stmts h xs) Q s1"
      proof (rule Cons.IH [OF _ x(2)])
        fix c s2 assume "spost L h (\<not> list_ex body_contains_unlowerable xs) E' s1 s2"
        with s1 show "Q c s2" by (intro Cons.prems(5)) (auto simp: spost_def intro: lstep_trans)
      qed (use Cons.prems s1 in \<open>auto simp: spost_def\<close>)
    qed (use Cons.prems in \<open>auto intro: grows_lower\<close>)
  qed
  from this [OF _ _ 6(4,5)] 6 show ?case by (simp add: stmt_ok_eqs)
qed ((rule wl_other, assumption, simp add: is_statement_def, simp, assumption, assumption, assumption, simp; fail) | simp)+

end
