(* ===== verification/LowerTotal.thy ===== *)
theory LowerTotal
  imports LowerFacts
begin

section \<open>Lowering returns\<close>

text \<open>
  Lowering any function returns, and the graph it makes is bounded by the size of the tree
  and the number of names the tree binds. Unlike the theorems of \<open>LowerFacts\<close> this needs no scoping
  rules; errors are values here.
\<close>

subsection \<open>Total runs\<close>

text \<open>
  \<open>binds n\<close> are the names that lowering \<open>n\<close> may bind. \<open>within X h s\<close>: the tables are
  consistent and name only members of \<open>X\<close>. \<open>tw X h c m Q s\<close>: with room for \<open>c\<close> more
  nodes, \<open>m\<close> returns, makes at most \<open>c\<close> nodes and keeps the number of inputs of the others.
\<close>

fun binds :: "ast \<Rightarrow> symbol_id list" where
  "binds (LetStmt x ty ini m) = x # (case ini of Some e \<Rightarrow> binds e | None \<Rightarrow> [])"
| "binds (ExprStmt e) = binds e"
| "binds (ReturnStmt v) = (case v of Some e \<Rightarrow> binds e | None \<Rightarrow> [])"
| "binds (IfStmt c t e) = binds c @ binds t @ (case e of Some b \<Rightarrow> binds b | None \<Rightarrow> [])"
| "binds (ForStmt x it b) = x # binds it @ binds b"
| "binds (Block ss) = concat (map binds ss)"
| "binds (AssignExpr k t v) = (case t of Ident x \<Rightarrow> [x] | _ \<Rightarrow> []) @ binds v"
| "binds (BinaryExpr k a b) = binds a @ binds b"
| "binds (UnaryExpr k a) = binds a"
| "binds (CallExpr c as) = concat (map binds as)"
| "binds (RangeExpr a b) = binds a @ binds b"
| "binds _ = []"

definition within :: "symbol_id set \<Rightarrow> (symbol_id \<Rightarrow> 64 word) \<Rightarrow> lowerer \<Rightarrow> bool" where
  "within X h s \<longleftrightarrow> st_ok gvn_key_hash (hc_table (lw_hc s)) \<and> st_ok h (lw_bindings s) \<and> st_ok h (lw_params s) \<and> names h s \<subseteq> X"

definition keeps :: "lowerer \<Rightarrow> lowerer \<Rightarrow> bool" where
  "keeps s s' \<longleftrightarrow> lw_len s \<le> lw_len s'
     \<and> (\<forall>i < lw_len s. length (n_inputs (node_at (lw_graph s') i)) = length (n_inputs (node_at (lw_graph s) i)))"

lemma keeps_refl [simp]: "keeps s s"
  by (simp add: keeps_def)

lemma keeps_trans: "keeps s1 s2 \<Longrightarrow> keeps s2 s3 \<Longrightarrow> keeps s1 s3"
  by (auto simp: keeps_def)

lemma keeps_same: "lw_hc s' = lw_hc s \<Longrightarrow> keeps s s'"
  by (simp add: keeps_def)

definition tw :: "symbol_id set \<Rightarrow> (symbol_id \<Rightarrow> 64 word) \<Rightarrow> nat \<Rightarrow> 'a lm \<Rightarrow> ('a \<Rightarrow> lowerer \<Rightarrow> bool) \<Rightarrow> lowerer \<Rightarrow> bool" where
  "tw X h c m Q s \<longleftrightarrow> (within X h s \<longrightarrow> lw_len s + c < kInvalidNodeId \<longrightarrow>
     (\<exists>r s'. m s = Some (r, s') \<and> within X h s' \<and> keeps s s' \<and> lw_len s' \<le> lw_len s + c \<and> (\<forall>x. r = Inr x \<longrightarrow> Q x s')))"

lemma twI:
  "(within X h s \<Longrightarrow> lw_len s + c < kInvalidNodeId \<Longrightarrow>
     \<exists>r s'. m s = Some (r, s') \<and> within X h s' \<and> keeps s s' \<and> lw_len s' \<le> lw_len s + c \<and> (\<forall>x. r = Inr x \<longrightarrow> Q x s'))
   \<Longrightarrow> tw X h c m Q s"
  by (simp add: tw_def)

lemma tw_bind:
  assumes "tw X h c1 m (\<lambda>x. tw X h c2 (f x) Q) s" "c1 + c2 \<le> c"
  shows "tw X h c (lbind m f) Q s"
proof (rule twI)
  assume w: "within X h s" and l: "lw_len s + c < kInvalidNodeId"
  with assms obtain r s1 where s1: "m s = Some (r, s1)" "within X h s1" "keeps s s1" "lw_len s1 \<le> lw_len s + c1"
    "\<And>x. r = Inr x \<Longrightarrow> tw X h c2 (f x) Q s1" unfolding tw_def [of _ _ c1] by fastforce
  show "\<exists>r s'. lbind m f s = Some (r, s') \<and> within X h s' \<and> keeps s s' \<and> lw_len s' \<le> lw_len s + c \<and> (\<forall>x. r = Inr x \<longrightarrow> Q x s')"
  proof (cases r)
    case (Inl e)
    with s1 assms(2) show ?thesis by (simp add: lbind_def)
  next
    case (Inr x)
    with s1(5) s1(2,4) l assms(2) obtain r' s2 where s2: "f x s1 = Some (r', s2)" "within X h s2" "keeps s1 s2"
      "lw_len s2 \<le> lw_len s1 + c2" "\<forall>x. r' = Inr x \<longrightarrow> Q x s2" unfolding tw_def [of _ _ c2] by fastforce
    with Inr s1 assms(2) keeps_trans [OF s1(3) s2(3)] show ?thesis by (simp add: lbind_def)
  qed
qed

lemma tw_weaken: "tw X h c m Q s \<Longrightarrow> c \<le> d \<Longrightarrow> (\<And>x s'. Q x s' \<Longrightarrow> R x s') \<Longrightarrow> tw X h d m R s"
  unfolding tw_def by fastforce

lemma tw_steps:
  "(within X h s \<Longrightarrow> Q x s) \<Longrightarrow> tw X h c (lret x) Q s" "(within X h s \<Longrightarrow> P (f s) s) \<Longrightarrow> tw X h c (lget f) P s" "tw X h c lerr R s"
  by (auto simp: tw_def lret_def lget_def lerr_def)

lemma tw_flow: "tw X h c (lmod (set_flow a b)) (\<lambda>_ _. True) s"
  by (auto simp: tw_def lmod_def within_def names_def keeps_def)

lemma keeps_append [simp]: "keeps s (append_node n s)"
  by (simp add: keeps_def nth_append)

lemma within_append [simp]: "within X h (append_node n s) = within X h s"
  by (simp add: within_def)

lemma tw_build:
  assumes "maker f n" "\<And>s'. keeps s s' \<Longrightarrow> lw_len s < lw_len s' \<Longrightarrow> node_at (lw_graph s') (lw_len s) = n \<Longrightarrow> Q (lw_len s) s'"
  shows "tw X h 1 (build f) Q s"
proof (rule twI)
  assume w: "within X h s" "lw_len s + 1 < kInvalidNodeId"
  then have "build f s = Some (Inr (lw_len s), append_node n s)"
    using assms(1) by (simp add: build_def maker_def append_node_def add_node_def Let_def kInvalidNodeId_def)
  with w assms(2) [of "append_node n s"]
  show "\<exists>r s'. build f s = Some (r, s') \<and> within X h s' \<and> keeps s s' \<and> lw_len s' \<le> lw_len s + 1 \<and> (\<forall>x. r = Inr x \<longrightarrow> Q x s')"
    by simp
qed

lemmas tw_makers = maker_simps [THEN tw_build]

lemma tw_cons: "(\<And>i s'. keeps s s' \<Longrightarrow> Q i s') \<Longrightarrow> tw X h 1 (cons_node k ins) Q s"
proof (rule twI)
  assume Q: "\<And>i s'. keeps s s' \<Longrightarrow> Q i s'" and w: "within X h s" "lw_len s + 1 < kInvalidNodeId"
  let ?key = "hc_key k ins kInvalidTypeId 0" and ?n = "plain_node k 0 ins"
  show "\<exists>r s'. cons_node k ins s = Some (r, s') \<and> within X h s' \<and> keeps s s' \<and> lw_len s' \<le> lw_len s + 1 \<and> (\<forall>x. r = Inr x \<longrightarrow> Q x s')"
  proof (cases "st_get gvn_key_hash (hc_table (lw_hc s)) ?key")
    case (Some i)
    with w Q show ?thesis by (simp add: cons_node_def lookup_or_insert_def Let_def)
  next
    case None
    let ?i = "fst (add_node ?n (lw_graph s))" and ?g = "snd (add_node ?n (lw_graph s))"
    from sw.put_ok [of gvn_key_hash "hc_table (lw_hc s)" ?key ?i] w obtain b t where
      t: "st_insert gvn_key_hash ?key ?i (hc_table (lw_hc s)) = Some (b, t)" "st_ok gvn_key_hash t"
      by (auto simp: within_def)
    let ?s = "s\<lparr>lw_hc := \<lparr>hc_graph = ?g, hc_table = t\<rparr>\<rparr>"
    have "cons_node k ins s = Some (Inr ?i, ?s)"
      using None t(1) by (simp add: cons_node_def lookup_or_insert_def Let_def make_node_def split_beta)
    moreover have "keeps s ?s" by (simp add: keeps_def nth_append)
    moreover have "within X h ?s" using w t(2) by (simp add: within_def names_def lookup_def)
    ultimately show ?thesis using Q by simp
  qed
qed

lemma tw_name: "x \<in> X \<Longrightarrow> (\<And>s'. keeps s s' \<Longrightarrow> Q () s') \<Longrightarrow> tw X h 0 (bind_name h x i) Q s"
proof (rule twI)
  assume Q: "\<And>s'. keeps s s' \<Longrightarrow> Q () s'" and x: "x \<in> X" and w: "within X h s"
  from sw.put_ok [of h "lw_bindings s" x i] w obtain b t where
    t: "st_insert h x i (lw_bindings s) = Some (b, t)" "st_ok h t" "st_get h t = (st_get h (lw_bindings s))(x \<mapsto> i)"
    by (auto simp: within_def)
  have "within X h (s\<lparr>lw_bindings := t\<rparr>)" using w x t by (auto simp: within_def names_def lookup_def split: if_splits)
  with t(1) Q [of "s\<lparr>lw_bindings := t\<rparr>"]
  show "\<exists>r s'. bind_name h x i s = Some (r, s') \<and> within X h s' \<and> keeps s s' \<and> lw_len s' \<le> lw_len s + 0 \<and> (\<forall>x. r = Inr x \<longrightarrow> Q x s')"
    by (simp add: bind_name_def keeps_same)
qed

text \<open>\<open>set_input\<close> needs a node with enough inputs.\<close>

definition has_input :: "lowerer \<Rightarrow> nat \<Rightarrow> node_id \<Rightarrow> bool" where
  "has_input s j i \<longleftrightarrow> i < lw_len s \<and> j < length (n_inputs (node_at (lw_graph s) i))"

lemma has_input_keeps: "has_input s j i \<Longrightarrow> keeps s s' \<Longrightarrow> has_input s' j i"
  by (auto simp: has_input_def keeps_def)

lemma set_input_lengths:
  assumes "set_input n j x g = Some g'" "i < length (g_nodes g)"
  shows "length (n_inputs (node_at g' i)) = length (n_inputs (node_at g i))"
proof -
  let ?f = "\<lambda>nd. nd\<lparr>n_inputs := (n_inputs nd)[j := x]\<rparr>"
  have "g_nodes g' = g_nodes g \<or> g_nodes g' = g_nodes (update_node n ?f g)"
    using assms(1) by (auto simp: set_input_def Let_def split: if_splits)
  then have "node_at g' i = node_at g i \<or> node_at g' i = node_at (update_node n ?f g) i" by metis
  then show ?thesis unfolding node_at_update [OF assms(2)] by (auto split: if_splits)
qed

lemma tw_edit: "has_input s j n \<Longrightarrow> (\<And>s'. keeps s s' \<Longrightarrow> Q () s') \<Longrightarrow> tw X h 0 (edit (set_input n j x)) Q s"
proof (rule twI)
  assume i: "has_input s j n" and Q: "\<And>s'. keeps s s' \<Longrightarrow> Q () s'" and w: "within X h s"
  have "set_input n j x (lw_graph s) \<noteq> None" using i by (simp add: set_input_def has_input_def Let_def)
  then obtain g where g: "set_input n j x (lw_graph s) = Some g" by blast
  have "keeps s (set_graph g s)" using set_input_kinds(1) [OF g] set_input_lengths [OF g] by (simp add: keeps_def)
  moreover have "within X h (set_graph g s)" using w by (simp add: within_def names_def)
  ultimately show "\<exists>r s'. edit (set_input n j x) s = Some (r, s') \<and> within X h s' \<and> keeps s s' \<and> lw_len s' \<le> lw_len s + 0 \<and> (\<forall>x. r = Inr x \<longrightarrow> Q x s')"
    using g Q set_input_kinds(1) [OF g] by (simp add: edit_def)
qed

lemma tw_state [simp]:
  "tw X h c (lbind (lret x) f1) Q s = tw X h c (f1 x) Q s"
  "tw X h c (lbind (lget f) f2) Q s = tw X h c (f2 (f s)) Q s"
  by (simp_all add: tw_def lbind_def lret_def lget_def)

lemma tw_set_flow [simp]: "tw X h c (lbind (lmod (set_flow a b)) f3) Q s = tw X h c (f3 ()) Q (set_flow a b s)"
  by (simp add: tw_def lbind_def lmod_def within_def keeps_def)

lemma tw_lift: "(within X h s \<Longrightarrow> tw X h c m Q s) \<Longrightarrow> tw X h c m Q s"
  by (simp add: tw_def)

subsection \<open>Names and snapshots\<close>

lemma within_names: "within X h s \<Longrightarrow> x \<in> fst ` set (snapshot (lw_bindings s)) \<Longrightarrow> x \<in> X"
proof -
  assume w: "within X h s" and "x \<in> fst ` set (snapshot (lw_bindings s))"
  then have "map_of (snapshot (lw_bindings s)) x \<noteq> None" by (simp add: map_of_eq_None_iff)
  then have "x \<in> names h s" using snapshot_spec(2) [of h "lw_bindings s"] w by (simp add: within_def names_def lookup_def)
  then show ?thesis using w by (auto simp: within_def)
qed

lemma within_snapshot: "finite X \<Longrightarrow> within X h s \<Longrightarrow> length (snapshot (lw_bindings s)) \<le> card X"
proof -
  assume f: "finite X" and w: "within X h s"
  have "distinct (map fst (snapshot (lw_bindings s)))" using snapshot_spec(1) [of h "lw_bindings s"] w by (simp add: within_def)
  then have "length (snapshot (lw_bindings s)) = card (fst ` set (snapshot (lw_bindings s)))"
    by (metis distinct_card length_map set_map)
  also have "\<dots> \<le> card X" using within_names [OF w] by (intro card_mono f) blast
  finally show ?thesis .
qed

lemma tw_zero: "(\<And>i s'. keeps s s' \<Longrightarrow> Q i s') \<Longrightarrow> tw X h 1 (value_or_zero v) Q s"
  by (cases v) (simp_all only: value_or_zero_def option.case, auto intro!: tw_makers(2) tw_steps simp del: One_nat_def)

lemma tw_insert_all: "fst ` set xs \<subseteq> X \<Longrightarrow> (\<And>s'. keeps s s' \<Longrightarrow> Q () s') \<Longrightarrow> tw X h 0 (insert_all h xs) Q s"
proof (induction h xs arbitrary: s rule: insert_all.induct)
  case (2 h x i xs)
  then show ?case unfolding insert_all.simps
    by (intro tw_bind [where ?c1.0 = 0 and ?c2.0 = 0] tw_name "2.IH") (auto intro: keeps_trans)
qed (auto intro: tw_steps)

lemma tw_restore:
  assumes "fst ` set xs \<subseteq> X" "\<And>s'. keeps s s' \<Longrightarrow> Q () s'"
  shows "tw X h 0 (restore h xs) Q s"
proof (rule tw_lift)
  assume w: "within X h s"
  let ?s = "s\<lparr>lw_bindings := st_clear (lw_bindings s)\<rparr>"
  have c: "st_ok h (st_clear (lw_bindings s))" "st_abs (st_clear (lw_bindings s)) = Map.empty"
    using st_clear_spec [of h "lw_bindings s"] w by (simp_all add: within_def st_ok_def)
  then have "lookup h y ?s = None" for y using st_get_abs [of h "st_clear (lw_bindings s)"] by (simp add: lookup_def st_ok_def)
  then have w': "within X h ?s" using w c by (simp add: within_def names_def)
  have "tw X h 0 (insert_all h xs) Q ?s"
    by (rule tw_insert_all [OF assms(1)]) (auto intro!: assms(2) simp: keeps_def)
  with w' show ?thesis by (simp add: restore_def tw_def lbind_def lmod_def keeps_def)
qed

lemma tw_merge: "fst ` set xs \<subseteq> X \<Longrightarrow> (\<And>s'. keeps s s' \<Longrightarrow> Q () s') \<Longrightarrow> tw X h (length xs) (merge_bindings h m xs ys) Q s"
proof (induction h m xs ys arbitrary: s rule: merge_bindings.induct)
  case (2 h m x t xs ys)
  have rest: "tw X h (length xs) (lbind (bind_name h x i) (\<lambda>_. merge_bindings h m xs ys)) Q s1" if "keeps s s1" for i s1
  proof (rule tw_bind [where ?c1.0 = 0 and ?c2.0 = "length xs"], rule tw_name)
    show "x \<in> X" using 2 by simp
    fix s2 assume "keeps s1 s2"
    with that have k: "keeps s s2" by (rule keeps_trans)
    have "tw X h (length xs) (merge_bindings h m xs ys) Q s2"
      using 2 keeps_trans [OF k] by (cases "snapshot_find x ys"; cases "the (snapshot_find x ys) \<noteq> t") auto
    then show "tw X h (length xs) (merge_bindings h m xs ys) Q s2" .
  qed simp
  have "tw X h (length ((x, t) # xs)) (lbind (build (make_phi m [t, e] kInvalidTypeId)) (\<lambda>phi. lbind (bind_name h x phi) (\<lambda>_. merge_bindings h m xs ys))) Q s" for e
    by (rule tw_bind [where ?c1.0 = 1 and ?c2.0 = "length xs"], rule tw_makers(10)) (simp_all add: rest)
  moreover have "tw X h (length ((x, t) # xs)) (lbind (bind_name h x t) (\<lambda>_. merge_bindings h m xs ys)) Q s"
    by (rule tw_weaken [OF rest]) simp_all
  ultimately show ?case by (simp split: option.split)
qed (auto intro: tw_steps)

lemma tw_swallow: "tw X h c m (\<lambda>_ _. True) s \<Longrightarrow> tw X h c (swallow m) (\<lambda>_ _. True) s"
  unfolding tw_def swallow_def by fastforce

lemma tw_any: "tw X h c m Q s \<Longrightarrow> c \<le> d \<Longrightarrow> tw X h d m (\<lambda>_ _. True) s"
  by (erule tw_weaken) simp_all

lemma tw_last: "x \<in> X \<Longrightarrow> tw X h 0 (lbind (bind_name h x i) (\<lambda>_. lret j)) (\<lambda>_ _. True) s"
  by (rule tw_bind [where ?c1.0 = 0 and ?c2.0 = 0]) (auto intro: tw_name tw_steps)

lemma tw_assign:
  assumes "set (case t of Ident x \<Rightarrow> [x] | _ \<Rightarrow> []) \<subseteq> X"
  shows "tw X h 2 (assign_name h f k t v) (\<lambda>_ _. True) s"
proof (cases "\<exists>x. t = Ident x")
  case False
  then have "assign_name h f k t v = lret v" by (cases t) (simp_all add: assign_name_def)
  then show ?thesis by (simp add: tw_steps)
next
  case True
  then obtain x where t: "t = Ident x" by blast
  then have x: "x \<in> X" using assms by simp
  have "tw X h 2 (lbind (value_or_zero (lookup h x s)) (\<lambda>lhs. lbind (cons_node (f k) [lhs, v]) (\<lambda>folded. lbind (bind_name h x folded) (\<lambda>_. lret folded))))
      (\<lambda>_ _. True) s"
    by (rule tw_bind [where ?c1.0 = 1 and ?c2.0 = 1], rule tw_zero, rule tw_bind [where ?c1.0 = 1 and ?c2.0 = 0], rule tw_cons)
      (simp_all add: tw_last [OF x])
  then show ?thesis by (simp add: t assign_name_def tw_any [OF tw_last [OF x]])
qed

lemma tw_call: "tw X h 2 (lower_call c as) (\<lambda>_ _. True) s"
proof -
  have m: "tw X h 0 (lmod (\<lambda>s. if n_effect (node_at (lw_graph s) i) \<noteq> Pure then s\<lparr>lw_eff := i\<rparr> else s)) (\<lambda>_ _. True) s" for i s
    by (simp add: tw_def lmod_def within_def names_def lookup_def keeps_def)
  show ?thesis unfolding lower_call_def tw_state prod.case
    by (rule tw_bind [where ?c1.0 = 1 and ?c2.0 = 1], rule tw_makers(12), rule tw_bind [where ?c1.0 = 0 and ?c2.0 = 1],
        rule tw_weaken [OF m]) (auto simp del: One_nat_def intro: tw_makers(5))
qed

lemma tw_return: "tw X h 1 (lower_return v) (\<lambda>_ _. True) s"
  unfolding lower_return_def tw_state prod.case
  by (rule tw_bind [where ?c1.0 = 1 and ?c2.0 = 0], rule tw_makers(11)) (simp_all add: tw_steps)

lemma tw_join:
  assumes "finite X" "fst ` set xs \<subseteq> X" "length xs \<le> card X"
  shows "tw X h (1 + card X) (join_branches h c e xs) (\<lambda>_ _. True) s"
  unfolding join_branches_def tw_state prod.case
  by (rule tw_bind [where ?c1.0 = 1 and ?c2.0 = "card X"], rule tw_makers(8), unfold tw_set_flow,
      rule tw_bind [where ?c1.0 = "length xs" and ?c2.0 = 0], rule tw_merge [OF assms(2)])
    (use assms(3) in \<open>simp_all add: tw_steps\<close>)

lemma tw_else:
  assumes X: "finite X" and m: "\<And>s. tw X h c m (\<lambda>_ _. True) s" and xs: "fst ` set xs \<subseteq> X"
  shows "tw X h (c + 1 + card X) (lower_else h m f e xs) (\<lambda>_ _. True) s"
  unfolding lower_else_def tw_state prod.case tw_set_flow
proof (rule tw_lift)
  assume "within X h (set_flow f e s)"
  then have w: "within X h s" by (simp add: within_def)
  have j: "tw X h (1 + card X) (join_branches h (lw_ctrl s) (lw_eff s) (snapshot (lw_bindings s))) (\<lambda>_ _. True) s'" for s'
    using within_names [OF w] by (intro tw_join X within_snapshot [OF X w]) blast
  show "tw X h (c + 1 + card X) (lbind (restore h xs) (\<lambda>_. lbind m (\<lambda>_.
      join_branches h (lw_ctrl s) (lw_eff s) (snapshot (lw_bindings s))))) (\<lambda>_ _. True) (set_flow f e s)"
    by (rule tw_bind [where ?c1.0 = 0 and ?c2.0 = "c + 1 + card X"], rule tw_restore [OF xs],
        rule tw_bind [where ?c1.0 = c and ?c2.0 = "1 + card X"], rule tw_weaken [OF m]) (rule j | simp)+
qed

lemma tw_if:
  assumes X: "finite X" and m: "\<And>s. tw X h c1 m1 (\<lambda>_ _. True) s" "\<And>s. tw X h c2 m2 (\<lambda>_ _. True) s"
  shows "tw X h (c1 + c2 + 4 + card X) (lower_if h c m1 m2) (\<lambda>_ _. True) s"
proof -
  have t: "tw X h (c1 + c2 + 1 + card X) (lbind (lmod (set_flow t e)) (\<lambda>_. lbind (lget (\<lambda>s. snapshot (lw_bindings s))) (\<lambda>before.
      lbind m1 (\<lambda>_. lower_else h m2 f e before)))) (\<lambda>_ _. True) s" for t f e s
    unfolding tw_set_flow tw_state
  proof (rule tw_lift)
    assume w: "within X h (set_flow t e s)"
    have l: "tw X h (c2 + 1 + card X) (lower_else h m2 f e (snapshot (lw_bindings (set_flow t e s)))) (\<lambda>_ _. True) s'" for s'
      using within_names [OF w] by (intro tw_else X m(2)) blast
    show "tw X h (c1 + c2 + 1 + card X) (lbind m1 (\<lambda>_. lower_else h m2 f e (snapshot (lw_bindings (set_flow t e s))))) (\<lambda>_ _. True) (set_flow t e s)"
      by (rule tw_bind [where ?c1.0 = c1 and ?c2.0 = "c2 + 1 + card X"], rule tw_weaken [OF m(1)]) (rule l | simp)+
  qed
  show ?thesis unfolding lower_if_def tw_state prod.case
    by (rule tw_bind [where ?c1.0 = 1 and ?c2.0 = "c1 + c2 + 3 + card X"], rule tw_makers(6),
        rule tw_bind [where ?c1.0 = 1 and ?c2.0 = "c1 + c2 + 2 + card X"], rule tw_makers(5),
        rule tw_bind [where ?c1.0 = 1 and ?c2.0 = "c1 + c2 + 1 + card X"], rule tw_makers(5))
      (rule t | simp)+
qed

text \<open>The loop: its phis have three inputs, its header two.\<close>

lemma tw_accs:
  assumes "set xs \<subseteq> X" "\<And>ps s'. keeps s s' \<Longrightarrow> \<forall>(x, p) \<in> set ps. x \<in> X \<and> has_input s' 2 p \<Longrightarrow> length ps = length xs \<Longrightarrow> Q ps s'"
  shows "tw X h (2 * length xs) (accumulator_phis h l xs) Q s"
  using assms
proof (induction xs arbitrary: s Q)
  case Nil
  then show ?case by (auto intro: tw_steps)
next
  case (Cons x xs)
  have rest: "tw X h (2 * length xs) (lbind (accumulator_phis h l xs) (\<lambda>phis. lret ((x, p) # phis))) Q s1"
    if s1: "keeps s s1" "has_input s1 2 p" for p s1
  proof (rule tw_bind [where ?c1.0 = "2 * length xs" and ?c2.0 = 0], rule Cons.IH)
    fix ps and s2 assume s2: "keeps s1 s2" "\<forall>(x, p) \<in> set ps. x \<in> X \<and> has_input s2 2 p" "length ps = length xs"
    have "Q ((x, p) # ps) s2"
    proof (rule Cons.prems(2))
      show "keeps s s2" by (rule keeps_trans [OF s1(1) s2(1)])
      show "\<forall>(x, p) \<in> set ((x, p) # ps). x \<in> X \<and> has_input s2 2 p" using s2(2) has_input_keeps [OF s1(2) s2(1)] Cons.prems(1) by simp
    qed (simp add: s2(3))
    then show "tw X h 0 (lret ((x, p) # ps)) Q s2" by (rule tw_steps)
  qed (use Cons.prems(1) in auto)
  have phi: "tw X h (1 + 2 * length xs) (lbind (build (make_phi l [v, kInvalidNodeId] kInvalidTypeId)) (\<lambda>phi.
      lbind (bind_name h x phi) (\<lambda>_. lbind (accumulator_phis h l xs) (\<lambda>phis. lret ((x, phi) # phis))))) Q s1" if s1: "keeps s s1" for v s1
  proof (rule tw_bind [where ?c1.0 = 1 and ?c2.0 = "2 * length xs"], rule tw_makers(10))
    fix s2 assume s2: "keeps s1 s2" "lw_len s1 < lw_len s2" "node_at (lw_graph s2) (lw_len s1) = plain_node NK_Phi 0 (l # [v, kInvalidNodeId])"
    then have h2: "has_input s2 2 (lw_len s1)" by (simp add: has_input_def)
    show "tw X h (2 * length xs) (lbind (bind_name h x (lw_len s1)) (\<lambda>_. lbind (accumulator_phis h l xs) (\<lambda>phis. lret ((x, lw_len s1) # phis)))) Q s2"
    proof (rule tw_bind [where ?c1.0 = 0 and ?c2.0 = "2 * length xs"], rule tw_name)
      fix s3 assume "keeps s2 s3"
      with s1 s2(1) h2 show "tw X h (2 * length xs) (lbind (accumulator_phis h l xs) (\<lambda>phis. lret ((x, lw_len s1) # phis))) Q s3"
        by (intro rest) (auto intro: keeps_trans has_input_keeps)
    qed (use Cons.prems(1) in auto)
  qed simp
  show ?case unfolding accumulator_phis.simps tw_state
    by (rule tw_bind [where ?c1.0 = 1 and ?c2.0 = "1 + 2 * length xs"], rule tw_zero, rule phi) simp_all
qed

lemma tw_back: "\<forall>(x, p) \<in> set ps. has_input s 2 p \<Longrightarrow> (\<And>s'. keeps s s' \<Longrightarrow> Q () s') \<Longrightarrow> tw X h (length ps) (back_edges h ps) Q s"
proof (induction h ps arbitrary: s rule: back_edges.induct)
  case (1 h)
  then show ?case by (auto intro: tw_steps)
next
  case (2 h x phi phis)
  show ?case unfolding back_edges.simps tw_state
  proof (rule tw_bind [where ?c1.0 = 1 and ?c2.0 = "length phis"], rule tw_zero)
    fix v s1 assume s1: "keeps s s1"
    show "tw X h (length phis) (lbind (edit (set_input phi 2 v)) (\<lambda>_. back_edges h phis)) Q s1"
    proof (rule tw_bind [where ?c1.0 = 0 and ?c2.0 = "length phis"], rule tw_edit)
      show "has_input s1 2 phi" using has_input_keeps [OF _ s1] "2.prems"(1) by simp
      fix s2 assume s2: "keeps s1 s2"
      have k: "keeps s s2" by (rule keeps_trans [OF s1 s2])
      show "tw X h (length phis) (back_edges h phis) Q s2"
        by (rule "2.IH") (use "2.prems" has_input_keeps [OF _ k] keeps_trans [OF k] in \<open>auto\<close>)
    qed simp
  qed simp
qed

lemma accumulators_outer:
  "distinct out \<Longrightarrow> \<forall>x \<in> set out. outer x \<Longrightarrow>
   distinct (collect_loop_accumulators outer st out) \<and> (\<forall>x \<in> set (collect_loop_accumulators outer st out). outer x)"
proof (induction outer st out rule: collect_loop_accumulators.induct)
  case (2 outer n stack out)
  have "distinct (acc_name outer n out) \<and> (\<forall>x \<in> set (acc_name outer n out). outer x)"
    using "2.prems" by (auto simp: acc_name_def split: ast.split)
  with 2 show ?case by simp
qed simp

lemma tw_close:
  assumes "has_input s 2 p" "\<forall>(x, p) \<in> set ps. has_input s 2 p" "has_input s 0 l" "\<And>s'. keeps s s' \<Longrightarrow> Q () s'"
  shows "tw X h (2 + length ps) (close_loop h l p ps) Q s"
  unfolding close_loop_def tw_state
proof (cases "lw_ctrl s = kInvalidNodeId")
  case True
  then show "tw X h (2 + length ps) (if lw_ctrl s = kInvalidNodeId then lerr
      else lbind (build (make_constant_i64 1 kInvalidTypeId)) (\<lambda>one. lbind (cons_node NK_Add [p, one]) (\<lambda>next_i.
        lbind (edit (set_input p 2 next_i)) (\<lambda>_. lbind (back_edges h ps) (\<lambda>_. lbind (lget lw_ctrl) (\<lambda>ctrl. edit (set_input l 0 ctrl))))))) Q s"
    by (simp add: tw_steps)
next
  case False
  have edges: "tw X h (length ps) (lbind (edit (set_input p 2 i)) (\<lambda>_. lbind (back_edges h ps) (\<lambda>_.
      lbind (lget lw_ctrl) (\<lambda>ctrl. edit (set_input l 0 ctrl))))) Q s1" if s1: "keeps s s1" for i s1
  proof (rule tw_bind [where ?c1.0 = 0 and ?c2.0 = "length ps"], rule tw_edit [OF has_input_keeps [OF assms(1) s1]])
    fix s2 assume "keeps s1 s2"
    with s1 have s2: "keeps s s2" by (rule keeps_trans)
    show "tw X h (length ps) (lbind (back_edges h ps) (\<lambda>_. lbind (lget lw_ctrl) (\<lambda>ctrl. edit (set_input l 0 ctrl)))) Q s2"
    proof (rule tw_bind [where ?c1.0 = "length ps" and ?c2.0 = 0], rule tw_back)
      show "\<forall>(x, p) \<in> set ps. has_input s2 2 p" using assms(2) has_input_keeps [OF _ s2] by auto
      fix s3 assume "keeps s2 s3"
      with s2 have s3: "keeps s s3" by (rule keeps_trans)
      show "tw X h 0 (lbind (lget lw_ctrl) (\<lambda>ctrl. edit (set_input l 0 ctrl))) Q s3" unfolding tw_state
        by (rule tw_edit [OF has_input_keeps [OF assms(3) s3]]) (rule assms(4) [OF keeps_trans [OF s3]])
    qed simp
  qed simp
  have add: "tw X h (1 + length ps) (lbind (cons_node NK_Add [p, one]) (\<lambda>next_i. lbind (edit (set_input p 2 next_i)) (\<lambda>_.
      lbind (back_edges h ps) (\<lambda>_. lbind (lget lw_ctrl) (\<lambda>ctrl. edit (set_input l 0 ctrl)))))) Q s1" if "keeps s s1" for one s1
    by (rule tw_bind [where ?c1.0 = 1 and ?c2.0 = "length ps"], rule tw_cons, rule edges, rule keeps_trans [OF that]) simp_all
  have "tw X h (2 + length ps) (lbind (build (make_constant_i64 1 kInvalidTypeId)) (\<lambda>one. lbind (cons_node NK_Add [p, one]) (\<lambda>next_i.
      lbind (edit (set_input p 2 next_i)) (\<lambda>_. lbind (back_edges h ps) (\<lambda>_. lbind (lget lw_ctrl) (\<lambda>ctrl. edit (set_input l 0 ctrl))))))) Q s"
    by (rule tw_bind [where ?c1.0 = 1 and ?c2.0 = "1 + length ps"], rule tw_makers(2)) (rule add | simp)+
  with False show "tw X h (2 + length ps) (if lw_ctrl s = kInvalidNodeId then lerr
      else lbind (build (make_constant_i64 1 kInvalidTypeId)) (\<lambda>one. lbind (cons_node NK_Add [p, one]) (\<lambda>next_i.
        lbind (edit (set_input p 2 next_i)) (\<lambda>_. lbind (back_edges h ps) (\<lambda>_. lbind (lget lw_ctrl) (\<lambda>ctrl. edit (set_input l 0 ctrl))))))) Q s"
    by simp
qed

lemma tw_leave: "fst ` set xs \<subseteq> X \<Longrightarrow> fst ` set ps \<subseteq> X \<Longrightarrow> tw X h 1 (leave_loop h f e xs ps) (\<lambda>_ _. True) s"
  unfolding leave_loop_def tw_state
  by (rule tw_bind [where ?c1.0 = 1 and ?c2.0 = 0], rule tw_makers(10), unfold tw_set_flow,
      rule tw_bind [where ?c1.0 = 0 and ?c2.0 = 0], rule tw_restore, assumption,
      rule tw_bind [where ?c1.0 = 0 and ?c2.0 = 0], rule tw_insert_all) (auto intro: tw_steps)

lemma tw_for:
  assumes X: "finite X" "x \<in> X" and m: "\<And>s. tw X h c m (\<lambda>_ _. True) s"
  shows "tw X h (c + 9 + 3 * card X) (lower_for h x b lo hi m) (\<lambda>_ _. True) s"
proof (rule tw_lift)
  assume w: "within X h s"
  let ?pre = "snapshot (lw_bindings s)" and ?e = "lw_ctrl s" and ?ee = "lw_eff s"
  have pre: "fst ` set ?pre \<subseteq> X" using within_names [OF w] by blast
  text \<open>From the body on.\<close>
  have body: "tw X h (c + 3 + card X) (lbind (lmod (\<lambda>s. s\<lparr>lw_ctrl := t\<rparr>)) (\<lambda>_. lbind m (\<lambda>_. lbind (close_loop h l p ps) (\<lambda>_.
      leave_loop h f ?ee ?pre ps)))) (\<lambda>_ _. True) s1"
    if p: "has_input s1 2 p" "\<forall>(x, p) \<in> set ps. x \<in> X \<and> has_input s1 2 p" "has_input s1 0 l" "length ps \<le> card X" for t l p ps f s1
  proof -
    have "tw X h (c + 3 + card X) (lbind m (\<lambda>_. lbind (close_loop h l p ps) (\<lambda>_. leave_loop h f ?ee ?pre ps))) (\<lambda>_ _. True)
        (set_flow t (lw_eff s1) s1)"
    proof (rule tw_bind [where ?c1.0 = c and ?c2.0 = "3 + card X"])
      have "tw X h c m (\<lambda>x. keeps (set_flow t (lw_eff s1) s1)) (set_flow t (lw_eff s1) s1)"
        using m [of "set_flow t (lw_eff s1) s1"] unfolding tw_def by blast
      then show "tw X h c m (\<lambda>_. tw X h (3 + card X) (lbind (close_loop h l p ps) (\<lambda>_. leave_loop h f ?ee ?pre ps)) (\<lambda>_ _. True)) (set_flow t (lw_eff s1) s1)"
      proof (rule tw_weaken)
        fix s2 assume "keeps (set_flow t (lw_eff s1) s1) s2"
        then have k: "keeps s1 s2" by (simp add: keeps_def)
        show "tw X h (3 + card X) (lbind (close_loop h l p ps) (\<lambda>_. leave_loop h f ?ee ?pre ps)) (\<lambda>_ _. True) s2"
        proof (rule tw_bind [where ?c1.0 = "2 + length ps" and ?c2.0 = 1], rule tw_close)
          show "has_input s2 2 p" "has_input s2 0 l" "\<forall>(x, p) \<in> set ps. has_input s2 2 p"
            using p has_input_keeps [OF _ k] by auto
          show "tw X h 1 (leave_loop h f ?ee ?pre ps) (\<lambda>_ _. True) s3" for s3
            using p(2) by (intro tw_leave pre) auto
        qed (use p(4) in simp)
      qed simp
    qed simp
    then show ?thesis
      by (simp add: tw_def lbind_def lmod_def within_def names_def lookup_def keeps_def set_flow_def)
  qed
  text \<open>From the exit test on.\<close>
  have test: "tw X h (c + 7 + card X) (lbind (build (make_cmp NK_CmpLt p hi)) (\<lambda>cmp. lbind (build (make_if l cmp)) (\<lambda>ifn.
      lbind (build (make_proj ifn 0 kInvalidTypeId)) (\<lambda>tproj. lbind (build (make_proj ifn 1 kInvalidTypeId)) (\<lambda>fproj.
      lbind (lmod (\<lambda>s. s\<lparr>lw_ctrl := tproj\<rparr>)) (\<lambda>_. lbind m (\<lambda>_. lbind (close_loop h l p ps) (\<lambda>_. leave_loop h fproj ?ee ?pre ps)))))))) (\<lambda>_ _. True) s1"
    if p: "has_input s1 2 p" "\<forall>(x, p) \<in> set ps. x \<in> X \<and> has_input s1 2 p" "has_input s1 0 l" "length ps \<le> card X" for l p ps s1
  proof -
    have k: "has_input s2 2 p \<and> (\<forall>(x, p) \<in> set ps. x \<in> X \<and> has_input s2 2 p) \<and> has_input s2 0 l" if "keeps s1 s2" for s2
      using p has_input_keeps [OF _ that] by auto
    show ?thesis
      by (rule tw_bind [where ?c1.0 = 1 and ?c2.0 = "c + 6 + card X"], rule tw_makers(7),
          rule tw_bind [where ?c1.0 = 1 and ?c2.0 = "c + 5 + card X"], rule tw_makers(6),
          rule tw_bind [where ?c1.0 = 1 and ?c2.0 = "c + 4 + card X"], rule tw_makers(5),
          rule tw_bind [where ?c1.0 = 1 and ?c2.0 = "c + 3 + card X"], rule tw_makers(5))
        (rule body | (simp add: p(4); fail) | (use k keeps_trans in blast))+
  qed
  let ?test = "\<lambda>l p ps. lbind (build (make_cmp NK_CmpLt p hi)) (\<lambda>cmp. lbind (build (make_if l cmp)) (\<lambda>ifn.
      lbind (build (make_proj ifn 0 kInvalidTypeId)) (\<lambda>tproj. lbind (build (make_proj ifn 1 kInvalidTypeId)) (\<lambda>fproj.
      lbind (lmod (\<lambda>s. s\<lparr>lw_ctrl := tproj\<rparr>)) (\<lambda>_. lbind m (\<lambda>_. lbind (close_loop h l p ps) (\<lambda>_. leave_loop h fproj ?ee ?pre ps)))))))"
  have accs: "tw X h (c + 7 + 3 * card X) (lbind (lget (\<lambda>s. collect_loop_accumulators (\<lambda>x. lookup h x s \<noteq> None) [b] [])) (\<lambda>names.
      lbind (accumulator_phis h l names) (\<lambda>ps. lbind (bind_name h x p) (\<lambda>_. ?test l p ps)))) (\<lambda>_ _. True) s2"
    if s2: "has_input s2 2 p" "has_input s2 0 l" for l p s2
    unfolding tw_state
  proof (rule tw_lift)
    assume "within X h s2"
    define ns where "ns = collect_loop_accumulators (\<lambda>x. lookup h x s2 \<noteq> None) [b] []"
    have out: "distinct ns \<and> (\<forall>x \<in> set ns. lookup h x s2 \<noteq> None)"
      unfolding ns_def by (rule accumulators_outer) simp_all
    moreover have "names h s2 \<subseteq> X" using \<open>within X h s2\<close> by (simp add: within_def)
    ultimately have ns: "distinct ns" "set ns \<subseteq> X" unfolding names_def by blast+
    then have len: "length ns \<le> card X" using card_mono [OF X(1)] by (metis distinct_card)
    have "tw X h (c + 7 + 3 * card X) (lbind (accumulator_phis h l ns) (\<lambda>ps. lbind (bind_name h x p) (\<lambda>_. ?test l p ps))) (\<lambda>_ _. True) s2"
    proof (rule tw_bind [where ?c1.0 = "2 * length ns" and ?c2.0 = "c + 7 + card X"], rule tw_accs [OF ns(2)])
      fix ps :: "(symbol_id \<times> node_id) list" and s3
      assume s3: "keeps s2 s3" "\<forall>(x, p) \<in> set ps. x \<in> X \<and> has_input s3 2 p" "length ps = length ns"
      show "tw X h (c + 7 + card X) (lbind (bind_name h x p) (\<lambda>_. ?test l p ps)) (\<lambda>_ _. True) s3"
      proof (rule tw_bind [where ?c1.0 = 0 and ?c2.0 = "c + 7 + card X"], rule tw_name [OF X(2)], rule test)
        fix s4 assume s4: "keeps s3 s4"
        note k = has_input_keeps [OF _ s4] has_input_keeps [OF _ keeps_trans [OF s3(1) s4]]
        show "has_input s4 2 p" "has_input s4 0 l" by (rule k(2) [OF s2(1)], rule k(2) [OF s2(2)])
        show "\<forall>(x, p) \<in> set ps. x \<in> X \<and> has_input s4 2 p" using s3(2) k(1) by blast
      qed (use len s3(3) in simp_all)
    qed (use len in simp)
    then show "tw X h (c + 7 + 3 * card X) (lbind (accumulator_phis h l (collect_loop_accumulators (\<lambda>x. lookup h x s2 \<noteq> None) [b] []))
        (\<lambda>ps. lbind (bind_name h x p) (\<lambda>_. ?test l p ps))) (\<lambda>_ _. True) s2" unfolding ns_def .
  qed
  show ?thesis unfolding lower_for_def tw_state prod.case
  proof (rule tw_bind [where ?c1.0 = 1 and ?c2.0 = "c + 8 + 3 * card X"], rule tw_makers(9))
    fix s1 assume s1: "keeps s s1" "lw_len s < lw_len s1" "node_at (lw_graph s1) (lw_len s) = plain_node NK_Loop 0 [?e, ?e]"
    show "tw X h (c + 8 + 3 * card X) (lbind (build (make_phi (lw_len s) [lo, kInvalidNodeId] kInvalidTypeId)) (\<lambda>p.
      lbind (lget (\<lambda>s. collect_loop_accumulators (\<lambda>x. lookup h x s \<noteq> None) [b] [])) (\<lambda>names.
      lbind (accumulator_phis h (lw_len s) names) (\<lambda>ps. lbind (bind_name h x p) (\<lambda>_. ?test (lw_len s) p ps))))) (\<lambda>_ _. True) s1"
    proof (rule tw_bind [where ?c1.0 = 1 and ?c2.0 = "c + 7 + 3 * card X"], rule tw_makers(10), rule accs)
      fix s2 assume s2: "keeps s1 s2" "lw_len s1 < lw_len s2" "node_at (lw_graph s2) (lw_len s1) = plain_node NK_Phi 0 [lw_len s, lo, kInvalidNodeId]"
      show "has_input s2 2 (lw_len s1)" using s2(2,3) by (simp add: has_input_def)
      have "has_input s1 0 (lw_len s)" using s1(2,3) by (simp add: has_input_def)
      then show "has_input s2 0 (lw_len s)" using s2(1) by (rule has_input_keeps)
    qed simp
  qed simp
qed

subsection \<open>Every tree\<close>

text \<open>\<open>weight X\<close> nodes pay for one node of the tree, whatever it is.\<close>

definition weight :: "symbol_id set \<Rightarrow> nat" where
  "weight X = 4 * card X + 16"

lemma weight_bounds: "9 + 3 * card X \<le> weight X" "4 + card X \<le> weight X" "2 \<le> weight X" "1 \<le> weight X"
  by (simp_all add: weight_def)

definition cheap :: "symbol_id set \<Rightarrow> (symbol_id \<Rightarrow> 64 word) \<Rightarrow> nat \<Rightarrow> 'a lm \<Rightarrow> bool" where
  "cheap X h c m \<longleftrightarrow> (\<forall>s. tw X h c m (\<lambda>_ _. True) s)"

lemma cheap_bind: "cheap X h c1 m \<Longrightarrow> (\<And>x. cheap X h c2 (f x)) \<Longrightarrow> c1 + c2 \<le> c \<Longrightarrow> cheap X h c (lbind m f)"
  unfolding cheap_def
  by (intro allI, rule tw_bind [where ?c1.0 = c1 and ?c2.0 = c2], rule tw_weaken [where c = c1]) blast+

lemma cheap_weaken: "cheap X h c m \<Longrightarrow> c \<le> d \<Longrightarrow> cheap X h d m"
  unfolding cheap_def by (auto elim: tw_weaken)

lemma cheap_steps:
  "cheap X h c (lret y)" "cheap X h c (lget f)" "cheap X h c lerr" "x \<in> X \<Longrightarrow> cheap X h c (bind_name h x i)"
  "1 \<le> c \<Longrightarrow> cheap X h c (cons_node k ins)" "2 \<le> c \<Longrightarrow> cheap X h c (lower_call a as)" "1 \<le> c \<Longrightarrow> cheap X h c (lower_return v)"
  "x \<in> X \<Longrightarrow> cheap X h c (lbind (bind_name h x i) (\<lambda>_. lret j))"
  by (auto simp: cheap_def intro: tw_steps tw_weaken [OF tw_name] tw_weaken [OF tw_cons] tw_weaken [OF tw_call] tw_weaken [OF tw_return]
    tw_any [OF tw_last])

lemma cheap_assign:
  "set (case t of Ident x \<Rightarrow> [x] | _ \<Rightarrow> []) \<subseteq> X \<Longrightarrow> 2 \<le> c \<Longrightarrow> cheap X h c (assign_name h g k t v)"
  unfolding cheap_def by (intro allI tw_any [OF tw_assign])

lemma cheap_build: "maker f n \<Longrightarrow> 1 \<le> c \<Longrightarrow> cheap X h c (build f)"
  unfolding cheap_def by (auto intro: tw_weaken [OF tw_build])

lemmas cheap_makers = maker_simps [THEN cheap_build]

lemma cheap_swallow: "cheap X h c m \<Longrightarrow> cheap X h c (swallow m)"
  by (auto simp: cheap_def intro: tw_swallow)

lemma cheap_if: "finite X \<Longrightarrow> cheap X h c1 m1 \<Longrightarrow> cheap X h c2 m2 \<Longrightarrow> c1 + c2 + 4 + card X \<le> d \<Longrightarrow> cheap X h d (lower_if h c m1 m2)"
  unfolding cheap_def by (auto intro: tw_weaken [OF tw_if])

lemma cheap_for: "finite X \<Longrightarrow> x \<in> X \<Longrightarrow> cheap X h c m \<Longrightarrow> c + 9 + 3 * card X \<le> d \<Longrightarrow> cheap X h d (lower_for h x b lo hi m)"
  unfolding cheap_def by (auto intro: tw_weaken [OF tw_for])

lemma cheap_cons:
  assumes "cheap X h (weight X * (2 * size x + 1)) m" "\<And>y. cheap X h (weight X * (2 * size_list size xs)) (f y)"
  shows "cheap X h (weight X * (2 * size_list size (x # xs))) (lbind m f)"
  by (rule cheap_bind [OF assms]) (simp add: algebra_simps)

lemma cheap_lower:
  assumes X: "finite X"
  shows "set (binds n) \<subseteq> X \<Longrightarrow> cheap X h (weight X * (2 * size n + 1)) (lower_stmt h n)"
    and "set (binds n) \<subseteq> X \<Longrightarrow> cheap X h (weight X * (2 * size n + 1)) (lower_expr h n)"
    and "set (concat (map binds ns)) \<subseteq> X \<Longrightarrow> cheap X h (weight X * (2 * size_list size ns)) (lower_stmts h ns)"
    and "set (concat (map binds ns)) \<subseteq> X \<Longrightarrow> cheap X h (weight X * (2 * size_list size ns)) (lower_args h ns)"
    and "set (concat (map binds ns)) \<subseteq> X \<Longrightarrow> cheap X h (weight X * (2 * size_list size ns)) (lower_block h ns l)"
proof (induction h n and h n and h ns and h ns and h ns l rule: lower_stmt_lower_expr_lower_stmts_lower_args_lower_block.induct)
  case (1 h x ty ini m)
  show ?case
  proof (cases ini)
    case None
    with 1 show ?thesis unfolding lower_stmt.simps None option.case
      by (rule_tac cheap_bind [where ?c1.0 = 1 and ?c2.0 = 0], rule_tac cheap_makers(2)) (auto intro!: cheap_steps simp: weight_def)
  next
    case (Some e)
    with 1 show ?thesis unfolding lower_stmt.simps Some option.case
      by (rule_tac cheap_bind [where ?c1.0 = "weight X * (2 * size e + 1)" and ?c2.0 = 0])
        (auto intro!: cheap_steps simp: algebra_simps)
  qed
next
  case (2 h e)
  then show ?case unfolding lower_stmt.simps
    by (intro cheap_bind [where ?c1.0 = "weight X * (2 * size e + 1)" and ?c2.0 = 0]) (auto intro!: cheap_steps simp: algebra_simps)
next
  case (3 h v)
  show ?case
  proof (cases v)
    case None
    show ?thesis unfolding lower_stmt.simps None option.case
      by (intro cheap_bind [where ?c1.0 = 1 and ?c2.0 = 1] cheap_makers(2) cheap_steps) (simp_all add: weight_def)
  next
    case (Some e)
    with 3 show ?thesis unfolding lower_stmt.simps Some option.case
      by (intro cheap_bind [where ?c1.0 = "weight X * (2 * size e + 1)" and ?c2.0 = 1] cheap_steps) (auto simp: algebra_simps weight_def)
  qed
next
  case (4 h c t e)
  let ?w = "\<lambda>n. weight X * (2 * size n + 1)"
  let ?e = "case e of Some b \<Rightarrow> ?w b | None \<Rightarrow> 0"
  have "cheap X h ?e (case e of Some b \<Rightarrow> lower_stmt h b | None \<Rightarrow> lret True)"
    using 4 by (cases e) (auto intro: cheap_steps)
  moreover have "?w t + ?e + 4 + card X \<le> ?w t + ?e + weight X" using weight_bounds(2) [of X] by simp
  ultimately have "cheap X h (?w t + ?e + weight X) (lower_if h i (lower_stmt h t) (case e of Some b \<Rightarrow> lower_stmt h b | None \<Rightarrow> lret True))" for i
    using 4 by (intro cheap_if [OF X]) auto
  then show ?case unfolding lower_stmt.simps
    using 4 by (intro cheap_bind [where ?c1.0 = "?w c" and ?c2.0 = "?w t + ?e + weight X"]) (auto simp: algebra_simps split: option.split)
next
  case (6 h x lo hi b)
  let ?w = "\<lambda>n. weight X * (2 * size n + 1)"
  have "cheap X h (?w b + weight X) (lower_for h x b l r (lower_stmt h b))" for l r
    using 6 weight_bounds(1) [of X] by (intro cheap_for [OF X, where c = "?w b"]) auto
  then have "cheap X h (?w hi + (?w b + weight X)) (lbind (lower_expr h hi) (\<lambda>r. lower_for h x b l r (lower_stmt h b)))" for l
    using 6 by (rule_tac cheap_bind [where ?c1.0 = "?w hi" and ?c2.0 = "?w b + weight X"]) auto
  then show ?case unfolding lower_stmt.simps
    using 6 by (rule_tac cheap_bind [where ?c1.0 = "?w lo" and ?c2.0 = "?w hi + (?w b + weight X)"]) (auto simp: algebra_simps)
next
  case (8 h k t v)
  then show ?case unfolding lower_stmt.simps
    by (rule_tac cheap_bind [where ?c1.0 = "weight X * (2 * size v + 1)" and ?c2.0 = 2], simp,
        rule_tac cheap_bind [where ?c1.0 = 2 and ?c2.0 = 0], rule_tac cheap_assign)
      (auto intro: cheap_steps simp: algebra_simps weight_def)
next
  case (15 h k a b)
  then show ?case unfolding lower_expr.simps
    by (rule_tac cheap_bind [where ?c1.0 = "weight X * (2 * size a + 1)" and ?c2.0 = "weight X * (2 * size b + 1) + 1"], simp,
        rule_tac cheap_bind [where ?c1.0 = "weight X * (2 * size b + 1)" and ?c2.0 = 1])
      (auto intro: cheap_steps simp: algebra_simps weight_def)
next
  case (16 h k a)
  then show ?case unfolding lower_expr.simps
    by (intro cheap_bind [where ?c1.0 = "weight X * (2 * size a + 1)" and ?c2.0 = 1] cheap_steps) (auto simp: algebra_simps weight_def)
next
  case (17 h c as)
  then show ?case unfolding lower_expr.simps
    by (intro cheap_bind [where ?c1.0 = "weight X * (2 * size_list size as)" and ?c2.0 = 2] cheap_steps) (auto simp: algebra_simps weight_def)
next
  case (18 h k t v)
  then show ?case unfolding lower_expr.simps
    by (intro cheap_bind [where ?c1.0 = "weight X * (2 * size v + 1)" and ?c2.0 = 2] cheap_assign) (auto simp: algebra_simps weight_def)
next
  case (14 h x)
  show ?case unfolding lower_expr.simps
    by (rule cheap_bind [where ?c1.0 = 0 and ?c2.0 = 1])
      (auto intro!: cheap_steps cheap_makers(1) simp: weight_def split: option.split)
next
  case (19 h ss)
  then have "cheap X h (weight X * (2 * size_list size ss)) (lower_block h ss kInvalidNodeId)" by simp
  then show ?case unfolding lower_expr.simps by (rule cheap_weaken) simp
next
  case (24 h x xs)
  show ?case unfolding lower_args.simps
    by (rule cheap_cons, use 24 in simp,
        rule cheap_bind [where ?c1.0 = "weight X * (2 * size_list size xs)" and ?c2.0 = 0], use 24 in simp) (auto intro: cheap_steps)
next
  case (26 h e xs l)
  show ?case unfolding lower_block.simps
    by (rule cheap_cons [where x = "ExprStmt e"], rule cheap_weaken [where c = "weight X * (2 * size e + 1)"]) (use 26 in auto)
qed ((simp only: lower_block.simps list.map concat.simps set_append Un_subset_iff, rule cheap_cons; blast; fail)
  | (simp only: lower_stmt.simps lower_stmts.simps lower_args.simps lower_block.simps,
    ((rule cheap_steps; fail) | (rule cheap_swallow, simp; fail) | (rule cheap_cons; auto; fail) | (rule cheap_weaken, auto; fail)))
  | (simp only: lower_expr.simps, rule cheap_makers; simp add: weight_def; fail) | (simp only: lower_expr.simps, rule cheap_weaken; auto; fail))+

subsection \<open>Functions and modules\<close>

lemma cheap_params: "fp_name ` set ps \<subseteq> X \<Longrightarrow> cheap X h (length ps) (lower_params h ps)"
proof (induction h ps rule: lower_params.induct)
  case (2 h p ps)
  have i: "cheap X h 0 (\<lambda>s. map_option (\<lambda>(_, t). (Inr (), s\<lparr>lw_params := t\<rparr>)) (st_insert h (fp_name p) i (lw_params s)))" for i
    unfolding cheap_def
  proof (intro allI twI)
    fix s assume w: "within X h s"
    from sw.put_ok [of h "lw_params s" "fp_name p" i] w obtain b t where
      "st_insert h (fp_name p) i (lw_params s) = Some (b, t)" "st_ok h t" by (auto simp: within_def)
    with w show "\<exists>r s'. map_option (\<lambda>(_, t). (Inr (), s\<lparr>lw_params := t\<rparr>)) (st_insert h (fp_name p) i (lw_params s)) = Some (r, s')
        \<and> within X h s' \<and> keeps s s' \<and> lw_len s' \<le> lw_len s + 0 \<and> (\<forall>x. r = Inr x \<longrightarrow> True)"
      by (simp add: within_def names_def lookup_def keeps_same)
  qed
  have p: "cheap X h (length ps) (lbind (bind_name h (fp_name p) i) (\<lambda>_. lower_params h ps))" for i
    by (rule cheap_bind [where ?c1.0 = 0 and ?c2.0 = "length ps"]) (use 2 in \<open>auto intro: cheap_steps\<close>)
  show ?case unfolding lower_params.simps
    by (rule cheap_bind [where ?c1.0 = 1 and ?c2.0 = "length ps"], rule cheap_makers(1), simp,
        rule cheap_bind [where ?c1.0 = 0 and ?c2.0 = "length ps"], rule i, rule p) simp_all
qed (simp add: cheap_steps)

lemma cheap_flow: "cheap X h c (lmod (set_flow a b))"
  unfolding cheap_def by (intro allI tw_any [OF tw_flow [where c = 0]]) simp

lemma cheap_finish: "cheap X h 2 finish_fn"
proof -
  have "cheap X h 2 (lbind (build (make_constant_i64 0 kInvalidTypeId)) (\<lambda>zero. lbind (build (make_return c e zero)) (\<lambda>_. lret True)))" for c e
    by (rule cheap_bind [where ?c1.0 = 1 and ?c2.0 = 1], rule cheap_makers(2), simp,
        rule cheap_bind [where ?c1.0 = 1 and ?c2.0 = 0], rule cheap_makers(11)) (simp_all add: cheap_steps)
  then have "cheap X h 2 (case x of (c, e) \<Rightarrow> if c \<noteq> kInvalidNodeId \<and> e \<noteq> kInvalidNodeId then
      lbind (build (make_constant_i64 0 kInvalidTypeId)) (\<lambda>zero. lbind (build (make_return c e zero)) (\<lambda>_. lret True)) else lret True)" for x
    by (cases x) (simp add: cheap_steps)
  then show ?thesis unfolding finish_fn_def
    by (rule cheap_bind [where ?c1.0 = 0 and ?c2.0 = 2, rotated]) (simp_all add: cheap_steps)
qed

text \<open>The nodes a function can need, and a module.\<close>

definition fn_names :: "fn_decl \<Rightarrow> symbol_id set" where
  "fn_names fn = set (map fp_name (fd_params fn) @ concat (map binds (block_stmts (fd_body fn))))"

definition fn_cost :: "fn_decl \<Rightarrow> nat" where
  "fn_cost fn = 4 + length (fd_params fn) + weight (fn_names fn) * (2 * size_list size (block_stmts (fd_body fn)))"

definition module_cost :: "ast_module \<Rightarrow> nat" where
  "module_cost m = (\<Sum>fn\<leftarrow>fns_of m. fn_cost fn)"

lemma lower_fn_returns:
  assumes w: "within UNIV h s" and l: "lw_len s + fn_cost fn < kInvalidNodeId"
  shows "\<exists>r s'. lower_fn h fn s = Some (r, s') \<and> within UNIV h s' \<and> lw_len s' \<le> lw_len s + fn_cost fn"
proof -
  let ?X = "fn_names fn" and ?s = "reset_function_state s"
  let ?W = "weight ?X * (2 * size_list size (block_stmts (fd_body fn)))"
  have X: "finite ?X" by (simp add: fn_names_def)
  have c: "st_ok h (st_clear t)" "st_abs (st_clear t) = Map.empty" if "st_ok h t" for t :: name_table
    using st_clear_spec [of h t] that by (simp_all add: st_ok_def)
  then have "st_get h (st_clear t) y = None" if "st_ok h t" for y and t :: name_table
    using that st_get_abs [of h "st_clear t"] by (simp add: st_ok_def)
  then have ws: "within ?X h ?s" using w c by (simp add: within_def names_def lookup_def reset_function_state_def)
  have body: "cheap ?X h ?W (lower_stmts h (block_stmts (fd_body fn)))"
    by (rule cheap_lower(3) [OF X]) (simp add: fn_names_def)
  have "cheap ?X h (?W + 2) (lbind (lower_stmts h (block_stmts (fd_body fn))) (\<lambda>_. finish_fn))"
    by (rule cheap_bind [OF body cheap_finish]) simp
  then have "cheap ?X h (length (fd_params fn) + (?W + 2)) (lbind (lower_params h (fd_params fn)) (\<lambda>_. lbind (lower_stmts h (block_stmts (fd_body fn))) (\<lambda>_. finish_fn)))"
    by (intro cheap_bind [OF cheap_params]) (auto simp: fn_names_def)
  then have r: "cheap ?X h (length (fd_params fn) + (?W + 2)) (lbind (lmod (set_flow c e)) (\<lambda>_.
      lbind (lower_params h (fd_params fn)) (\<lambda>_. lbind (lower_stmts h (block_stmts (fd_body fn))) (\<lambda>_. finish_fn))))" for c e
    by (intro cheap_bind [OF cheap_flow [where c = 0]], assumption, simp)
  have "cheap ?X h (fn_cost fn) (lbind (build (make_proj kStartNodeId 0 kInvalidTypeId)) (\<lambda>c. lbind (build (make_proj kStartNodeId 1 kInvalidTypeId)) (\<lambda>e.
      lbind (lmod (set_flow c e)) (\<lambda>_. lbind (lower_params h (fd_params fn)) (\<lambda>_. lbind (lower_stmts h (block_stmts (fd_body fn))) (\<lambda>_. finish_fn))))))"
    by (rule cheap_bind [where ?c1.0 = 1 and ?c2.0 = "length (fd_params fn) + (?W + 2) + 1"], rule cheap_makers(5), simp,
        rule cheap_bind [where ?c1.0 = 1 and ?c2.0 = "length (fd_params fn) + (?W + 2)"], rule cheap_makers(5), simp, rule r)
      (simp_all add: fn_cost_def)
  then have "tw ?X h (fn_cost fn) (lbind (build (make_proj kStartNodeId 0 kInvalidTypeId)) (\<lambda>c. lbind (build (make_proj kStartNodeId 1 kInvalidTypeId)) (\<lambda>e.
      lbind (lmod (set_flow c e)) (\<lambda>_. lbind (lower_params h (fd_params fn)) (\<lambda>_. lbind (lower_stmts h (block_stmts (fd_body fn))) (\<lambda>_. finish_fn))))))
      (\<lambda>_ _. True) ?s" by (simp add: cheap_def)
  moreover have "lw_hc ?s = lw_hc s" by (simp add: reset_function_state_def)
  ultimately show ?thesis
    using ws l unfolding tw_def lower_fn_def by (auto simp: lbind_def lmod_def within_def)
qed

lemma lower_module_returns:
  "within UNIV h s \<Longrightarrow> lw_len s + module_cost m < kInvalidNodeId
    \<Longrightarrow> \<exists>r s'. lower_module h m s = Some (r, s') \<and> lw_len s' \<le> lw_len s + module_cost m"
proof (induction h m arbitrary: s rule: lower_module.induct)
  case (2 h fn its)
  have c: "module_cost (FnItem fn # its) = fn_cost fn + module_cost its" by (simp add: module_cost_def)
  with lower_fn_returns [OF "2.prems"(1), of fn] "2.prems"(2) obtain r s1 where
    s1: "lower_fn h fn s = Some (r, s1)" "within UNIV h s1" "lw_len s1 \<le> lw_len s + fn_cost fn" by auto
  show ?case
  proof (cases r)
    case (Inl e)
    with s1 c show ?thesis by (simp add: lbind_def)
  next
    case (Inr b)
    with "2.IH" [OF s1(2)] s1 c "2.prems"(2) obtain r' s2 where
      "lower_module h its s1 = Some (r', s2)" "lw_len s2 \<le> lw_len s1 + module_cost its" by auto
    with Inr s1 c show ?thesis by (simp add: lbind_def)
  qed
qed (auto simp: lret_def module_cost_def)

text \<open>
  C13. Lowering a module into an empty graph returns, with an error or not, and the graph then
  has at most \<open>module_cost m\<close> nodes besides \<open>Start\<close>, provided these are fewer than the
  node ids there are: per function \<open>4 + p + 2 k (4 n + 16)\<close> for \<open>p\<close> parameters, \<open>k\<close> tree
  nodes and \<open>n\<close> names.
\<close>

theorem lowering_returns:
  assumes "1 + module_cost m < kInvalidNodeId"
  shows "\<exists>r s. lower_module h m (lowerer_init graph_new) = Some (r, s) \<and> lw_len s \<le> 1 + module_cost m"
proof -
  have "within UNIV h (lowerer_init graph_new)"
    using sw.inv_empty [of h] sw.inv_empty [of gvn_key_hash] by (simp add: within_def lowerer_init_def hc_new_def)
  moreover have "lw_len (lowerer_init graph_new) = 1" by (simp add: lowerer_init_def hc_new_def graph_new_def)
  ultimately show ?thesis using lower_module_returns [of h "lowerer_init graph_new" m] assms by simp
qed

theorem lowering_returns_witness:
  "\<exists>r s. lower_module (\<lambda>x. of_nat x) (sample_module [Ident 4, Ident 3]) (lowerer_init graph_new) = Some (r, s) \<and> lw_len s \<le> 903"
proof -
  have "1 + module_cost (sample_module [Ident 4, Ident 3]) = 903" by code_simp
  then show ?thesis using lowering_returns [of "sample_module [Ident 4, Ident 3]" "\<lambda>x. of_nat x"] by (simp add: kInvalidNodeId_def)
qed

end
