(* ===== verification/LowerSafe.thy ===== *)
theory LowerSafe
  imports LowerTotal
begin

section \<open>A checked module is lowered\<close>

text \<open>
  The checker and the lowering together: a module the checker accepts is lowered without
  error, to a consistent graph in which every name was found: its \<open>Parameter\<close> nodes are
  exactly the parameters of the functions.
\<close>

abbreviation par_node :: "fn_param \<Rightarrow> node" where
  "par_node p \<equiv> plain_node NK_Parameter (payload_of_sym (fp_name p)) []"

definition param_ids :: "fn_param list \<Rightarrow> nat \<Rightarrow> symbol_id \<Rightarrow> node_id option" where
  "param_ids ps n = map_of (rev (zip (map fp_name ps) [n..<n + length ps]))"

lemma param_ids_Cons: "param_ids (p # ps) n = (\<lambda>y. case param_ids ps (Suc n) y of None \<Rightarrow> if y = fp_name p then Some n else None | Some i \<Rightarrow> Some i)"
  by (rule ext) (auto simp: param_ids_def upt_conv_Cons map_add_def simp del: upt_Suc split: option.splits)

lemma wl_params:
  assumes "linv L h s"
    and "\<And>s'. linv L h s' \<Longrightarrow> g_nodes (lw_graph s') = g_nodes (lw_graph s) @ map par_node ps \<Longrightarrow> same_flow s s'
      \<Longrightarrow> (\<And>y. lookup h y s' = (case param_ids ps (lw_len s) y of None \<Rightarrow> lookup h y s | Some i \<Rightarrow> Some i)) \<Longrightarrow> Q () s'"
  shows "wl (lower_params h ps) Q s"
  using assms
proof (induction h ps arbitrary: s rule: lower_params.induct)
  case (1 h)
  then show ?case by (simp add: same_flow_def param_ids_def)
next
  case (2 h p ps)
  have ins: "grows_lm (\<lambda>s. map_option (\<lambda>(_, t). (Inr (), s\<lparr>lw_params := t\<rparr>)) (st_insert h (fp_name p) i (lw_params s)))" for i
    by (auto simp: grows_lm_def)
  show ?case unfolding lower_params.simps
  proof (rule wl_bindE, rule wl_build [OF maker_simps(1)])
    assume "lw_len s < kInvalidNodeId" and l: "Suc (lw_len s) < kInvalidNodeId"
    let ?s1 = "append_node (par_node p) s"
    have s1: "linv L h ?s1" by (rule append_node_linv [OF 2(2) l]) (simp_all add: node_is_pure_def)
    have "wl (lbind (\<lambda>s'. map_option (\<lambda>(_, t). (Inr (), s'\<lparr>lw_params := t\<rparr>)) (st_insert h (fp_name p) (lw_len s) (lw_params s')))
        (\<lambda>_. lbind (bind_name h (fp_name p) (lw_len s)) (\<lambda>_. lower_params h ps))) Q ?s1"
    proof (rule wl_bindE, rule wlI)
      fix r s2 assume "map_option (\<lambda>(_, t). (Inr (), ?s1\<lparr>lw_params := t\<rparr>)) (st_insert h (fp_name p) (lw_len s) (lw_params ?s1)) = Some (r, s2)"
      then obtain b t where t: "st_insert h (fp_name p) (lw_len s) (lw_params s) = Some (b, t)" "r = Inr ()" "s2 = ?s1\<lparr>lw_params := t\<rparr>" by auto
      have "st_ok h t" using st_put(1) [OF _ t(1)] 2(2) by (simp add: linv_def)
      then have s2: "linv L h s2" using s1 t(3) unfolding linv_def value_node_def lookup_def by simp
      have v: "value_node s2 (lw_len s)" using t(3) by (simp add: value_node_def merge_kind_def)
      have "wl (lbind (bind_name h (fp_name p) (lw_len s)) (\<lambda>_. lower_params h ps)) Q s2"
      proof (rule wl_bindE, rule wl_bind_name [OF s2 v])
        fix s3 assume s3: "linv L h s3" "lw_hc s3 = lw_hc s2" "same_flow s2 s3"
          "\<And>y. lookup h y s3 = (if y = fp_name p then Some (lw_len s) else lookup h y s2)"
        have g3: "g_nodes (lw_graph s3) = g_nodes (lw_graph s) @ [par_node p]" using s3(2) t(3) by simp
        have f3: "same_flow s s3" using s3(3) t(3) by (simp add: same_flow_def)
        have l3: "lookup h y s3 = (if y = fp_name p then Some (lw_len s) else lookup h y s)" for y
          using s3(4) t(3) by (simp add: lookup_def)
        show "wl (lower_params h ps) Q s3"
        proof (rule 2(1) [OF s3(1)])
          fix s4 assume s4: "linv L h s4" "g_nodes (lw_graph s4) = g_nodes (lw_graph s3) @ map par_node ps" "same_flow s3 s4"
            "\<And>y. lookup h y s4 = (case param_ids ps (lw_len s3) y of None \<Rightarrow> lookup h y s3 | Some i \<Rightarrow> Some i)"
          have "g_nodes (lw_graph s4) = g_nodes (lw_graph s) @ map par_node (p # ps)" using s4(2) g3 by simp
          moreover have "same_flow s s4" using f3 s4(3) by (simp add: same_flow_def)
          moreover have "lookup h y s4 = (case param_ids (p # ps) (lw_len s) y of None \<Rightarrow> lookup h y s | Some i \<Rightarrow> Some i)" for y
            using s4(4) [of y] g3 l3 by (auto simp: param_ids_Cons split: option.splits)
          ultimately show "Q () s4" by (rule 2(3) [OF s4(1)])
        qed
      qed (rule grows_params)
      with t(2) show "\<exists>x. r = Inr x \<and> wl (lbind (bind_name h (fp_name p) (lw_len s)) (\<lambda>_. lower_params h ps)) Q s2" by blast
    qed (intro grows_all grows_params)
    then show "wl (lbind (\<lambda>s'. map_option (\<lambda>(_, t). (Inr (), s'\<lparr>lw_params := t\<rparr>)) (st_insert h (fp_name p) (lw_len s) (lw_params s')))
        (\<lambda>_. lbind (bind_name h (fp_name p) (lw_len s)) (\<lambda>_. lower_params h ps))) Q (set_graph (snd (add_node (par_node p) (lw_graph s))) s)"
      by (simp add: append_node_def)
  qed (intro grows_lm_bind ins grows_all grows_params)
qed

lemma wl_finish:
  assumes inv: "linv L h s" and Q: "\<And>s'. linv L h s' \<Longrightarrow> lstep h s s' \<Longrightarrow> Q True s'"
  shows "wl finish_fn Q s"
proof (cases "lw_ctrl s \<noteq> kInvalidNodeId \<and> lw_eff s \<noteq> kInvalidNodeId")
  case False
  then have "finish_fn s = lret True s" by (auto simp: finish_fn_def lbind_def lget_def)
  then show ?thesis using Q [OF inv lstep_refl] by (auto simp: wl_def lret_def)
next
  case True
  have "wl (lbind (build (make_constant_i64 0 kInvalidTypeId)) (\<lambda>zero. lbind (build (make_return (lw_ctrl s) (lw_eff s) zero)) (\<lambda>_. lret True))) Q s"
  proof (rule wl_bindE, rule wl_news(2) [OF inv])
    fix s1 assume s1: "s1 = append_node (plain_node NK_Constant 0 []) s" "linv L h s1" "lstep h s s1"
    show "wl (lbind (build (make_return (lw_ctrl s) (lw_eff s) (lw_len s))) (\<lambda>_. lret True)) Q s1"
    proof (rule wl_bindE, rule wl_news(11) [OF s1(2)])
      show "new_ok L s1 (plain_node NK_Return 0 [lw_ctrl s, lw_eff s, lw_len s])"
        using linv_ids [OF inv] id_ok_step [OF _ s1(3)] by (auto simp: new_ok_def node_is_pure_def id_ok_def s1(1))
      fix s2 assume "linv L h s2" "lstep h s1 s2"
      then show "wl (lret True) Q s2" using s1(3) by (simp add: Q lstep_trans)
    qed (intro grows_all)
  qed (simp add: new_ok_def node_is_pure_def, intro grows_all)
  with True show ?thesis by (simp add: finish_fn_def)
qed

lemma linv_reset: "linv L h s \<Longrightarrow> linv L h (reset_function_state s)" "linv L h s \<Longrightarrow> lookup h x (reset_function_state s) = None"
proof -
  assume inv: "linv L h s"
  have c: "st_ok h (st_clear t)" "st_get h (st_clear t) y = None" if "st_ok h t" for t :: name_table and y
    using st_clear_spec [of h t] st_get_abs [of h "st_clear t"] that by (simp_all add: st_ok_def)
  then show "lookup h x (reset_function_state s) = None" using inv by (simp add: linv_def lookup_def reset_function_state_def)
  show "linv L h (reset_function_state s)"
    using inv c unfolding linv_def by (simp add: lookup_def reset_function_state_def id_ok_def value_node_def)
qed

lemma dom_params_env: "dom (params_env ps E) = fp_name ` set ps \<union> dom E"
  by (induction ps arbitrary: E) (auto simp: params_env_def)

lemma param_ids_dom: "param_ids ps n y = None \<longleftrightarrow> y \<notin> fp_name ` set ps"
proof -
  have "fst ` set (zip (map fp_name ps) [n..<n + length ps]) = set (map fp_name ps)"
    by (subst list.set_map [symmetric], subst map_fst_zip) simp_all
  then show ?thesis by (simp add: param_ids_def map_of_eq_None_iff)
qed

lemma pars_flow [simp]: "pars (set_flow c e s) = pars s"
  by (simp add: pars_def)

text \<open>The state in which the body of a function is lowered.\<close>

definition entered :: "lowerer \<Rightarrow> fn_decl \<Rightarrow> (symbol_id \<Rightarrow> 64 word) \<Rightarrow> lowerer \<Rightarrow> bool" where
  "entered s fn h s' \<longleftrightarrow> g_nodes (lw_graph s') = g_nodes (lw_graph s) @ [plain_node NK_Proj 0 [0], plain_node NK_Proj 1 [0]] @ map par_node (fd_params fn)
     \<and> lw_ctrl s' = lw_len s \<and> lw_eff s' = lw_len s + 1 \<and> lw_len s + 2 < kInvalidNodeId
     \<and> (\<forall>y. lookup h y s' = param_ids (fd_params fn) (lw_len s + 2) y)"

lemma wl_fn:
  assumes inv: "linv L h s" and len: "0 < lw_len s"
    and body: "\<And>s2. entered s fn h s2 \<Longrightarrow> linv L h s2 \<Longrightarrow> wl (lower_stmts h (block_stmts (fd_body fn))) (\<lambda>_. wl finish_fn Q) s2"
  shows "wl (lower_fn h fn) Q s"
proof -
  let ?s = "reset_function_state s"
  note rs = linv_reset(1) [OF inv] linv_reset(2) [OF inv]
  have same: "lw_hc ?s = lw_hc s" by (simp add: reset_function_state_def)
  let ?rest = "\<lambda>c e. lbind (lmod (set_flow c e)) (\<lambda>_. lbind (lower_params h (fd_params fn)) (\<lambda>_.
      lbind (lower_stmts h (block_stmts (fd_body fn))) (\<lambda>_. finish_fn)))"
  have new: "new_ok L s1 (plain_node NK_Proj (of_nat (u32 w)) [kStartNodeId])" if "0 < lw_len s1" for s1 w
    using that by (simp add: new_ok_def id_ok_def node_is_pure_def kStartNodeId_def)
  have "wl (lbind (build (make_proj kStartNodeId 0 kInvalidTypeId)) (\<lambda>c. lbind (build (make_proj kStartNodeId 1 kInvalidTypeId)) (\<lambda>e. ?rest c e))) Q ?s"
    apply (rule wl_bindE)
     apply (rule wl_news(5) [OF rs(1) new])
    using len same apply simp
    subgoal premises a for s1
      apply (rule wl_bindE)
       apply (rule wl_news(5) [OF a(2) new])
      using a(1) same apply simp
      subgoal premises b for s2
      proof -
        let ?t = "set_flow (lw_len ?s) (lw_len s1) s2"
        have t: "linv L h ?t" by (rule linv_flow [OF b(2)]) (simp_all add: id_ok_def b(1) a(1))
        have "wl (lbind (lower_params h (fd_params fn)) (\<lambda>_. lbind (lower_stmts h (block_stmts (fd_body fn))) (\<lambda>_. finish_fn))) Q ?t"
        proof (rule wl_bindE, rule wl_params [OF t])
          fix s3 assume s3: "linv L h s3" "g_nodes (lw_graph s3) = g_nodes (lw_graph ?t) @ map par_node (fd_params fn)" "same_flow ?t s3"
            "\<And>y. lookup h y s3 = (case param_ids (fd_params fn) (lw_len ?t) y of None \<Rightarrow> lookup h y ?t | Some i \<Rightarrow> Some i)"
          have lt: "lookup h y ?t = None" for y using rs(2) a(1) b(1) by simp
          have "entered s fn h s3"
            using s3(2,3,4) lt a(1,4) b(1,4) same
            by (simp add: entered_def same_flow_def kStartNodeId_def split: option.split)
          from wl_bindE [OF body [OF this s3(1)] grows_finish]
          show "wl (lbind (lower_stmts h (block_stmts (fd_body fn))) (\<lambda>_. finish_fn)) Q s3" .
        qed (intro grows_all grows_lower grows_finish)
        then show ?thesis by simp
      qed
      by (intro grows_all grows_lower grows_finish grows_params) simp
    by (intro grows_all grows_lower grows_finish grows_params) simp
  then show ?thesis unfolding lower_fn_def wl_state .
qed

lemma entered_facts:
  assumes "entered s fn h s'"
  shows "pars s' = pars s @ map par_node (fd_params fn)" "names h s' = fp_name ` set (fd_params fn)" "lw_ctrl s' \<noteq> kInvalidNodeId"
proof -
  have "filter (\<lambda>n. n_kind n = NK_Parameter) (map par_node ps) = map par_node ps" for ps by (induction ps) simp_all
  then show "pars s' = pars s @ map par_node (fd_params fn)" using assms by (simp add: entered_def pars_def)
  show "names h s' = fp_name ` set (fd_params fn)" using assms by (auto simp: entered_def names_def param_ids_dom)
  show "lw_ctrl s' \<noteq> kInvalidNodeId" using assms by (simp add: entered_def)
qed

lemma wl_checked_fn:
  assumes inv: "linv L h s" and len: "0 < lw_len s" and ok: "fn_ok ar fn" and b: "fd_body fn = Block ss" "plain_stmt L (Block ss)"
    and Q: "\<And>s'. linv L h s' \<Longrightarrow> 0 < lw_len s' \<Longrightarrow> pars s' = pars s @ map par_node (fd_params fn) \<Longrightarrow> Q True s'"
  shows "wl (lower_fn h fn) Q s"
proof (rule wl_fn [OF inv len])
  fix s2 assume e: "entered s fn h s2" and s2: "linv L h s2"
  note ef = entered_facts [OF e]
  obtain E' where E': "stmt_ok ar (params_env (fd_params fn) (\<lambda>_. None)) (Block ss) E'" using ok b(1) by (auto simp: fn_ok_def)
  have "wl (lower_stmt h (Block ss)) (\<lambda>_. wl finish_fn Q) s2"
  proof (rule wl_stmt [OF b(2) E' s2])
    show "dom (params_env (fd_params fn) (\<lambda>_. None)) \<subseteq> names h s2" by (simp add: dom_params_env ef(2))
    fix x s3 assume "spost L h (\<not> body_contains_unlowerable (Block ss)) E' s2 s3"
    then have s3: "linv L h s3" "lstep h s2 s3" by (simp_all add: spost_def)
    show "wl finish_fn Q s3"
    proof (rule wl_finish [OF s3(1)])
      fix s4 assume s4: "linv L h s4" "lstep h s3 s4"
      have "lstep h s2 s4" by (rule lstep_trans [OF s3(2) s4(2)])
      with s4(1) ef(1) e show "Q True s4" by (intro Q) (auto simp: lstep_def entered_def)
    qed
  qed
  with b(1) show "wl (lower_stmts h (block_stmts (fd_body fn))) (\<lambda>_. wl finish_fn Q) s2" by (simp add: block_stmts_def)
qed

lemma wl_checked_module:
  assumes "linv L h s" "0 < lw_len s" "\<And>fn. fn \<in> set (fns_of m) \<Longrightarrow> fn_ok ar fn"
    "\<And>fn. fn \<in> set (fns_of m) \<Longrightarrow> \<exists>ss. fd_body fn = Block ss \<and> plain_stmt L (Block ss)"
    "\<And>s'. linv L h s' \<Longrightarrow> pars s' = pars s @ concat (map (\<lambda>fn. map par_node (fd_params fn)) (fns_of m)) \<Longrightarrow> Q True s'"
  shows "wl (lower_module h m) Q s"
  using assms
proof (induction h m arbitrary: s rule: lower_module.induct)
  case (2 h fn its)
  obtain ss where b: "fd_body fn = Block ss" "plain_stmt L (Block ss)" using 2(5) [of fn] by auto
  show ?case unfolding lower_module.simps
  proof (rule wl_bindE, rule wl_checked_fn [OF 2(2,3) _ b])
    show "fn_ok ar fn" using 2(4) by simp
    fix s1 assume s1: "linv L h s1" "0 < lw_len s1" "pars s1 = pars s @ map par_node (fd_params fn)"
    show "wl (lower_module h its) Q s1"
      by (rule 2(1) [OF s1(1,2)]) (use 2(4,5,6) s1(3) in auto)
  next
    have "grows_lm (lower_fn h f)" for f
      unfolding lower_fn_def by (intro grows_all grows_lower grows_params grows_finish) (simp_all add: reset_function_state_def)
    then show "grows_lm (lower_module h its)" by (induction h its rule: lower_module.induct) (auto intro!: grows_all)
  qed
qed simp_all

lemma init_linv: "linv L h (lowerer_init graph_new)"
proof -
  have "phis_ok graph_new" "ordered graph_new"
    by (auto simp: phis_ok_def ordered_def live_at_def graph_new_def default_node_def)
  then show ?thesis
    using graph_new_wf sw.inv_empty [of h] sw.inv_empty [of gvn_key_hash]
    by (auto simp: linv_def lowerer_init_def hc_new_def lookup_def id_ok_def sw.get_empty graph_new_def default_node_def node_is_pure_def)
qed

lemma linv_pass_ok:
  assumes "linv True h s"
  shows "pass_ok (lw_graph s)"
proof (rule pass_okI)
  let ?g = "lw_graph s"
  have wf: "graph_wf ?g" and p: "\<forall>n \<in> set (g_nodes ?g). node_is_pure n" and f: "\<forall>n \<in> set (g_nodes ?g). n_flags n = 0"
    and ph: "phis_ok ?g" using assms by (simp_all add: linv_def)
  show "graph_wf ?g" "phis_ok ?g" by (rule wf, rule ph)
  show "effect_linked ?g" using p by (auto simp: effect_linked_def live_at_def)
  show "guards_framed ?g" using f no_flags nth_mem by (metis guards_framed_def)
  show "no_dead_input ?g" unfolding no_dead_input_def
    using wf linv_live [OF assms] wf_edge by (auto simp: graph_wf_def live_at_def)
qed



end
