(* ===== verification/Meaning.thy ===== *)
theory Meaning
  imports LowerFacts
begin

section \<open>The meaning of source programs\<close>

text \<open>
  An evaluator of the source language, the specification the lowering is checked against.
\<close>

text \<open>
  Integers are 64 bits wide and wrap; division and shifts are undefined out of range
  (\<open>None\<close>, as is what the evaluator does not cover). A comparison is 0 or 1, a condition holds
  when it is not 0, \<open>&&\<close> and \<open>||\<close> are logical. Both operands of an operator are evaluated.
\<close>

definition tok_sem :: "token_kind \<Rightarrow> i64 \<Rightarrow> i64 \<Rightarrow> i64 option" where
  "tok_sem k a b = (case k of
     T_Plus \<Rightarrow> Some (a + b)
   | T_Minus \<Rightarrow> Some (a - b)
   | T_Star \<Rightarrow> Some (a * b)
   | T_Slash \<Rightarrow> if b = 0 \<or> (sint a = - (2 ^ 63) \<and> sint b = - 1) then None else Some (word_of_int (tdiv (sint a) (sint b)))
   | T_Percent \<Rightarrow> if b = 0 \<or> (sint a = - (2 ^ 63) \<and> sint b = - 1) then None else Some (word_of_int (tmod (sint a) (sint b)))
   | T_Amp \<Rightarrow> Some (a AND b)
   | T_Pipe \<Rightarrow> Some (a OR b)
   | T_Caret \<Rightarrow> Some (a XOR b)
   | T_Shl \<Rightarrow> if unat b < 64 then Some (push_bit (unat b) a) else None
   | T_Shr \<Rightarrow> if unat b < 64 then Some (signed_drop_bit (unat b) a) else None
   | T_EqEq \<Rightarrow> Some (bool_i64 (a = b))
   | T_BangEq \<Rightarrow> Some (bool_i64 (a \<noteq> b))
   | T_Lt \<Rightarrow> Some (bool_i64 (sint a < sint b))
   | T_LtEq \<Rightarrow> Some (bool_i64 (sint a \<le> sint b))
   | T_Gt \<Rightarrow> Some (bool_i64 (sint a > sint b))
   | T_GtEq \<Rightarrow> Some (bool_i64 (sint a \<ge> sint b))
   | T_AndAnd \<Rightarrow> Some (bool_i64 (a \<noteq> 0 \<and> b \<noteq> 0))
   | T_OrOr \<Rightarrow> Some (bool_i64 (a \<noteq> 0 \<or> b \<noteq> 0))
   | _ \<Rightarrow> None)"

definition tok_unop :: "token_kind \<Rightarrow> i64 \<Rightarrow> i64 option" where
  "tok_unop k a = (case k of T_Minus \<Rightarrow> Some (- a) | T_Bang \<Rightarrow> Some (bool_i64 (a = 0)) | T_Tilde \<Rightarrow> Some (NOT a) | _ \<Rightarrow> None)"

text \<open>\<open>x k v\<close> for an assignment token \<open>k\<close>: the value \<open>x\<close> gets.\<close>

definition assign_sem :: "token_kind \<Rightarrow> i64 \<Rightarrow> i64 \<Rightarrow> i64 option" where
  "assign_sem k x v = (case k of T_Eq \<Rightarrow> Some v | T_PlusEq \<Rightarrow> tok_sem T_Plus x v | T_MinusEq \<Rightarrow> tok_sem T_Minus x v
     | T_StarEq \<Rightarrow> tok_sem T_Star x v | T_SlashEq \<Rightarrow> tok_sem T_Slash x v | _ \<Rightarrow> None)"

type_synonym store = "symbol_id \<Rightarrow> i64"

fun eval :: "store \<Rightarrow> ast \<Rightarrow> (i64 \<times> store) option" where
  "eval \<sigma> (Ident x) = Some (\<sigma> x, \<sigma>)"
| "eval \<sigma> (IntLit w) = Some (w, \<sigma>)"
| "eval \<sigma> (BoolLit b) = Some (bool_i64 b, \<sigma>)"
| "eval \<sigma> (BinaryExpr k a b) = (case eval \<sigma> a of None \<Rightarrow> None | Some (x, \<sigma>1) \<Rightarrow>
     (case eval \<sigma>1 b of None \<Rightarrow> None | Some (y, \<sigma>2) \<Rightarrow> map_option (\<lambda>w. (w, \<sigma>2)) (tok_sem k x y)))"
| "eval \<sigma> (UnaryExpr k a) = (case eval \<sigma> a of None \<Rightarrow> None | Some (x, \<sigma>1) \<Rightarrow> map_option (\<lambda>w. (w, \<sigma>1)) (tok_unop k x))"
| "eval \<sigma> (AssignExpr k (Ident x) e) = (case eval \<sigma> e of None \<Rightarrow> None | Some (v, \<sigma>1) \<Rightarrow>
     map_option (\<lambda>w. (w, \<sigma>1(x := w))) (assign_sem k (\<sigma>1 x) v))"
| "eval \<sigma> _ = None"

datatype outcome = Running store | Returned i64

fun run :: "store \<Rightarrow> ast \<Rightarrow> outcome option" and runs :: "store \<Rightarrow> ast list \<Rightarrow> outcome option" where
  "run \<sigma> (LetStmt x ty ini m) = (case ini of None \<Rightarrow> Some (Running (\<sigma>(x := 0)))
     | Some e \<Rightarrow> (case eval \<sigma> e of None \<Rightarrow> None | Some (w, \<sigma>1) \<Rightarrow> Some (Running (\<sigma>1(x := w)))))"
| "run \<sigma> (ExprStmt e) = map_option (\<lambda>(w, \<sigma>1). Running \<sigma>1) (eval \<sigma> e)"
| "run \<sigma> (ReturnStmt r) = (case r of None \<Rightarrow> Some (Returned 0) | Some e \<Rightarrow> map_option (\<lambda>(w, \<sigma>1). Returned w) (eval \<sigma> e))"
| "run \<sigma> (IfStmt c t e) = (case eval \<sigma> c of None \<Rightarrow> None | Some (w, \<sigma>1) \<Rightarrow>
     if w \<noteq> 0 then run \<sigma>1 t else (case e of None \<Rightarrow> Some (Running \<sigma>1) | Some b \<Rightarrow> run \<sigma>1 b))"
| "run \<sigma> (Block ss) = runs \<sigma> ss"
| "run \<sigma> n = map_option (\<lambda>(w, \<sigma>1). Running \<sigma>1) (eval \<sigma> n)"
| "runs \<sigma> [] = Some (Running \<sigma>)"
| "runs \<sigma> (s # ss) = (case run \<sigma> s of Some (Running \<sigma>1) \<Rightarrow> runs \<sigma>1 ss | r \<Rightarrow> r)"

text \<open>
  What a function returns for its arguments; falling off the end returns 0. A name that is not
  bound does not matter: the checker lets no such name be read.
\<close>

definition result_of :: "fn_decl \<Rightarrow> i64 list \<Rightarrow> i64 option" where
  "result_of fn args = map_option (\<lambda>r. case r of Running \<sigma> \<Rightarrow> 0 | Returned w \<Rightarrow> w)
     (run (\<lambda>x. case map_of (zip (map fp_name (fd_params fn)) args) x of Some w \<Rightarrow> w | None \<Rightarrow> 0) (fd_body fn))"

text \<open>
  The fragment of the theorem: no loop and no call, \<open>&&\<close> and \<open>||\<close> only between truth values (they
  are lowered to the bitwise operators), no compound assignment but \<open>+=\<close> as a value (\<open>-=\<close> and
  \<open>*=\<close> are lowered to an addition there), no float and string literals.
\<close>

fun truth_valued :: "ast \<Rightarrow> bool" where
  "truth_valued (BoolLit b) \<longleftrightarrow> True"
| "truth_valued (BinaryExpr k a b) \<longleftrightarrow> k \<in> {T_EqEq, T_BangEq, T_Lt, T_LtEq, T_Gt, T_GtEq, T_AndAnd, T_OrOr}"
| "truth_valued (UnaryExpr k a) \<longleftrightarrow> k = T_Bang"
| "truth_valued _ \<longleftrightarrow> False"

fun simple_expr :: "ast \<Rightarrow> bool" where
  "simple_expr (Ident x) \<longleftrightarrow> True"
| "simple_expr (IntLit w) \<longleftrightarrow> True"
| "simple_expr (BoolLit b) \<longleftrightarrow> True"
| "simple_expr (BinaryExpr k a b) \<longleftrightarrow> (k \<in> {T_AndAnd, T_OrOr} \<longrightarrow> truth_valued a \<and> truth_valued b) \<and> simple_expr a \<and> simple_expr b"
| "simple_expr (UnaryExpr k a) \<longleftrightarrow> simple_expr a"
| "simple_expr (AssignExpr k t e) \<longleftrightarrow> k \<in> {T_Eq, T_PlusEq} \<and> simple_expr e"
| "simple_expr _ \<longleftrightarrow> False"

fun simple_stmt :: "ast \<Rightarrow> bool" where
  "simple_stmt (LetStmt x ty ini m) \<longleftrightarrow> (case ini of Some e \<Rightarrow> simple_expr e | None \<Rightarrow> True)"
| "simple_stmt (ExprStmt e) \<longleftrightarrow> simple_expr e"
| "simple_stmt (ReturnStmt r) \<longleftrightarrow> (case r of Some e \<Rightarrow> simple_expr e | None \<Rightarrow> True)"
| "simple_stmt (IfStmt c t e) \<longleftrightarrow> simple_expr c \<and> simple_stmt t \<and> (case e of Some b \<Rightarrow> simple_stmt b | None \<Rightarrow> True)"
| "simple_stmt (Block ss) \<longleftrightarrow> list_all simple_stmt ss"
| "simple_stmt (AssignExpr k t e) \<longleftrightarrow> simple_expr e"
| "simple_stmt n \<longleftrightarrow> simple_expr n"

lemma simple_plain_expr: "simple_expr n \<Longrightarrow> plain_expr L n"
  by (induction n rule: simple_expr.induct) auto

lemma simple_plain: "simple_stmt n \<Longrightarrow> plain_stmt L n"
  by (induction n rule: simple_stmt.induct) (auto simp: list_all_iff intro: simple_plain_expr split: option.splits)

lemma truth_value: "eval \<sigma> n = Some (w, \<sigma>') \<Longrightarrow> truth_valued n \<Longrightarrow> w = 0 \<or> w = 1"
  by (cases n) (auto simp: tok_sem_def tok_unop_def bool_i64_def split: option.splits if_splits)

lemma tok_sem_kind:
  assumes "tok_sem k a b = Some w" "k \<in> {T_AndAnd, T_OrOr} \<Longrightarrow> (a = 0 \<or> a = 1) \<and> (b = 0 \<or> b = 1)"
  shows "binop_sem (binop_to_node_kind k) a b = Some w"
proof (cases "k \<in> {T_AndAnd, T_OrOr}")
  case True
  with assms show ?thesis by (auto simp: tok_sem_def binop_sem_def binop_to_node_kind_def bool_i64_def)
next
  case False
  with assms(1) show ?thesis by (cases k) (auto simp: tok_sem_def binop_sem_def binop_to_node_kind_def)
qed

lemma tok_unop_kind: "tok_unop k a = Some w \<Longrightarrow> unop_sem (unop_to_node_kind k) a = Some w"
  by (cases k) (auto simp: tok_unop_def unop_sem_def unop_to_node_kind_def)

lemma assign_sem_kind:
  "assign_sem k a b = Some w \<Longrightarrow> k \<noteq> T_Eq \<Longrightarrow> binop_sem (compound_kind k) a b = Some w"
  "assign_sem k a b = Some w \<Longrightarrow> k = T_PlusEq \<Longrightarrow> binop_sem (binop_to_node_kind k) a b = Some w"
  by (cases k; auto simp: assign_sem_def tok_sem_def binop_sem_def compound_kind_def binop_to_node_kind_def split: if_splits)+

end
