(* ===== verification/Paths.thy ===== *)
theory Paths
  imports LowerFacts
begin

section \<open>Control in an acyclic graph\<close>

text \<open>
  \<open>active g v t i\<close>: control reaches the node \<open>i\<close> of an acyclic graph when its nodes have the
  values \<open>v t\<close>: the first projection of \<open>If\<close> is taken when the condition is not 0, a region is
  reached through one of its inputs. \<open>follows\<close>: the phis of a region take the operand of an
  input that was reached.
\<close>

inductive active :: "graph \<Rightarrow> 'e valuation \<Rightarrow> nat \<Rightarrow> node_id \<Rightarrow> bool" for g v t where
  start: "i < length (g_nodes g) \<Longrightarrow> n_kind (node_at g i) = NK_Start \<Longrightarrow> active g v t i"
| entry: "i < length (g_nodes g) \<Longrightarrow> n_kind (node_at g i) = NK_Proj \<Longrightarrow> n_payload (node_at g i) = 0 \<Longrightarrow> n_inputs (node_at g i) = [c]
    \<Longrightarrow> n_kind (node_at g c) = NK_Start \<Longrightarrow> active g v t c \<Longrightarrow> active g v t i"
| branch: "i < length (g_nodes g) \<Longrightarrow> n_kind (node_at g i) = NK_Proj \<Longrightarrow> n_inputs (node_at g i) = [c] \<Longrightarrow> n_kind (node_at g c) = NK_If
    \<Longrightarrow> n_inputs (node_at g c) = [b, d] \<Longrightarrow> active g v t c
    \<Longrightarrow> n_payload (node_at g i) = 0 \<and> v t d \<noteq> VInt 0 \<or> n_payload (node_at g i) = 1 \<and> v t d = VInt 0 \<Longrightarrow> active g v t i"
| pinned: "i < length (g_nodes g) \<Longrightarrow> n_kind (node_at g i) \<in> {NK_If, NK_Return} \<Longrightarrow> n_inputs (node_at g i) = c # cs
    \<Longrightarrow> active g v t c \<Longrightarrow> active g v t i"
| region: "i < length (g_nodes g) \<Longrightarrow> n_kind (node_at g i) = NK_Region \<Longrightarrow> c \<in> set (n_inputs (node_at g i))
    \<Longrightarrow> active g v t c \<Longrightarrow> active g v t i"

definition follows :: "selector \<Rightarrow> graph \<Rightarrow> 'e valuation \<Rightarrow> nat \<Rightarrow> bool" where
  "follows sel g v t \<longleftrightarrow> (\<forall>r < length (g_nodes g). n_kind (node_at g r) = NK_Region \<longrightarrow> active g v t r \<longrightarrow>
     (\<exists>k < length (n_inputs (node_at g r)). sel t r = (t, k) \<and> active g v t (n_inputs (node_at g r) ! k)))"

lemma active_cases:
  assumes "i < length (g_nodes g)"
  shows "node_at g i = plain_node NK_If p [c, d] \<Longrightarrow> active g v t i \<longleftrightarrow> active g v t c"
    and "node_at g i = plain_node NK_Return p [c, e, d] \<Longrightarrow> active g v t i \<longleftrightarrow> active g v t c"
    and "node_at g i = plain_node NK_Region p cs \<Longrightarrow> active g v t i \<longleftrightarrow> (\<exists>c \<in> set cs. active g v t c)"
    and "node_at g i = plain_node NK_Proj p [c] \<Longrightarrow> node_at g c = plain_node NK_If q [b, d]
     \<Longrightarrow> active g v t i \<longleftrightarrow> active g v t c \<and> (p = 0 \<and> v t d \<noteq> VInt 0 \<or> p = 1 \<and> v t d = VInt 0)"
proof -
  show "active g v t i \<longleftrightarrow> active g v t c" if "node_at g i = plain_node NK_If p [c, d]"
    by (rule iffI, erule active.cases) (use that assms pinned [of i g c "[d]" v t] in simp_all)
  show "active g v t i \<longleftrightarrow> active g v t c" if "node_at g i = plain_node NK_Return p [c, e, d]"
    by (rule iffI, erule active.cases) (use that assms pinned [of i g c "[e, d]" v t] in simp_all)
  show "active g v t i \<longleftrightarrow> (\<exists>c \<in> set cs. active g v t c)" if n: "node_at g i = plain_node NK_Region p cs"
  proof
    show "active g v t i \<Longrightarrow> \<exists>c \<in> set cs. active g v t c" by (erule active.cases) (use n in auto)
    show "\<exists>c \<in> set cs. active g v t c \<Longrightarrow> active g v t i" using region [of i g _ v t] assms n by auto
  qed
  show "active g v t i \<longleftrightarrow> active g v t c \<and> (p = 0 \<and> v t d \<noteq> VInt 0 \<or> p = 1 \<and> v t d = VInt 0)"
    if n: "node_at g i = plain_node NK_Proj p [c]" "node_at g c = plain_node NK_If q [b, d]"
  proof
    show "active g v t i \<Longrightarrow> active g v t c \<and> (p = 0 \<and> v t d \<noteq> VInt 0 \<or> p = 1 \<and> v t d = VInt 0)"
      by (erule active.cases) (use n in auto)
    show "active g v t c \<and> (p = 0 \<and> v t d \<noteq> VInt 0 \<or> p = 1 \<and> v t d = VInt 0) \<Longrightarrow> active g v t i"
      using branch [of i g c b d v t] assms n by simp
  qed
qed

lemma active_less: "active g v t i \<Longrightarrow> i < length (g_nodes g)"
  by (cases rule: active.cases) auto

subsection \<open>Every ordered graph can be run\<close>

lemma active_time: "active g (\<lambda>_. w) t i \<Longrightarrow> active g (\<lambda>_. w) t' i"
  by (induction rule: active.induct) (auto intro: active.intros)

lemma active_extend:
  assumes g': "g_nodes g' = g_nodes g @ [n]" and o: "ordered g'" and len: "length (g_nodes g) < kInvalidNodeId"
    and v: "\<And>j. j \<noteq> length (g_nodes g) \<Longrightarrow> v' t j = v t j"
  shows "active g v t i \<Longrightarrow> active g' v' t i"
    and "active g' v' t i \<Longrightarrow> i < length (g_nodes g) \<Longrightarrow> active g v t i"
proof -
  have node: "node_at g' j = node_at g j" if "j < length (g_nodes g)" for j using that by (simp add: g' nth_append)
  have ins: "k < j \<or> k = kInvalidNodeId" if "k \<in> set (n_inputs (node_at g' j))" "j < length (g_nodes g)" for k j
    using o that by (simp add: ordered_def g')
  have less: "j < length (g_nodes g) \<Longrightarrow> j < length (g_nodes g')" for j by (simp add: g')
  show "active g v t i \<Longrightarrow> active g' v' t i"
  proof (induction rule: active.induct)
    case (branch i c b d)
    have c: "c < length (g_nodes g)" using branch(6) by (rule active_less)
    have "d \<in> set (n_inputs (node_at g' c))" using branch(5) node [OF c] by simp
    from ins [OF this c] c len have "d \<noteq> length (g_nodes g)" by auto
    with branch node [OF c] node [OF branch(1)] less v show ?case
      by (intro active.branch [of i g' c b d]) simp_all
  next
    case (start i)
    then show ?case using node less by (intro active.start) simp_all
  next
    case (entry i c)
    have "c < length (g_nodes g)" using entry(6) by (rule active_less)
    with entry node less show ?case by (intro active.entry [of i g' c]) simp_all
  next
    case (pinned i c cs)
    with node less show ?case by (intro active.pinned [of i g' c cs]) simp_all
  next
    case (region i c)
    with node less show ?case by (intro active.region [of i g' c]) simp_all
  qed
  have lower: "c < length (g_nodes g)" if "active g' v' t c" "c \<in> set (n_inputs (node_at g' j))" "j < length (g_nodes g)" for c j
    using ins [OF that(2,3)] active_less [OF that(1)] that(3) len by (auto simp: g')
  show "active g' v' t i \<Longrightarrow> i < length (g_nodes g) \<Longrightarrow> active g v t i"
  proof (induction rule: active.induct)
    case (start i)
    then show ?case using node by (intro active.start) simp_all
  next
    case (entry i c)
    have "c < length (g_nodes g)" using lower [OF entry(6) _ entry(8)] entry(4) by simp
    with entry node show ?case by (intro active.entry [of i g c]) simp_all
  next
    case (branch i c b d)
    have c: "c < length (g_nodes g)" using lower [OF branch(6) _ branch(9)] branch(3) by simp
    have "d \<in> set (n_inputs (node_at g' c))" using branch(5) by simp
    from ins [OF this c] c len have "d \<noteq> length (g_nodes g)" by auto
    with branch node [OF c] node [OF branch(9)] c v show ?case
      by (intro active.branch [of i g c b d]) simp_all
  next
    case (pinned i c cs)
    have "c < length (g_nodes g)" using lower [OF pinned(4) _ pinned(6)] pinned(3) by simp
    with pinned node show ?case by (intro active.pinned [of i g c cs]) simp_all
  next
    case (region i c)
    have "c < length (g_nodes g)" using lower [OF region(4) region(3,6)] .
    with region node show ?case by (intro active.region [of i g c]) simp_all
  qed
qed

lemma node_ok_agree:
  assumes "\<And>j. j \<in> set (n_inputs n) \<Longrightarrow> w' j = w j \<and> c' j = c j"
  shows "node_ok F (\<lambda>t r. (t, c' r)) (\<lambda>_. w') t n x = node_ok F (\<lambda>t r. (t, c r)) (\<lambda>_. w) t n x"
proof -
  have m: "map w' (n_inputs n) = map w (n_inputs n)" using assms by simp
  have "w' (vals ! (c' r mod length vals)) = w (vals ! (c r mod length vals))"
    if "n_inputs n = r # vals" "vals \<noteq> []" for r vals
    using assms that by simp
  then show ?thesis unfolding node_ok_def m by (auto split: list.splits)
qed

definition runnable :: "'e kind_fun \<Rightarrow> (node_id \<Rightarrow> 'e val) \<Rightarrow> graph \<Rightarrow> (node_id \<Rightarrow> 'e val) \<Rightarrow> (node_id \<Rightarrow> nat) \<Rightarrow> bool" where
  "runnable F p g w c \<longleftrightarrow> (\<forall>t. \<forall>i < length (g_nodes g). node_ok F (\<lambda>t r. (t, c r)) (\<lambda>_. w) t (node_at g i) (w i))
     \<and> (\<forall>t. follows (\<lambda>t r. (t, c r)) g (\<lambda>_. w) t) \<and> (\<forall>i < length (g_nodes g). n_kind (node_at g i) = NK_Parameter \<longrightarrow> w i = p i)"

lemma runnable_extend:
  assumes run: "runnable F p g w c" and g': "g_nodes g' = g_nodes g @ [n]" and o: "ordered g'" and len: "length (g_nodes g) < kInvalidNodeId"
  shows "\<exists>w c. runnable F p g' w c"
proof -
  let ?n = "length (g_nodes g)" and ?ins = "n_inputs n"
  define k where "k = (SOME k. k < length ?ins \<and> active g (\<lambda>_. w) 0 (?ins ! k))"
  define x where "x = (if n_kind n = NK_Parameter then p ?n else if n_kind n = NK_Constant then VInt (n_payload n)
    else if n_kind n = NK_Phi then w (tl ?ins ! (c (hd ?ins) mod length (tl ?ins)))
    else apply_kind F (n_kind n) (n_type n) (n_payload n) (map w ?ins))"
  let ?w = "w(?n := x)" and ?c = "c(?n := k)"
  have below: "j \<noteq> ?n" if "i \<le> ?n" "j \<in> set (n_inputs (node_at g' i))" for i j
  proof -
    have "j < i \<or> j = kInvalidNodeId" using o that unfolding ordered_def by (simp add: g')
    with that(1) len show ?thesis by linarith
  qed
  have new: "\<forall>j \<in> set ?ins. j \<noteq> ?n" and old: "\<And>i. i < ?n \<Longrightarrow> \<forall>j \<in> set (n_inputs (node_at g i)). j \<noteq> ?n"
    using below [of ?n] below [OF less_imp_le] by (auto simp: g' nth_append)
  have v: "?w j = w j" if "j \<noteq> ?n" for j using that by simp
  note act = active_extend [OF g' o len, of "\<lambda>_. ?w" _ "\<lambda>_. w"]
  have ok: "node_ok F (\<lambda>t r. (t, ?c r)) (\<lambda>_. ?w) t (node_at g' i) (?w i)" if i: "i < length (g_nodes g')" for t i
  proof (cases "i = ?n")
    case True
    have "node_ok F (\<lambda>t r. (t, c r)) (\<lambda>_. w) t n x"
      by (auto simp: node_ok_def x_def free_kinds_def split: list.splits)
    then have "node_ok F (\<lambda>t r. (t, ?c r)) (\<lambda>_. ?w) t n x" using node_ok_agree [of n ?w w ?c c] new by simp
    with True g' show ?thesis by simp
  next
    case False
    with i g' have i: "i < ?n" "node_at g' i = node_at g i" by (simp_all add: nth_append)
    have "node_ok F (\<lambda>t r. (t, c r)) (\<lambda>_. w) t (node_at g i) (w i)" using run i(1) by (simp add: runnable_def)
    then show ?thesis using node_ok_agree [of "node_at g i" ?w w ?c c] old [OF i(1)] i by simp
  qed
  have fol: "follows (\<lambda>t r. (t, ?c r)) g' (\<lambda>_. ?w) t" for t unfolding follows_def
  proof (intro allI impI)
    fix r assume r: "r < length (g_nodes g')" "n_kind (node_at g' r) = NK_Region" "active g' (\<lambda>_. ?w) t r"
    show "\<exists>k < length (n_inputs (node_at g' r)). (t, ?c r) = (t, k) \<and> active g' (\<lambda>_. ?w) t (n_inputs (node_at g' r) ! k)"
    proof (cases "r = ?n")
      case True
      then have n: "node_at g' r = n" using g' by simp
      from r(3) obtain j where j: "j \<in> set ?ins" "active g' (\<lambda>_. ?w) t j" by (cases rule: active.cases) (use r(2) n in auto)
      have "j < r \<or> j = kInvalidNodeId" using o r(1) j(1) n by (simp add: ordered_def)
      with active_less [OF j(2)] len True have "j < ?n" by (auto simp: g')
      with act(2) v j(2) have "active g (\<lambda>_. w) t j" by blast
      then have "active g (\<lambda>_. w) 0 j" by (rule active_time)
      with j(1) have "\<exists>k. k < length ?ins \<and> active g (\<lambda>_. w) 0 (?ins ! k)" by (metis in_set_conv_nth)
      then have k: "k < length ?ins \<and> active g (\<lambda>_. w) 0 (?ins ! k)" unfolding k_def by (rule someI_ex)
      then have "active g' (\<lambda>_. ?w) t (?ins ! k)" using act(1) v active_time by blast
      with True n k show ?thesis by simp
    next
      case False
      with r(1) g' have i: "r < ?n" "node_at g' r = node_at g r" by (simp_all add: nth_append)
      have "active g (\<lambda>_. w) t r" using act(2) v r(3) i(1) by blast
      moreover have "follows (\<lambda>t r. (t, c r)) g (\<lambda>_. w) t" using run by (simp add: runnable_def)
      ultimately have "c r < length (n_inputs (node_at g r)) \<and> active g (\<lambda>_. w) t (n_inputs (node_at g r) ! c r)"
        using i r(2) by (auto simp: follows_def)
      with act(1) v i False show ?thesis by auto
    qed
  qed
  have "n_kind (node_at g' i) = NK_Parameter \<longrightarrow> ?w i = p i" if "i < length (g_nodes g')" for i
    using that run by (cases "i = ?n") (auto simp: g' nth_append runnable_def x_def less_Suc_eq)
  with ok fol have "runnable F p g' ?w ?c" unfolding runnable_def by blast
  then show ?thesis by blast
qed

lemma ordered_runs:
  assumes "ordered g" "length (g_nodes g) < kInvalidNodeId"
  shows "\<exists>w c. runnable F p g w c"
  using assms
proof (induction "g_nodes g" arbitrary: g rule: rev_induct)
  case Nil
  then show ?case by (simp add: runnable_def follows_def)
next
  case (snoc n ns)
  let ?g = "g\<lparr>g_nodes := ns\<rparr>"
  have n: "g_nodes g = g_nodes ?g @ [n]" using snoc(2) by simp
  have "ordered ?g" using snoc(3) unfolding ordered_def n by (auto simp: nth_append)
  moreover have "length (g_nodes ?g) < kInvalidNodeId" using snoc(4) n by simp
  ultimately obtain w c where "runnable F p ?g w c" using snoc(1) [of ?g] by auto
  from runnable_extend [OF this n snoc(3)] snoc(4) n show ?case by simp
qed

end
