(* ===== verification/LowerCorrect.thy ===== *)
theory LowerCorrect
  imports LowerSafe Meaning Paths
begin

section \<open>Lowering preserves the meaning of functions\<close>

text \<open>
  The lowering of a function without loops and calls returns, along the path control takes,
  what the evaluator returns. The statements say of each routine what it guarantees of the
  finished graph, whatever is added to it later.
\<close>

subsection \<open>Expressions\<close>

text \<open>
  \<open>runs_in F sel g v t\<close>: \<open>v\<close> is an execution of the finished graph \<open>g\<close> that selects operands along
  the path of step \<open>t\<close>; the ids are small enough for the hash of the inputs to be exact. \<open>begun s g\<close>: \<open>g\<close> starts with the
  nodes of \<open>s\<close>. \<open>holds v t h E s \<sigma>\<close>: the visible names have the values of the store.
\<close>

definition runs_in :: "'e kind_fun \<Rightarrow> selector \<Rightarrow> graph \<Rightarrow> 'e valuation \<Rightarrow> nat \<Rightarrow> bool" where
  "runs_in F sel g v t \<longleftrightarrow> exec F sel g v \<and> follows sel g v t \<and> length (g_nodes g) < 2 ^ 24 \<and> (\<forall>n \<in> set (g_nodes g). n_flags n = 0)"

definition begun :: "lowerer \<Rightarrow> graph \<Rightarrow> bool" where
  "begun s g \<longleftrightarrow> (\<exists>new. g_nodes g = g_nodes (lw_graph s) @ new)"

definition holds :: "'e valuation \<Rightarrow> nat \<Rightarrow> (symbol_id \<Rightarrow> 64 word) \<Rightarrow> env \<Rightarrow> lowerer \<Rightarrow> store \<Rightarrow> bool" where
  "holds v t h E s \<sigma> \<longleftrightarrow> (\<forall>x \<in> dom E. \<exists>i. lookup h x s = Some i \<and> v t i = VInt (\<sigma> x))"

lemma begun_appends: "appends s s' \<Longrightarrow> begun s' g \<Longrightarrow> begun s g"
  by (auto simp: begun_def appends_def)

lemma begun_node: "begun s g \<Longrightarrow> i < lw_len s \<Longrightarrow> node_at g i = node_at (lw_graph s) i \<and> i < length (g_nodes g)"
  by (auto simp: begun_def nth_append)

lemma begun_flow [simp]: "begun (set_flow c e s) g = begun s g" "holds v t h E (set_flow c e s) \<sigma> = holds v t h E s \<sigma>"
  by (simp_all add: begun_def holds_def)

lemma run_node: "runs_in F sel g v t \<Longrightarrow> i < length (g_nodes g) \<Longrightarrow> node_ok F sel v t (node_at g i) (v t i)"
  using no_flags nth_mem by (metis exec_def live_at_def runs_in_def)

lemma const_value:
  assumes "runs_in F sel g v t" "begun s g" "i < lw_len s" "node_at (lw_graph s) i = plain_node NK_Constant w []"
  shows "v t i = VInt w"
  using run_node [OF assms(1), of i] begun_node [OF assms(2,3)] assms(4) by (simp add: node_ok_def free_kinds_def)

lemma consed_value:
  assumes R: "runs_in F sel g v t" "begun s' g" and inv: "linv True h s'" and c: "consed k ins s i s'"
    and k: "k \<in> cons_kinds" "length ins = cons_arity k" "\<forall>j \<in> set ins. j < lw_len s'"
  shows "v t i = apply_kind F k kInvalidTypeId 0 (map (v t) ins)"
proof -
  let ?n = "node_at (lw_graph s') i"
  have i: "i < lw_len s'" "node_key ?n = hc_key k ins kInvalidTypeId 0" "cons_ok ?n" using c by (simp_all add: consed_def)
  have "lw_len s' \<le> length (g_nodes g)" using R(2) by (auto simp: begun_def)
  then have small: "lw_len s' < 2 ^ 24" using R(1) by (simp add: runs_in_def)
  have kind: "n_kind ?n = k" "n_type ?n = kInvalidTypeId" "n_payload ?n = 0" and hash: "hash_inputs (n_inputs ?n) = hash_inputs ins"
    using i(2) by (simp_all add: node_key_def hc_key_def node_kind_code_eq_iff)
  have "graph_wf (lw_graph s')" using inv by (simp add: linv_def)
  then have "\<forall>j \<in> set (n_inputs ?n). id_ok (lw_graph s') j" using wf_edge i(1) by (fastforce simp: id_ok_def)
  then have "\<forall>j \<in> set (n_inputs ?n). j < lw_len s'" using i(3) by (auto simp: cons_ok_def id_ok_def)
  moreover have "length (n_inputs ?n) = length ins" using i(3) kind(1) k(2) by (simp add: cons_ok_def)
  moreover have "length ins \<le> 2" using k(2) by (simp add: cons_arity_def split: if_splits)
  ultimately have "n_inputs ?n = ins"
    using hash_inputs_exact [of "n_inputs ?n" ins] hash small k(3) by fastforce
  moreover have "node_ok F sel v t ?n (v t i)" using run_node [OF R(1), of i] begun_node [OF R(2) i(1)] by simp
  ultimately show ?thesis using kind cons_kinds_facts [OF k(1)] by (simp add: node_ok_def)
qed

lemma consed_appends: "consed k ins s i s' \<Longrightarrow> appends s s'"
  by (auto simp: consed_def appends_def)

text \<open>\<open>xpost\<close>: what lowering the expression \<open>n\<close> to the node \<open>i\<close> guarantees.\<close>

definition xpost :: "graph \<Rightarrow> 'e valuation \<Rightarrow> nat \<Rightarrow> (symbol_id \<Rightarrow> 64 word) \<Rightarrow> env \<Rightarrow> ast \<Rightarrow> lowerer \<Rightarrow> node_id \<Rightarrow> lowerer \<Rightarrow> bool" where
  "xpost g v t h E n s i s' \<longleftrightarrow> epost True h s i s' \<and> appends s s' \<and> lw_eff s' = lw_eff s \<and> (begun s' g \<longrightarrow>
     (\<forall>\<sigma> w \<sigma>'. holds v t h E s \<sigma> \<longrightarrow> eval \<sigma> n = Some (w, \<sigma>') \<longrightarrow> v t i = VInt w \<and> holds v t h E s' \<sigma>'))"

lemma sem_const:
  assumes R: "runs_in F sel g v t" and m: "maker f (plain_node NK_Constant w [])" and inv: "linv True h s"
    and Q: "\<And>s'. epost True h s (lw_len s) s' \<Longrightarrow> appends s s' \<Longrightarrow> lw_eff s' = lw_eff s \<Longrightarrow> (begun s' g \<Longrightarrow> v t (lw_len s) = VInt w)
      \<Longrightarrow> (\<And>x. lookup h x s' = lookup h x s) \<Longrightarrow> Q (lw_len s) s'"
  shows "wl (build f) Q s"
proof (rule wl_new [OF m inv])
  show "new_ok True s (plain_node NK_Constant w [])" by (simp add: new_ok_def node_is_pure_def)
  fix s' assume s': "s' = append_node (plain_node NK_Constant w []) s" "linv True h s'" "lstep h s s'"
  show "Q (lw_len s) s'"
  proof (rule Q)
    show "epost True h s (lw_len s) s'" using s' by (auto simp: epost_def value_node_def merge_kind_def)
    have "lw_len s < lw_len s'" "node_at (lw_graph s') (lw_len s) = plain_node NK_Constant w []" by (simp_all add: s'(1))
    then show "begun s' g \<Longrightarrow> v t (lw_len s) = VInt w" using const_value [OF R] by blast
  qed (simp_all add: s'(1))
qed

lemma holds_same: "(\<And>x. lookup h x s' = lookup h x s) \<Longrightarrow> holds v t h E s' \<sigma> = holds v t h E s \<sigma>"
  by (simp add: holds_def)

lemma sem_literal:
  assumes R: "runs_in F sel g v t" and m: "maker f (plain_node NK_Constant w [])" and inv: "linv True h s"
    and e: "\<And>\<sigma>. eval \<sigma> n = Some (w, \<sigma>)" and Q: "\<And>i s'. xpost g v t h E n s i s' \<Longrightarrow> Q i s'"
  shows "wl (build f) Q s"
proof (rule sem_const [OF R m inv])
  fix s' assume "epost True h s (lw_len s) s'" "appends s s'" "lw_eff s' = lw_eff s" "begun s' g \<Longrightarrow> v t (lw_len s) = VInt w"
    "\<And>x. lookup h x s' = lookup h x s"
  then show "Q (lw_len s) s'" using e holds_same [of h s' s v t E] by (intro Q) (simp add: xpost_def)
qed

lemma holds_upd:
  assumes "\<And>y. lookup h y s' = (if y = x then Some i else lookup h y s)" "v t i = VInt w" "holds v t h E s \<sigma>" "dom E' \<subseteq> insert x (dom E)"
  shows "holds v t h E' s' (\<sigma>(x := w))"
  unfolding holds_def
proof
  fix y assume y: "y \<in> dom E'"
  show "\<exists>j. lookup h y s' = Some j \<and> v t j = VInt ((\<sigma>(x := w)) y)"
  proof (cases "y = x")
    case False
    with y assms(4) have "y \<in> dom E" by blast
    with False assms(1) [of y] assms(3) show ?thesis by (simp add: holds_def)
  qed (simp add: assms(1,2))
qed

lemma sem_bind:
  assumes inv: "linv True h s" and i: "value_node s i"
    and Q: "\<And>s'. epost True h s i s' \<Longrightarrow> appends s s' \<Longrightarrow> lw_eff s' = lw_eff s
      \<Longrightarrow> (\<And>y. lookup h y s' = (if y = x then Some i else lookup h y s)) \<Longrightarrow> Q () s'"
  shows "wl (bind_name h x i) Q s"
proof (rule wl_bind_name [OF inv i])
  fix s' assume s': "linv True h s'" "lstep h s s'" "lw_hc s' = lw_hc s" "same_flow s s'"
    "\<And>y. lookup h y s' = (if y = x then Some i else lookup h y s)"
  have "names h s \<subseteq> names h s'" using names_upd [of h s' x i s] s'(5) by blast
  then have "epost True h s i s'" using s'(1,2,4) value_node_step [OF i s'(2)] by (simp add: epost_def same_flow_def)
  then show "Q () s'" using s'(3,4) by (intro Q) (simp_all add: same_flow_def appends_same_hc s'(5))
qed

lemma consed_sem:
  assumes inv: "linv True h s" and k: "k \<in> cons_kinds" "length ins = cons_arity k" "\<forall>i \<in> set ins. value_node s i"
    and R: "runs_in F sel g v t"
    and Q: "\<And>i s'. epost True h s i s' \<Longrightarrow> appends s s' \<Longrightarrow> lw_eff s' = lw_eff s \<Longrightarrow> (\<And>x. lookup h x s' = lookup h x s) \<Longrightarrow>
      (begun s' g \<Longrightarrow> v t i = apply_kind F k kInvalidTypeId 0 (map (v t) ins)) \<Longrightarrow> Q i s'"
  shows "wl (cons_node k ins) Q s"
proof (rule wl_cons [OF inv k(1,2)])
  show "\<forall>i \<in> set ins. i < lw_len s" using k(3) by (auto simp: value_node_def)
  fix i s' assume s': "linv True h s'" "lstep h s s'" "consed k ins s i s'" "value_node s' i"
  have same: "lookup h x s' = lookup h x s" for x using consed_same [OF s'(3)] by blast
  show "Q i s'"
  proof (rule Q)
    show "epost True h s i s'" using s' consed_same [OF s'(3), of h] by (simp add: epost_def)
    show "appends s s'" "lw_eff s' = lw_eff s" using s'(3) by (auto simp: consed_def appends_def same_flow_def)
    have "\<forall>j \<in> set ins. j < lw_len s'" using k(3) s'(2) by (auto simp: value_node_def lstep_def)
    then show "begun s' g \<Longrightarrow> v t i = apply_kind F k kInvalidTypeId 0 (map (v t) ins)"
      using consed_value [OF R _ s'(1,3) k(1,2)] by blast
  qed (rule same)
qed

lemma sem_assign:
  assumes R: "runs_in F sel g v t" and inv: "linv True h s" and j: "value_node s j" and x: "x \<in> names h s"
    and f: "f k \<in> cons_kinds" "cons_arity (f k) = 2"
    and Q: "\<And>i s'. epost True h s i s' \<Longrightarrow> appends s s' \<Longrightarrow> lw_eff s' = lw_eff s \<Longrightarrow>
      (\<And>E \<sigma> c w. begun s' g \<Longrightarrow> holds v t h E s \<sigma> \<Longrightarrow> x \<in> dom E \<Longrightarrow> v t j = VInt c \<Longrightarrow>
        (if k = T_Eq then w = c else binop_sem (f k) (\<sigma> x) c = Some w) \<Longrightarrow> v t i = VInt w \<and> holds v t h E s' (\<sigma>(x := w))) \<Longrightarrow> Q i s'"
  shows "wl (assign_name h f k (Ident x) j) Q s"
proof (cases "k = T_Eq")
  case True
  have "wl (lbind (bind_name h x j) (\<lambda>_. lret j)) Q s"
  proof (rule wl_bindE, rule sem_bind [OF inv j])
    fix s' assume s': "epost True h s j s'" "appends s s'" "lw_eff s' = lw_eff s"
      "\<And>y. lookup h y s' = (if y = x then Some j else lookup h y s)"
    have "Q j s'"
    proof (rule Q [OF s'(1-3)])
      fix E \<sigma> c w assume "holds v t h E s \<sigma>" "x \<in> dom E" "v t j = VInt c" "if k = T_Eq then w = c else binop_sem (f k) (\<sigma> x) c = Some w"
      with True holds_upd [OF s'(4), of v t w E \<sigma> E] show "v t j = VInt w \<and> holds v t h E s' (\<sigma>(x := w))" by auto
    qed
    then show "wl (lret j) Q s'" by simp
  qed (intro grows_all)
  with True show ?thesis by (simp add: assign_name_def)
next
  case False
  obtain l where l: "lookup h x s = Some l" using x by (auto simp: names_def)
  have lv: "value_node s l" using inv l by (simp add: linv_def)
  have "wl (lbind (cons_node (f k) [l, j]) (\<lambda>folded. lbind (bind_name h x folded) (\<lambda>_. lret folded))) Q s"
  proof (rule wl_bindE, rule consed_sem [OF inv f(1) _ _ R])
    show "length [l, j] = cons_arity (f k)" "\<forall>i \<in> set [l, j]. value_node s i" using f(2) lv j by simp_all
    fix i s1 assume s1: "epost True h s i s1" "appends s s1" "lw_eff s1 = lw_eff s" "\<And>x. lookup h x s1 = lookup h x s"
      "begun s1 g \<Longrightarrow> v t i = apply_kind F (f k) kInvalidTypeId 0 (map (v t) [l, j])"
    show "wl (lbind (bind_name h x i) (\<lambda>_. lret i)) Q s1"
    proof (rule wl_bindE, rule sem_bind)
      show "linv True h s1" "value_node s1 i" using s1(1) by (simp_all add: epost_def)
      fix s' assume s': "epost True h s1 i s'" "appends s1 s'" "lw_eff s' = lw_eff s1"
        "\<And>y. lookup h y s' = (if y = x then Some i else lookup h y s1)"
      have "Q i s'"
      proof (rule Q)
        show "epost True h s i s'" by (rule epost_trans [OF s1(1) s'(1)])
        show "appends s s'" by (rule appends_trans [OF s1(2) s'(2)])
        show "lw_eff s' = lw_eff s" using s'(3) s1(3) by simp
        fix E \<sigma> c w assume b: "begun s' g" and h: "holds v t h E s \<sigma>" "x \<in> dom E" "v t j = VInt c"
          "if k = T_Eq then w = c else binop_sem (f k) (\<sigma> x) c = Some w"
        have "v t l = VInt (\<sigma> x)" using h(1,2) l unfolding holds_def by (metis option.inject)
        moreover have "v t i = apply_kind F (f k) kInvalidTypeId 0 (map (v t) [l, j])"
          by (rule s1(5) [OF begun_appends [OF s'(2) b]])
        ultimately have i: "v t i = VInt w" using h(3,4) False by (simp add: apply_kind_def)
        have "holds v t h E s1 \<sigma>" using h(1) holds_same [OF s1(4)] by blast
        with i holds_upd [OF s'(4) i this, of E] show "v t i = VInt w \<and> holds v t h E s' (\<sigma>(x := w))" by auto
      qed
      then show "wl (lret i) Q s'" by simp
    qed (intro grows_all)
  qed (intro grows_all)
  with False l show ?thesis by (simp add: assign_name_def value_or_zero_def)
qed

lemma xpost_then:
  "xpost g v t h E a s i s1 \<Longrightarrow> epost True h s1 j s' \<Longrightarrow> appends s1 s' \<Longrightarrow> lw_eff s' = lw_eff s1 \<Longrightarrow>
   (\<And>\<sigma> w \<sigma>'. begun s' g \<Longrightarrow> begun s1 g \<Longrightarrow> holds v t h E s \<sigma> \<Longrightarrow> eval \<sigma> n = Some (w, \<sigma>') \<Longrightarrow>
      (\<And>u \<sigma>1. eval \<sigma> a = Some (u, \<sigma>1) \<Longrightarrow> v t i = VInt u \<and> holds v t h E s1 \<sigma>1) \<Longrightarrow> v t j = VInt w \<and> holds v t h E s' \<sigma>') \<Longrightarrow>
   xpost g v t h E n s j s'"
  unfolding xpost_def using begun_appends [of s1 s' g] epost_trans [of True h s i s1 j s'] appends_trans [of s s1 s'] by metis

text \<open>
  The operators, given what lowering the operands guarantees (\<open>lowers E n h s\<close>: lowering \<open>n\<close>
  from \<open>s\<close> leads to \<open>xpost\<close>).
\<close>

definition lowers :: "graph \<Rightarrow> 'e valuation \<Rightarrow> nat \<Rightarrow> (symbol_id \<Rightarrow> 64 word) \<Rightarrow> env \<Rightarrow> ast \<Rightarrow> lowerer \<Rightarrow> bool" where
  "lowers g v t h E n s \<longleftrightarrow> wl (lower_expr h n) (\<lambda>i s'. xpost g v t h E n s i s') s"

lemma lowersD: "lowers g v t h E n s \<Longrightarrow> (\<And>i s'. xpost g v t h E n s i s' \<Longrightarrow> Q i s') \<Longrightarrow> wl (lower_expr h n) Q s"
  unfolding lowers_def by (rule wl_mono)

lemma xpost_kept: "xpost g v t h E n s i s' \<Longrightarrow> dom E \<subseteq> names h s \<Longrightarrow> linv True h s' \<and> dom E \<subseteq> names h s' \<and> value_node s' i"
  by (auto simp: xpost_def epost_def)

lemma sem_binary:
  assumes R: "runs_in F sel g v t" and k: "k \<in> {T_AndAnd, T_OrOr} \<longrightarrow> truth_valued a \<and> truth_valued b"
    and a: "lowers g v t h E a s" and b: "\<And>s. linv True h s \<Longrightarrow> dom E \<subseteq> names h s \<Longrightarrow> lowers g v t h E b s" and E: "dom E \<subseteq> names h s"
  shows "lowers g v t h E (BinaryExpr k a b) s"
  unfolding lowers_def lower_expr.simps
proof (rule wl_bindE, rule lowersD [OF a])
  fix i s1 assume s1: "xpost g v t h E a s i s1"
  then have i: "linv True h s1" "dom E \<subseteq> names h s1" "value_node s1 i" using xpost_kept E by blast+
  show "wl (lbind (lower_expr h b) (\<lambda>r. cons_node (binop_to_node_kind k) [i, r])) (xpost g v t h E (BinaryExpr k a b) s) s1"
  proof (rule wl_bindE, rule lowersD [OF b [OF i(1,2)]])
    fix j s2 assume s2: "xpost g v t h E b s1 j s2"
    then have e2: "epost True h s1 j s2" by (simp add: xpost_def)
    show "wl (cons_node (binop_to_node_kind k) [i, j]) (xpost g v t h E (BinaryExpr k a b) s) s2"
    proof (rule consed_sem [OF _ _ _ _ R])
      show "linv True h s2" "\<forall>i \<in> set [i, j]. value_node s2 i" using e2 epost_value [OF i(3) e2] by (simp_all add: epost_def)
      fix l s3 assume s3: "epost True h s2 l s3" "appends s2 s3" "lw_eff s3 = lw_eff s2" "\<And>x. lookup h x s3 = lookup h x s2"
        "begun s3 g \<Longrightarrow> v t l = apply_kind F (binop_to_node_kind k) kInvalidTypeId 0 (map (v t) [i, j])"
      show "xpost g v t h E (BinaryExpr k a b) s l s3"
      proof (rule xpost_then [OF s1])
        show "epost True h s1 l s3" "appends s1 s3" "lw_eff s3 = lw_eff s1"
          using s2 s3(1-3) appends_trans epost_trans by (auto simp: xpost_def)
        fix \<sigma> w \<sigma>' assume g: "begun s3 g" "holds v t h E s \<sigma>" and e: "eval \<sigma> (BinaryExpr k a b) = Some (w, \<sigma>')"
          and ia: "\<And>u \<sigma>1. eval \<sigma> a = Some (u, \<sigma>1) \<Longrightarrow> v t i = VInt u \<and> holds v t h E s1 \<sigma>1"
        from e obtain x \<sigma>1 y where ev: "eval \<sigma> a = Some (x, \<sigma>1)" "eval \<sigma>1 b = Some (y, \<sigma>')" "tok_sem k x y = Some w"
          by (auto split: option.splits)
        have jb: "v t j = VInt y \<and> holds v t h E s2 \<sigma>'"
          using s2 ia [OF ev(1)] ev(2) begun_appends [OF s3(2) g(1)] by (auto simp: xpost_def)
        have "binop_sem (binop_to_node_kind k) x y = Some w"
          using tok_sem_kind [OF ev(3)] truth_value [OF ev(1)] truth_value [OF ev(2)] k by auto
        with s3(5) [OF g(1)] ia [OF ev(1)] jb have "v t l = VInt w" by (simp add: apply_kind_def)
        with jb show "v t l = VInt w \<and> holds v t h E s3 \<sigma>'" using holds_same [OF s3(4)] by blast
      qed
    qed (simp_all add: binop_kinds)
  qed (intro grows_all)
qed (intro grows_all grows_lower)

lemma sem_unary:
  assumes R: "runs_in F sel g v t" and a: "lowers g v t h E a s" and E: "dom E \<subseteq> names h s"
  shows "lowers g v t h E (UnaryExpr k a) s"
  unfolding lowers_def lower_expr.simps
proof (rule wl_bindE, rule lowersD [OF a])
  fix i s1 assume s1: "xpost g v t h E a s i s1"
  then have i: "linv True h s1" "value_node s1 i" using xpost_kept E by blast+
  show "wl (cons_node (unop_to_node_kind k) [i]) (xpost g v t h E (UnaryExpr k a) s) s1"
  proof (rule consed_sem [OF i(1) _ _ _ R])
    show "\<forall>i \<in> set [i]. value_node s1 i" using i(2) by simp
    fix l s3 assume s3: "epost True h s1 l s3" "appends s1 s3" "lw_eff s3 = lw_eff s1" "\<And>x. lookup h x s3 = lookup h x s1"
      "begun s3 g \<Longrightarrow> v t l = apply_kind F (unop_to_node_kind k) kInvalidTypeId 0 (map (v t) [i])"
    show "xpost g v t h E (UnaryExpr k a) s l s3"
    proof (rule xpost_then [OF s1 s3(1-3)])
      fix \<sigma> w \<sigma>' assume g: "begun s3 g" and e: "eval \<sigma> (UnaryExpr k a) = Some (w, \<sigma>')"
        and ia: "\<And>u \<sigma>1. eval \<sigma> a = Some (u, \<sigma>1) \<Longrightarrow> v t i = VInt u \<and> holds v t h E s1 \<sigma>1"
      from e obtain x where ev: "eval \<sigma> a = Some (x, \<sigma>')" "tok_unop k x = Some w" by (auto split: option.splits)
      from s3(5) [OF g] ia [OF ev(1)] tok_unop_kind [OF ev(2)] have "v t l = VInt w" by (simp add: apply_kind_def)
      with ia [OF ev(1)] show "v t l = VInt w \<and> holds v t h E s3 \<sigma>'" using holds_same [OF s3(4)] by blast
    qed
  qed (simp_all add: unop_kinds')
qed (intro grows_all)

lemma sem_assign_value:
  assumes R: "runs_in F sel g v t" and k: "k = T_Eq \<or> k = T_PlusEq" and e: "lowers g v t h E e s" and E: "dom E \<subseteq> names h s" "x \<in> dom E"
  shows "lowers g v t h E (AssignExpr k (Ident x) e) s"
  unfolding lowers_def lower_expr.simps
proof (rule wl_bindE, rule lowersD [OF e])
  fix i s1 assume s1: "xpost g v t h E e s i s1"
  then have i: "linv True h s1" "value_node s1 i" "x \<in> names h s1" using xpost_kept E by blast+
  show "wl (assign_name h binop_to_node_kind k (Ident x) i) (xpost g v t h E (AssignExpr k (Ident x) e) s) s1"
  proof (rule sem_assign [OF R i binop_kinds])
    fix l s3 assume s3: "epost True h s1 l s3" "appends s1 s3" "lw_eff s3 = lw_eff s1"
      "\<And>E \<sigma> c w. begun s3 g \<Longrightarrow> holds v t h E s1 \<sigma> \<Longrightarrow> x \<in> dom E \<Longrightarrow> v t i = VInt c \<Longrightarrow>
        if k = T_Eq then w = c else binop_sem (binop_to_node_kind k) (\<sigma> x) c = Some w \<Longrightarrow> v t l = VInt w \<and> holds v t h E s3 (\<sigma>(x := w))"
    show "xpost g v t h E (AssignExpr k (Ident x) e) s l s3"
    proof (rule xpost_then [OF s1 s3(1-3)])
      fix \<sigma> w \<sigma>' assume g: "begun s3 g" and ev: "eval \<sigma> (AssignExpr k (Ident x) e) = Some (w, \<sigma>')"
        and ia: "\<And>u \<sigma>1. eval \<sigma> e = Some (u, \<sigma>1) \<Longrightarrow> v t i = VInt u \<and> holds v t h E s1 \<sigma>1"
      from ev obtain c \<sigma>1 where c: "eval \<sigma> e = Some (c, \<sigma>1)" "assign_sem k (\<sigma>1 x) c = Some w" "\<sigma>' = \<sigma>1(x := w)"
        by (auto split: option.splits)
      have "if k = T_Eq then w = c else binop_sem (binop_to_node_kind k) (\<sigma>1 x) c = Some w"
        using c(2) k assign_sem_kind(2) [OF c(2)] by (auto simp: assign_sem_def)
      with s3(4) [OF g _ E(2)] ia [OF c(1)] show "v t l = VInt w \<and> holds v t h E s3 \<sigma>'" unfolding c(3) by blast
    qed
  qed
qed (rule grows_assign)

lemma sem_expr:
  assumes R: "runs_in F sel g v t"
  shows "simple_expr n \<Longrightarrow> expr_ok ar E n E' \<Longrightarrow> linv True h s \<Longrightarrow> dom E \<subseteq> names h s \<Longrightarrow> lowers g v t h E n s"
proof (induction n arbitrary: E E' s rule: simple_expr.induct)
  case (1 x)
  then have x: "x \<in> dom E" by (auto simp: expr_ok_eqs)
  then obtain i where i: "lookup h x s = Some i" using 1(4) by (auto simp: names_def)
  have "value_node s i" using 1(3) i by (simp add: linv_def)
  with 1(3) have "epost True h s i s" by (simp add: epost_def)
  moreover have "v t i = VInt (\<sigma> x)" if "holds v t h E s \<sigma>" for \<sigma>
    using that x i unfolding holds_def by (metis option.inject)
  ultimately show ?case using i by (simp add: lowers_def xpost_def)
next
  case (2 w)
  show ?case unfolding lowers_def lower_expr.simps
    by (rule sem_literal [where n = "IntLit w" and E = E, OF R maker_simps(2) 2(3)]) simp_all
next
  case (3 b)
  show ?case unfolding lowers_def lower_expr.simps
    by (rule sem_literal [where n = "BoolLit b" and E = E, OF R maker_simps(3) 3(3)]) (simp_all add: bool_i64_def)
next
  case (4 k a b)
  then obtain E1 where a: "simple_expr a" "expr_ok ar E a E1" and b: "simple_expr b" "expr_ok ar E1 b E'" by (auto simp: expr_ok_eqs)
  have "E1 = E" using simple_plain_expr [OF a(1)] a(2) by (rule plain_expr_env)
  note b = b [unfolded this]
  from 4(3) show ?case by (intro sem_binary [OF R _ "4.IH"(1) [OF a 4(5,6)] "4.IH"(2) [OF b] 4(6)]) simp_all
next
  case (5 k a)
  then show ?case by (intro sem_unary [OF R]) (auto simp: expr_ok_eqs)
next
  case (6 k a e)
  from 6(3) obtain x where x: "a = Ident x" "x \<in> dom E'" and e: "expr_ok ar E e E'" by (cases a) (auto simp: expr_ok_eqs)
  have s: "simple_expr e" "k = T_Eq \<or> k = T_PlusEq" using 6(2) by auto
  have "E' = E" using simple_plain_expr [OF s(1)] e by (rule plain_expr_env)
  with x sem_assign_value [OF R s(2) "6.IH" [OF s(1) e 6(4,5)] 6(5)] show ?case by simp
qed simp_all

subsection \<open>Returns\<close>

text \<open>
  \<open>pads_lm m\<close>: the nodes \<open>m\<close> adds are no returns. \<open>rets g v t s s'\<close>: the returns made between
  the states \<open>s\<close> and \<open>s'\<close> that control reaches.
\<close>

definition pads :: "lowerer \<Rightarrow> lowerer \<Rightarrow> bool" where
  "pads s s' \<longleftrightarrow> (\<exists>new. g_nodes (lw_graph s') = g_nodes (lw_graph s) @ new \<and> (\<forall>n \<in> set new. n_kind n \<noteq> NK_Return))"

definition pads_lm :: "'a lm \<Rightarrow> bool" where
  "pads_lm m \<longleftrightarrow> (\<forall>s r s'. m s = Some (r, s') \<longrightarrow> pads s s')"

definition rets :: "graph \<Rightarrow> 'e valuation \<Rightarrow> nat \<Rightarrow> lowerer \<Rightarrow> lowerer \<Rightarrow> node_id set" where
  "rets g v t s s' = {i. lw_len s \<le> i \<and> i < lw_len s' \<and> n_kind (node_at g i) = NK_Return \<and> active g v t i}"

lemma pads_appends: "pads s s' \<Longrightarrow> appends s s'"
  by (auto simp: pads_def appends_def)

lemma pads_trans: "pads s1 s2 \<Longrightarrow> pads s2 s3 \<Longrightarrow> pads s1 s3"
  by (auto simp: pads_def)

lemma pads_rets:
  assumes "pads s s'" "begun s' g"
  shows "rets g v t s s' = {}"
proof -
  obtain new rest where new: "g_nodes g = g_nodes (lw_graph s) @ new @ rest" "\<forall>n \<in> set new. n_kind n \<noteq> NK_Return"
    "lw_len s' = lw_len s + length new" using assms by (auto simp: pads_def begun_def)
  have "n_kind (node_at g i) \<noteq> NK_Return" if "lw_len s \<le> i" "i < lw_len s'" for i
    using new that by (simp add: nth_append)
  then show ?thesis by (auto simp: rets_def)
qed

lemma appends_len: "appends s s' \<Longrightarrow> lw_len s \<le> lw_len s'"
  by (auto simp: appends_def)

lemma rets_join: "appends s1 s2 \<Longrightarrow> appends s2 s3 \<Longrightarrow> rets g v t s1 s3 = rets g v t s1 s2 \<union> rets g v t s2 s3"
  using appends_len [of s1 s2] appends_len [of s2 s3] by (auto simp: rets_def)

lemma rets_flow [simp]: "rets g v t (set_flow c e s) s' = rets g v t s s'" "rets g v t s (set_flow c e s') = rets g v t s s'"
  by (simp_all add: rets_def)

lemma rets_same: "lw_hc s1 = lw_hc s2 \<Longrightarrow> rets g v t s s1 = rets g v t s s2" "lw_hc s1 = lw_hc s2 \<Longrightarrow> rets g v t s1 s = rets g v t s2 s"
  by (simp_all add: rets_def)

lemma pads_lm_state: "pads_lm (lret x)" "pads_lm (lget f)"
  by (simp_all add: pads_lm_def pads_def lret_def lget_def)

lemma pads_lm_lmod: "(\<And>s. lw_graph (f s) = lw_graph s) \<Longrightarrow> pads_lm (lmod f)"
  by (simp add: pads_lm_def pads_def lmod_def)

lemma pads_lm_bind: "pads_lm m \<Longrightarrow> (\<And>x. pads_lm (f x)) \<Longrightarrow> pads_lm (lbind m f)"
  unfolding pads_lm_def lbind_def by (fastforce split: option.splits sum.splits intro: pads_trans)

lemma pads_add: "n_kind n \<noteq> NK_Return \<Longrightarrow> \<exists>new. g_nodes (snd (add_node n g)) = g_nodes g @ new \<and> (\<forall>m \<in> set new. n_kind m \<noteq> NK_Return)"
  by (intro exI [of _ "[n]"]) simp

lemma pads_build: "maker f n \<Longrightarrow> n_kind n \<noteq> NK_Return \<Longrightarrow> pads_lm (build f)"
  using pads_add [of n] by (simp add: pads_lm_def build_def maker_def pads_def split_beta)

lemma pads_cons: "k \<noteq> NK_Return \<Longrightarrow> pads_lm (cons_node k ins)"
  unfolding pads_lm_def
proof (intro allI impI)
  fix s r s' assume k: "k \<noteq> NK_Return" and "cons_node k ins s = Some (r, s')"
  then obtain i hc where li: "lookup_or_insert k ins kInvalidTypeId 0 (lw_hc s) = Some (i, hc)" "s' = s\<lparr>lw_hc := hc\<rparr>"
    by (auto simp: cons_node_def)
  from li(1) show "pads s s'"
    by (cases rule: lookup_or_insert_cases) (use li(2) k in \<open>auto simp: pads_def make_node_def\<close>)
qed

lemma pads_bind_name: "pads_lm (bind_name h x i)"
  by (auto simp: pads_lm_def pads_def bind_name_def)

lemmas pads_makers = maker_simps(1-10,12) [THEN pads_build]

lemma pads_value_or_zero: "pads_lm (value_or_zero v)"
  by (cases v) (simp_all add: value_or_zero_def pads_lm_state pads_makers)

lemma pads_cond: "pads_lm m \<Longrightarrow> pads_lm m' \<Longrightarrow> pads_lm (if c then m else m')"
  by simp

lemma pads_assign: "(\<And>k. f k \<noteq> NK_Return) \<Longrightarrow> pads_lm (assign_name h f k a i)"
proof (cases a)
  case (Ident x)
  assume "\<And>k. f k \<noteq> NK_Return"
  then show ?thesis unfolding assign_name_def Ident ast.case
    by (intro pads_cond pads_lm_bind pads_lm_state pads_cons pads_bind_name pads_value_or_zero) simp
qed (simp_all add: assign_name_def pads_lm_state)

lemma return_not_consed: "binop_to_node_kind k \<noteq> NK_Return" "compound_kind k \<noteq> NK_Return" "unop_to_node_kind k \<noteq> NK_Return"
proof -
  have "NK_Return \<notin> cons_kinds" by (simp add: cons_kinds_def)
  then show "binop_to_node_kind k \<noteq> NK_Return" "compound_kind k \<noteq> NK_Return" "unop_to_node_kind k \<noteq> NK_Return"
    using binop_kinds(1) compound_kinds(1) unop_kinds'(1) by metis+
qed

lemma pads_phi: "pads_lm (build (make_phi r vs kInvalidTypeId))"
  by (rule pads_makers) simp

lemma pads_merge: "pads_lm (merge_bindings h m xs ys)"
proof (induction h m xs ys rule: merge_bindings.induct)
  case (2 h m x t xs ys)
  then show ?case
    by (cases "snapshot_find x ys") (auto intro!: pads_lm_bind pads_phi pads_bind_name)
qed (simp add: pads_lm_state)

lemma pads_expr: "simple_expr n \<Longrightarrow> pads_lm (lower_expr h n)"
proof (induction n rule: simple_expr.induct)
  case (1 x)
  have "pads_lm (case u of None \<Rightarrow> build (make_node NK_Parameter [] kInvalidTypeId (payload_of_sym x)) | Some i \<Rightarrow> lret i)" for u
    by (cases u) (simp_all add: pads_lm_state pads_makers)
  then show ?case unfolding lower_expr.simps by (rule pads_lm_bind [OF pads_lm_state(2)])
next
  case (4 k a b)
  then show ?case unfolding lower_expr.simps by (intro pads_lm_bind pads_cons return_not_consed) simp_all
next
  case (5 k a)
  then show ?case unfolding lower_expr.simps by (intro pads_lm_bind pads_cons return_not_consed) simp_all
next
  case (6 k a e)
  then show ?case unfolding lower_expr.simps by (intro pads_lm_bind pads_assign return_not_consed) simp_all
qed (simp_all add: pads_makers)

lemma wl_pads: "pads_lm m \<Longrightarrow> wl m (\<lambda>x s'. pads s s' \<longrightarrow> Q x s') s \<Longrightarrow> wl m Q s"
  unfolding wl_def pads_lm_def by blast

subsection \<open>Statements\<close>

text \<open>
  \<open>ran g v t h E E' f s s'\<close>: what lowering a statement from \<open>s\<close> to \<open>s'\<close> guarantees when the
  statement takes a store to the outcome \<open>f\<close>: code that control does not reach stays
  unreached; a reached statement either goes on with the names holding the new store, or
  control stops and every return that was reached has the value returned.
\<close>

definition ended :: "graph \<Rightarrow> 'e valuation \<Rightarrow> nat \<Rightarrow> (symbol_id \<Rightarrow> 64 word) \<Rightarrow> env \<Rightarrow> lowerer \<Rightarrow> lowerer \<Rightarrow> outcome \<Rightarrow> bool" where
  "ended g v t h E' s s' out \<longleftrightarrow> (case out of
     Running \<sigma>' \<Rightarrow> active g v t (lw_ctrl s') \<and> lw_eff s' \<noteq> kInvalidNodeId \<and> holds v t h E' s' \<sigma>' \<and> rets g v t s s' = {}
   | Returned r \<Rightarrow> \<not> active g v t (lw_ctrl s') \<and> rets g v t s s' \<noteq> {}
       \<and> (\<forall>i \<in> rets g v t s s'. v t (n_inputs (node_at g i) ! 2) = VInt r))"

definition ran :: "graph \<Rightarrow> 'e valuation \<Rightarrow> nat \<Rightarrow> (symbol_id \<Rightarrow> 64 word) \<Rightarrow> env \<Rightarrow> env \<Rightarrow> (store \<Rightarrow> outcome option)
    \<Rightarrow> lowerer \<Rightarrow> lowerer \<Rightarrow> bool" where
  "ran g v t h E E' f s s' \<longleftrightarrow> spost True h False E' s s' \<and> appends s s' \<and> (begun s' g \<longrightarrow>
     (\<not> active g v t (lw_ctrl s) \<longrightarrow> \<not> active g v t (lw_ctrl s') \<and> rets g v t s s' = {})
   \<and> (\<forall>\<sigma> out. active g v t (lw_ctrl s) \<longrightarrow> lw_eff s \<noteq> kInvalidNodeId \<longrightarrow> holds v t h E s \<sigma> \<longrightarrow> f \<sigma> = Some out
        \<longrightarrow> ended g v t h E' s s' out))"

lemma ranI:
  assumes "spost True h False E' s s'" "appends s s'"
    "\<And>x. begun s' g \<Longrightarrow> \<not> active g v t (lw_ctrl s) \<Longrightarrow> \<not> active g v t (lw_ctrl s') \<and> rets g v t s s' = {}"
    "\<And>\<sigma> out. begun s' g \<Longrightarrow> active g v t (lw_ctrl s) \<Longrightarrow> lw_eff s \<noteq> kInvalidNodeId \<Longrightarrow> holds v t h E s \<sigma> \<Longrightarrow> f \<sigma> = Some out
      \<Longrightarrow> ended g v t h E' s s' out"
  shows "ran g v t h E E' f s s'"
  using assms unfolding ran_def by blast

lemma ran_spost: "ran g v t h E E' f s s' \<Longrightarrow> spost True h False E' s s' \<and> appends s s'"
  by (simp add: ran_def)

lemma ran_off: "ran g v t h E E' f s s' \<Longrightarrow> begun s' g \<Longrightarrow> \<not> active g v t (lw_ctrl s) \<Longrightarrow> \<not> active g v t (lw_ctrl s') \<and> rets g v t s s' = {}"
  by (simp add: ran_def)

lemma ran_on: "ran g v t h E E' f s s' \<Longrightarrow> begun s' g \<Longrightarrow> active g v t (lw_ctrl s) \<Longrightarrow> lw_eff s \<noteq> kInvalidNodeId \<Longrightarrow> holds v t h E s \<sigma>
    \<Longrightarrow> f \<sigma> = Some out \<Longrightarrow> ended g v t h E' s s' out"
  by (simp add: ran_def)

lemma spost_seq: "spost True h False E1 s1 s2 \<Longrightarrow> spost True h False E2 s2 s3 \<Longrightarrow> spost True h False E2 s1 s3"
  by (auto simp: spost_def intro: lstep_trans)

lemma ran_seq:
  assumes r1: "ran g v t h E E1 f1 s s1" and r2: "ran g v t h E1 E2 f2 s1 s2"
  shows "ran g v t h E E2 (\<lambda>\<sigma>. case f1 \<sigma> of Some (Running \<sigma>1) \<Rightarrow> f2 \<sigma>1 | r \<Rightarrow> r) s s2"
proof (rule ranI)
  note p1 = ran_spost [OF r1] and p2 = ran_spost [OF r2]
  show "spost True h False E2 s s2" using p1 p2 spost_seq by blast
  show "appends s s2" using p1 p2 appends_trans by blast
  have b1: "begun s1 g" if "begun s2 g" using p2 that begun_appends by blast
  have j: "rets g v t s s2 = rets g v t s s1 \<union> rets g v t s1 s2" using p1 p2 rets_join by blast
  show "\<not> active g v t (lw_ctrl s2) \<and> rets g v t s s2 = {}" if "begun s2 g" "\<not> active g v t (lw_ctrl s)"
    using ran_off [OF r1 b1 [OF that(1)] that(2)] ran_off [OF r2 that(1)] j by simp
  fix \<sigma> out assume b: "begun s2 g" and a: "active g v t (lw_ctrl s)" "lw_eff s \<noteq> kInvalidNodeId" "holds v t h E s \<sigma>"
    and out: "(case f1 \<sigma> of Some (Running \<sigma>1) \<Rightarrow> f2 \<sigma>1 | r \<Rightarrow> r) = Some out"
  show "ended g v t h E2 s s2 out"
  proof (cases "\<exists>\<sigma>1. f1 \<sigma> = Some (Running \<sigma>1)")
    case True
    then obtain \<sigma>1 where s1: "f1 \<sigma> = Some (Running \<sigma>1)" by blast
    with ran_on [OF r1 b1 [OF b] a] have "ended g v t h E1 s s1 (Running \<sigma>1)" by simp
    then have "active g v t (lw_ctrl s1)" "lw_eff s1 \<noteq> kInvalidNodeId" "holds v t h E1 s1 \<sigma>1" "rets g v t s s1 = {}"
      by (simp_all add: ended_def)
    with ran_on [OF r2 b this(1-3), of out] out s1 j show ?thesis by (simp add: ended_def split: outcome.splits)
  next
    case False
    with out obtain r where r: "f1 \<sigma> = Some (Returned r)" "out = Returned r" by (auto split: option.splits outcome.splits)
    from ran_on [OF r1 b1 [OF b] a r(1)] have "ended g v t h E1 s s1 (Returned r)" .
    moreover from this have "\<not> active g v t (lw_ctrl s1)" by (simp add: ended_def)
    ultimately show ?thesis using ran_off [OF r2 b] j r(2) by (simp add: ended_def)
  qed
qed

lemma ran_after:
  assumes x: "xpost g v t h E n s i s1" and p: "pads s s1" and r: "ran g v t h E E' (f (v t i)) s1 s2"
  shows "ran g v t h E E' (\<lambda>\<sigma>. case eval \<sigma> n of None \<Rightarrow> None | Some (w, \<sigma>1) \<Rightarrow> f (VInt w) \<sigma>1) s s2"
proof (rule ranI)
  have e: "epost True h s i s1" "lw_ctrl s1 = lw_ctrl s" "lw_eff s1 = lw_eff s" using x by (simp_all add: xpost_def epost_def)
  note p2 = ran_spost [OF r]
  show "spost True h False E' s s2" using p2 spost_trans [OF e(1)] by blast
  show "appends s s2" using p2 pads_appends [OF p] appends_trans by blast
  have b1: "begun s1 g" if "begun s2 g" using p2 that begun_appends by blast
  have j: "rets g v t s s2 = rets g v t s1 s2" if "begun s2 g"
    using p2 rets_join [OF pads_appends [OF p]] pads_rets [OF p b1 [OF that]] by blast
  show "\<not> active g v t (lw_ctrl s2) \<and> rets g v t s s2 = {}" if "begun s2 g" "\<not> active g v t (lw_ctrl s)"
    using ran_off [OF r that(1)] j that e(2) by simp
  fix \<sigma> out assume b: "begun s2 g" and a: "active g v t (lw_ctrl s)" "lw_eff s \<noteq> kInvalidNodeId" "holds v t h E s \<sigma>"
    and out: "(case eval \<sigma> n of None \<Rightarrow> None | Some (w, \<sigma>1) \<Rightarrow> f (VInt w) \<sigma>1) = Some out"
  then obtain w \<sigma>1 where w: "eval \<sigma> n = Some (w, \<sigma>1)" "f (VInt w) \<sigma>1 = Some out" by (auto split: option.splits)
  with x b1 [OF b] a(3) have "v t i = VInt w" "holds v t h E s1 \<sigma>1" by (auto simp: xpost_def)
  with ran_on [OF r b, of \<sigma>1 out] a e w(2) have "ended g v t h E' s1 s2 out" by simp
  then show "ended g v t h E' s s2 out" using j [OF b] by (simp add: ended_def split: outcome.splits)
qed

lemma ran_pads:
  assumes "spost True h False E' s s'" "pads s s'" "lw_ctrl s' = lw_ctrl s" "lw_eff s' = lw_eff s"
    "\<And>\<sigma> out. begun s' g \<Longrightarrow> holds v t h E s \<sigma> \<Longrightarrow> f \<sigma> = Some out \<Longrightarrow> \<exists>\<sigma>'. out = Running \<sigma>' \<and> holds v t h E' s' \<sigma>'"
  shows "ran g v t h E E' f s s'"
proof (rule ranI)
  fix \<sigma> out assume b: "begun s' g" and a: "active g v t (lw_ctrl s)" "lw_eff s \<noteq> kInvalidNodeId" "holds v t h E s \<sigma>" "f \<sigma> = Some out"
  obtain \<sigma>' where "out = Running \<sigma>'" "holds v t h E' s' \<sigma>'" using assms(5) [OF b a(3,4)] by blast
  with a assms pads_rets [OF assms(2) b] show "ended g v t h E' s s' out" by (simp add: ended_def)
qed (use assms pads_appends pads_rets [OF assms(2), of g v t] in simp_all)

text \<open>The statements after their expression was lowered to \<open>i\<close>.\<close>

definition for_int :: "'e val \<Rightarrow> (i64 \<Rightarrow> 'b option) \<Rightarrow> 'b option" where
  "for_int x f = (case x of VInt w \<Rightarrow> f w | VOpaque e \<Rightarrow> None)"

lemma for_int_simps [simp]: "for_int (VInt w) f = f w" "for_int x f = Some r \<longleftrightarrow> (\<exists>w. x = VInt w \<and> f w = Some r)"
  by (simp_all add: for_int_def split: val.split)

lemma sem_let:
  assumes inv: "linv True h s" and i: "value_node s i" and E: "dom E \<subseteq> names h s" "dom E' \<subseteq> insert x (dom E)"
    and Q: "\<And>s'. ran g v t h E E' (\<lambda>\<sigma>. for_int (v t i) (\<lambda>w. Some (Running (\<sigma>(x := w))))) s s' \<Longrightarrow> Q True s'"
  shows "wl (lbind (bind_name h x i) (\<lambda>_. lret True)) Q s"
proof (rule wl_bindE, rule wl_bind_name [OF inv i])
  fix s' assume s': "linv True h s'" "lstep h s s'" "lw_hc s' = lw_hc s" "same_flow s s'"
    "\<And>y. lookup h y s' = (if y = x then Some i else lookup h y s)"
  have n: "names h s' = insert x (names h s)" using names_upd s'(5) .
  then have "dom E' \<subseteq> names h s'" using E by blast
  with s'(1,2) n have "spost True h False E' s s'" by (auto simp: spost_def)
  then have "ran g v t h E E' (\<lambda>\<sigma>. for_int (v t i) (\<lambda>w. Some (Running (\<sigma>(x := w))))) s s'"
  proof (intro ran_pads)
    fix \<sigma> out assume h: "holds v t h E s \<sigma>" "for_int (v t i) (\<lambda>w. Some (Running (\<sigma>(x := w)))) = Some out"
    then obtain u where u: "v t i = VInt u" "out = Running (\<sigma>(x := u))" by auto
    with holds_upd [OF s'(5) u(1) h(1) E(2)] show "\<exists>\<sigma>'. out = Running \<sigma>' \<and> holds v t h E' s' \<sigma>'" by auto
  qed (use s'(3,4) in \<open>simp_all add: pads_def same_flow_def\<close>)
  then show "wl (lret True) Q s'" by (simp add: Q)
qed (intro grows_all)

lemma sem_return:
  assumes inv: "linv True h s" and i: "value_node s i" and E: "dom E \<subseteq> names h s" and R: "runs_in F sel g v t"
    and Q: "\<And>s'. ran g v t h E E (\<lambda>\<sigma>. for_int (v t i) (\<lambda>w. Some (Returned w))) s s' \<Longrightarrow> Q True s'"
  shows "wl (lower_return i) Q s"
proof (rule wl_return [OF inv i], rule Q)
  let ?n = "plain_node NK_Return 0 [lw_ctrl s, lw_eff s, i]"
  fix s1 assume s1: "s1 = append_node ?n s" "linv True h s1" "lstep h s s1"
    "linv True h (set_flow kInvalidNodeId kInvalidNodeId s1)"
  let ?s = "set_flow kInvalidNodeId kInvalidNodeId s1"
  have g: "node_at g (lw_len s) = ?n" "lw_len s < length (g_nodes g)" if "begun ?s g"
    using that by (auto simp: begun_def s1(1) nth_append)
  have "length (g_nodes g) < kInvalidNodeId" using R by (simp add: runs_in_def kInvalidNodeId_def)
  then have off: "\<not> active g v t kInvalidNodeId" using active_less by fastforce
  have r: "rets g v t s ?s = (if active g v t (lw_ctrl s) then {lw_len s} else {})" if "begun ?s g"
    using active_cases(2) [OF g(2) [OF that] g(1) [OF that]] g(1) [OF that]
    by (auto simp: rets_def s1(1) less_Suc_eq)
  show "ran g v t h E E (\<lambda>\<sigma>. for_int (v t i) (\<lambda>w. Some (Returned w))) s ?s"
  proof (rule ranI)
    show "spost True h False E s ?s" using s1(3,4) E by (simp add: spost_def s1(1))
    show "appends s ?s" by (simp add: s1(1))
    show "\<not> active g v t (lw_ctrl ?s) \<and> rets g v t s ?s = {}" if "begun ?s g" "\<not> active g v t (lw_ctrl s)"
      using r [OF that(1)] that(2) off by simp
    fix \<sigma> out assume b: "begun ?s g" and a: "active g v t (lw_ctrl s)" and "for_int (v t i) (\<lambda>w. Some (Returned w)) = Some out"
    then obtain u where "v t i = VInt u" "out = Returned u" by auto
    with r [OF b] a g(1) [OF b] off show "ended g v t h E s ?s out" by (auto simp: ended_def)
  qed
qed

lemma sem_assigned:
  assumes R: "runs_in F sel g v t" and inv: "linv True h s" and i: "value_node s i" and E: "dom E \<subseteq> names h s" "x \<in> dom E"
    and Q: "\<And>s'. ran g v t h E E (\<lambda>\<sigma>. for_int (v t i) (\<lambda>c. map_option (\<lambda>w. Running (\<sigma>(x := w))) (assign_sem k (\<sigma> x) c))) s s' \<Longrightarrow> Q True s'"
  shows "wl (lbind (assign_name h compound_kind k (Ident x) i) (\<lambda>_. lret True)) Q s"
proof (rule wl_bindE, rule wl_pads [OF pads_assign], rule return_not_consed, rule sem_assign [OF R inv i _ compound_kinds])
  show "x \<in> names h s" using E by blast
  fix l s' assume s': "epost True h s l s'" "appends s s'" "lw_eff s' = lw_eff s"
    "\<And>E \<sigma> c w. begun s' g \<Longrightarrow> holds v t h E s \<sigma> \<Longrightarrow> x \<in> dom E \<Longrightarrow> v t i = VInt c \<Longrightarrow>
        if k = T_Eq then w = c else binop_sem (compound_kind k) (\<sigma> x) c = Some w \<Longrightarrow> v t l = VInt w \<and> holds v t h E s' (\<sigma>(x := w))"
  show "pads s s' \<longrightarrow> wl (lret True) Q s'"
  proof
    assume p: "pads s s'"
    have "ran g v t h E E (\<lambda>\<sigma>. for_int (v t i) (\<lambda>c. map_option (\<lambda>w. Running (\<sigma>(x := w))) (assign_sem k (\<sigma> x) c))) s s'"
    proof (rule ran_pads [OF _ p])
      show "spost True h False E s s'" by (rule epost_spost [OF s'(1) E(1)])
      show "lw_ctrl s' = lw_ctrl s" "lw_eff s' = lw_eff s" using s'(1,3) by (simp_all add: epost_def)
      fix \<sigma> out assume g: "begun s' g" "holds v t h E s \<sigma>"
        and "for_int (v t i) (\<lambda>c. map_option (\<lambda>w. Running (\<sigma>(x := w))) (assign_sem k (\<sigma> x) c)) = Some out"
      then obtain c w where c: "v t i = VInt c" "assign_sem k (\<sigma> x) c = Some w" "out = Running (\<sigma>(x := w))" by auto
      have "if k = T_Eq then w = c else binop_sem (compound_kind k) (\<sigma> x) c = Some w"
        using c(2) assign_sem_kind(1) [OF c(2)] by (auto simp: assign_sem_def)
      from s'(4) [OF g E(2) c(1) this] c(3) show "\<exists>\<sigma>'. out = Running \<sigma>' \<and> holds v t h E s' \<sigma>'" by blast
    qed
    then show "wl (lret True) Q s'" by (simp add: Q)
  qed
qed (intro grows_all)

text \<open>The merge: a phi takes the operand of the branch control came through.\<close>

lemma joined_value:
  assumes R: "runs_in F sel g v t" and b: "begun s g" and j: "joined r a (Some b') s i"
    and r: "r < length (g_nodes g)" "node_at g r = plain_node NK_Region 0 [c1, c2]" "active g v t r"
  shows "\<not> active g v t c2 \<Longrightarrow> v t i = v t a" "\<not> active g v t c1 \<Longrightarrow> v t i = v t b'"
proof -
  have "follows sel g v t" using R by (simp add: runs_in_def)
  then obtain k where k: "k < 2" "sel t r = (t, k)" "active g v t ([c1, c2] ! k)"
    using r by (fastforce simp: follows_def)
  have "v t i = v t ([a, b'] ! k)"
  proof (cases "b' = a")
    case True
    with j k(1) show ?thesis by (auto simp: joined_def less_Suc_eq numeral_2_eq_2)
  next
    case False
    with j have i: "i < lw_len s" "node_at (lw_graph s) i = plain_node NK_Phi 0 [r, a, b']" by (auto simp: joined_def)
    with begun_node [OF b i(1)] run_node [OF R, of i] k(1,2) show ?thesis
      by (auto simp: node_ok_def free_kinds_def less_Suc_eq numeral_2_eq_2)
  qed
  with k show "\<not> active g v t c2 \<Longrightarrow> v t i = v t a" "\<not> active g v t c1 \<Longrightarrow> v t i = v t b'"
    by (auto simp: less_Suc_eq numeral_2_eq_2)
qed

lemma merged_holds:
  assumes R: "runs_in F sel g v t" and b: "begun s8 g"
    and r: "r < length (g_nodes g)" "node_at g r = plain_node NK_Region 0 [c1, c2]" "active g v t r"
    and m: "merged_into h r xs ys s7 s8" "map_of xs = (\<lambda>y. lookup h y s4)" "map_of ys = (\<lambda>y. lookup h y s6)"
    and E': "dom E' \<subseteq> dom Et" "dom E' \<subseteq> dom Ee" "dom Et \<subseteq> names h s4" "dom Ee \<subseteq> names h s6"
  shows "\<not> active g v t c2 \<Longrightarrow> holds v t h Et s4 \<sigma> \<Longrightarrow> holds v t h E' s8 \<sigma>"
    "\<not> active g v t c1 \<Longrightarrow> holds v t h Ee s6 \<sigma> \<Longrightarrow> holds v t h E' s8 \<sigma>"
proof -
  have bound: "\<exists>a b' i. lookup h x s4 = Some a \<and> lookup h x s6 = Some b' \<and> lookup h x s8 = Some i \<and> joined r a (Some b') s8 i"
    if "x \<in> dom E'" for x
  proof -
    have "x \<in> names h s4" "x \<in> names h s6" using that E' by blast+
    then obtain a b' where ab: "lookup h x s4 = Some a" "lookup h x s6 = Some b'" by (auto simp: names_def)
    have "case map_of xs x of None \<Rightarrow> lookup h x s8 = lookup h x s7
      | Some t \<Rightarrow> (\<exists>i. lookup h x s8 = Some i \<and> joined r t (map_of ys x) s8 i)"
      using m(1) unfolding merged_into_def by (rule spec)
    with ab show ?thesis by (simp add: m(2,3))
  qed
  note jv = joined_value [OF R b _ r]
  show "holds v t h E' s8 \<sigma>" if "\<not> active g v t c2" "holds v t h Et s4 \<sigma>"
    unfolding holds_def
  proof
    fix x assume x: "x \<in> dom E'"
    from bound [OF x] obtain a b' i where a: "lookup h x s4 = Some a" "lookup h x s8 = Some i" "joined r a (Some b') s8 i" by blast
    have "v t a = VInt (\<sigma> x)" using that(2) x E'(1) a(1) unfolding holds_def by (metis option.inject subsetD)
    with a jv(1) [OF a(3) that(1)] show "\<exists>i. lookup h x s8 = Some i \<and> v t i = VInt (\<sigma> x)" by simp
  qed
  show "holds v t h E' s8 \<sigma>" if "\<not> active g v t c1" "holds v t h Ee s6 \<sigma>"
    unfolding holds_def
  proof
    fix x assume x: "x \<in> dom E'"
    from bound [OF x] obtain a b' i where a: "lookup h x s6 = Some b'" "lookup h x s8 = Some i" "joined r a (Some b') s8 i" by blast
    have "v t b' = VInt (\<sigma> x)" using that(2) x E'(2) a(1) unfolding holds_def by (metis option.inject subsetD)
    with a jv(2) [OF a(3) that(1)] show "\<exists>i. lookup h x s8 = Some i \<and> v t i = VInt (\<sigma> x)" by simp
  qed
qed

text \<open>The paths through an \<open>if\<close> whose node is the first one added since \<open>s\<close>.\<close>

lemma opened_paths:
  assumes o: "opened c s s3" and b: "begun s3 g"
  shows "active g v t (lw_ctrl s3) \<longleftrightarrow> active g v t (lw_ctrl s) \<and> v t c \<noteq> VInt 0"
    and "active g v t (lw_len s + 2) \<longleftrightarrow> active g v t (lw_ctrl s) \<and> v t c = VInt 0"
proof -
  let ?n = "lw_len s"
  have n3: "g_nodes (lw_graph s3) = g_nodes (lw_graph s) @ [plain_node NK_If 0 [lw_ctrl s, c], plain_node NK_Proj 0 [?n], plain_node NK_Proj 1 [?n]]"
    and f3: "lw_ctrl s3 = ?n + 1" using o by (simp_all add: opened_def Let_def)
  have g: "?n + 2 < length (g_nodes g)" "node_at g ?n = plain_node NK_If 0 [lw_ctrl s, c]"
    "node_at g (?n + 1) = plain_node NK_Proj 0 [?n]" "node_at g (?n + 2) = plain_node NK_Proj 1 [?n]"
    using begun_node [OF b, of ?n] begun_node [OF b, of "?n + 1"] begun_node [OF b, of "?n + 2"] n3 by (simp_all add: nth_append)
  have "active g v t ?n \<longleftrightarrow> active g v t (lw_ctrl s)" using active_cases(1) [OF _ g(2)] g(1) by simp
  then show "active g v t (lw_ctrl s3) \<longleftrightarrow> active g v t (lw_ctrl s) \<and> v t c \<noteq> VInt 0"
    "active g v t (?n + 2) \<longleftrightarrow> active g v t (lw_ctrl s) \<and> v t c = VInt 0"
    using active_cases(4) [OF _ g(3,2), of v t] active_cases(4) [OF _ g(4,2), of v t] g(1) f3 by simp_all
qed

lemma ran_if:
  assumes R: "runs_in F sel g v t" and o: "opened c s s3" and r1: "ran g v t h E Et f1 s3 s4"
    and s5: "lw_hc s5 = lw_hc s4" "lw_ctrl s5 = lw_len s + 2" "lw_eff s5 = lw_eff s" "\<And>y. lookup h y s5 = lookup h y s"
    and r2: "ran g v t h E Ee f2 s5 s6"
    and s7: "s7 = set_flow (lw_len s6) (if lw_eff s4 \<noteq> kInvalidNodeId then lw_eff s4 else lw_eff s6)
      (append_node (plain_node NK_Region 0 [lw_ctrl s4, lw_ctrl s6]) s6)"
    and s8: "same_flow s7 s8" "pads s6 s8" "appends s7 s8" "merged_into h (lw_len s6) xs ys s7 s8"
    and xs: "map_of xs = (\<lambda>y. lookup h y s4)" and ys: "map_of ys = (\<lambda>y. lookup h y s6)"
    and E': "spost True h False E' s s8" "dom E' \<subseteq> dom Et" "dom E' \<subseteq> dom Ee"
  shows "ran g v t h E E' (\<lambda>\<sigma>. if v t c = VInt 0 then f2 \<sigma> else f1 \<sigma>) s s8"
proof -
  let ?r = "lw_len s6"
  have f3: "lw_eff s3 = lw_eff s" "lw_bindings s3 = lw_bindings s" "pads s s3" using o by (simp_all add: opened_def Let_def pads_def)
  note p1 = ran_spost [OF r1] and p2 = ran_spost [OF r2]
  have h3: "holds v t h E s3 \<sigma> = holds v t h E s \<sigma>" "holds v t h E s5 \<sigma> = holds v t h E s \<sigma>" for \<sigma>
    using f3(2) s5(4) by (simp_all add: holds_def lookup_def)
  have a46: "appends s4 s6" using p2 s5(1) by (simp add: appends_def)
  note a = pads_appends [OF f3(3)] conjunct2 [OF p1] a46 pads_appends [OF s8(2)]
  have a48: "appends s4 s8" by (rule appends_trans [OF a(3,4)])
  have a38: "appends s3 s8" by (rule appends_trans [OF a(2) a48])
  have app: "appends s s8" by (rule appends_trans [OF a(1) a38])
  have names: "dom Et \<subseteq> names h s4" "dom Ee \<subseteq> names h s6" using p1 p2 by (simp_all add: spost_def)
  have flow: "lw_ctrl s8 = ?r" "lw_eff s8 = (if lw_eff s4 \<noteq> kInvalidNodeId then lw_eff s4 else lw_eff s6)"
    using s8(1) by (simp_all add: same_flow_def s7)
  show ?thesis
  proof (cases "begun s8 g")
    case False
    with E'(1) app show ?thesis by (simp add: ran_def)
  next
    case b8: True
    note b6 = begun_appends [OF a(4) b8] and b4 = begun_appends [OF a48 b8] and b3 = begun_appends [OF a38 b8]
      and b7 = begun_appends [OF s8(3) b8]
    have r: "?r < length (g_nodes g)" "node_at g ?r = plain_node NK_Region 0 [lw_ctrl s4, lw_ctrl s6]"
      using begun_node [OF b7, of ?r] by (simp_all add: s7 nth_append)
    note paths = opened_paths [OF o b3, of v t, folded s5(2)]
    have act: "active g v t ?r \<longleftrightarrow> active g v t (lw_ctrl s4) \<or> active g v t (lw_ctrl s6)" using active_cases(3) [OF r] by simp
    have rets: "rets g v t s s8 = rets g v t s3 s4 \<union> rets g v t s5 s6"
      using rets_join [OF a(1) a38, of g v t] rets_join [OF a(2) a48, of g v t] rets_join [OF a(3,4), of g v t]
        pads_rets [OF f3(3) b3, of v t] pads_rets [OF s8(2) b8, of v t] rets_same(2) [OF s5(1), of g v t s6] by simp
    note mh = merged_holds [OF R b8 r _ s8(4) xs ys E'(2,3) names]
    note off1 = ran_off [OF r1 b4] and off2 = ran_off [OF r2 b6]
    show ?thesis
    proof (rule ranI [OF E'(1) app])
      show "\<not> active g v t (lw_ctrl s8) \<and> rets g v t s s8 = {}" if "\<not> active g v t (lw_ctrl s)"
        using that off1 off2 act rets flow(1) paths by simp
      fix \<sigma> out assume a: "active g v t (lw_ctrl s)" "lw_eff s \<noteq> kInvalidNodeId" "holds v t h E s \<sigma>"
        and out: "(if v t c = VInt 0 then f2 \<sigma> else f1 \<sigma>) = Some out"
      show "ended g v t h E' s s8 out"
      proof (cases "v t c = VInt 0")
        case False
        then have o1: "\<not> active g v t (lw_ctrl s6)" "rets g v t s5 s6 = {}" using off2 paths by simp_all
        have "ended g v t h Et s3 s4 out"
          by (rule ran_on [OF r1 b4]) (use a False paths f3(1) h3 out in simp_all)
        with o1 rets act flow mh(1) show ?thesis by (auto simp: ended_def split: outcome.splits)
      next
        case True
        then have o1: "\<not> active g v t (lw_ctrl s4)" "rets g v t s3 s4 = {}" using off1 paths by simp_all
        have "ended g v t h Ee s5 s6 out"
          by (rule ran_on [OF r2 b6]) (use a True paths s5(3) h3 out in simp_all)
        with o1 rets act flow mh(2) show ?thesis by (auto simp: ended_def split: outcome.splits)
      qed
    qed
  qed
qed

lemma pads_join: "pads_lm (join_branches h c e xs)"
  unfolding join_branches_def
  by (intro pads_lm_bind pads_lm_state pads_lm_lmod pads_merge pads_makers grows_split) (auto intro!: pads_lm_bind pads_lm_state pads_lm_lmod pads_merge pads_makers)

lemma sem_if:
  assumes R: "runs_in F sel g v t" and inv: "linv True h s" and c: "value_node s c" and E: "dom E \<subseteq> names h s"
    and gr: "grows_lm m1" "grows_lm m2"
    and m1: "\<And>s R. linv True h s \<Longrightarrow> dom E \<subseteq> names h s \<Longrightarrow> (\<And>b s'. ran g v t h E Et f1 s s' \<Longrightarrow> R b s') \<Longrightarrow> wl m1 R s"
    and m2: "\<And>s R. linv True h s \<Longrightarrow> dom E \<subseteq> names h s \<Longrightarrow> (\<And>b s'. ran g v t h E Ee f2 s s' \<Longrightarrow> R b s') \<Longrightarrow> wl m2 R s"
    and E': "dom E' \<subseteq> dom Et" "dom E' \<subseteq> dom Ee"
    and Q: "\<And>s'. ran g v t h E E' (\<lambda>\<sigma>. if v t c = VInt 0 then f2 \<sigma> else f1 \<sigma>) s s' \<Longrightarrow> Q True s'"
  shows "wl (lower_if h c m1 m2) Q s"
proof (rule wl_if_start [OF inv c gr])
  fix s3 assume o: "opened c s s3" and s3: "linv True h s3" "lstep h s s3"
  have b3: "lw_bindings s3 = lw_bindings s" using o by (simp add: opened_def Let_def)
  then have n3: "names h s3 = names h s" by (simp add: names_def lookup_def)
  have t: "st_ok h (lw_bindings s)" "\<And>x i. st_get h (lw_bindings s) x = Some i \<Longrightarrow> value_node s i"
    using inv by (simp_all add: linv_def lookup_def)
  show "wl m1 (\<lambda>_. wl (lower_else h m2 (lw_len s + 2) (lw_eff s) (snapshot (lw_bindings s))) Q) s3"
  proof (rule m1 [OF s3(1)])
    show "dom E \<subseteq> names h s3" using E n3 by simp
    fix b s4 assume r1: "ran g v t h E Et f1 s3 s4"
    then have s4: "linv True h s4" "lstep h s3 s4" "lstep h s s4" "names h s \<subseteq> names h s4"
      using ran_spost [OF r1] s3(2) n3 lstep_trans by (auto simp: spost_def)
    have t4: "st_ok h (lw_bindings s4)" "\<And>x i. st_get h (lw_bindings s4) x = Some i \<Longrightarrow> value_node s4 i"
      using s4(1) by (simp_all add: linv_def lookup_def)
    show "wl (lower_else h m2 (lw_len s + 2) (lw_eff s) (snapshot (lw_bindings s))) Q s4"
    proof (rule wl_else_start [OF s4(1) t(1) _ _ _ gr(2)])
      show "st_get h (lw_bindings s) x = Some i \<Longrightarrow> value_node s4 i" for x i by (rule value_node_step [OF t(2) s4(3)])
      show "id_ok (lw_graph s4) (lw_len s + 2)" using o s4(2) by (auto simp: opened_def Let_def id_ok_def lstep_def)
      show "id_ok (lw_graph s4) (lw_eff s)" using linv_ids [OF inv] id_ok_step [OF _ s4(3)] by simp
      fix s5 assume s5: "linv True h s5" "lstep h s4 s5" "lw_hc s5 = lw_hc s4" "lw_ctrl s5 = lw_len s + 2" "lw_eff s5 = lw_eff s"
        "\<And>y. lookup h y s5 = st_get h (lw_bindings s) y"
      then have l5: "\<And>y. lookup h y s5 = lookup h y s" "names h s5 = names h s" by (auto simp: names_def lookup_def)
      show "wl m2 (\<lambda>_. wl (join_branches h (lw_ctrl s4) (lw_eff s4) (snapshot (lw_bindings s4))) Q) s5"
      proof (rule m2 [OF s5(1)])
        show "dom E \<subseteq> names h s5" using E l5 by simp
        fix b s6 assume r2: "ran g v t h E Ee f2 s5 s6"
        then have s6: "linv True h s6" "lstep h s4 s6" "names h s \<subseteq> names h s6" "dom Ee \<subseteq> names h s6"
          using ran_spost [OF r2] s5(2) l5(2) lstep_trans by (auto simp: spost_def)
        have t6: "st_ok h (lw_bindings s6)" using s6(1) by (simp add: linv_def)
        show "wl (join_branches h (lw_ctrl s4) (lw_eff s4) (snapshot (lw_bindings s4))) Q s6"
        proof (rule wl_pads [OF pads_join], rule wl_join [OF s6(1) t4(1)], rule_tac [4] impI)
          show "st_get h (lw_bindings s4) x = Some i \<Longrightarrow> value_node s6 i" for x i by (rule value_node_step [OF t4(2) s6(2)])
          show "id_ok (lw_graph s6) (lw_ctrl s4)" "id_ok (lw_graph s6) (lw_eff s4)"
            using linv_ids [OF s4(1)] id_ok_step [OF _ s6(2)] by simp_all
          fix s7 s8 assume s7: "s7 = set_flow (lw_len s6) (if lw_eff s4 \<noteq> kInvalidNodeId then lw_eff s4 else lw_eff s6)
              (append_node (plain_node NK_Region 0 [lw_ctrl s4, lw_ctrl s6]) s6)"
            and s8: "linv True h s8" "lstep h s6 s8" "same_flow s7 s8" "appends s7 s8"
              "merged_into h (lw_len s6) (snapshot (lw_bindings s4)) (snapshot (lw_bindings s6)) s7 s8" and p: "pads s6 s8"
          note maps = snapshot_spec(2) [OF t4(1)] snapshot_spec(2) [OF t6]
          have l7: "lookup h y s7 = lookup h y s6" for y using s7 by simp
          have "names h s6 \<subseteq> names h s8" using merged_lookup [OF s8(5)] l7 by (auto simp: names_def)
          then have "spost True h False E' s s8"
            using s8(1,2) s4(3) s6 E'(2) lstep_trans unfolding spost_def by blast
          then show "Q True s8"
            by (intro Q ran_if [OF R o r1 s5(3,4,5) l5(1) r2 s7 s8(3) p s8(4,5) _ _ _ E']) (simp_all add: maps lookup_def)
        qed
      qed
    qed
  qed
qed

lemma ok_mono:
  "expr_ok ar E n E' \<Longrightarrow> dom E \<subseteq> dom E'" "stmt_ok ar E n E' \<Longrightarrow> dom E \<subseteq> dom E'"
  "exprs_ok ar E ns E' \<Longrightarrow> dom E \<subseteq> dom E'" "stmts_ok ar E ns E' \<Longrightarrow> dom E \<subseteq> dom E'"
  by (induction rule: expr_ok_stmt_ok_exprs_ok_stmts_ok.inducts) (auto simp: merge_env_def)

lemma dom_merge_both: "dom E \<subseteq> dom Et \<Longrightarrow> dom E \<subseteq> dom Ee \<Longrightarrow> dom (merge_env E Et Ee) \<subseteq> dom Et"
  "dom E \<subseteq> dom Et \<Longrightarrow> dom E \<subseteq> dom Ee \<Longrightarrow> dom (merge_env E Et Ee) \<subseteq> dom Ee"
  by (auto simp: merge_env_def dom_def split: if_splits)

lemma ran_cong: "ran g v t h E E' f s s' \<Longrightarrow> f = f' \<Longrightarrow> ran g v t h E E' f' s s'"
  by simp

text \<open>A statement that evaluates \<open>e\<close> and goes on with its value.\<close>

lemma sem_after:
  assumes R: "runs_in F sel g v t" and e: "simple_expr e" "expr_ok ar E e E1" and inv: "linv True h s" "dom E \<subseteq> names h s"
    and k: "\<And>i s1. xpost g v t h E e s i s1 \<Longrightarrow> linv True h s1 \<Longrightarrow> value_node s1 i \<Longrightarrow> dom E \<subseteq> names h s1 \<Longrightarrow>
      wl (k i) (\<lambda>b s2. ran g v t h E E' (f (v t i)) s1 s2) s1"
    and gr: "\<And>i. grows_lm (k i)"
    and r: "\<And>\<sigma>. r \<sigma> = (case eval \<sigma> e of None \<Rightarrow> None | Some (w, \<sigma>1) \<Rightarrow> f (VInt w) \<sigma>1)"
    and Q: "\<And>b s'. ran g v t h E E' r s s' \<Longrightarrow> Q b s'"
  shows "wl (lbind (lower_expr h e) k) Q s"
proof (rule wl_bindE [OF _ gr], rule wl_pads [OF pads_expr [OF e(1)]], rule lowersD [OF sem_expr [OF R e inv]], rule impI)
  fix i s1 assume x: "xpost g v t h E e s i s1" and p: "pads s s1"
  then have s1: "linv True h s1" "value_node s1 i" "dom E \<subseteq> names h s1" using inv(2) by (auto simp: xpost_def epost_def)
  show "wl (k i) Q s1"
  proof (rule wl_mono [OF k [OF x s1]])
    fix b s2 assume "ran g v t h E E' (f (v t i)) s1 s2"
    from ran_after [where f = f, OF x p this] have "ran g v t h E E' r s s2" by (rule ran_cong) (rule ext, simp add: r)
    then show "Q b s2" by (rule Q)
  qed
qed

lemma ran_refl: "linv True h s \<Longrightarrow> dom E \<subseteq> names h s \<Longrightarrow> ran g v t h E E (\<lambda>\<sigma>. Some (Running \<sigma>)) s s"
  by (rule ran_pads) (auto simp: spost_def pads_def)

lemma sem_expr_stmt:
  assumes R: "runs_in F sel g v t" and e: "simple_expr e" "expr_ok ar E e E'" and inv: "linv True h s" "dom E \<subseteq> names h s"
    and r: "\<And>\<sigma>. r \<sigma> = map_option (\<lambda>(w, \<sigma>1). Running \<sigma>1) (eval \<sigma> e)"
    and Q: "\<And>b s'. ran g v t h E E' r s s' \<Longrightarrow> Q b s'"
  shows "wl (lbind (lower_expr h e) (\<lambda>_. lret True)) Q s"
proof -
  have "E' = E" using simple_plain_expr [OF e(1)] e(2) by (rule plain_expr_env)
  then show ?thesis
    by (intro sem_after [where f = "\<lambda>x \<sigma>. Some (Running \<sigma>)" and r = r and E' = E', OF R e inv _ _ _ Q])
      (auto simp: r grows_all intro: ran_refl split: option.split)
qed

lemma wl_swallow_bind: "wl (lbind m (\<lambda>_. lret True)) Q s \<Longrightarrow> wl (swallow m) Q s"
  unfolding wl_def swallow_def lbind_def lret_def by (fastforce split: option.splits sum.splits)

lemma sem_stray:
  assumes R: "runs_in F sel g v t" and n: "simple_stmt n" "stmt_ok ar E n E'" and inv: "linv True h s" "dom E \<subseteq> names h s"
    and Q: "\<And>b s'. ran g v t h E E' (\<lambda>\<sigma>. run \<sigma> n) s s' \<Longrightarrow> Q b s'"
    and other: "\<not> is_statement n" "\<forall>ss. n \<noteq> Block ss" "\<forall>k a e. n \<noteq> AssignExpr k a e"
  shows "wl (lower_stmt h n) Q s"
proof -
  have l: "lower_stmt h n = swallow (lower_expr h n)" using other by (cases n) (simp_all add: is_statement_def)
  have r: "run \<sigma> n = map_option (\<lambda>(w, \<sigma>1). Running \<sigma>1) (eval \<sigma> n)" for \<sigma>
    using other by (cases n) (simp_all add: is_statement_def)
  have e: "simple_expr n" using n(1) other by (cases n) (simp_all add: is_statement_def)
  have "expr_ok ar E n E'" using n(2) stmt_ok_expr [OF other(1,2)] by simp
  then show ?thesis unfolding l
    by (intro wl_swallow_bind sem_expr_stmt [where r = "\<lambda>\<sigma>. run \<sigma> n", OF R e _ inv r Q])
qed

text \<open>A missing initialiser or return value is the literal 0.\<close>

abbreviation or_zero :: "ast option \<Rightarrow> ast" where
  "or_zero e \<equiv> (case e of None \<Rightarrow> IntLit 0 | Some n \<Rightarrow> n)"

lemma lower_or_zero: "(case e of Some n \<Rightarrow> lower_expr h n | None \<Rightarrow> build (make_constant_i64 0 kInvalidTypeId)) = lower_expr h (or_zero e)"
  by (simp split: option.split)

lemma sem_let_stmt:
  assumes R: "runs_in F sel g v t" and n: "simple_stmt (LetStmt x ty ini m)" "stmt_ok ar E (LetStmt x ty ini m) E'"
    and inv: "linv True h s" "dom E \<subseteq> names h s"
    and Q: "\<And>b s'. ran g v t h E E' (\<lambda>\<sigma>. run \<sigma> (LetStmt x ty ini m)) s s' \<Longrightarrow> Q b s'"
  shows "wl (lower_stmt h (LetStmt x ty ini m)) Q s"
proof -
  obtain E1 where e: "simple_expr (or_zero ini)" "expr_ok ar E (or_zero ini) E1" "E' = E1(x \<mapsto> m)"
    using n by (cases ini) (auto simp: stmt_ok_eqs expr_ok_eqs is_literal_def)
  have "E1 = E" using simple_plain_expr [OF e(1)] e(2) by (rule plain_expr_env)
  show ?thesis unfolding lower_stmt.simps lower_or_zero
  proof (rule sem_after [where f = "\<lambda>y \<sigma>. for_int y (\<lambda>w. Some (Running (\<sigma>(x := w))))", OF R e(1,2) inv _ _ _ Q])
    fix i s1 assume "linv True h s1" "value_node s1 i" "dom E \<subseteq> names h s1"
    then show "wl (lbind (bind_name h x i) (\<lambda>_. lret True))
        (\<lambda>b s2. ran g v t h E E' (\<lambda>\<sigma>. for_int (v t i) (\<lambda>w. Some (Running (\<sigma>(x := w))))) s1 s2) s1"
      by (rule sem_let) (auto simp: e(3) \<open>E1 = E\<close>)
  qed (auto simp: grows_all split: option.split)
qed

lemma sem_return_stmt:
  assumes R: "runs_in F sel g v t" and n: "simple_stmt (ReturnStmt r)" "stmt_ok ar E (ReturnStmt r) E'"
    and inv: "linv True h s" "dom E \<subseteq> names h s"
    and Q: "\<And>b s'. ran g v t h E E' (\<lambda>\<sigma>. run \<sigma> (ReturnStmt r)) s s' \<Longrightarrow> Q b s'"
  shows "wl (lower_stmt h (ReturnStmt r)) Q s"
proof -
  have e: "simple_expr (or_zero r)" "expr_ok ar E (or_zero r) E'"
    using n by (cases r; auto simp: stmt_ok_eqs expr_ok_eqs is_literal_def)+
  have E': "E' = E" using simple_plain_expr [OF e(1)] e(2) by (rule plain_expr_env)
  show ?thesis unfolding lower_stmt.simps lower_or_zero
  proof (rule sem_after [where f = "\<lambda>y \<sigma>. for_int y (\<lambda>w. Some (Returned w))", OF R e inv _ _ _ Q])
    fix i s1 assume "linv True h s1" "value_node s1 i" "dom E \<subseteq> names h s1"
    then show "wl (lower_return i) (\<lambda>b s2. ran g v t h E E' (\<lambda>\<sigma>. for_int (v t i) (\<lambda>w. Some (Returned w))) s1 s2) s1"
      unfolding E' by (rule sem_return [OF _ _ _ R])
  qed (auto simp: grows_return split: option.split)
qed

lemma sem_assign_stmt:
  assumes R: "runs_in F sel g v t" and n: "simple_expr e" "stmt_ok ar E (AssignExpr k a e) E'" and inv: "linv True h s" "dom E \<subseteq> names h s"
    and Q: "\<And>b s'. ran g v t h E E' (\<lambda>\<sigma>. run \<sigma> (AssignExpr k a e)) s s' \<Longrightarrow> Q b s'"
  shows "wl (lower_stmt h (AssignExpr k a e)) Q s"
proof -
  from n(2) obtain x where a: "a = Ident x" "x \<in> dom E'" and e: "expr_ok ar E e E'"
    by (cases a) (auto simp: stmt_ok_expr is_statement_def expr_ok_eqs)
  have E': "E' = E" using simple_plain_expr [OF n(1)] e by (rule plain_expr_env)
  note ax = a [unfolded E'] and e = e [unfolded E']
  show ?thesis unfolding lower_stmt.simps ax(1)
  proof (rule sem_after [where f = "\<lambda>y \<sigma>. for_int y (\<lambda>c. map_option (\<lambda>w. Running (\<sigma>(x := w))) (assign_sem k (\<sigma> x) c))", OF R n(1) e inv _ _ _ Q])
    fix i s1 assume s1: "linv True h s1" "value_node s1 i" "dom E \<subseteq> names h s1"
    show "wl (lbind (assign_name h compound_kind k (Ident x) i) (\<lambda>_. lret True))
        (\<lambda>b s2. ran g v t h E E' (\<lambda>\<sigma>. for_int (v t i) (\<lambda>c. map_option (\<lambda>w. Running (\<sigma>(x := w))) (assign_sem k (\<sigma> x) c))) s1 s2) s1"
      unfolding E' by (rule sem_assigned [OF R s1 ax(2)])
  qed (auto simp: ax(1) grows_all map_option_case option.case_distrib split: option.split)
qed

text \<open>\<open>performs E n E' s\<close>: lowering the statement \<open>n\<close> from \<open>s\<close> leads to \<open>ran\<close>.\<close>

definition performs :: "graph \<Rightarrow> 'e valuation \<Rightarrow> nat \<Rightarrow> (symbol_id \<Rightarrow> 64 word) \<Rightarrow> env \<Rightarrow> ast \<Rightarrow> env \<Rightarrow> lowerer \<Rightarrow> bool" where
  "performs g v t h E n E' s \<longleftrightarrow> wl (lower_stmt h n) (\<lambda>b s'. ran g v t h E E' (\<lambda>\<sigma>. run \<sigma> n) s s') s"

lemma performsD: "performs g v t h E n E' s \<Longrightarrow> (\<And>b s'. ran g v t h E E' (\<lambda>\<sigma>. run \<sigma> n) s s' \<Longrightarrow> Q b s') \<Longrightarrow> wl (lower_stmt h n) Q s"
  unfolding performs_def by (rule wl_mono)

lemma sem_if_stmt:
  assumes R: "runs_in F sel g v t" and c: "simple_expr c" "expr_ok ar E c E" and inv: "linv True h s" "dom E \<subseteq> names h s"
    and th: "\<And>s. linv True h s \<Longrightarrow> dom E \<subseteq> names h s \<Longrightarrow> performs g v t h E th Et s" and Et: "dom E \<subseteq> dom Et"
    and el: "case el of None \<Rightarrow> Ee = E | Some b \<Rightarrow> \<forall>s. linv True h s \<longrightarrow> dom E \<subseteq> names h s \<longrightarrow> performs g v t h E b Ee s" "dom E \<subseteq> dom Ee"
  shows "performs g v t h E (IfStmt c th el) (merge_env E Et Ee) s"
proof -
  let ?E' = "merge_env E Et Ee"
  let ?m2 = "case el of None \<Rightarrow> lret True | Some b \<Rightarrow> lower_stmt h b"
  let ?f2 = "\<lambda>\<sigma>. case el of None \<Rightarrow> Some (Running \<sigma>) | Some b \<Rightarrow> run \<sigma> b"
  show ?thesis unfolding performs_def lower_stmt.simps
  proof (rule sem_after [where f = "\<lambda>y \<sigma>. if y = VInt 0 then ?f2 \<sigma> else run \<sigma> th" and E' = ?E', OF R c inv])
    fix i s1 assume s1: "linv True h s1" "value_node s1 i" "dom E \<subseteq> names h s1"
    show "wl (lower_if h i (lower_stmt h th) ?m2) (\<lambda>b s2. ran g v t h E ?E' (\<lambda>\<sigma>. if v t i = VInt 0 then ?f2 \<sigma> else run \<sigma> th) s1 s2) s1"
    proof (rule sem_if [OF R s1])
      show "wl (lower_stmt h th) K s2" if "linv True h s2" "dom E \<subseteq> names h s2"
        "\<And>b s'. ran g v t h E Et (\<lambda>\<sigma>. run \<sigma> th) s2 s' \<Longrightarrow> K b s'" for s2 K
        by (rule performsD [OF th [OF that(1,2)]]) (rule that(3))
      show "wl ?m2 K s2" if s2: "linv True h s2" "dom E \<subseteq> names h s2" "\<And>b s'. ran g v t h E Ee ?f2 s2 s' \<Longrightarrow> K b s'" for s2 K
      proof (cases el)
        case None
        with s2(3) el(1) ran_refl [OF s2(1,2), of g v t] show ?thesis by simp
      next
        case (Some b)
        with el(1) s2(1,2) have "performs g v t h E b Ee s2" by simp
        then have "wl (lower_stmt h b) K s2" by (rule performsD) (rule s2(3), simp add: Some)
        with Some show ?thesis by simp
      qed
      show "dom ?E' \<subseteq> dom Et" "dom ?E' \<subseteq> dom Ee" by (rule dom_merge_both [OF Et el(2)])+
    qed (auto intro!: grows_lower grows_all split: option.split)
  qed (auto intro!: grows_if grows_lower grows_all split: option.split)
qed

lemma sem_stmts:
  assumes each: "\<And>x E E' s. x \<in> set ss \<Longrightarrow> stmt_ok ar E x E' \<Longrightarrow> linv True h s \<Longrightarrow> dom E \<subseteq> names h s \<Longrightarrow> performs g v t h E x E' s"
  shows "stmts_ok ar E ss E' \<Longrightarrow> linv True h s \<Longrightarrow> dom E \<subseteq> names h s \<Longrightarrow> performs g v t h E (Block ss) E' s"
  using each
proof (induction ss arbitrary: E s)
  case Nil
  from Nil ran_refl [OF Nil(2,3), of g v t] show ?case by (simp add: performs_def stmt_ok_eqs)
next
  case (Cons x xs)
  from Cons.prems(1) obtain E1 where x: "stmt_ok ar E x E1" "stmts_ok ar E1 xs E'" by (auto simp: stmt_ok_eqs)
  have "performs g v t h E x E1 s" by (rule Cons.prems(4) [OF _ x(1) Cons.prems(2,3)]) simp
  then show ?case unfolding performs_def lower_stmt.simps lower_stmts.simps
  proof (rule wl_bindE [OF performsD, unfolded performs_def])
    fix b s1 assume r1: "ran g v t h E E1 (\<lambda>\<sigma>. run \<sigma> x) s s1"
    then have s1: "linv True h s1" "dom E1 \<subseteq> names h s1" using ran_spost [OF r1] by (simp_all add: spost_def)
    have "performs g v t h E1 (Block xs) E' s1" by (rule Cons.IH [OF x(2) s1]) (rule Cons.prems(4), simp_all)
    then have "wl (lower_stmts h xs) (\<lambda>b s'. ran g v t h E1 E' (\<lambda>\<sigma>. run \<sigma> (Block xs)) s1 s') s1" by (simp add: performs_def)
    then show "wl (lower_stmts h xs) (\<lambda>b s'. ran g v t h E E' (\<lambda>\<sigma>. run \<sigma> (Block (x # xs))) s s') s1"
      by (rule wl_mono) (use ran_seq [OF r1] in simp)
  qed (rule grows_lower)
qed

lemma sem_stmt:
  assumes R: "runs_in F sel g v t"
  shows "simple_stmt n \<Longrightarrow> stmt_ok ar E n E' \<Longrightarrow> linv True h s \<Longrightarrow> dom E \<subseteq> names h s \<Longrightarrow> performs g v t h E n E' s"
proof (induction n arbitrary: E E' s rule: simple_stmt.induct)
  case (1 x ty ini m)
  then show ?case unfolding performs_def by (rule sem_let_stmt [OF R])
next
  case (2 e)
  show ?case unfolding performs_def lower_stmt.simps
    by (rule sem_expr_stmt [where r = "\<lambda>\<sigma>. run \<sigma> (ExprStmt e)", OF R _ _ 2(3,4)]) (use 2(1,2) in \<open>auto simp: stmt_ok_eqs\<close>)
next
  case (3 r)
  then show ?case unfolding performs_def by (rule sem_return_stmt [OF R])
next
  case (4 c th e)
  obtain Et Ee where c: "simple_expr c" "expr_ok ar E c E" and th: "simple_stmt th" "stmt_ok ar E th Et"
    and e: "case e of Some b \<Rightarrow> simple_stmt b \<and> stmt_ok ar E b Ee | None \<Rightarrow> Ee = E" and E': "E' = merge_env E Et Ee"
    using "4.prems"(1,2) plain_expr_env [OF simple_plain_expr] by (cases e) (auto simp: stmt_ok_eqs, blast+)
  have m: "dom E \<subseteq> dom Ee" using e by (auto dest!: ok_mono(2) split: option.splits)
  show ?case unfolding E'
    by (rule sem_if_stmt [OF R c "4.prems"(3,4) "4.IH"(1) [OF th] ok_mono(2) [OF th(2)] _ m])
      (use e "4.IH"(2) in \<open>auto split: option.splits\<close>)
next
  case (5 ss)
  then show ?case by (intro sem_stmts [of ss ar]) (auto simp: stmt_ok_eqs list_all_iff)
next
  case (6 k a e)
  from 6(1) have "simple_expr e" by simp
  from this 6(2-4) show ?case unfolding performs_def by (rule sem_assign_stmt [OF R])
qed ((unfold performs_def, rule sem_stray [OF R], assumption, assumption, assumption, assumption, assumption, simp add: is_statement_def, simp, simp; fail) | simp)+

subsection \<open>Functions\<close>

text \<open>
  \<open>executes F sel g v t args\<close>: \<open>v\<close> is an execution of \<open>g\<close> along the path of step \<open>t\<close> in which
  the parameters (the nodes from 3 on) have the values \<open>args\<close>. \<open>returned g v t\<close>: the values of
  the returns control reaches.
\<close>

definition executes :: "'e kind_fun \<Rightarrow> selector \<Rightarrow> graph \<Rightarrow> 'e valuation \<Rightarrow> nat \<Rightarrow> i64 list \<Rightarrow> bool" where
  "executes F sel g v t args \<longleftrightarrow> exec F sel g v \<and> follows sel g v t \<and> (\<forall>j < length args. v t (3 + j) = VInt (args ! j))"

definition returned :: "graph \<Rightarrow> 'e valuation \<Rightarrow> nat \<Rightarrow> 'e val set" where
  "returned g v t = {v t (n_inputs (node_at g i) ! 2) | i. n_kind (node_at g i) = NK_Return \<and> active g v t i}"

lemma sem_finish:
  assumes R: "runs_in F sel g v t" and inv: "linv True h s"
    and Q: "\<And>s'. linv True h s' \<Longrightarrow> appends s s' \<Longrightarrow>
      (begun s' g \<Longrightarrow> \<not> active g v t (lw_ctrl s) \<Longrightarrow> rets g v t s s' = {}) \<Longrightarrow>
      (begun s' g \<Longrightarrow> active g v t (lw_ctrl s) \<Longrightarrow> lw_eff s \<noteq> kInvalidNodeId \<Longrightarrow>
        rets g v t s s' \<noteq> {} \<and> (\<forall>i \<in> rets g v t s s'. v t (n_inputs (node_at g i) ! 2) = VInt 0)) \<Longrightarrow> Q True s'"
  shows "wl finish_fn Q s"
proof -
  have "length (g_nodes g) < kInvalidNodeId" using R by (simp add: runs_in_def kInvalidNodeId_def)
  then have off: "\<not> active g v t kInvalidNodeId" using active_less by fastforce
  show ?thesis
  proof (cases "lw_ctrl s \<noteq> kInvalidNodeId \<and> lw_eff s \<noteq> kInvalidNodeId")
    case False
    then have "finish_fn s = lret True s" by (auto simp: finish_fn_def lbind_def lget_def)
    moreover have "Q True s" by (rule Q [OF inv]) (use False off in \<open>auto simp: rets_def\<close>)
    ultimately show ?thesis by (auto simp: wl_def lret_def)
  next
    case True
    have "wl (lbind (build (make_constant_i64 0 kInvalidTypeId)) (\<lambda>zero. lbind (build (make_return (lw_ctrl s) (lw_eff s) zero)) (\<lambda>_. lret True))) Q s"
    proof (rule wl_bindE, rule wl_news(2) [OF inv])
      fix s1 assume s1: "s1 = append_node (plain_node NK_Constant 0 []) s" "linv True h s1" "lstep h s s1"
      show "wl (lbind (build (make_return (lw_ctrl s) (lw_eff s) (lw_len s))) (\<lambda>_. lret True)) Q s1"
      proof (rule wl_bindE, rule wl_news(11) [OF s1(2)])
        let ?n = "plain_node NK_Return 0 [lw_ctrl s, lw_eff s, lw_len s]"
        show "new_ok True s1 ?n" using linv_ids [OF inv] id_ok_step [OF _ s1(3)] by (auto simp: new_ok_def node_is_pure_def id_ok_def s1(1))
        fix s2 assume s2: "s2 = append_node ?n s1" "linv True h s2"
        have g: "node_at g (lw_len s) = plain_node NK_Constant 0 []" "node_at g (Suc (lw_len s)) = ?n" "Suc (lw_len s) < length (g_nodes g)"
          if "begun s2 g" using that by (auto simp: begun_def s1(1) s2(1) nth_append)
        have r: "rets g v t s s2 = (if active g v t (lw_ctrl s) then {Suc (lw_len s)} else {})" if "begun s2 g"
          using active_cases(2) [OF g(3) [OF that] g(2) [OF that]] g(1,2) [OF that]
          by (auto simp: rets_def s1(1) s2(1) less_Suc_eq)
        have z: "v t (lw_len s) = VInt 0" if "begun s2 g"
          using run_node [OF R, of "lw_len s"] g [OF that] by (simp add: node_ok_def free_kinds_def)
        have "Q True s2" by (rule Q [OF s2(2)]) (use r z g(2) in \<open>simp_all add: appends_def s1(1) s2(1)\<close>)
        then show "wl (lret True) Q s2" by simp
      qed (intro grows_all)
    qed (simp add: new_ok_def node_is_pure_def, intro grows_all)
    with True show ?thesis by (simp add: finish_fn_def)
  qed
qed

text \<open>The state of the names when the body is entered.\<close>

lemma entered_holds:
  assumes e: "entered s fn h s2" and d: "distinct (map fp_name (fd_params fn))" and len: "lw_len s = 1" "length args = length (fd_params fn)"
    and args: "\<forall>j < length args. v t (3 + j) = VInt (args ! j)"
  shows "holds v t h (params_env (fd_params fn) Map.empty) s2
    (\<lambda>x. case map_of (zip (map fp_name (fd_params fn)) args) x of Some w \<Rightarrow> w | None \<Rightarrow> 0)"
  unfolding holds_def dom_params_env
proof
  let ?ps = "map fp_name (fd_params fn)"
  fix x assume "x \<in> fp_name ` set (fd_params fn) \<union> dom Map.empty"
  then obtain j where j: "j < length ?ps" "?ps ! j = x" by (auto simp: in_set_conv_nth)
  have "map_of (rev (zip ?ps [3..<3 + length ?ps])) = map_of (zip ?ps [3..<3 + length ?ps])"
    by (rule map_of_inject_set [THEN iffD2]) (use d in \<open>simp_all add: rev_map [symmetric]\<close>)
  moreover have "map_of (zip ?ps [3..<3 + length ?ps]) x = Some (3 + j)"
    using map_of_zip_nth [of ?ps "[3..<3 + length ?ps]" j] d j by (simp del: upt_Suc)
  ultimately have "param_ids (fd_params fn) 3 x = Some (3 + j)" unfolding param_ids_def length_map by simp
  moreover have "lookup h x s2 = param_ids (fd_params fn) (lw_len s + 2) x" using e by (simp add: entered_def)
  ultimately have "lookup h x s2 = Some (3 + j)" by (simp add: len(1) numeral_3_eq_3)
  moreover have "map_of (zip ?ps args) x = Some (args ! j)" using map_of_zip_nth [of ?ps args j] d j len(2) by simp
  ultimately show "\<exists>i. lookup h x s2 = Some i \<and> v t i = VInt (case map_of (zip ?ps args) x of Some w \<Rightarrow> w | None \<Rightarrow> 0)"
    using args j len(2) by simp
qed

lemma entered_active:
  assumes e: "entered s fn h s2" and s: "g_nodes (lw_graph s) = [plain_node NK_Start 0 []]" and b: "begun s2 g"
  shows "active g v t (lw_ctrl s2)" "rets g v t s s2 = {}"
proof -
  have n: "lw_ctrl s2 = 1" "1 < length (g_nodes g)" "node_at g 0 = plain_node NK_Start 0 []" "node_at g 1 = plain_node NK_Proj 0 [0]"
    using e b s by (auto simp: entered_def begun_def)
  have "active g v t 0" by (rule active.start) (use n in auto)
  then show "active g v t (lw_ctrl s2)" unfolding n(1) by (intro active.entry [of 1 g 0]) (use n in simp_all)
  have "pads s s2" using e by (auto simp: entered_def pads_def)
  then show "rets g v t s s2 = {}" using b by (rule pads_rets)
qed

lemma returned_rets:
  assumes b: "begun s g" and n: "g_nodes (lw_graph s) = [plain_node NK_Start 0 []]" and len: "lw_len s' = length (g_nodes g)"
  shows "returned g v t = (\<lambda>i. v t (n_inputs (node_at g i) ! 2)) ` rets g v t s s'"
proof -
  have z: "node_at g 0 = plain_node NK_Start 0 []" using b n by (auto simp: begun_def)
  have "n_kind (node_at g i) = NK_Return \<and> active g v t i \<longleftrightarrow> i \<in> rets g v t s s'" for i
    using active_less [of g v t i] len z n by (cases i) (auto simp: rets_def)
  then show ?thesis by (auto simp: returned_def)
qed

lemma sem_fn:
  assumes R: "runs_in F sel g v t" and inv: "linv True h s" and s: "g_nodes (lw_graph s) = [plain_node NK_Start 0 []]"
    and fn: "fn_ok ar fn" "fd_body fn = Block ss" "simple_stmt (Block ss)"
    and args: "length args = length (fd_params fn)" "\<forall>j < length args. v t (3 + j) = VInt (args ! j)" and r: "result_of fn args = Some r"
  shows "wl (lower_fn h fn) (\<lambda>b s'. lw_graph s' = g \<longrightarrow> returned g v t = {VInt r}) s"
proof (rule wl_fn [OF inv])
  show "0 < lw_len s" using s by simp
  fix s2 assume e: "entered s fn h s2" and s2: "linv True h s2"
  let ?E = "params_env (fd_params fn) Map.empty"
  let ?\<sigma> = "\<lambda>x. case map_of (zip (map fp_name (fd_params fn)) args) x of Some w \<Rightarrow> w | None \<Rightarrow> 0"
  obtain E' where E': "stmt_ok ar ?E (Block ss) E'" and d: "distinct (map fp_name (fd_params fn))" using fn(1,2) by (auto simp: fn_ok_def)
  have h: "holds v t h ?E s2 ?\<sigma>" by (rule entered_holds [where v = v and t = t, OF e d _ args]) (simp add: s)
  have s02: "appends s s2" using e by (simp add: entered_def appends_def)
  have "wl (lower_stmt h (Block ss)) (\<lambda>_. wl finish_fn (\<lambda>b s'. lw_graph s' = g \<longrightarrow> returned g v t = {VInt r})) s2"
  proof (rule performsD [OF sem_stmt [OF R fn(3) E' s2]])
    show "dom ?E \<subseteq> names h s2" by (simp add: dom_params_env entered_facts(2) [OF e])
    fix b s3 assume r3: "ran g v t h ?E E' (\<lambda>\<sigma>. run \<sigma> (Block ss)) s2 s3"
    then have s3: "linv True h s3" "appends s2 s3" using ran_spost [OF r3] by (simp_all add: spost_def)
    show "wl finish_fn (\<lambda>b s'. lw_graph s' = g \<longrightarrow> returned g v t = {VInt r}) s3"
    proof (rule sem_finish [OF R s3(1)], rule impI)
      fix s4 assume "appends s3 s4" "lw_graph s4 = g"
        and off: "begun s4 g \<Longrightarrow> \<not> active g v t (lw_ctrl s3) \<Longrightarrow> rets g v t s3 s4 = {}"
        and on: "begun s4 g \<Longrightarrow> active g v t (lw_ctrl s3) \<Longrightarrow> lw_eff s3 \<noteq> kInvalidNodeId \<Longrightarrow>
          rets g v t s3 s4 \<noteq> {} \<and> (\<forall>i \<in> rets g v t s3 s4. v t (n_inputs (node_at g i) ! 2) = VInt 0)"
      then have b4: "begun s4 g" and len: "lw_len s4 = length (g_nodes g)" by (auto simp: begun_def)
      note b3 = begun_appends [OF \<open>appends s3 s4\<close> b4]
      note b2 = begun_appends [OF s3(2) b3] and b0 = begun_appends [OF s02 begun_appends [OF s3(2) b3]]
      note ea = entered_active [OF e s b2, of v t]
      have j: "rets g v t s s4 = rets g v t s2 s3 \<union> rets g v t s3 s4"
        using rets_join [OF s02 appends_trans [OF s3(2) \<open>appends s3 s4\<close>], of g v t] rets_join [OF s3(2) \<open>appends s3 s4\<close>, of g v t] ea(2) by simp
      obtain out where out: "run ?\<sigma> (Block ss) = Some out" "r = (case out of Running \<sigma> \<Rightarrow> 0 | Returned w \<Rightarrow> w)"
        using r fn(2) by (auto simp: result_of_def)
      have "lw_eff s2 \<noteq> kInvalidNodeId" using e by (simp add: entered_def)
      from ran_on [OF r3 b3 ea(1) this h out(1)] have ended: "ended g v t h E' s2 s3 out" .
      have "rets g v t s s4 \<noteq> {} \<and> (\<forall>i \<in> rets g v t s s4. v t (n_inputs (node_at g i) ! 2) = VInt r)"
      proof (cases out)
        case (Running \<sigma>')
        with ended on [OF b4] out(2) j show ?thesis by (simp add: ended_def)
      next
        case (Returned w)
        with ended off [OF b4] out(2) j show ?thesis by (simp add: ended_def)
      qed
      then show "returned g v t = {VInt r}" unfolding returned_rets [OF b0 s len] by auto
    qed
  qed
  with fn(2) show "wl (lower_stmts h (block_stmts (fd_body fn))) (\<lambda>_. wl finish_fn (\<lambda>b s'. lw_graph s' = g \<longrightarrow> returned g v t = {VInt r})) s2"
    by (simp add: block_stmts_def)
qed

lemma wl_params_kept:
  assumes inv: "linv True h s" and len: "lw_len s = 1" and fn: "fn_ok ar fn" "fd_body fn = Block ss" "simple_stmt (Block ss)"
  shows "wl (lower_fn h fn) (\<lambda>b s'. b \<and> linv True h s' \<and> (\<forall>j < length (fd_params fn).
    3 + j < lw_len s' \<and> n_kind (node_at (lw_graph s') (3 + j)) = NK_Parameter)) s"
proof (rule wl_fn [OF inv])
  show "0 < lw_len s" using len by simp
  let ?Q = "\<lambda>b s'. b \<and> linv True h s' \<and> (\<forall>j < length (fd_params fn). 3 + j < lw_len s' \<and> n_kind (node_at (lw_graph s') (3 + j)) = NK_Parameter)"
  fix s2 assume e: "entered s fn h s2" and s2: "linv True h s2"
  obtain E' where E': "stmt_ok ar (params_env (fd_params fn) Map.empty) (Block ss) E'" using fn(1,2) by (auto simp: fn_ok_def)
  have p2: "3 + j < lw_len s2 \<and> n_kind (node_at (lw_graph s2) (3 + j)) = NK_Parameter" if "j < length (fd_params fn)" for j
  proof -
    have "node_at (lw_graph s2) (lw_len s + 2 + j) = par_node (fd_params fn ! j)" using e that by (simp add: entered_def nth_append)
    with e that len show ?thesis by (simp add: entered_def numeral_3_eq_3)
  qed
  have "wl (lower_stmt h (Block ss)) (\<lambda>_. wl finish_fn ?Q) s2"
  proof (rule wl_stmt [OF simple_plain [OF fn(3)] E' s2])
    show "dom (params_env (fd_params fn) Map.empty) \<subseteq> names h s2" by (simp add: dom_params_env entered_facts(2) [OF e])
    fix x s3 assume "spost True h (\<not> body_contains_unlowerable (Block ss)) E' s2 s3"
    then have s3: "linv True h s3" "lstep h s2 s3" by (simp_all add: spost_def)
    show "wl finish_fn ?Q s3"
    proof (rule wl_finish [OF s3(1)])
      fix s4 assume "linv True h s4" and "lstep h s3 s4"
      moreover from this s3(2) have "lstep h s2 s4" by (blast intro: lstep_trans)
      ultimately show "?Q True s4" using p2 by (force simp: lstep_def)
    qed
  qed
  with fn(2) show "wl (lower_stmts h (block_stmts (fd_body fn))) (\<lambda>_. wl finish_fn ?Q) s2" by (simp add: block_stmts_def)
qed


text \<open>\<open>fn f(a, mut b) { if a < b || a == 7 { return a; } else { b += 1; } return b * a; }\<close>\<close>

definition sample_fn :: fn_decl where
  "sample_fn = \<lparr>fd_name = 1,
     fd_params = [\<lparr>fp_name = 2, fp_type = Ident 9, fp_mutable = False\<rparr>, \<lparr>fp_name = 3, fp_type = Ident 9, fp_mutable = True\<rparr>],
     fd_ret = None,
     fd_body = Block [IfStmt (BinaryExpr T_OrOr (BinaryExpr T_Lt (Ident 2) (Ident 3)) (BinaryExpr T_EqEq (Ident 2) (IntLit 7))) (Block [ReturnStmt (Some (Ident 2))])
         (Some (Block [AssignExpr T_PlusEq (Ident 3) (IntLit 1)])),
       ReturnStmt (Some (BinaryExpr T_Star (Ident 3) (Ident 2)))],
     fd_pub = False\<rparr>"


text \<open>
  C29. Outside that fragment the lowering confuses operators: \<open>&&\<close> and \<open>||\<close> are lowered exactly
  as \<open>&\<close> and \<open>|\<close>, although \<open>1 && 2\<close> is 1 and \<open>1 & 2\<close> is 0, and a compound assignment used as a
  value is lowered exactly as \<open>+=\<close>, although \<open>5 - 2\<close> is not \<open>5 + 2\<close>.
\<close>

theorem operators_confused:
  "lower_expr h (BinaryExpr T_AndAnd a b) = lower_expr h (BinaryExpr T_Amp a b)
   \<and> lower_expr h (BinaryExpr T_OrOr a b) = lower_expr h (BinaryExpr T_Pipe a b)
   \<and> tok_sem T_AndAnd 1 2 = Some 1 \<and> tok_sem T_Amp 1 2 = Some 0
   \<and> lower_expr h (AssignExpr T_MinusEq x e) = lower_expr h (AssignExpr T_PlusEq x e)
   \<and> lower_expr h (AssignExpr T_StarEq x e) = lower_expr h (AssignExpr T_PlusEq x e)
   \<and> lower_expr h (AssignExpr T_SlashEq x e) = lower_expr h (AssignExpr T_PlusEq x e)
   \<and> assign_sem T_MinusEq 5 2 = Some 3 \<and> assign_sem T_PlusEq 5 2 = Some 7"
proof -
  have "assign_name h binop_to_node_kind k t v = assign_name h binop_to_node_kind T_PlusEq t v"
    if "k \<in> {T_MinusEq, T_StarEq, T_SlashEq}" for k t v
    using that by (cases t) (auto simp: assign_name_def binop_to_node_kind_def)
  then have "assign_name h binop_to_node_kind k t = assign_name h binop_to_node_kind T_PlusEq t"
    if "k \<in> {T_MinusEq, T_StarEq, T_SlashEq}" for k t using that by blast
  then show ?thesis by (simp add: binop_to_node_kind_def tok_sem_def assign_sem_def bool_i64_def)
qed

end
