(* ===== verification/MachineCode.thy ===== *)
theory MachineCode
  imports Prelude
begin

section \<open>Machine functions\<close>

text \<open>
  \<open>backend/MachineIR.hpp\<close>: the instructions that instruction selection hands to the register
  allocator and the encoder. Their meaning is that of the encoder's comments: a register
  machine whose arithmetic, which may trap, zero test and arguments are parameters.
\<close>

type_synonym vreg = nat
type_synonym preg = nat

datatype reg_class = RC_General | RC_Float | RC_Vector

definition kInvalidVReg :: vreg where
  "kInvalidVReg = 4294967295"

definition kMaxDefsPerInstr :: nat where
  "kMaxDefsPerInstr = 4"

definition kMaxUsesPerInstr :: nat where
  "kMaxUsesPerInstr = 4"

record machine_instr =
  mi_op :: string
  mi_defs :: "vreg list"
  mi_uses :: "vreg list"
  mi_rc :: reg_class
  mi_has_imm :: bool
  mi_imm :: i64

record machine_function =
  mf_name :: string
  mf_instrs :: "machine_instr list"

definition mi_new :: "string \<Rightarrow> machine_instr" where
  "mi_new p = \<lparr>mi_op = p, mi_defs = replicate kMaxDefsPerInstr kInvalidVReg, mi_uses = replicate kMaxUsesPerInstr kInvalidVReg,
     mi_rc = RC_General, mi_has_imm = False, mi_imm = 0\<rparr>"

subsection \<open>Registers and control flow of an instruction\<close>

abbreviation valid_regs :: "vreg list \<Rightarrow> vreg list" where
  "valid_regs vs \<equiv> filter (\<lambda>v. v \<noteq> kInvalidVReg) vs"

definition defs_of :: "machine_instr \<Rightarrow> vreg list" where
  "defs_of mi = valid_regs (mi_defs mi)"

definition uses_of :: "machine_instr \<Rightarrow> vreg list" where
  "uses_of mi = valid_regs (mi_uses mi)"

abbreviation code_of :: "machine_function \<Rightarrow> machine_instr list" where
  "code_of mf \<equiv> mf_instrs mf"

text \<open>The encoder's label table keeps the last definition of a label.\<close>

definition is_label :: "i64 \<Rightarrow> machine_instr \<Rightarrow> bool" where
  "is_label l mi \<longleftrightarrow> mi_op mi = ''label'' \<and> mi_has_imm mi \<and> mi_imm mi = l"

definition label_index :: "machine_function \<Rightarrow> i64 \<Rightarrow> nat option" where
  "label_index mf l = List.find (\<lambda>i. is_label l (code_of mf ! i)) (rev [0..<length (code_of mf)])"

definition succs :: "machine_function \<Rightarrow> nat \<Rightarrow> nat list" where
  "succs mf i =
     (let mi = code_of mf ! i; t = (case label_index mf (mi_imm mi) of None \<Rightarrow> [] | Some j \<Rightarrow> [j]) in
      if mi_op mi = ''ret'' then [] else if mi_op mi = ''jmp'' then t
      else if mi_op mi = ''jz'' then (i + 1) # t else [i + 1])"

inductive live :: "machine_function \<Rightarrow> nat \<Rightarrow> vreg \<Rightarrow> bool" for mf where
  use: "i < length (code_of mf) \<Longrightarrow> v \<in> set (uses_of (code_of mf ! i)) \<Longrightarrow> live mf i v"
| flow: "i < length (code_of mf) \<Longrightarrow> t \<in> set (succs mf i) \<Longrightarrow> live mf t v \<Longrightarrow> v \<notin> set (defs_of (code_of mf ! i)) \<Longrightarrow> live mf i v"

subsection \<open>Execution\<close>

text \<open>
  \<open>\<rho>\<close> names the place of a virtual register; a call leaves arbitrary values \<open>hv\<close> in the places it
  clobbers. Loads and stores are outside the executable subset.
\<close>

datatype 'v outcome = Returned 'v | Stuck | Going nat "nat \<Rightarrow> 'v"

record 'v machine =
  mc_op :: "string \<Rightarrow> i64 \<Rightarrow> 'v list \<Rightarrow> 'v option"
  mc_zero :: "'v \<Rightarrow> bool"
  mc_arg :: "i64 \<Rightarrow> 'v"

definition mstep :: "'v machine \<Rightarrow> (nat \<Rightarrow> bool) \<Rightarrow> (nat \<Rightarrow> 'v) \<Rightarrow> machine_function \<Rightarrow> (vreg \<Rightarrow> nat) \<Rightarrow> nat \<Rightarrow> (nat \<Rightarrow> 'v) \<Rightarrow> 'v outcome" where
  "mstep M clob hv mf \<rho> i R =
     (if i \<ge> length (code_of mf) then Stuck
      else let mi = code_of mf ! i; d = \<rho> (mi_defs mi ! 0); x = R (\<rho> (mi_uses mi ! 0));
          op = mc_op M (mi_op mi) (mi_imm mi) (map (\<lambda>u. R (\<rho> u)) (uses_of mi));
          result = (\<lambda>R. case op of None \<Rightarrow> Stuck | Some r \<Rightarrow> Going (i + 1) (R(d := r)));
          jump = (case label_index mf (mi_imm mi) of None \<Rightarrow> Stuck | Some j \<Rightarrow> Going j R) in
      if mi_op mi = ''ret'' then Returned x
      else if mi_op mi = ''label'' then Going (i + 1) R
      else if mi_op mi = ''jmp'' then jump
      else if mi_op mi = ''jz'' then (if mc_zero M x then jump else Going (i + 1) R)
      else if mi_op mi = ''param'' then Going (i + 1) (R(d := mc_arg M (mi_imm mi)))
      else if mi_op mi = ''call'' then result (\<lambda>p. if clob p then hv p else R p)
      else if mi_op mi = ''load'' \<or> mi_op mi = ''store'' then Stuck
      else result R)"

fun mrun :: "'v machine \<Rightarrow> (nat \<Rightarrow> bool) \<Rightarrow> (nat \<Rightarrow> nat \<Rightarrow> 'v) \<Rightarrow> machine_function \<Rightarrow> (vreg \<Rightarrow> nat) \<Rightarrow> nat \<Rightarrow> nat \<Rightarrow> (nat \<Rightarrow> 'v) \<Rightarrow> 'v option option" where
  "mrun M clob hv mf \<rho> 0 i R = None"
| "mrun M clob hv mf \<rho> (Suc n) i R =
     (case mstep M clob (hv n) mf \<rho> i R of Returned x \<Rightarrow> Some (Some x) | Stuck \<Rightarrow> Some None
      | Going j R' \<Rightarrow> mrun M clob hv mf \<rho> n j R')"

text \<open>The shape instruction selection gives its instructions: one destination at most.\<close>

definition shaped :: "machine_instr \<Rightarrow> bool" where
  "shaped mi \<longleftrightarrow> length (mi_defs mi) = kMaxDefsPerInstr \<and> length (mi_uses mi) = kMaxUsesPerInstr
     \<and> tl (mi_defs mi) = replicate 3 kInvalidVReg
     \<and> (mi_op mi \<in> {''ret'', ''jz''} \<longrightarrow> mi_uses mi ! 0 \<noteq> kInvalidVReg)
     \<and> (mi_op mi \<in> {''ret'', ''label'', ''jmp'', ''jz'', ''store''} \<longleftrightarrow> mi_defs mi ! 0 = kInvalidVReg)"

lemma shapedD:
  assumes "shaped mi"
  shows "defs_of mi = (if mi_op mi \<in> {''ret'', ''label'', ''jmp'', ''jz'', ''store''} then [] else [mi_defs mi ! 0])"
    and "mi_op mi \<in> {''ret'', ''jz''} \<Longrightarrow> mi_uses mi ! 0 \<in> set (uses_of mi)"
proof -
  from assms obtain d where d: "mi_defs mi = d # replicate 3 kInvalidVReg"
    by (cases "mi_defs mi") (auto simp: shaped_def kMaxDefsPerInstr_def)
  then show "defs_of mi = (if mi_op mi \<in> {''ret'', ''label'', ''jmp'', ''jz'', ''store''} then [] else [mi_defs mi ! 0])"
    using assms by (auto simp: shaped_def defs_of_def)
  assume "mi_op mi \<in> {''ret'', ''jz''}"
  then show "mi_uses mi ! 0 \<in> set (uses_of mi)" using assms
    by (auto simp: shaped_def uses_of_def kMaxUsesPerInstr_def)
qed

lemma label_indexD: "label_index mf l = Some t \<Longrightarrow> t < length (code_of mf) \<and> is_label l (code_of mf ! t)"
proof -
  assume "label_index mf l = Some t"
  then have "t \<in> set (rev [0..<length (code_of mf)]) \<and> is_label l (code_of mf ! t)"
    unfolding label_index_def find_Some_iff by (metis nth_mem)
  then show ?thesis by auto
qed

lemma succs_bound: "t \<in> set (succs mf i) \<Longrightarrow> t = i + 1 \<or> t < length (code_of mf)"
  using label_indexD [of mf "mi_imm (code_of mf ! i)"] by (auto simp: succs_def Let_def split: if_splits option.splits)

text \<open>A certificate for liveness: sets that contain the uses and are closed under the flow of control.\<close>

definition live_sets :: "machine_function \<Rightarrow> vreg list list \<Rightarrow> bool" where
  "live_sets mf L \<longleftrightarrow> length L = Suc (length (code_of mf)) \<and> L ! length (code_of mf) = [] \<and>
     list_all (\<lambda>i. set (uses_of (code_of mf ! i)) \<subseteq> set (L ! i)
       \<and> list_all (\<lambda>t. set (L ! t) \<subseteq> set (L ! i) \<union> set (defs_of (code_of mf ! i))) (succs mf i)) [0..<length (code_of mf)]"

lemma live_in_sets: "live mf i v \<Longrightarrow> live_sets mf L \<Longrightarrow> v \<in> set (L ! i)"
proof (induction rule: live.induct)
  case (use i v)
  then show ?case by (auto simp: live_sets_def list_all_iff)
next
  case (flow i t v)
  then have "set (L ! t) \<subseteq> set (L ! i) \<union> set (defs_of (code_of mf ! i))" by (auto simp: live_sets_def list_all_iff)
  with flow show ?case by blast
qed

end
