(* ===== verification/LinearScan.thy ===== *)
theory LinearScan
  imports MachineCode "HOL-Library.Product_Lexorder"
begin

section \<open>The linear-scan register allocator\<close>

text \<open>
  \<open>backend/src/RegAlloc/LinearScan.cpp\<close>: live intervals from the first and last occurrence of a
  register, widened to the back edge of a loop, and one pass over the intervals by start.
  \<open>std::sort\<close> may order equal intervals in any way; here they stay in the order of the registers,
  and what is proved of the pass holds for every list sorted by start.
\<close>

definition kNever :: nat where
  "kNever = 4294967295"

definition kLinearScanMaxPRegs :: nat where
  "kLinearScanMaxPRegs = 256"

definition kNoPReg :: preg where
  "kNoPReg = 65535"

record live_interval =
  iv_vreg :: vreg
  iv_rc :: reg_class
  iv_start :: nat
  iv_end :: nat
  iv_spans_call :: bool

record active_entry =
  ae_vreg :: vreg
  ae_end :: nat
  ae_preg :: preg

subsection \<open>Live intervals\<close>

record scan =
  sc_first :: "nat list"
  sc_last :: "nat list"
  sc_class :: "reg_class list"

definition max_vreg :: "machine_function \<Rightarrow> vreg" where
  "max_vreg mf = fold (\<lambda>mi m. fold max (uses_of mi) (fold max (defs_of mi) m)) (code_of mf) 0"

definition scan_reg :: "nat \<Rightarrow> reg_class \<Rightarrow> vreg \<Rightarrow> scan \<Rightarrow> scan" where
  "scan_reg i c v s =
     (if v = kInvalidVReg then s
      else s\<lparr>sc_first := (if sc_first s ! v = kNever then (sc_first s)[v := i] else sc_first s),
             sc_last := (sc_last s)[v := i], sc_class := (sc_class s)[v := c]\<rparr>)"

fun scan_instrs :: "nat \<Rightarrow> machine_instr list \<Rightarrow> scan \<Rightarrow> scan" where
  "scan_instrs i [] s = s"
| "scan_instrs i (mi # ms) s =
     scan_instrs (i + 1) ms (fold (scan_reg i (mi_rc mi)) (mi_uses mi) (fold (scan_reg i (mi_rc mi)) (mi_defs mi) s))"

fun back_jump :: "i64 \<Rightarrow> nat \<Rightarrow> machine_instr list \<Rightarrow> nat option" where
  "back_jump l j [] = None"
| "back_jump l j (mj # ms) = (if mi_op mj = ''jmp'' \<and> mi_has_imm mj \<and> mi_imm mj = l then Some j else back_jump l (j + 1) ms)"

fun loop_spans :: "nat \<Rightarrow> machine_instr list \<Rightarrow> (nat \<times> nat) list" where
  "loop_spans i [] = []"
| "loop_spans i (mi # ms) =
     (if mi_has_imm mi \<and> mi_op mi = ''label''
      then (case back_jump (mi_imm mi) (i + 1) ms of None \<Rightarrow> [] | Some j \<Rightarrow> [(i, j)]) else []) @ loop_spans (i + 1) ms"

definition widen :: "nat \<times> nat \<Rightarrow> scan \<Rightarrow> scan" where
  "widen = (\<lambda>(h, t) s. s\<lparr>sc_last := map (\<lambda>v. if sc_first s ! v \<noteq> kNever \<and> sc_first s ! v < h \<and> h \<le> sc_last s ! v \<and> sc_last s ! v < t
      then t else sc_last s ! v) [0..<length (sc_last s)]\<rparr>)"

definition spans_call :: "machine_function \<Rightarrow> scan \<Rightarrow> vreg \<Rightarrow> bool" where
  "spans_call mf s v \<longleftrightarrow> list_ex (\<lambda>i. mi_op (code_of mf ! i) = ''call'' \<and> sc_first s ! v < i \<and> i < sc_last s ! v) [0..<length (code_of mf)]"

definition scan_of :: "machine_function \<Rightarrow> scan" where
  "scan_of mf = (let n = max_vreg mf + 1 in
     fold widen (loop_spans 0 (code_of mf)) (scan_instrs 0 (code_of mf)
       \<lparr>sc_first = replicate n kNever, sc_last = replicate n 0, sc_class = replicate n RC_General\<rparr>))"

definition compute_intervals :: "machine_function \<Rightarrow> live_interval list" where
  "compute_intervals mf = (let s = scan_of mf in
     map (\<lambda>v. \<lparr>iv_vreg = v, iv_rc = sc_class s ! v, iv_start = sc_first s ! v, iv_end = sc_last s ! v + 1, iv_spans_call = spans_call mf s v\<rparr>)
       (filter (\<lambda>v. sc_first s ! v \<noteq> kNever) [0..<max_vreg mf + 1]))"

subsection \<open>Allocation\<close>

record alloc_config =
  ac_num_gpr :: nat
  ac_num_fpr :: nat
  ac_callee_saved_from :: nat

record allocation =
  al_assignment :: "preg list"
  al_spilled :: "bool list"
  al_active :: "active_entry list"
  al_spills :: nat

text \<open>The first register of the list that is not used; \<open>None\<close> when the array is read out of range.\<close>

fun find_free :: "bool list \<Rightarrow> preg list \<Rightarrow> preg option option" where
  "find_free used [] = Some None"
| "find_free used (p # ps) = (if p \<ge> length used then None else if \<not> used ! p then Some (Some p) else find_free used ps)"

definition used_pregs :: "active_entry list \<Rightarrow> bool list" where
  "used_pregs act = map (\<lambda>p. list_ex (\<lambda>e. ae_preg e = p) act) [0..<kLinearScanMaxPRegs]"

fun furthest :: "active_entry \<Rightarrow> active_entry list \<Rightarrow> active_entry" where
  "furthest m [] = m"
| "furthest m (e # es) = furthest (if ae_end m < ae_end e then e else m) es"

definition take_preg :: "live_interval \<Rightarrow> preg \<Rightarrow> active_entry list \<Rightarrow> allocation \<Rightarrow> allocation" where
  "take_preg iv p act a = a\<lparr>al_assignment := (al_assignment a)[iv_vreg iv := p],
     al_active := act @ [\<lparr>ae_vreg = iv_vreg iv, ae_end = iv_end iv, ae_preg = p\<rparr>]\<rparr>"

definition spill :: "vreg \<Rightarrow> allocation \<Rightarrow> allocation" where
  "spill v a = a\<lparr>al_spilled := (al_spilled a)[v := True], al_spills := al_spills a + 1\<rparr>"

definition alloc_step :: "alloc_config \<Rightarrow> live_interval \<Rightarrow> allocation \<Rightarrow> allocation option" where
  "alloc_step cf iv a =
     (let act = filter (\<lambda>e. \<not> ae_end e \<le> iv_start iv) (al_active a);
          num = (if iv_rc iv = RC_Float then ac_num_fpr cf else ac_num_gpr cf);
          floor = (if iv_spans_call iv then ac_callee_saved_from cf else 0) in
      case find_free (used_pregs act) [floor..<num] of None \<Rightarrow> None
      | Some (Some p) \<Rightarrow> Some (take_preg iv p act a)
      | Some None \<Rightarrow> Some (case act of
          [] \<Rightarrow> (spill (iv_vreg iv) a)\<lparr>al_assignment := (al_assignment a)[iv_vreg iv := kNoPReg], al_active := []\<rparr>
        | e # es \<Rightarrow> (let m = furthest e es in
            if iv_end iv < ae_end m then take_preg iv (ae_preg m) (remove1 m act) (spill (ae_vreg m) a)
            else (spill (iv_vreg iv) a)\<lparr>al_assignment := (al_assignment a)[iv_vreg iv := kNoPReg], al_active := act\<rparr>)))"

fun alloc_loop :: "alloc_config \<Rightarrow> live_interval list \<Rightarrow> allocation \<Rightarrow> allocation option" where
  "alloc_loop cf [] a = Some a"
| "alloc_loop cf (iv # ivs) a = Option.bind (alloc_step cf iv a) (alloc_loop cf ivs)"

definition alloc_init :: "live_interval list \<Rightarrow> allocation" where
  "alloc_init ivs = (let n = fold (\<lambda>iv m. max m (iv_vreg iv)) ivs 0 + 1 in
     \<lparr>al_assignment = replicate n 0, al_spilled = replicate n False, al_active = [], al_spills = 0\<rparr>)"

definition allocate :: "alloc_config \<Rightarrow> machine_function \<Rightarrow> allocation option" where
  "allocate cf mf = (let ivs = sort_key (\<lambda>iv. (iv_start iv, iv_end iv)) (compute_intervals mf) in alloc_loop cf ivs (alloc_init ivs))"

definition assignment_of :: "allocation \<Rightarrow> vreg \<Rightarrow> preg" where
  "assignment_of a v = (if v \<ge> length (al_assignment a) then 0 else al_assignment a ! v)"

definition is_spilled :: "allocation \<Rightarrow> vreg \<Rightarrow> bool" where
  "is_spilled a v \<longleftrightarrow> v < length (al_spilled a) \<and> al_spilled a ! v"

subsection \<open>Overlapping intervals get different registers\<close>

definition overlap :: "live_interval \<Rightarrow> live_interval \<Rightarrow> bool" where
  "overlap x y \<longleftrightarrow> iv_start x < iv_end y \<and> iv_start y < iv_end x"

definition within_class :: "alloc_config \<Rightarrow> live_interval \<Rightarrow> preg \<Rightarrow> bool" where
  "within_class cf iv p \<longleftrightarrow> (iv_spans_call iv \<longrightarrow> ac_callee_saved_from cf \<le> p)
     \<and> p < (if iv_rc iv = RC_Float then ac_num_fpr cf else ac_num_gpr cf)"

text \<open>
  The state after the intervals \<open>ivs\<close>, at position \<open>t\<close>: the active entries are the intervals that
  reach beyond \<open>t\<close> and hold a register, each its own.
\<close>


definition entry_of :: "allocation \<Rightarrow> live_interval set \<Rightarrow> active_entry \<Rightarrow> bool" where
  "entry_of a D e \<longleftrightarrow> (\<exists>iv \<in> D. iv_vreg iv = ae_vreg e \<and> iv_end iv = ae_end e) \<and> \<not> al_spilled a ! ae_vreg e \<and> al_assignment a ! ae_vreg e = ae_preg e"

definition alloc_inv :: "alloc_config \<Rightarrow> live_interval set \<Rightarrow> nat \<Rightarrow> active_entry list \<Rightarrow> allocation \<Rightarrow> bool" where
  "alloc_inv cf D t act a \<longleftrightarrow> length (al_assignment a) = length (al_spilled a) \<and> (\<forall>iv \<in> D. iv_vreg iv < length (al_spilled a) \<and> iv_start iv \<le> t)
     \<and> inj_on iv_vreg D \<and> (\<forall>e \<in> set act. entry_of a D e) \<and> distinct (map ae_vreg act) \<and> distinct (map ae_preg act)
     \<and> (\<forall>iv \<in> D. \<not> al_spilled a ! iv_vreg iv \<longrightarrow> iv_end iv \<le> t \<or> (\<exists>e \<in> set act. ae_vreg e = iv_vreg iv))
     \<and> (\<forall>x \<in> D. \<forall>y \<in> D. x \<noteq> y \<longrightarrow> overlap x y \<longrightarrow> \<not> al_spilled a ! iv_vreg x \<longrightarrow> \<not> al_spilled a ! iv_vreg y \<longrightarrow>
          al_assignment a ! iv_vreg x \<noteq> al_assignment a ! iv_vreg y)
     \<and> (\<forall>v < length (al_spilled a). v \<notin> iv_vreg ` D \<longrightarrow> \<not> al_spilled a ! v)
     \<and> (al_spills a = 0 \<longrightarrow> (\<forall>iv \<in> D. \<not> al_spilled a ! iv_vreg iv \<and> within_class cf iv (al_assignment a ! iv_vreg iv)))"

lemma alloc_invD:
  assumes "alloc_inv cf D t act a"
  shows "length (al_assignment a) = length (al_spilled a)" "iv \<in> D \<Longrightarrow> iv_vreg iv < length (al_spilled a)" "iv \<in> D \<Longrightarrow> iv_start iv \<le> t"
    "inj_on iv_vreg D" "e \<in> set act \<Longrightarrow> entry_of a D e" "distinct (map ae_vreg act)" "distinct (map ae_preg act)"
    "iv \<in> D \<Longrightarrow> \<not> al_spilled a ! iv_vreg iv \<Longrightarrow> iv_end iv \<le> t \<or> (\<exists>e \<in> set act. ae_vreg e = iv_vreg iv)"
    "x \<in> D \<Longrightarrow> y \<in> D \<Longrightarrow> x \<noteq> y \<Longrightarrow> overlap x y \<Longrightarrow> \<not> al_spilled a ! iv_vreg x \<Longrightarrow> \<not> al_spilled a ! iv_vreg y
      \<Longrightarrow> al_assignment a ! iv_vreg x \<noteq> al_assignment a ! iv_vreg y"
    "v < length (al_spilled a) \<Longrightarrow> v \<notin> iv_vreg ` D \<Longrightarrow> \<not> al_spilled a ! v"
    "al_spills a = 0 \<Longrightarrow> iv \<in> D \<Longrightarrow> \<not> al_spilled a ! iv_vreg iv \<and> within_class cf iv (al_assignment a ! iv_vreg iv)"
  using assms unfolding alloc_inv_def by blast+

lemma alloc_inv_expire:
  assumes "alloc_inv cf D t act a" "t \<le> t'"
  shows "alloc_inv cf D t' (filter (\<lambda>e. \<not> ae_end e \<le> t') act) a"
proof -
  note d = alloc_invD [OF assms(1)]
  have "iv_end iv \<le> t' \<or> (\<exists>e \<in> set (filter (\<lambda>e. \<not> ae_end e \<le> t') act). ae_vreg e = iv_vreg iv)"
    if iv: "iv \<in> D" "\<not> al_spilled a ! iv_vreg iv" for iv
  proof (cases "iv_end iv \<le> t'")
    case False
    with d(8) [OF iv] assms(2) obtain e where e: "e \<in> set act" "ae_vreg e = iv_vreg iv" by fastforce
    obtain iv' where "iv' \<in> D" "iv_vreg iv' = ae_vreg e" "iv_end iv' = ae_end e" using d(5) [OF e(1)] by (auto simp: entry_of_def)
    then have "ae_end e = iv_end iv" using inj_onD [OF d(4), of iv' iv] iv(1) e(2) by auto
    with e False show ?thesis by auto
  qed simp
  moreover have "iv_start iv \<le> t'" if "iv \<in> D" for iv using d(3) [OF that] assms(2) by simp
  ultimately show ?thesis unfolding alloc_inv_def using d(1,2,4-7,9-11) by (auto simp: distinct_map_filter)
qed

text \<open>An active interval loses its register.\<close>

lemma alloc_inv_evict:
  assumes inv: "alloc_inv cf D t act a" and m: "m \<in> set act"
  shows "alloc_inv cf D t (remove1 m act) (spill (ae_vreg m) a)"
proof -
  note d = alloc_invD [OF inv]
  have dv: "distinct act" using d(6) by (simp add: distinct_map)
  have ne: "ae_vreg e \<noteq> ae_vreg m" if "e \<in> set (remove1 m act)" for e
    using that m d(6) dv by (auto simp: distinct_map inj_on_def)
  have sp: "al_spilled (spill (ae_vreg m) a) ! v \<longleftrightarrow> v = ae_vreg m \<or> al_spilled a ! v" if "v < length (al_spilled a)" for v
    using that by (cases "v = ae_vreg m") (simp_all add: spill_def)
  have lt: "ae_vreg e < length (al_spilled a)" if "e \<in> set act" for e using d(5) [OF that] d(2) by (metis entry_of_def)
  have "entry_of (spill (ae_vreg m) a) D e" if e: "e \<in> set (remove1 m act)" for e
  proof -
    have "e \<in> set act" using e by (meson notin_set_remove1)
    then show ?thesis using d(5) [of e] ne [OF e] lt [of e] sp [of "ae_vreg e"] by (auto simp: entry_of_def spill_def)
  qed
  moreover have "iv_end iv \<le> t \<or> (\<exists>e \<in> set (remove1 m act). ae_vreg e = iv_vreg iv)"
    if "iv \<in> D" "\<not> al_spilled (spill (ae_vreg m) a) ! iv_vreg iv" for iv
    using that d(8) [OF that(1)] sp [OF d(2) [OF that(1)]] dv by auto
  moreover have "al_assignment (spill (ae_vreg m) a) ! iv_vreg x \<noteq> al_assignment (spill (ae_vreg m) a) ! iv_vreg y"
    if "x \<in> D" "y \<in> D" "x \<noteq> y" "overlap x y" "\<not> al_spilled (spill (ae_vreg m) a) ! iv_vreg x" "\<not> al_spilled (spill (ae_vreg m) a) ! iv_vreg y" for x y
    using d(9) [OF that(1-4)] that(5,6) sp d(2) that(1,2) by (auto simp: spill_def)
  moreover have "\<not> al_spilled (spill (ae_vreg m) a) ! v" if v: "v < length (al_spilled a)" "v \<notin> iv_vreg ` D" for v
  proof -
    obtain iv where "iv \<in> D" "iv_vreg iv = ae_vreg m" using d(5) [OF m] by (auto simp: entry_of_def)
    then have "v \<noteq> ae_vreg m" using v(2) by (metis image_eqI)
    then show ?thesis using d(10) [OF v] sp [OF v(1)] by simp
  qed
  moreover have "distinct (map f (remove1 m act))" if "distinct (map f act)" for f :: "active_entry \<Rightarrow> nat"
    using that by (auto simp: distinct_map inj_on_diff)
  ultimately show ?thesis unfolding alloc_inv_def using d(1-4,6,7) by (simp add: spill_def)
qed

text \<open>A new interval gets a register no active one has, or none.\<close>

lemma alloc_inv_take:
  assumes inv: "alloc_inv cf D t act a" and iv: "iv \<notin> D" "iv_vreg iv \<notin> iv_vreg ` D" "iv_vreg iv < length (al_spilled a)" "iv_start iv = t"
    and p: "p \<notin> ae_preg ` set act" "al_spills a = 0 \<Longrightarrow> within_class cf iv p"
  shows "alloc_inv cf (insert iv D) t (act @ [\<lparr>ae_vreg = iv_vreg iv, ae_end = iv_end iv, ae_preg = p\<rparr>]) (take_preg iv p act' a)"
proof -
  note d = alloc_invD [OF inv]
  let ?a = "take_preg iv p act' a" and ?n = "\<lparr>ae_vreg = iv_vreg iv, ae_end = iv_end iv, ae_preg = p\<rparr>"
  have ns: "\<not> al_spilled a ! iv_vreg iv" by (rule d(10) [OF iv(3,2)])
  have asg: "al_assignment ?a ! v = (if v = iv_vreg iv then p else al_assignment a ! v)" for v
    using iv(3) d(1) by (simp add: take_preg_def nth_list_update)
  have sp: "al_spilled ?a = al_spilled a" "al_spills ?a = al_spills a" by (simp_all add: take_preg_def)
  have ne: "iv_vreg x \<noteq> iv_vreg iv" if "x \<in> D" for x using that iv(2) by (metis image_eqI)
  have vn: "ae_vreg e \<noteq> iv_vreg iv" if "e \<in> set act" for e using d(5) [OF that] ne by (auto simp: entry_of_def)
  have "entry_of ?a (insert iv D) e" if "e \<in> set (act @ [?n])" for e
    using that d(5) [of e] vn [of e] ns by (auto simp: entry_of_def asg sp)
  moreover have "iv_vreg iv \<notin> ae_vreg ` set act" using vn by (metis imageE)
  then have "distinct (map ae_vreg (act @ [?n]))" "distinct (map ae_preg (act @ [?n]))" using d(6,7) p(1) by auto
  moreover have "iv_end x \<le> t \<or> (\<exists>e \<in> set (act @ [?n]). ae_vreg e = iv_vreg x)"
    if "x \<in> insert iv D" "\<not> al_spilled ?a ! iv_vreg x" for x using that d(8) [of x] by (auto simp: sp)
  moreover have sep: "al_assignment ?a ! iv_vreg x \<noteq> p"
    if "x \<in> D" "overlap x iv" "\<not> al_spilled a ! iv_vreg x" for x
  proof -
    have "\<not> iv_end x \<le> t" using that(2) iv(4) by (simp add: overlap_def)
    with d(8) [OF that(1,3)] obtain e where e: "e \<in> set act" "ae_vreg e = iv_vreg x" by blast
    then have "al_assignment a ! iv_vreg x = ae_preg e" using d(5) [OF e(1)] by (simp add: entry_of_def)
    then show ?thesis using p(1) e(1) ne [OF that(1)] by (auto simp: asg)
  qed
  have "al_assignment ?a ! iv_vreg x \<noteq> al_assignment ?a ! iv_vreg y"
    if xy: "x \<in> insert iv D" "y \<in> insert iv D" "x \<noteq> y" "overlap x y" "\<not> al_spilled ?a ! iv_vreg x" "\<not> al_spilled ?a ! iv_vreg y" for x y
  proof -
    have ov: "overlap y x" using xy(4) by (auto simp: overlap_def)
    consider "x = iv" "y \<in> D" | "y = iv" "x \<in> D" | "x \<in> D" "y \<in> D" using xy(1-3) by blast
    then show ?thesis
    proof cases
      case 1
      then show ?thesis using sep [of y] ov xy(6) by (simp add: asg sp ne)
    next
      case 2
      then show ?thesis using sep [of x] xy(4,5) by (simp add: asg sp ne)
    next
      case 3
      then show ?thesis using d(9) [OF 3 xy(3,4)] xy(5,6) by (simp add: asg sp ne)
    qed
  qed
  moreover have "inj_on iv_vreg (insert iv D)" using d(4) iv(2) by (simp add: image_iff)
  moreover have "al_spills ?a = 0 \<longrightarrow> (\<forall>x \<in> insert iv D. \<not> al_spilled ?a ! iv_vreg x \<and> within_class cf x (al_assignment ?a ! iv_vreg x))"
    using d(11) p(2) ns ne by (auto simp: asg sp)
  ultimately show ?thesis unfolding alloc_inv_def using d(1-3,10) iv(3,4) by (simp add: sp) (simp add: take_preg_def)
qed

lemma alloc_inv_spill:
  assumes inv: "alloc_inv cf D t act a" and iv: "iv \<notin> D" "iv_vreg iv \<notin> iv_vreg ` D" "iv_vreg iv < length (al_spilled a)" "iv_start iv = t"
  shows "alloc_inv cf (insert iv D) t act ((spill (iv_vreg iv) a)\<lparr>al_assignment := (al_assignment a)[iv_vreg iv := p], al_active := act'\<rparr>)"
proof -
  note d = alloc_invD [OF inv]
  let ?a = "(spill (iv_vreg iv) a)\<lparr>al_assignment := (al_assignment a)[iv_vreg iv := p], al_active := act'\<rparr>"
  have ne: "iv_vreg x \<noteq> iv_vreg iv" if "x \<in> D" for x using that iv(2) by (metis image_eqI)
  have vn: "ae_vreg e \<noteq> iv_vreg iv" if "e \<in> set act" for e using d(5) [OF that] ne by (auto simp: entry_of_def)
  have asg: "al_assignment ?a ! v = (if v = iv_vreg iv then p else al_assignment a ! v)"
    and sp: "al_spilled ?a ! v \<longleftrightarrow> v = iv_vreg iv \<or> al_spilled a ! v" for v
    using iv(3) d(1) by (auto simp: spill_def nth_list_update)
  have "entry_of ?a (insert iv D) e" if "e \<in> set act" for e
    using d(5) [OF that] vn [OF that] unfolding entry_of_def asg sp by auto
  moreover have "inj_on iv_vreg (insert iv D)" using d(4) iv(2) by (simp add: image_iff)
  moreover have "al_spills ?a \<noteq> 0" "length (al_spilled ?a) = length (al_spilled a)" "length (al_assignment ?a) = length (al_assignment a)"
    by (simp_all add: spill_def)
  ultimately show ?thesis unfolding alloc_inv_def asg sp using d(1-3,6,7,8,9,10) iv(3,4) ne by auto
qed

lemma find_free_Some: "find_free used ps = Some (Some p) \<Longrightarrow> p \<in> set ps \<and> p < length used \<and> \<not> used ! p"
  by (induction ps) (auto split: if_splits)

lemma find_free_total: "\<forall>p \<in> set ps. p < length used \<Longrightarrow> find_free used ps \<noteq> None"
  by (induction ps) auto

lemma used_pregs_nth: "p < kLinearScanMaxPRegs \<Longrightarrow> used_pregs act ! p \<longleftrightarrow> p \<in> ae_preg ` set act"
  by (auto simp: used_pregs_def list_ex_iff image_iff)

lemma furthest_in: "furthest m es \<in> set (m # es)"
  by (induction es arbitrary: m) (simp_all, metis)

text \<open>One interval: at its start, whatever the registers of the active intervals are.\<close>

lemma alloc_step_inv:
  assumes inv: "alloc_inv cf D t (al_active a) a" and cf: "ac_num_gpr cf \<le> kLinearScanMaxPRegs" "ac_num_fpr cf \<le> kLinearScanMaxPRegs"
    and iv: "iv \<notin> D" "iv_vreg iv \<notin> iv_vreg ` D" "iv_vreg iv < length (al_spilled a)" "t \<le> iv_start iv"
  shows "\<exists>a'. alloc_step cf iv a = Some a' \<and> length (al_spilled a') = length (al_spilled a)
    \<and> alloc_inv cf (insert iv D) (iv_start iv) (al_active a') a'"
proof -
  let ?act = "filter (\<lambda>e. \<not> ae_end e \<le> iv_start iv) (al_active a)" and ?num = "if iv_rc iv = RC_Float then ac_num_fpr cf else ac_num_gpr cf"
    and ?floor = "if iv_spans_call iv then ac_callee_saved_from cf else 0"
  let ?u = "used_pregs ?act"
  have ulen: "length ?u = kLinearScanMaxPRegs" by (simp add: used_pregs_def)
  note ex = alloc_inv_expire [OF inv iv(4)]
  have "find_free ?u [?floor..<?num] \<noteq> None" by (rule find_free_total) (use cf in \<open>auto simp: ulen\<close>)
  then consider p where "find_free ?u [?floor..<?num] = Some (Some p)" | "find_free ?u [?floor..<?num] = Some None" by (cases "find_free ?u [?floor..<?num]") auto
  then show ?thesis
  proof cases
    case 1
    note f = find_free_Some [OF 1]
    have "p \<notin> ae_preg ` set ?act" using f ulen used_pregs_nth [of p ?act] by simp
    moreover have "within_class cf iv p" using f by (auto simp: within_class_def split: if_splits)
    ultimately have "alloc_inv cf (insert iv D) (iv_start iv) (al_active (take_preg iv p ?act a)) (take_preg iv p ?act a)"
      using alloc_inv_take [OF ex iv(1-3) refl, of p ?act] by (simp add: take_preg_def)
    with 1 show ?thesis by (simp add: alloc_step_def Let_def) (simp add: take_preg_def)
  next
    case none: 2
    have spill: "alloc_inv cf (insert iv D) (iv_start iv) ?act ((spill (iv_vreg iv) a)\<lparr>al_assignment := (al_assignment a)[iv_vreg iv := kNoPReg], al_active := ?act\<rparr>)"
      by (rule alloc_inv_spill [OF ex iv(1-3) refl])
    show ?thesis
    proof (cases ?act)
      case Nil
      with none spill show ?thesis by (simp add: alloc_step_def Let_def) (simp add: spill_def)
    next
      case (Cons e es)
      let ?m = "furthest e es"
      have m: "?m \<in> set ?act" unfolding Cons by (rule furthest_in)
      show ?thesis
      proof (cases "iv_end iv < ae_end ?m")
        case False
        with none spill Cons show ?thesis by (simp add: alloc_step_def Let_def) (simp add: spill_def)
      next
        case True
        have d: "distinct (map ae_preg ?act)" "distinct ?act" using alloc_invD(6,7) [OF ex] by (simp_all add: distinct_map)
        then have "ae_preg ?m \<notin> ae_preg ` set (remove1 ?m ?act)" using m by (auto simp: distinct_map inj_on_def)
        moreover have "al_spills (spill (ae_vreg ?m) a) \<noteq> 0" by (simp add: spill_def)
        moreover have "iv_vreg iv < length (al_spilled (spill (ae_vreg ?m) a))" using iv(3) by (simp add: spill_def)
        ultimately have "alloc_inv cf (insert iv D) (iv_start iv) (al_active (take_preg iv (ae_preg ?m) (remove1 ?m ?act) (spill (ae_vreg ?m) a)))
            (take_preg iv (ae_preg ?m) (remove1 ?m ?act) (spill (ae_vreg ?m) a))"
          using alloc_inv_take [OF alloc_inv_evict [OF ex m] iv(1,2) _ refl, of "ae_preg ?m" "remove1 ?m ?act"] by (simp add: take_preg_def)
        with none True Cons show ?thesis by (simp add: alloc_step_def Let_def) (simp add: take_preg_def spill_def)
      qed
    qed
  qed
qed

lemma alloc_loop_inv:
  assumes "alloc_inv cf D t (al_active a) a" "ac_num_gpr cf \<le> kLinearScanMaxPRegs" "ac_num_fpr cf \<le> kLinearScanMaxPRegs"
    and "sorted (map iv_start ivs)" "\<forall>iv \<in> set ivs. t \<le> iv_start iv \<and> iv_vreg iv < length (al_spilled a)"
    and "distinct (map iv_vreg ivs)" "iv_vreg ` set ivs \<inter> iv_vreg ` D = {}"
  shows "\<exists>a' t'. alloc_loop cf ivs a = Some a' \<and> alloc_inv cf (D \<union> set ivs) t' (al_active a') a'"
  using assms
proof (induction ivs arbitrary: D t a)
  case (Cons iv ivs)
  have new: "iv_vreg iv \<notin> iv_vreg ` D" "iv \<notin> D" using Cons.prems(7) by auto
  have p: "iv_vreg iv < length (al_spilled a)" "t \<le> iv_start iv" using Cons.prems(5) by simp_all
  from alloc_step_inv [OF Cons.prems(1-3) new(2,1) p] obtain a1 where a1: "alloc_step cf iv a = Some a1"
    "length (al_spilled a1) = length (al_spilled a)" "alloc_inv cf (insert iv D) (iv_start iv) (al_active a1) a1" by blast
  have "\<exists>a' t'. alloc_loop cf ivs a1 = Some a' \<and> alloc_inv cf (insert iv D \<union> set ivs) t' (al_active a') a'"
    by (rule Cons.IH [OF a1(3) Cons.prems(2,3)]) (use Cons.prems(4-7) a1(2) new in auto)
  with a1(1) show ?case by simp
qed auto

subsection \<open>The intervals cover the occurrences\<close>

definition occurs :: "machine_function \<Rightarrow> nat \<Rightarrow> vreg \<Rightarrow> bool" where
  "occurs mf i v \<longleftrightarrow> i < length (code_of mf) \<and> v \<in> set (defs_of (code_of mf ! i)) \<union> set (uses_of (code_of mf ! i))"

lemma fold_max_ge: "m \<le> fold max vs (m :: nat)"
  by (induction vs arbitrary: m) (auto intro: order_trans [OF max.cobounded2])

lemma fold_max_in: "v \<in> set vs \<Longrightarrow> v \<le> fold max vs (m :: nat)"
  by (induction vs arbitrary: m) (auto intro: order_trans [OF _ fold_max_ge])

lemma occurs_max: "occurs mf i v \<Longrightarrow> v \<le> max_vreg mf"
proof -
  let ?f = "\<lambda>mi m. fold max (uses_of mi) (fold max (defs_of mi) m)"
  have ge: "m \<le> fold ?f ms m" for ms m
    by (induction ms arbitrary: m) (auto intro: order_trans [OF order_trans [OF fold_max_ge fold_max_ge]])
  have "mi \<in> set ms \<Longrightarrow> v \<in> set (defs_of mi) \<union> set (uses_of mi) \<Longrightarrow> v \<le> fold ?f ms m" for mi ms m
  proof (induction ms arbitrary: m)
    case (Cons k ms)
    have "v \<le> ?f k m" if "v \<in> set (defs_of k) \<union> set (uses_of k)"
      using that by (auto intro: fold_max_in order_trans [OF fold_max_in fold_max_ge])
    with Cons ge [of "?f k m" ms] show ?case by fastforce
  qed simp
  then show "occurs mf i v \<Longrightarrow> v \<le> max_vreg mf" unfolding occurs_def max_vreg_def by (meson nth_mem)
qed

definition scan_ok :: "nat \<Rightarrow> nat \<Rightarrow> scan \<Rightarrow> (nat \<times> vreg) set \<Rightarrow> bool" where
  "scan_ok n i s Q \<longleftrightarrow> length (sc_first s) = n \<and> length (sc_last s) = n
     \<and> (\<forall>j v. (j, v) \<in> Q \<longrightarrow> v < n \<and> j \<le> i \<and> sc_first s ! v \<le> j \<and> j \<le> sc_last s ! v)
     \<and> (\<forall>v < n. sc_first s ! v = kNever \<or> (sc_first s ! v, v) \<in> Q)"

lemma scan_reg_ok:
  assumes "scan_ok n i s Q" "i < kNever" "v \<noteq> kInvalidVReg \<Longrightarrow> v < n"
  shows "scan_ok n i (scan_reg i c v s) (Q \<union> {(i, w) |w. w = v \<and> v \<noteq> kInvalidVReg})"
proof (cases "v = kInvalidVReg")
  case True
  then show ?thesis using assms(1) by (simp add: scan_reg_def)
next
  case False
  then have v: "v < n" by (rule assms(3))
  have o: "\<And>j w. (j, w) \<in> Q \<Longrightarrow> w < n \<and> j \<le> i \<and> sc_first s ! w \<le> j \<and> j \<le> sc_last s ! w"
    and f: "\<And>w. w < n \<Longrightarrow> sc_first s ! w = kNever \<or> (sc_first s ! w, w) \<in> Q"
    and len: "length (sc_first s) = n" "length (sc_last s) = n" using assms(1) by (simp_all add: scan_ok_def)
  have fst: "sc_first (scan_reg i c v s) ! w = (if w = v \<and> sc_first s ! v = kNever then i else sc_first s ! w)" for w
    using False v len by (simp add: scan_reg_def nth_list_update)
  have lst: "sc_last (scan_reg i c v s) ! w = (if w = v then i else sc_last s ! w)" for w
    using False v len by (simp add: scan_reg_def nth_list_update)
  have "sc_first (scan_reg i c v s) ! v \<le> i" using f [OF v] o assms(2) by (auto simp: fst)
  moreover have "sc_first s ! w \<noteq> kNever" if "(j, w) \<in> Q" for j w using o [OF that] assms(2) by auto
  ultimately have a: "w < n \<and> j \<le> i \<and> sc_first (scan_reg i c v s) ! w \<le> j \<and> j \<le> sc_last (scan_reg i c v s) ! w"
    if "(j, w) \<in> Q \<or> (j = i \<and> w = v)" for j w
    using that o [of j w] v by (auto simp: fst lst)
  have b: "sc_first (scan_reg i c v s) ! w = kNever \<or> (sc_first (scan_reg i c v s) ! w, w) \<in> Q \<union> {(i, w) |w. w = v \<and> v \<noteq> kInvalidVReg}"
    if "w < n" for w
    using f [OF that] False by (cases "w = v \<and> sc_first s ! v = kNever") (auto simp: fst)
  have "length (sc_first (scan_reg i c v s)) = n" "length (sc_last (scan_reg i c v s)) = n" using len by (simp_all add: scan_reg_def)
  with a b show ?thesis unfolding scan_ok_def by blast
qed

lemma scan_regs_ok:
  "scan_ok n i s Q \<Longrightarrow> i < kNever \<Longrightarrow> \<forall>v \<in> set (valid_regs vs). v < n
    \<Longrightarrow> scan_ok n i (fold (scan_reg i c) vs s) (Q \<union> {(i, v) |v. v \<in> set (valid_regs vs)})"
proof (induction vs arbitrary: s Q)
  case (Cons v vs)
  have "scan_ok n i (fold (scan_reg i c) vs (scan_reg i c v s)) ((Q \<union> {(i, w) |w. w = v \<and> v \<noteq> kInvalidVReg}) \<union> {(i, v) |v. v \<in> set (valid_regs vs)})"
    by (rule Cons.IH [OF scan_reg_ok [OF Cons.prems(1,2)] Cons.prems(2)]) (use Cons.prems(3) in auto)
  moreover have "(Q \<union> {(i, w) |w. w = v \<and> v \<noteq> kInvalidVReg}) \<union> {(i, v) |v. v \<in> set (valid_regs vs)} = Q \<union> {(i, u) |u. u \<in> set (valid_regs (v # vs))}" by auto
  ultimately show ?case by simp
qed simp

lemma scan_ok_mono: "scan_ok n i s Q \<Longrightarrow> i \<le> j \<Longrightarrow> scan_ok n j s Q"
  unfolding scan_ok_def by (meson order_trans)

lemma scan_instrs_ok:
  "scan_ok n i s Q \<Longrightarrow> i + length ms < kNever \<Longrightarrow> \<forall>mi \<in> set ms. \<forall>v \<in> set (defs_of mi) \<union> set (uses_of mi). v < n
    \<Longrightarrow> scan_ok n (i + length ms) (scan_instrs i ms s)
          (Q \<union> {(i + k, v) |k v. k < length ms \<and> v \<in> set (defs_of (ms ! k)) \<union> set (uses_of (ms ! k))})"
proof (induction ms arbitrary: i s Q)
  case (Cons mi ms)
  let ?Q = "Q \<union> {(i, v) |v. v \<in> set (defs_of mi)} \<union> {(i, v) |v. v \<in> set (uses_of mi)}"
  have lt: "i < kNever" using Cons.prems(2) by simp
  have "scan_ok n i (fold (scan_reg i (mi_rc mi)) (mi_defs mi) s) (Q \<union> {(i, v) |v. v \<in> set (defs_of mi)})"
    unfolding defs_of_def by (rule scan_regs_ok [OF Cons.prems(1) lt]) (use Cons.prems(3) in \<open>simp add: defs_of_def\<close>)
  then have "scan_ok n i (fold (scan_reg i (mi_rc mi)) (mi_uses mi) (fold (scan_reg i (mi_rc mi)) (mi_defs mi) s)) ?Q"
    unfolding uses_of_def by (rule scan_regs_ok [OF _ lt]) (use Cons.prems(3) in \<open>simp add: uses_of_def\<close>)
  from scan_ok_mono [OF this, of "i + 1"]
  have "scan_ok n (i + 1 + length ms) (scan_instrs i (mi # ms) s)
      (?Q \<union> {(i + 1 + k, v) |k v. k < length ms \<and> v \<in> set (defs_of (ms ! k)) \<union> set (uses_of (ms ! k))})"
    unfolding scan_instrs.simps by (rule Cons.IH) (use Cons.prems(2,3) in auto)
  moreover have "?Q \<union> {(i + 1 + k, v) |k v. k < length ms \<and> v \<in> set (defs_of (ms ! k)) \<union> set (uses_of (ms ! k))}
    = Q \<union> {(i + k, v) |k v. k < length (mi # ms) \<and> v \<in> set (defs_of ((mi # ms) ! k)) \<union> set (uses_of ((mi # ms) ! k))}" (is "?l = ?r")
  proof
    show "?l \<subseteq> ?r"
    proof (intro subsetI)
      fix x assume "x \<in> ?l"
      then consider "x \<in> Q" | v where "x = (i, v)" "v \<in> set (defs_of mi) \<union> set (uses_of mi)"
        | k v where "x = (i + Suc k, v)" "k < length ms" "v \<in> set (defs_of (ms ! k)) \<union> set (uses_of (ms ! k))" by fastforce
      then show "x \<in> ?r"
      proof cases
        case 2
        then have "x = (i + 0, v) \<and> 0 < length (mi # ms) \<and> v \<in> set (defs_of ((mi # ms) ! 0)) \<union> set (uses_of ((mi # ms) ! 0))" by simp
        then show ?thesis by blast
      next
        case 3
        then have "x = (i + Suc k, v) \<and> Suc k < length (mi # ms) \<and> v \<in> set (defs_of ((mi # ms) ! Suc k)) \<union> set (uses_of ((mi # ms) ! Suc k))" by simp
        then show ?thesis by blast
      qed simp
    qed
    show "?r \<subseteq> ?l"
    proof (intro subsetI)
      fix x assume "x \<in> ?r"
      then consider "x \<in> Q" | k v where "x = (i + k, v)" "k < length (mi # ms)" "v \<in> set (defs_of ((mi # ms) ! k)) \<union> set (uses_of ((mi # ms) ! k))" by blast
      then show "x \<in> ?l"
      proof cases
        case (2 k v)
        then show ?thesis by (cases k) auto
      qed simp
    qed
  qed
  ultimately show ?case by simp
qed simp

text \<open>The widening of the spans in the order of their heads.\<close>

definition span_kept :: "scan \<Rightarrow> nat \<times> nat \<Rightarrow> bool" where
  "span_kept s p \<longleftrightarrow> (\<forall>v < length (sc_last s). sc_first s ! v \<noteq> kNever \<longrightarrow> sc_first s ! v < fst p \<longrightarrow> fst p \<le> sc_last s ! v \<longrightarrow> snd p \<le> sc_last s ! v)"

lemma widen_simps [simp]:
  "sc_first (widen p s) = sc_first s" "length (sc_last (widen p s)) = length (sc_last s)"
  "v < length (sc_last s) \<Longrightarrow> sc_last (widen p s) ! v =
     (if sc_first s ! v \<noteq> kNever \<and> sc_first s ! v < fst p \<and> fst p \<le> sc_last s ! v \<and> sc_last s ! v < snd p then snd p else sc_last s ! v)"
  by (simp_all add: widen_def split: prod.splits)

lemma widen_kept: "span_kept (widen p s) p"
  by (auto simp: span_kept_def)

lemma widen_keeps: "span_kept s p \<Longrightarrow> fst p \<le> fst q \<Longrightarrow> span_kept (widen q s) p"
  by (fastforce simp: span_kept_def)

lemma fold_widen:
  "sc_first (fold widen ps s) = sc_first s" "length (sc_last (fold widen ps s)) = length (sc_last s)"
  by (induction ps arbitrary: s) simp_all

lemma fold_widen_last: "v < length (sc_last s) \<Longrightarrow> sc_last s ! v \<le> sc_last (fold widen ps s) ! v"
proof (induction ps arbitrary: s)
  case (Cons p ps)
  have "sc_last s ! v \<le> sc_last (widen p s) ! v" using Cons.prems by simp
  with Cons.IH [of "widen p s"] Cons.prems show ?case by simp
qed simp

lemma fold_widen_keeps: "span_kept s p \<Longrightarrow> \<forall>q \<in> set ps. fst p \<le> fst q \<Longrightarrow> span_kept (fold widen ps s) p"
  by (induction ps arbitrary: s) (simp_all add: widen_keeps)

lemma fold_widen_kept: "sorted (map fst ps) \<Longrightarrow> p \<in> set ps \<Longrightarrow> span_kept (fold widen ps s) p"
proof (induction ps arbitrary: s)
  case (Cons q ps)
  show ?case
  proof (cases "p = q")
    case True
    then show ?thesis using fold_widen_keeps [where s = "widen q s" and p = q and ps = ps] widen_kept [of q s] Cons.prems(1) by simp
  qed (use Cons in simp)
qed simp

lemma loop_spans_Cons:
  obtains ps where "loop_spans i (mi # ms) = ps @ loop_spans (i + 1) ms" "ps = [] \<or> (\<exists>j. ps = [(i, j)])"
  by (cases "mi_has_imm mi \<and> mi_op mi = ''label''"; cases "back_jump (mi_imm mi) (i + 1) ms") simp_all

lemma loop_spans_ge: "\<forall>p \<in> set (loop_spans i ms). i \<le> fst p"
proof (induction ms arbitrary: i)
  case (Cons mi ms)
  obtain ps where ps: "loop_spans i (mi # ms) = ps @ loop_spans (i + 1) ms" "ps = [] \<or> (\<exists>j. ps = [(i, j)])" by (rule loop_spans_Cons)
  show ?case unfolding ps(1) using ps(2) Cons.IH [of "i + 1"] by auto
qed simp

lemma loop_spans_sorted: "sorted (map fst (loop_spans i ms))"
proof (induction ms arbitrary: i)
  case (Cons mi ms)
  obtain ps where ps: "loop_spans i (mi # ms) = ps @ loop_spans (i + 1) ms" "ps = [] \<or> (\<exists>j. ps = [(i, j)])" by (rule loop_spans_Cons)
  show ?case unfolding ps(1) using ps(2) Cons.IH [of "i + 1"] loop_spans_ge [of "i + 1" ms] by (auto simp: sorted_append)
qed simp

lemma scan_of_facts:
  assumes len: "length (code_of mf) < kNever"
  shows "length (sc_first (scan_of mf)) = max_vreg mf + 1" "length (sc_last (scan_of mf)) = max_vreg mf + 1"
    and "occurs mf i v \<Longrightarrow> v \<le> max_vreg mf" "occurs mf i v \<Longrightarrow> sc_first (scan_of mf) ! v \<le> i" "occurs mf i v \<Longrightarrow> i \<le> sc_last (scan_of mf) ! v"
    and "v \<le> max_vreg mf \<Longrightarrow> sc_first (scan_of mf) ! v \<noteq> kNever \<Longrightarrow> occurs mf (sc_first (scan_of mf) ! v) v"
    and "(h, t) \<in> set (loop_spans 0 (code_of mf)) \<Longrightarrow> v \<le> max_vreg mf \<Longrightarrow> sc_first (scan_of mf) ! v \<noteq> kNever
      \<Longrightarrow> sc_first (scan_of mf) ! v < h \<Longrightarrow> h \<le> sc_last (scan_of mf) ! v \<Longrightarrow> t \<le> sc_last (scan_of mf) ! v"
proof -
  let ?n = "max_vreg mf + 1" and ?c = "code_of mf"
  let ?i = "\<lparr>sc_first = replicate ?n kNever, sc_last = replicate ?n 0, sc_class = replicate ?n RC_General\<rparr>"
  let ?s = "scan_instrs 0 ?c ?i"
  have q: "{(0 + k, v) |k v. k < length ?c \<and> v \<in> set (defs_of (?c ! k)) \<union> set (uses_of (?c ! k))} = {(k, v). occurs mf k v}"
    by (auto simp: occurs_def)
  have "scan_ok ?n 0 ?i {}" by (simp add: scan_ok_def nth_Cons split: nat.splits)
  moreover have "v < ?n" if "mi \<in> set ?c" "v \<in> set (defs_of mi) \<union> set (uses_of mi)" for mi v
  proof -
    from that obtain k where "k < length ?c" "?c ! k = mi" by (meson in_set_conv_nth)
    then show ?thesis using occurs_max [of mf k v] that(2) by (auto simp: occurs_def)
  qed
  ultimately have "scan_ok ?n (0 + length ?c) ?s ({} \<union> {(0 + k, v) |k v. k < length ?c \<and> v \<in> set (defs_of (?c ! k)) \<union> set (uses_of (?c ! k))})"
    by (intro scan_instrs_ok) (use len in auto)
  then have ok: "scan_ok ?n (length ?c) ?s {(k, v). occurs mf k v}" unfolding q by simp
  have sf: "scan_of mf = fold widen (loop_spans 0 ?c) ?s" by (simp add: scan_of_def Let_def)
  have l: "length (sc_first ?s) = ?n" "length (sc_last ?s) = ?n" using ok by (simp_all add: scan_ok_def)
  show len': "length (sc_first (scan_of mf)) = ?n" "length (sc_last (scan_of mf)) = ?n" using l by (simp_all add: sf fold_widen)
  show "occurs mf i v \<Longrightarrow> v \<le> max_vreg mf" by (rule occurs_max)
  show "occurs mf i v \<Longrightarrow> sc_first (scan_of mf) ! v \<le> i" using ok by (auto simp: sf fold_widen scan_ok_def)
  show "i \<le> sc_last (scan_of mf) ! v" if "occurs mf i v"
  proof -
    have "v < ?n" "i \<le> sc_last ?s ! v" using ok that by (auto simp: scan_ok_def)
    then show ?thesis using fold_widen_last [of v ?s "loop_spans 0 ?c"] l by (simp add: sf)
  qed
  show "v \<le> max_vreg mf \<Longrightarrow> sc_first (scan_of mf) ! v \<noteq> kNever \<Longrightarrow> occurs mf (sc_first (scan_of mf) ! v) v"
    using ok by (auto simp: sf fold_widen scan_ok_def less_Suc_eq_le)
  show "t \<le> sc_last (scan_of mf) ! v" if "(h, t) \<in> set (loop_spans 0 ?c)" "v \<le> max_vreg mf" "sc_first (scan_of mf) ! v \<noteq> kNever"
      "sc_first (scan_of mf) ! v < h" "h \<le> sc_last (scan_of mf) ! v"
  proof -
    have "span_kept (scan_of mf) (h, t)" unfolding sf by (rule fold_widen_kept [OF loop_spans_sorted that(1)])
    then show ?thesis using that(2-5) len'(2) by (simp add: span_kept_def)
  qed
qed

lemma compute_intervals_distinct: "distinct (map iv_vreg (compute_intervals mf))"
  by (simp add: compute_intervals_def Let_def o_def)

lemma compute_intervals_vreg: "v \<in> iv_vreg ` set (compute_intervals mf) \<longleftrightarrow> v \<le> max_vreg mf \<and> sc_first (scan_of mf) ! v \<noteq> kNever"
  by (auto simp: compute_intervals_def Let_def image_iff le_less)

subsection \<open>The result of the allocator\<close>

lemma allocate_inv:
  assumes "ac_num_gpr cf \<le> kLinearScanMaxPRegs" "ac_num_fpr cf \<le> kLinearScanMaxPRegs"
  obtains a t where "allocate cf mf = Some a" "alloc_inv cf (set (compute_intervals mf)) t (al_active a) a"
proof -
  let ?k = "\<lambda>iv. (iv_start iv, iv_end iv)"
  let ?ivs = "sort_key ?k (compute_intervals mf)"
  have mx: "iv \<in> set ivs \<Longrightarrow> iv_vreg iv \<le> fold (\<lambda>iv m. max m (iv_vreg iv)) ivs m" for iv ivs m
  proof -
    have "fold (\<lambda>iv m. max m (iv_vreg iv)) ivs m = fold max (map iv_vreg ivs) m" by (induction ivs arbitrary: m) (simp_all add: max.commute)
    then show "iv \<in> set ivs \<Longrightarrow> ?thesis" by (simp add: fold_max_in)
  qed
  have "sorted (map ?k ?ivs)" by simp
  then have "sorted (map iv_start ?ivs)" unfolding sorted_map
    by (rule sorted_wrt_mono_rel [rotated]) (auto simp: less_eq_prod_def)
  moreover have "distinct (map iv_vreg ?ivs)" using compute_intervals_distinct by (simp add: distinct_map)
  moreover have "\<forall>iv \<in> set ?ivs. 0 \<le> iv_start iv \<and> iv_vreg iv < length (al_spilled (alloc_init ?ivs))"
    using mx [of _ ?ivs 0] by (auto simp: alloc_init_def Let_def less_Suc_eq_le)
  moreover have "alloc_inv cf {} 0 (al_active (alloc_init ?ivs)) (alloc_init ?ivs)"
    by (simp add: alloc_inv_def alloc_init_def Let_def nth_Cons split: nat.splits)
  ultimately obtain a t where "alloc_loop cf ?ivs (alloc_init ?ivs) = Some a" "alloc_inv cf ({} \<union> set ?ivs) t (al_active a) a"
    using alloc_loop_inv [of cf "{}" 0 "alloc_init ?ivs" ?ivs] assms by fastforce
  then show thesis by (intro that [of a t]) (simp_all add: allocate_def Let_def)
qed

text \<open>
  C11. The allocator returns; two registers whose intervals overlap and that are not spilled have
  different physical registers; and when nothing is spilled each register has one of its class, and
  one that a call preserves if its interval spans a call.
\<close>

theorem linear_scan_disjoint:
  assumes "ac_num_gpr cf \<le> kLinearScanMaxPRegs" "ac_num_fpr cf \<le> kLinearScanMaxPRegs"
  shows "\<exists>a. allocate cf mf = Some a
    \<and> (\<forall>x \<in> set (compute_intervals mf). \<forall>y \<in> set (compute_intervals mf). iv_vreg x \<noteq> iv_vreg y \<longrightarrow> overlap x y \<longrightarrow>
        \<not> is_spilled a (iv_vreg x) \<longrightarrow> \<not> is_spilled a (iv_vreg y) \<longrightarrow> assignment_of a (iv_vreg x) \<noteq> assignment_of a (iv_vreg y))
    \<and> (al_spills a = 0 \<longrightarrow> (\<forall>x \<in> set (compute_intervals mf). \<not> is_spilled a (iv_vreg x) \<and> within_class cf x (assignment_of a (iv_vreg x))))"
proof -
  obtain a t where a: "allocate cf mf = Some a" "alloc_inv cf (set (compute_intervals mf)) t (al_active a) a" by (rule allocate_inv [OF assms])
  note d = alloc_invD [OF a(2)]
  have "assignment_of a (iv_vreg x) = al_assignment a ! iv_vreg x" "is_spilled a (iv_vreg x) = al_spilled a ! iv_vreg x"
    if "x \<in> set (compute_intervals mf)" for x
    using d(1) d(2) [OF that] by (simp_all add: assignment_of_def is_spilled_def)
  with a(1) d(9,11) show ?thesis by (intro exI [of _ a]) auto
qed

subsection \<open>The intervals cover liveness\<close>

definition defined_before_use :: "machine_function \<Rightarrow> bool" where
  "defined_before_use mf \<longleftrightarrow> (\<forall>i v. live mf i v \<longrightarrow> (\<exists>j < i. occurs mf j v))"

definition back_edges_ok :: "machine_function \<Rightarrow> bool" where
  "back_edges_ok mf \<longleftrightarrow> list_all (\<lambda>i. list_all (\<lambda>t. t \<le> i \<longrightarrow> (t, i) \<in> set (loop_spans 0 (code_of mf))) (succs mf i)) [0..<length (code_of mf)]"

definition interval :: "machine_function \<Rightarrow> vreg \<Rightarrow> live_interval" where
  "interval mf v = (let s = scan_of mf in
     \<lparr>iv_vreg = v, iv_rc = sc_class s ! v, iv_start = sc_first s ! v, iv_end = sc_last s ! v + 1, iv_spans_call = spans_call mf s v\<rparr>)"

lemma interval_simps [simp]: "iv_vreg (interval mf v) = v" "iv_start (interval mf v) = sc_first (scan_of mf) ! v"
  "iv_end (interval mf v) = sc_last (scan_of mf) ! v + 1" "iv_spans_call (interval mf v) = spans_call mf (scan_of mf) v"
  by (simp_all add: interval_def Let_def)

lemma interval_in: "v \<le> max_vreg mf \<Longrightarrow> sc_first (scan_of mf) ! v \<noteq> kNever \<Longrightarrow> interval mf v \<in> set (compute_intervals mf)"
  by (auto simp: compute_intervals_def interval_def Let_def le_less)

lemma live_lt: "live mf i v \<Longrightarrow> i < length (code_of mf)"
  by (erule live.cases) auto

lemma interval_covers:
  assumes len: "length (code_of mf) < kNever" and d: "defined_before_use mf" and b: "back_edges_ok mf"
  shows "live mf i v \<Longrightarrow> v \<le> max_vreg mf \<and> sc_first (scan_of mf) ! v < i \<and> i \<le> sc_last (scan_of mf) ! v"
proof (induction rule: live.induct)
  case (use i v)
  note f = scan_of_facts [OF len]
  have "live mf i v" using use by (rule live.use)
  then obtain j where j: "j < i" "occurs mf j v" using d unfolding defined_before_use_def by blast
  have "occurs mf i v" using use by (simp add: occurs_def)
  with f(3,4,5) j show ?case by (meson le_less_trans)
next
  case (flow i t v)
  note f = scan_of_facts [OF len]
  have "live mf i v" using flow(1-4) by (rule live.flow)
  then obtain j where j: "j < i" "occurs mf j v" using d unfolding defined_before_use_def by blast
  have lt: "sc_first (scan_of mf) ! v < i" using f(4) [OF j(2)] j(1) by simp
  have "i \<le> sc_last (scan_of mf) ! v"
  proof (cases "t \<le> i")
    case True
    then have "(t, i) \<in> set (loop_spans 0 (code_of mf))" using b flow(1,2) by (auto simp: back_edges_ok_def list_all_iff)
    from f(7) [OF this] flow.IH lt len flow(1) show ?thesis by simp
  qed (use flow.IH in simp)
  with lt flow.IH show ?case by simp
qed

text \<open>What the allocation of a function without spills guarantees.\<close>

definition allocated :: "alloc_config \<Rightarrow> machine_function \<Rightarrow> allocation \<Rightarrow> bool" where
  "allocated cf mf a \<longleftrightarrow> allocate cf mf = Some a \<and> al_spills a = 0 \<and> ac_num_gpr cf \<le> kLinearScanMaxPRegs \<and> ac_num_fpr cf \<le> kLinearScanMaxPRegs"

lemma allocated_intervals:
  assumes "allocated cf mf a" "x \<in> set (compute_intervals mf)"
  shows "within_class cf x (assignment_of a (iv_vreg x))" "\<not> is_spilled a (iv_vreg x)"
    and "y \<in> set (compute_intervals mf) \<Longrightarrow> iv_vreg x \<noteq> iv_vreg y \<Longrightarrow> overlap x y \<Longrightarrow> assignment_of a (iv_vreg x) \<noteq> assignment_of a (iv_vreg y)"
proof -
  have a: "allocate cf mf = Some a" "al_spills a = 0" and n: "ac_num_gpr cf \<le> kLinearScanMaxPRegs" "ac_num_fpr cf \<le> kLinearScanMaxPRegs"
    using assms(1) by (simp_all add: allocated_def)
  obtain a' t where "allocate cf mf = Some a'" "alloc_inv cf (set (compute_intervals mf)) t (al_active a') a'" by (rule allocate_inv [OF n])
  with a(1) have "alloc_inv cf (set (compute_intervals mf)) t (al_active a) a" by simp
  note d = alloc_invD [OF this]
  have e: "assignment_of a (iv_vreg x) = al_assignment a ! iv_vreg x" "is_spilled a (iv_vreg x) = al_spilled a ! iv_vreg x"
    if "x \<in> set (compute_intervals mf)" for x
    using d(1) d(2) [OF that] by (simp_all add: assignment_of_def is_spilled_def)
  show "within_class cf x (assignment_of a (iv_vreg x))" "\<not> is_spilled a (iv_vreg x)" using d(11) [OF a(2) assms(2)] by (simp_all add: e assms(2))
  assume y: "y \<in> set (compute_intervals mf)" "iv_vreg x \<noteq> iv_vreg y" "overlap x y"
  have ne: "x \<noteq> y" using y(2) by auto
  from d(9) [OF assms(2) y(1) ne y(3)] d(11) [OF a(2)] assms(2) y(1)
  show "assignment_of a (iv_vreg x) \<noteq> assignment_of a (iv_vreg y)" by (simp add: e)
qed

lemma allocated_separate:
  assumes len: "length (code_of mf) < kNever" and d: "defined_before_use mf" and b: "back_edges_ok mf" and al: "allocated cf mf a"
    and v: "live mf i v" and w: "w \<in> set (defs_of (code_of mf ! i))" "v \<noteq> w"
  shows "assignment_of a v \<noteq> assignment_of a w"
proof -
  note f = scan_of_facts [OF len] and c = interval_covers [OF len d b v]
  have i: "i < length (code_of mf)" by (rule live_lt [OF v])
  have o: "occurs mf i w" using i w(1) by (simp add: occurs_def)
  have "interval mf v \<in> set (compute_intervals mf)" using c i len by (intro interval_in) simp_all
  moreover have "interval mf w \<in> set (compute_intervals mf)" using f(3,4) [OF o] i len by (intro interval_in) simp_all
  moreover have "overlap (interval mf v) (interval mf w)" using c f(4,5) [OF o] by (simp add: overlap_def)
  ultimately show ?thesis using allocated_intervals(3) [OF al, of "interval mf v" "interval mf w"] w(2) by simp
qed

lemma allocated_preserved:
  assumes len: "length (code_of mf) < kNever" and d: "defined_before_use mf" and b: "back_edges_ok mf" and al: "allocated cf mf a"
    and v: "live mf i v" "live mf (i + 1) v" and call: "mi_op (code_of mf ! i) = ''call''"
  shows "ac_callee_saved_from cf \<le> assignment_of a v"
proof -
  note c = interval_covers [OF len d b v(1)] interval_covers [OF len d b v(2)]
  have i: "i < length (code_of mf)" by (rule live_lt [OF v(1)])
  have "interval mf v \<in> set (compute_intervals mf)" using c i len by (intro interval_in) simp_all
  moreover have "spans_call mf (scan_of mf) v" unfolding spans_call_def list_ex_iff
    by (rule bexI [of _ i]) (use c call i in auto)
  ultimately show ?thesis using allocated_intervals(1) [OF al, of "interval mf v"] by (simp add: within_class_def)
qed

definition agree :: "machine_function \<Rightarrow> (vreg \<Rightarrow> nat) \<Rightarrow> nat \<Rightarrow> (nat \<Rightarrow> 'v) \<Rightarrow> (nat \<Rightarrow> 'v) \<Rightarrow> bool" where
  "agree mf \<rho> i R R' \<longleftrightarrow> (\<forall>v. live mf i v \<longrightarrow> R' (\<rho> v) = R v)"

text \<open>One step of the two machines.\<close>

fun steps_alike :: "machine_function \<Rightarrow> (vreg \<Rightarrow> nat) \<Rightarrow> 'v outcome \<Rightarrow> 'v outcome \<Rightarrow> bool" where
  "steps_alike mf \<rho> (Going i R) (Going j R') \<longleftrightarrow> i = j \<and> agree mf \<rho> i R R'"
| "steps_alike mf \<rho> x y \<longleftrightarrow> x = y"

lemma step_alike:
  assumes len: "length (code_of mf) < kNever" and d: "defined_before_use mf" and b: "back_edges_ok mf" and al: "allocated cf mf a"
    and sh: "list_all shaped (code_of mf)" and clob: "\<forall>p. clob p \<longrightarrow> p < ac_callee_saved_from cf" and ag: "agree mf (assignment_of a) i R R'"
  shows "steps_alike mf (assignment_of a) (mstep M (\<lambda>_. False) hv mf (\<lambda>v. v) i R) (mstep M clob hv' mf (assignment_of a) i R')"
proof (cases "i < length (code_of mf)")
  case False
  then show ?thesis by (simp add: mstep_def)
next
  case True
  let ?mi = "code_of mf ! i" and ?\<rho> = "assignment_of a"
  let ?u = "mi_uses ?mi ! 0" and ?d = "mi_defs ?mi ! 0"
  have s: "shaped ?mi" using sh True by (simp add: list_all_length)
  have use: "R' (?\<rho> u) = R u" if "u \<in> set (uses_of ?mi)" for u using ag live.use [OF True that] by (simp add: agree_def)
  have uses: "map (\<lambda>u. R' (?\<rho> u)) (uses_of ?mi) = map R (uses_of ?mi)" using use by simp
  have pass: "agree mf ?\<rho> t R R'" if "t \<in> set (succs mf i)" "defs_of ?mi = []" for t
    unfolding agree_def using ag live.flow [OF True that(1)] that(2) by (auto simp: agree_def)
  have def: "agree mf ?\<rho> (i + 1) (R(?d := r)) (R''(?\<rho> ?d := r))"
    if ds: "defs_of ?mi = [?d]" and sc: "i + 1 \<in> set (succs mf i)" and R'': "\<And>v. live mf i v \<Longrightarrow> live mf (i + 1) v \<Longrightarrow> R'' (?\<rho> v) = R' (?\<rho> v)" for r R''
  proof -
    have "(R''(?\<rho> ?d := r)) (?\<rho> v) = (R(?d := r)) v" if v: "live mf (i + 1) v" for v
    proof (cases "v = ?d")
      case False
      then have lv: "live mf i v" using live.flow [OF True sc v] ds by simp
      have "?\<rho> v \<noteq> ?\<rho> ?d" by (rule allocated_separate [OF len d b al lv]) (use ds False in simp_all)
      then show ?thesis using False R'' [OF lv v] ag lv by (simp add: agree_def)
    qed simp
    then show ?thesis by (simp add: agree_def)
  qed
  consider "mi_op ?mi = ''ret''" | "mi_op ?mi = ''label''" | "mi_op ?mi = ''jmp''" | "mi_op ?mi = ''jz''" | "mi_op ?mi = ''load'' \<or> mi_op ?mi = ''store''"
    | "mi_op ?mi = ''call''" | "mi_op ?mi \<notin> {''ret'', ''label'', ''jmp'', ''jz'', ''load'', ''store'', ''call''}" by blast
  then show ?thesis
  proof cases
    case 1
    then show ?thesis using True use [OF shapedD(2) [OF s]] by (simp add: mstep_def Let_def)
  next
    case 2
    then have "agree mf ?\<rho> (i + 1) R R'" using shapedD(1) [OF s] by (intro pass) (simp_all add: succs_def Let_def)
    with 2 True show ?thesis by (simp add: mstep_def Let_def)
  next
    case 3
    then have "agree mf ?\<rho> t R R'" if "label_index mf (mi_imm ?mi) = Some t" for t
      using shapedD(1) [OF s] that by (intro pass) (simp_all add: succs_def Let_def)
    with 3 True show ?thesis by (simp add: mstep_def Let_def split: option.split)
  next
    case 4
    then have "agree mf ?\<rho> t R R'" if "label_index mf (mi_imm ?mi) = Some t" for t
      using shapedD(1) [OF s] that by (intro pass) (simp_all add: succs_def Let_def)
    moreover have "agree mf ?\<rho> (i + 1) R R'" using 4 shapedD(1) [OF s] by (intro pass) (simp_all add: succs_def Let_def)
    ultimately show ?thesis using 4 True use [OF shapedD(2) [OF s]] by (simp add: mstep_def Let_def split: option.split)
  next
    case 5
    with True show ?thesis by (auto simp: mstep_def Let_def)
  next
    case 6
    have "agree mf ?\<rho> (i + 1) (R(?d := r)) ((\<lambda>p. if clob p then hv' p else R' p)(?\<rho> ?d := r))" for r
    proof (rule def)
      fix v assume "live mf i v" "live mf (i + 1) v"
      from allocated_preserved [OF len d b al this 6] clob have "\<not> clob (?\<rho> v)" by fastforce
      then show "(if clob (?\<rho> v) then hv' (?\<rho> v) else R' (?\<rho> v)) = R' (?\<rho> v)" by simp
    qed (use 6 shapedD(1) [OF s] in \<open>simp_all add: succs_def Let_def\<close>)
    with 6 True show ?thesis by (simp add: mstep_def Let_def uses split: option.split)
  next
    case 7
    then have "agree mf ?\<rho> (i + 1) (R(?d := r)) (R'(?\<rho> ?d := r))" for r
      by (intro def) (use shapedD(1) [OF s] in \<open>auto simp: succs_def Let_def\<close>)
    with 7 True show ?thesis by (simp add: mstep_def Let_def uses split: option.split)
  qed
qed

text \<open>
  C2. The code on physical registers does what the code on virtual registers does, step for
  step: it returns the same value, gets stuck at the same instruction or runs on. The allocator must have spilled
  nothing, every register must be defined, in the order of the text, before it is live, a jump back must be the loop's own, and
  a call clobbers only registers below the first callee-saved one, with any values.
\<close>

theorem allocation_correct:
  assumes "allocated cf mf a" "list_all shaped (code_of mf)" "length (code_of mf) < kNever"
    and "defined_before_use mf" "back_edges_ok mf" "\<forall>p. clob p \<longrightarrow> p < ac_callee_saved_from cf"
  shows "mrun M clob hv mf (assignment_of a) n 0 R' = mrun M (\<lambda>_. False) hv mf (\<lambda>v. v) n 0 R"
proof -
  have "mrun M clob hv mf (assignment_of a) n i R' = mrun M (\<lambda>_. False) hv mf (\<lambda>v. v) n i R" if "agree mf (assignment_of a) i R R'" for n i R R'
    using that
  proof (induction n arbitrary: i R R')
    case (Suc n)
    have "steps_alike mf (assignment_of a) (mstep M (\<lambda>_. False) (hv n) mf (\<lambda>v. v) i R) (mstep M clob (hv n) mf (assignment_of a) i R')"
      by (rule step_alike [OF assms(3-5,1,2,6) Suc.prems])
    then show ?case using Suc.IH
      by (cases "mstep M (\<lambda>_. False) (hv n) mf (\<lambda>v. v) i R"; cases "mstep M clob (hv n) mf (assignment_of a) i R'") auto
  qed simp
  moreover have "agree mf (assignment_of a) 0 R R'" using assms(4) by (auto simp: agree_def defined_before_use_def)
  ultimately show ?thesis by blast
qed

text \<open>A function with a loop that calls another in its body.\<close>

definition instr :: "string \<Rightarrow> vreg list \<Rightarrow> vreg list \<Rightarrow> i64 option \<Rightarrow> machine_instr" where
  "instr p ds us k = (mi_new p)\<lparr>mi_defs := take kMaxDefsPerInstr (ds @ mi_defs (mi_new p)), mi_uses := take kMaxUsesPerInstr (us @ mi_uses (mi_new p)),
     mi_has_imm := (k \<noteq> None), mi_imm := (case k of None \<Rightarrow> 0 | Some i \<Rightarrow> i)\<rparr>"

definition calling_loop :: machine_function where
  "calling_loop = \<lparr>mf_name = ''f'', mf_instrs = [instr ''param'' [0] [] (Some 0), instr ''mov_imm'' [1] [] (Some 0),
     instr ''mov_imm'' [2] [] (Some 0), instr ''label'' [] [] (Some 0), instr ''cmp_lt'' [3] [2, 0] None, instr ''jz'' [] [3] (Some 1),
     instr ''call'' [4] [2] (Some 9), instr ''add'' [5] [1, 4] None, instr ''mov_imm'' [6] [] (Some 1), instr ''add'' [7] [2, 6] None,
     instr ''mov'' [1] [5] None, instr ''mov'' [2] [7] None, instr ''jmp'' [] [] (Some 0), instr ''label'' [] [] (Some 1),
     instr ''ret'' [] [1] None]\<rparr>"

definition calling_loop_live :: "vreg list list" where
  "calling_loop_live = [[], [0], [0, 1], [0, 1, 2], [0, 1, 2], [0, 1, 2, 3], [0, 1, 2], [0, 1, 2, 4], [0, 2, 5], [0, 2, 5, 6],
     [0, 5, 7], [0, 1, 7], [0, 1, 2], [1], [1], []]"

definition sets_defined :: "machine_function \<Rightarrow> vreg list list \<Rightarrow> bool" where
  "sets_defined mf L \<longleftrightarrow> list_all (\<lambda>i. list_all (\<lambda>v. list_ex (\<lambda>j. v \<in> set (defs_of (code_of mf ! j))) [0..<i]) (L ! i)) [0..<length (code_of mf)]"

lemma sets_defined_before: "live_sets mf L \<Longrightarrow> sets_defined mf L \<Longrightarrow> defined_before_use mf"
  unfolding defined_before_use_def
proof (intro allI impI)
  fix i v assume l: "live_sets mf L" "sets_defined mf L" and v: "live mf i v"
  have "v \<in> set (L ! i)" by (rule live_in_sets [OF v l(1)])
  with l(2) live_lt [OF v] have "\<exists>j \<in> {0..<i}. v \<in> set (defs_of (code_of mf ! j))"
    by (simp add: sets_defined_def list_all_iff list_ex_iff)
  then obtain j where "j < i" "v \<in> set (defs_of (code_of mf ! j))" by auto
  with live_lt [OF v] show "\<exists>j < i. occurs mf j v" by (intro exI [of _ j]) (simp add: occurs_def)
qed

theorem allocation_correct_witness:
  "\<exists>a. allocate \<lparr>ac_num_gpr = 13, ac_num_fpr = 0, ac_callee_saved_from = 7\<rparr> calling_loop = Some a \<and>
     (let M = \<lparr>mc_op = (\<lambda>p k xs. Some (k + sum_list xs)), mc_zero = (\<lambda>x. x = 0), mc_arg = (\<lambda>k. 3)\<rparr> in
      mrun M (\<lambda>p. p < 7) (\<lambda>n p. 77) calling_loop (assignment_of a) 50 0 (\<lambda>_. 5) = mrun M (\<lambda>_. False) (\<lambda>n p. 77) calling_loop (\<lambda>v. v) 50 0 (\<lambda>_. 6))"
proof -
  let ?cf = "\<lparr>ac_num_gpr = 13, ac_num_fpr = 0, ac_callee_saved_from = 7\<rparr>"
  have "case allocate ?cf calling_loop of None \<Rightarrow> False | Some a \<Rightarrow> al_spills a = 0" by code_simp
  then obtain a where a: "allocate ?cf calling_loop = Some a" "al_spills a = 0" by (cases "allocate ?cf calling_loop") auto
  have al: "allocated ?cf calling_loop a" using a by (simp add: allocated_def kLinearScanMaxPRegs_def)
  have sh: "list_all shaped (code_of calling_loop)" by code_simp
  have "live_sets calling_loop calling_loop_live" "sets_defined calling_loop calling_loop_live" by code_simp+
  then have d: "defined_before_use calling_loop" by (rule sets_defined_before)
  have b: "back_edges_ok calling_loop" by code_simp
  show ?thesis unfolding Let_def using a(1)
    by (intro exI [of _ a] conjI allocation_correct [OF al sh _ d b]) (simp_all add: calling_loop_def kNever_def)
qed

theorem linear_scan_disjoint_witness:
  "\<exists>a. allocate \<lparr>ac_num_gpr = 13, ac_num_fpr = 0, ac_callee_saved_from = 7\<rparr> calling_loop = Some a \<and> assignment_of a 0 \<noteq> assignment_of a 5"
proof -
  let ?cf = "\<lparr>ac_num_gpr = 13, ac_num_fpr = 0, ac_callee_saved_from = 7\<rparr>"
  have i: "interval calling_loop 0 \<in> set (compute_intervals calling_loop)" "interval calling_loop 5 \<in> set (compute_intervals calling_loop)"
    "overlap (interval calling_loop 0) (interval calling_loop 5)" by code_simp+
  have s: "case allocate ?cf calling_loop of None \<Rightarrow> False | Some a \<Rightarrow> \<not> is_spilled a 0 \<and> \<not> is_spilled a 5" by code_simp
  obtain a where a: "allocate ?cf calling_loop = Some a"
    "\<forall>x \<in> set (compute_intervals calling_loop). \<forall>y \<in> set (compute_intervals calling_loop). iv_vreg x \<noteq> iv_vreg y \<longrightarrow> overlap x y \<longrightarrow>
        \<not> is_spilled a (iv_vreg x) \<longrightarrow> \<not> is_spilled a (iv_vreg y) \<longrightarrow> assignment_of a (iv_vreg x) \<noteq> assignment_of a (iv_vreg y)"
    using linear_scan_disjoint [of ?cf calling_loop] by (auto simp: kLinearScanMaxPRegs_def)
  with s i a(2) [rule_format, OF i(1,2)] show ?thesis by simp
qed

end
